(* ===== verification/Prelude.thy ===== *)
theory Prelude
  imports Main "HOL-Library.Word"
begin

text \<open>
  The base of the development: the machine types the components share, the crate's error type
  (\<^verbatim>\<open>src/vektordb-core/src/error.rs\<close>) with the result type and its bind, decimal printing for the
  formatted messages, checked \<^verbatim>\<open>u64\<close>/\<^verbatim>\<open>usize\<close> arithmetic, and little-endian bytes.

  Conventions.  \<^verbatim>\<open>usize\<close> and \<^verbatim>\<open>u64\<close> counters are \<open>nat\<close> with every bound the code checks
  written out (\<^verbatim>\<open>checked_add\<close>, \<^verbatim>\<open>checked_mul\<close>); the target is 64 bit, so both limits are
  \<open>2 ^ 64\<close>.  Raw bytes, packed words and stamps are \<open>'n word\<close>.
\<close>

type_synonym byte = "8 word"
type_synonym u32 = "32 word"
type_synonym u64 = "64 word"

named_theorems codec_simps \<open>decoding what was encoded\<close>
named_theorems result_simps \<open>the result type and its bind\<close>

section \<open>Errors and results\<close>

datatype io_error = UnexpectedEof | DeviceError | NotFound

datatype error =
    Io io_error
  | Corrupt string
  | DimensionMismatch nat nat
  | IdOutOfRange nat
  | InvalidArgument string

type_synonym 'a result = "error + 'a"

text \<open>The \<^verbatim>\<open>?\<close> operator: stop at the first error.\<close>

definition rbind :: "'a result \<Rightarrow> ('a \<Rightarrow> 'b result) \<Rightarrow> 'b result" where
  "rbind m f = (case m of Inl e \<Rightarrow> Inl e | Inr x \<Rightarrow> f x)"

definition ensure :: "bool \<Rightarrow> error \<Rightarrow> unit result" where
  "ensure c e = (if c then Inr () else Inl e)"

definition is_ok :: "'a result \<Rightarrow> bool" where
  "is_ok r = (case r of Inl _ \<Rightarrow> False | Inr _ \<Rightarrow> True)"

lemma rbind_simps [simp, result_simps]:
  "rbind (Inl e) f = Inl e"
  "rbind (Inr x) f = f x"
  by (simp_all add: rbind_def)

lemma rbind_eq_Inr [result_simps]: "rbind m f = Inr y \<longleftrightarrow> (\<exists>x. m = Inr x \<and> f x = Inr y)"
  by (cases m) auto

lemma rbind_eq_Inl: "rbind m f = Inl e \<longleftrightarrow> m = Inl e \<or> (\<exists>x. m = Inr x \<and> f x = Inl e)"
  by (cases m) auto

lemma ensure_simps [simp, result_simps]:
  "ensure True e = Inr ()"
  "ensure False e = Inl e"
  by (simp_all add: ensure_def)

lemma ensure_eq_Inr [result_simps]: "ensure c e = Inr u \<longleftrightarrow> c"
  by (simp add: ensure_def)

lemma ensure_eq_Inl: "ensure c e = Inl e' \<longleftrightarrow> \<not> c \<and> e' = e"
  by (auto simp add: ensure_def)

lemma is_ok_simps [simp, result_simps]:
  "is_ok (Inl e) = False"
  "is_ok (Inr x) = True"
  by (simp_all add: is_ok_def)

lemma is_ok_iff: "is_ok r \<longleftrightarrow> (\<exists>x. r = Inr x)"
  by (cases r) auto

section \<open>Formatted messages\<close>

fun show_nat :: "nat \<Rightarrow> string" where
  "show_nat n =
     (if n < 10 then [char_of (48 + n)] else show_nat (n div 10) @ [char_of (48 + n mod 10)])"

declare show_nat.simps [simp del]

section \<open>Checked arithmetic\<close>

definition u64_limit :: nat where
  "u64_limit = 2 ^ 64"

definition checked_add :: "nat \<Rightarrow> nat \<Rightarrow> nat option" where
  "checked_add a b = (if a + b < u64_limit then Some (a + b) else None)"

definition checked_mul :: "nat \<Rightarrow> nat \<Rightarrow> nat option" where
  "checked_mul a b = (if a * b < u64_limit then Some (a * b) else None)"

text \<open>\<^verbatim>\<open>checked_next_multiple_of\<close> for a positive divisor.\<close>

definition checked_next_multiple :: "nat \<Rightarrow> nat \<Rightarrow> nat option" where
  "checked_next_multiple a b =
     (if a mod b = 0 then Some a else checked_add a (b - a mod b))"

text \<open>\<^verbatim>\<open>Option::ok_or_else\<close>.\<close>

definition ok_or :: "'a option \<Rightarrow> error \<Rightarrow> 'a result" where
  "ok_or x e = (case x of None \<Rightarrow> Inl e | Some y \<Rightarrow> Inr y)"

lemma checked_add_Some: "checked_add a b = Some c \<longleftrightarrow> c = a + b \<and> a + b < u64_limit"
  by (auto simp: checked_add_def)

lemma checked_mul_Some: "checked_mul a b = Some c \<longleftrightarrow> c = a * b \<and> a * b < u64_limit"
  by (auto simp: checked_mul_def)

lemma ok_or_simps [simp, result_simps]:
  "ok_or (Some y) e = Inr y"
  "ok_or None e = Inl e"
  by (simp_all add: ok_or_def)

lemma ok_or_eq_Inr [result_simps]: "ok_or x e = Inr y \<longleftrightarrow> x = Some y"
  by (cases x) auto

lemma checked_next_multiple_Some:
  assumes "checked_next_multiple a b = Some c" and "0 < b"
  shows "b dvd c" and "a \<le> c" and "c < a + b"
proof -
  show "b dvd c"
  proof (cases "a mod b = 0")
    case True
    with assms(1) show ?thesis by (auto simp: checked_next_multiple_def)
  next
    case False
    with assms(1) have c: "c = a + (b - a mod b)"
      by (simp add: checked_next_multiple_def checked_add_Some)
    have "a mod b < b" using assms(2) by simp
    then have "c = (a div b) * b + b"
      unfolding c using div_mult_mod_eq [of a b] by linarith
    then show ?thesis by simp
  qed
  have "a mod b \<le> b" using assms(2) by (simp add: less_imp_le)
  then have "a \<le> a + b - a mod b" by linarith
  then show "a \<le> c" and "c < a + b"
    using assms by (auto simp: checked_next_multiple_def checked_add_Some split: if_splits)
qed

section \<open>Integer logarithm\<close>

text \<open>\<^verbatim>\<open>ilog2\<close>; the code only takes it of positive numbers.\<close>

fun ilog2 :: "nat \<Rightarrow> nat" where
  "ilog2 n = (if n < 2 then 0 else Suc (ilog2 (n div 2)))"

declare ilog2.simps [simp del]

lemma ilog2_bounds: "0 < n \<Longrightarrow> 2 ^ ilog2 n \<le> n \<and> n < 2 * 2 ^ ilog2 n"
proof (induction n rule: ilog2.induct)
  case (1 n)
  show ?case
  proof (cases "n < 2")
    case True
    with "1.prems" show ?thesis by (simp add: ilog2.simps)
  next
    case False
    then have "2 ^ ilog2 (n div 2) \<le> n div 2 \<and> n div 2 < 2 * 2 ^ ilog2 (n div 2)"
      using "1.IH" by simp
    with False show ?thesis by (auto simp: ilog2.simps [of n])
  qed
qed

lemma ilog2_unique:
  assumes "2 ^ k \<le> n" and "n < 2 * 2 ^ k"
  shows "ilog2 n = k"
proof -
  have n: "0 < n" using assms(1) by (metis less_le_trans zero_less_numeral zero_less_power)
  have "2 ^ k < (2::nat) ^ Suc (ilog2 n)"
    using assms(1) ilog2_bounds [OF n] by simp
  then have "k < Suc (ilog2 n)" by (rule power_less_imp_less_exp [rotated]) simp
  moreover have "2 ^ ilog2 n < (2::nat) ^ Suc k"
    using assms(2) ilog2_bounds [OF n] by simp
  then have "ilog2 n < Suc k" by (rule power_less_imp_less_exp [rotated]) simp
  ultimately show ?thesis by simp
qed

section \<open>Little-endian bytes\<close>

text \<open>
  \<^verbatim>\<open>to_le_bytes\<close> of a \<open>k\<close>-byte integer; a value too large for the width is truncated, as the
  code's \<^verbatim>\<open>as u32\<close> casts do.  \<open>le_val\<close> is \<^verbatim>\<open>from_le_bytes\<close>.
\<close>

primrec le_bytes :: "nat \<Rightarrow> nat \<Rightarrow> byte list" where
  "le_bytes 0 v = []"
| "le_bytes (Suc k) v = word_of_nat v # le_bytes k (v div 256)"

primrec le_val :: "byte list \<Rightarrow> nat" where
  "le_val [] = 0"
| "le_val (b # bs) = unat b + 256 * le_val bs"

lemma length_le_bytes [simp]: "length (le_bytes k v) = k"
  by (induction k arbitrary: v) auto

lemma le_val_le_bytes_mod: "le_val (le_bytes k v) = v mod 256 ^ k"
proof (induction k arbitrary: v)
  case 0
  then show ?case by simp
next
  case (Suc k)
  have "le_val (le_bytes (Suc k) v) = v mod 256 + 256 * (v div 256 mod 256 ^ k)"
    by (simp add: Suc unat_of_nat)
  also have "\<dots> = v mod (256 * 256 ^ k)"
    by (simp add: mod_mult2_eq)
  finally show ?case by simp
qed

lemma le_val_le_bytes [simp, codec_simps]: "v < 256 ^ k \<Longrightarrow> le_val (le_bytes k v) = v"
  by (simp add: le_val_le_bytes_mod)

lemma le_val_less: "le_val bs < 256 ^ length bs"
proof (induction bs)
  case Nil
  then show ?case by simp
next
  case (Cons b bs)
  have "unat b < 256" using unsigned_less [of b] by simp
  with Cons show ?case by simp
qed

lemma le_bytes_le_val: "le_bytes (length bs) (le_val bs) = bs"
proof (induction bs)
  case Nil
  then show ?case by simp
next
  case (Cons b bs)
  have b: "unat b < 256" using unsigned_less [of b] by simp
  have "word_of_nat (unat b + 256 * le_val bs) = b"
  proof (rule word_unat_eq_iff [THEN iffD2])
    show "unat (word_of_nat (unat b + 256 * le_val bs) :: byte) = unat b"
      unfolding unat_of_nat using b by simp
  qed
  moreover have "(unat b + 256 * le_val bs) div 256 = le_val bs" using b by simp
  ultimately show ?case using Cons by simp
qed

lemma le_bytes_inject:
  "v < 256 ^ k \<Longrightarrow> w < 256 ^ k \<Longrightarrow> le_bytes k v = le_bytes k w \<longleftrightarrow> v = w"
  by (metis le_val_le_bytes)

lemma unat32_less: "unat (x :: 32 word) < 4294967296"
  using unsigned_less [where 'a = nat and w = x] by simp

lemma unat64_less: "unat (x :: 64 word) < 18446744073709551616"
  using unsigned_less [where 'a = nat and w = x] by simp

text \<open>Words through bytes: the width in bytes times eight is the word's length.\<close>

lemma le_val_unat32 [simp, codec_simps]: "le_val (le_bytes 4 (unat (x :: 32 word))) = unat x"
  using unat32_less [of x] by simp

lemma le_val_unat64 [simp, codec_simps]: "le_val (le_bytes 8 (unat (x :: 64 word))) = unat x"
  using unat64_less [of x] by simp

section \<open>Reading from a byte stream\<close>

text \<open>\<^verbatim>\<open>read_exact\<close> of \<open>k\<close> bytes: the bytes and the rest of the stream, or an I/O error at the end.\<close>

definition read_exact :: "nat \<Rightarrow> byte list \<Rightarrow> (byte list \<times> byte list) result" where
  "read_exact k bs =
     (if k \<le> length bs then Inr (take k bs, drop k bs) else Inl (Io UnexpectedEof))"

lemma read_exact_append [simp, codec_simps]:
  "length xs = k \<Longrightarrow> read_exact k (xs @ rest) = Inr (xs, rest)"
  by (simp add: read_exact_def)

lemma read_exact_Inr: "read_exact k bs = Inr (xs, rest) \<longleftrightarrow> length xs = k \<and> bs = xs @ rest"
  by (auto simp: read_exact_def)

section \<open>Lists\<close>

lemma list_eq_by_nth:
  "length xs = length ys \<Longrightarrow> (\<And>i. i < length xs \<Longrightarrow> xs ! i = ys ! i) \<Longrightarrow> xs = ys"
  by (simp add: list_eq_iff_nth_eq)

end
