(* ===== verification/Float32.thy ===== *)
theory Float32
  imports Prelude
begin

text \<open>
  IEEE 754 binary arithmetic on bit patterns, as Rust's \<^verbatim>\<open>f32\<close> (and \<^verbatim>\<open>f64\<close>) operators use it:
  round to nearest, ties to even.  A format is given by its fraction width \<open>p\<close> and exponent
  width \<open>w\<close>; a pattern is a \<open>nat\<close> below \<open>2 ^ (1 + p + w)\<close>.  Every finite value is an
  integer multiple of the least subnormal, so a magnitude is read as a number of such units
  (\<open>fp_units\<close>), sums are exact integers before they are rounded, and products and quotients
  are exact fractions.  The result of an invalid operation is the canonical quiet NaN; Rust
  leaves the payload and sign of a produced NaN unspecified, and this is the choice made here.

  \<open>f32\<close> itself is a datatype around the 32-bit pattern.  Its class order is Rust's
  \<^verbatim>\<open>f32::total_cmp\<close>; the operators \<^verbatim>\<open><\<close> and \<^verbatim>\<open>==\<close> of the language are \<open>f32_lt\<close> and
  \<open>f32_eq\<close>, which differ from it on NaN and on the two zeros.
\<close>

section \<open>Formats\<close>

definition fp_mag :: "nat \<Rightarrow> nat \<Rightarrow> nat \<Rightarrow> nat" where
  "fp_mag p w n = n mod 2 ^ (p + w)"

definition fp_sign :: "nat \<Rightarrow> nat \<Rightarrow> nat \<Rightarrow> bool" where
  "fp_sign p w n \<longleftrightarrow> 2 ^ (p + w) \<le> n"

definition inf_mag :: "nat \<Rightarrow> nat \<Rightarrow> nat" where
  "inf_mag p w = (2 ^ w - 1) * 2 ^ p"

definition nan_mag :: "nat \<Rightarrow> nat \<Rightarrow> nat" where
  "nan_mag p w = inf_mag p w + 2 ^ (p - 1)"

definition fp_is_nan :: "nat \<Rightarrow> nat \<Rightarrow> nat \<Rightarrow> bool" where
  "fp_is_nan p w n \<longleftrightarrow> inf_mag p w < fp_mag p w n"

definition fp_is_inf :: "nat \<Rightarrow> nat \<Rightarrow> nat \<Rightarrow> bool" where
  "fp_is_inf p w n \<longleftrightarrow> fp_mag p w n = inf_mag p w"

definition fp_make :: "nat \<Rightarrow> nat \<Rightarrow> bool \<Rightarrow> nat \<Rightarrow> nat" where
  "fp_make p w s m = (if s then 2 ^ (p + w) + m else m)"

definition fp_units :: "nat \<Rightarrow> nat \<Rightarrow> nat" where
  "fp_units p m =
     (let e = m div 2 ^ p; f = m mod 2 ^ p in if e = 0 then f else (2 ^ p + f) * 2 ^ (e - 1))"

definition fp_int :: "nat \<Rightarrow> nat \<Rightarrow> nat \<Rightarrow> int" where
  "fp_int p w n =
     (if fp_sign p w n then - int (fp_units p (fp_mag p w n)) else int (fp_units p (fp_mag p w n)))"

text \<open>Units per one: the least subnormal is \<open>2 ^ - fp_scale\<close>.\<close>

definition fp_scale :: "nat \<Rightarrow> nat \<Rightarrow> nat" where
  "fp_scale p w = 2 ^ (w - 1) - 2 + p"

section \<open>Rounding\<close>

text \<open>The integer nearest to \<open>n / d\<close>, ties to even.\<close>

definition rne_adjust :: "nat \<Rightarrow> nat \<Rightarrow> nat \<Rightarrow> nat" where
  "rne_adjust d q r = (if d < 2 * r \<or> (2 * r = d \<and> odd q) then q + 1 else q)"

definition rne :: "nat \<Rightarrow> nat \<Rightarrow> nat" where
  "rne n d = rne_adjust d (n div d) (n mod d)"

text \<open>
  The magnitude nearest to \<open>n / d\<close> units.  Adding the rounded significand to the exponent
  field also carries a significand that rounds up to the next binade, and overflow ends at
  infinity.
\<close>

definition fp_binade :: "nat \<Rightarrow> nat \<Rightarrow> nat" where
  "fp_binade p q = (if q < 2 ^ (p + 1) then 0 else ilog2 q - p)"

definition fp_pack :: "nat \<Rightarrow> nat \<Rightarrow> nat \<Rightarrow> nat \<Rightarrow> nat \<Rightarrow> nat" where
  "fp_pack p w n d e = min (inf_mag p w) (e * 2 ^ p + rne n (d * 2 ^ e))"

definition fp_round :: "nat \<Rightarrow> nat \<Rightarrow> nat \<Rightarrow> nat \<Rightarrow> nat" where
  "fp_round p w n d = fp_pack p w n d (fp_binade p (n div d))"

section \<open>Operations\<close>

definition fp_neg :: "nat \<Rightarrow> nat \<Rightarrow> nat \<Rightarrow> nat" where
  "fp_neg p w a = fp_make p w (\<not> fp_sign p w a) (fp_mag p w a)"

definition fp_of_int :: "nat \<Rightarrow> nat \<Rightarrow> int \<Rightarrow> nat \<Rightarrow> bool \<Rightarrow> nat" where
  "fp_of_int p w s d zero_sign =
     (if s = 0 then fp_make p w zero_sign 0
      else fp_make p w (s < 0) (fp_round p w (nat \<bar>s\<bar>) d))"

definition fp_add :: "nat \<Rightarrow> nat \<Rightarrow> nat \<Rightarrow> nat \<Rightarrow> nat" where
  "fp_add p w a b =
     (if fp_is_nan p w a \<or> fp_is_nan p w b then nan_mag p w
      else if fp_is_inf p w a \<and> fp_is_inf p w b then
        (if fp_sign p w a = fp_sign p w b then a else nan_mag p w)
      else if fp_is_inf p w a then a
      else if fp_is_inf p w b then b
      else fp_of_int p w (fp_int p w a + fp_int p w b) 1 (fp_sign p w a \<and> fp_sign p w b))"

definition fp_sub :: "nat \<Rightarrow> nat \<Rightarrow> nat \<Rightarrow> nat \<Rightarrow> nat" where
  "fp_sub p w a b = fp_add p w a (fp_neg p w b)"

definition fp_mul :: "nat \<Rightarrow> nat \<Rightarrow> nat \<Rightarrow> nat \<Rightarrow> nat" where
  "fp_mul p w a b =
     (let s = (fp_sign p w a \<noteq> fp_sign p w b);
          ma = fp_units p (fp_mag p w a); mb = fp_units p (fp_mag p w b)
      in if fp_is_nan p w a \<or> fp_is_nan p w b then nan_mag p w
         else if fp_is_inf p w a \<or> fp_is_inf p w b then
           (if ma = 0 \<or> mb = 0 then nan_mag p w else fp_make p w s (inf_mag p w))
         else fp_make p w s (fp_round p w (ma * mb) (2 ^ fp_scale p w)))"

definition fp_div :: "nat \<Rightarrow> nat \<Rightarrow> nat \<Rightarrow> nat \<Rightarrow> nat" where
  "fp_div p w a b =
     (let s = (fp_sign p w a \<noteq> fp_sign p w b);
          ma = fp_units p (fp_mag p w a); mb = fp_units p (fp_mag p w b)
      in if fp_is_nan p w a \<or> fp_is_nan p w b then nan_mag p w
         else if fp_is_inf p w a then
           (if fp_is_inf p w b then nan_mag p w else fp_make p w s (inf_mag p w))
         else if fp_is_inf p w b then fp_make p w s 0
         else if mb = 0 then
           (if ma = 0 then nan_mag p w else fp_make p w s (inf_mag p w))
         else fp_make p w s (fp_round p w (ma * 2 ^ fp_scale p w) mb))"

text \<open>Fused multiply-add: \<open>a * b + c\<close> with one rounding.\<close>

definition fp_fma :: "nat \<Rightarrow> nat \<Rightarrow> nat \<Rightarrow> nat \<Rightarrow> nat \<Rightarrow> nat" where
  "fp_fma p w a b c =
     (let s = (fp_sign p w a \<noteq> fp_sign p w b)
      in if fp_is_nan p w a \<or> fp_is_nan p w b \<or> fp_is_nan p w c then nan_mag p w
         else if fp_is_inf p w a \<or> fp_is_inf p w b then
           fp_add p w (fp_mul p w a b) c
         else if fp_is_inf p w c then c
         else fp_of_int p w (fp_int p w a * fp_int p w b + fp_int p w c * 2 ^ fp_scale p w)
                (2 ^ fp_scale p w) (s \<and> fp_sign p w c))"

text \<open>
  The square root: twice the integer square root of four times the argument, plus a sticky bit,
  lies on the same side of every rounding boundary as the exact root.
\<close>

definition isqrt_step :: "nat \<Rightarrow> nat \<Rightarrow> nat" where
  "isqrt_step n r = (if (2 * r + 1) * (2 * r + 1) \<le> n then 2 * r + 1 else 2 * r)"

fun isqrt :: "nat \<Rightarrow> nat" where
  "isqrt n = (if n = 0 then 0 else isqrt_step n (isqrt (n div 4)))"

declare isqrt.simps [simp del]

definition fp_sqrt :: "nat \<Rightarrow> nat \<Rightarrow> nat \<Rightarrow> nat" where
  "fp_sqrt p w a =
     (let x = fp_units p (fp_mag p w a) * 2 ^ fp_scale p w; r = isqrt (4 * x)
      in if fp_is_nan p w a then nan_mag p w
         else if fp_mag p w a = 0 then a
         else if fp_sign p w a then nan_mag p w
         else if fp_is_inf p w a then a
         else fp_round p w (2 * r + (if r * r = 4 * x then 0 else 1)) 4)"

text \<open>The IEEE comparison key of a pattern that is no NaN: the two zeros agree.\<close>

definition fp_ord :: "nat \<Rightarrow> nat \<Rightarrow> nat \<Rightarrow> int" where
  "fp_ord p w n = (if fp_sign p w n then - int (fp_mag p w n) else int (fp_mag p w n))"

lemmas fp_defs =
  fp_mag_def fp_sign_def inf_mag_def nan_mag_def fp_is_nan_def fp_is_inf_def fp_make_def
  fp_units_def fp_int_def fp_scale_def rne_adjust_def rne_def fp_binade_def fp_pack_def
  fp_round_def fp_neg_def fp_of_int_def

section \<open>Signs and NaN through the operations\<close>

lemma fp_make_mag [simp]: "m < 2 ^ (p + w) \<Longrightarrow> fp_mag p w (fp_make p w s m) = m"
  by (simp add: fp_mag_def fp_make_def)

lemma fp_make_sign [simp]: "m < 2 ^ (p + w) \<Longrightarrow> fp_sign p w (fp_make p w s m) = s"
  by (simp add: fp_sign_def fp_make_def)

lemma fp_mag_less [simp]: "fp_mag p w n < 2 ^ (p + w)"
  by (simp add: fp_mag_def)

lemma fp_make_decompose:
  assumes "n < 2 * 2 ^ (p + w)"
  shows "fp_make p w (fp_sign p w n) (fp_mag p w n) = n"
proof (cases "2 ^ (p + w) \<le> n")
  case True
  then have "n mod 2 ^ (p + w) = n - 2 ^ (p + w)"
    using assms by (metis le_mod_geq mod_less less_diff_conv2 mult_2)
  with True show ?thesis by (simp add: fp_make_def fp_sign_def fp_mag_def)
next
  case False
  then show ?thesis by (simp add: fp_make_def fp_sign_def fp_mag_def)
qed

lemma inf_mag_less: "inf_mag p w < 2 ^ (p + w)"
proof -
  have "(2 ^ w - 1) * 2 ^ p < (2 ^ w) * (2::nat) ^ p" by simp
  then show ?thesis by (simp add: inf_mag_def power_add mult.commute)
qed

lemma nan_mag_less: "0 < p \<Longrightarrow> nan_mag p w < 2 ^ (p + w)"
proof -
  assume p: "0 < p"
  have "inf_mag p w + 2 ^ p = (2::nat) ^ (p + w)"
    by (simp add: inf_mag_def power_add algebra_simps)
  moreover have "(2::nat) ^ (p - 1) < 2 ^ p"
    using p by (intro power_strict_increasing) auto
  ultimately show ?thesis unfolding nan_mag_def by linarith
qed

lemma fp_round_le: "fp_round p w n d \<le> inf_mag p w"
  by (simp add: fp_round_def fp_pack_def)

lemma fp_round_less: "fp_round p w n d < 2 ^ (p + w)"
  using fp_round_le inf_mag_less by (rule le_less_trans)

lemma fp_neg_mag [simp]: "fp_mag p w (fp_neg p w a) = fp_mag p w a"
  by (simp add: fp_neg_def)

lemma fp_neg_sign [simp]: "fp_sign p w (fp_neg p w a) = (\<not> fp_sign p w a)"
  by (simp add: fp_neg_def)

lemma fp_neg_class [simp]:
  "fp_is_nan p w (fp_neg p w a) = fp_is_nan p w a"
  "fp_is_inf p w (fp_neg p w a) = fp_is_inf p w a"
  by (simp_all add: fp_is_nan_def fp_is_inf_def)

lemma fp_neg_int [simp]: "fp_int p w (fp_neg p w a) = - fp_int p w a"
  by (simp add: fp_int_def)

lemma fp_nan_class [simp]:
  assumes "0 < p"
  shows "fp_is_nan p w (nan_mag p w)" and "fp_mag p w (nan_mag p w) = nan_mag p w"
    and "\<not> fp_sign p w (nan_mag p w)"
  using nan_mag_less [OF assms, of w]
  by (simp_all add: fp_is_nan_def fp_mag_def fp_sign_def nan_mag_def)

lemma fp_of_int_mag: "fp_mag p w (fp_of_int p w s d z) = (if s = 0 then 0 else fp_round p w (nat \<bar>s\<bar>) d)"
  by (simp add: fp_of_int_def fp_round_less)

lemma fp_of_int_sign: "fp_sign p w (fp_of_int p w s d z) = (if s = 0 then z else s < 0)"
  by (simp add: fp_of_int_def fp_round_less)

lemma fp_add_commute:
  assumes "a < 2 * 2 ^ (p + w)" and "b < 2 * 2 ^ (p + w)"
  shows "fp_add p w a b = fp_add p w b a"
proof -
  have "a = b" if "fp_is_inf p w a" "fp_is_inf p w b" "fp_sign p w a = fp_sign p w b"
    using that fp_make_decompose [OF assms(1)] fp_make_decompose [OF assms(2)]
    by (simp add: fp_is_inf_def)
  then show ?thesis by (auto simp: fp_add_def add.commute conj_commute)
qed

lemma fp_mul_commute: "fp_mul p w a b = fp_mul p w b a"
proof -
  have "(fp_sign p w a \<noteq> fp_sign p w b) = (fp_sign p w b \<noteq> fp_sign p w a)" by blast
  then show ?thesis
    by (simp only: fp_mul_def Let_def mult.commute [of "fp_units p (fp_mag p w a)"] disj_commute)
qed

text \<open>A square has no sign, and a sum of terms without a sign has none.\<close>

lemma fp_mul_self_sign: "0 < p \<Longrightarrow> \<not> fp_sign p w (fp_mul p w a a)"
  by (simp add: fp_mul_def Let_def fp_round_less inf_mag_less)

lemma fp_int_nonneg: "\<not> fp_sign p w a \<Longrightarrow> 0 \<le> fp_int p w a"
  by (simp add: fp_int_def)

lemma fp_add_sign:
  "0 < p \<Longrightarrow> \<not> fp_sign p w a \<Longrightarrow> \<not> fp_sign p w b \<Longrightarrow> \<not> fp_sign p w (fp_add p w a b)"
  using fp_int_nonneg [of p w a] fp_int_nonneg [of p w b]
  by (auto simp: fp_add_def fp_of_int_sign)

lemma fp_fma_self_sign:
  assumes "0 < p" and "\<not> fp_sign p w c"
  shows "\<not> fp_sign p w (fp_fma p w a a c)"
proof -
  have "0 \<le> fp_int p w a * fp_int p w a + fp_int p w c * 2 ^ fp_scale p w"
    using fp_int_nonneg [OF assms(2)] by simp
  moreover have "\<not> fp_sign p w (fp_add p w (fp_mul p w a a) c)"
    using assms by (simp add: fp_add_sign fp_mul_self_sign)
  ultimately show ?thesis using assms by (auto simp: fp_fma_def fp_of_int_sign)
qed

text \<open>Swapping the operands of a subtraction changes at most the sign.\<close>

lemma fp_sub_swap_mag:
  "fp_mag p w (fp_sub p w a b) = fp_mag p w (fp_sub p w b a)"
proof -
  have "nat \<bar>x - y\<bar> = nat \<bar>y - x\<bar>" for x y :: int by simp
  moreover have "fp_mag p w a = fp_mag p w b" if "fp_is_inf p w a" "fp_is_inf p w b"
    using that by (simp add: fp_is_inf_def)
  ultimately show ?thesis
    by (auto simp: fp_sub_def fp_add_def fp_of_int_mag)
qed

text \<open>A square depends on the magnitude alone.\<close>

lemma fp_mul_self_mag:
  "fp_mag p w a = fp_mag p w b \<Longrightarrow> fp_mul p w a a = fp_mul p w b b"
  by (simp add: fp_mul_def fp_is_nan_def fp_is_inf_def Let_def)

text \<open>Every result is a pattern of the format.\<close>

lemma fp_make_less: "m < 2 ^ (p + w) \<Longrightarrow> fp_make p w s m < 2 * 2 ^ (p + w)"
  by (simp add: fp_make_def)

lemma fp_of_int_less: "fp_of_int p w s d z < 2 * 2 ^ (p + w)"
  by (simp add: fp_of_int_def fp_make_less fp_round_less)

lemma fp_op_less:
  assumes "0 < p" and "a < 2 * 2 ^ (p + w)" and "b < 2 * 2 ^ (p + w)" and "c < 2 * 2 ^ (p + w)"
  shows fp_add_less: "fp_add p w a b < 2 * 2 ^ (p + w)"
    and fp_mul_less: "fp_mul p w a b < 2 * 2 ^ (p + w)"
    and fp_neg_less: "fp_neg p w a < 2 * 2 ^ (p + w)"
    and fp_fma_less: "fp_fma p w a b c < 2 * 2 ^ (p + w)"
proof -
  have nan: "nan_mag p w < 2 * 2 ^ (p + w)" using nan_mag_less [OF assms(1), of w] by simp
  have add: "fp_add p w x y < 2 * 2 ^ (p + w)"
    if "x < 2 * 2 ^ (p + w)" "y < 2 * 2 ^ (p + w)" for x y
    using that nan by (simp add: fp_add_def fp_of_int_less)
  then show "fp_add p w a b < 2 * 2 ^ (p + w)" using assms by simp
  show mul: "fp_mul p w a b < 2 * 2 ^ (p + w)"
    using nan by (simp add: fp_mul_def Let_def fp_make_less fp_round_less inf_mag_less)
  show "fp_neg p w a < 2 * 2 ^ (p + w)" by (simp add: fp_neg_def fp_make_less)
  show "fp_fma p w a b c < 2 * 2 ^ (p + w)"
    using nan add [OF mul assms(4)] assms by (simp add: fp_fma_def fp_of_int_less)
qed

section \<open>f32\<close>

datatype f32 = F32 (f32_bits: "32 word")

definition f32_pat :: "f32 \<Rightarrow> nat" where
  "f32_pat x = unat (f32_bits x)"

definition f32_of_pat :: "nat \<Rightarrow> f32" where
  "f32_of_pat n = F32 (word_of_nat n)"

definition f32_zero :: f32 where
  "f32_zero = F32 0"

definition f32_one :: f32 where
  "f32_one = F32 0x3F800000"

definition f32_inf :: f32 where
  "f32_inf = F32 0x7F800000"

definition f32_nan :: f32 where
  "f32_nan = F32 0x7FC00000"

definition f32_add :: "f32 \<Rightarrow> f32 \<Rightarrow> f32" where
  "f32_add x y = f32_of_pat (fp_add 23 8 (f32_pat x) (f32_pat y))"

definition f32_sub :: "f32 \<Rightarrow> f32 \<Rightarrow> f32" where
  "f32_sub x y = f32_of_pat (fp_sub 23 8 (f32_pat x) (f32_pat y))"

definition f32_mul :: "f32 \<Rightarrow> f32 \<Rightarrow> f32" where
  "f32_mul x y = f32_of_pat (fp_mul 23 8 (f32_pat x) (f32_pat y))"

definition f32_div :: "f32 \<Rightarrow> f32 \<Rightarrow> f32" where
  "f32_div x y = f32_of_pat (fp_div 23 8 (f32_pat x) (f32_pat y))"

definition f32_fma :: "f32 \<Rightarrow> f32 \<Rightarrow> f32 \<Rightarrow> f32" where
  "f32_fma x y z = f32_of_pat (fp_fma 23 8 (f32_pat x) (f32_pat y) (f32_pat z))"

definition f32_neg :: "f32 \<Rightarrow> f32" where
  "f32_neg x = f32_of_pat (fp_neg 23 8 (f32_pat x))"

definition f32_sqrt :: "f32 \<Rightarrow> f32" where
  "f32_sqrt x = f32_of_pat (fp_sqrt 23 8 (f32_pat x))"

definition f32_is_nan :: "f32 \<Rightarrow> bool" where
  "f32_is_nan x = fp_is_nan 23 8 (f32_pat x)"

definition f32_is_finite :: "f32 \<Rightarrow> bool" where
  "f32_is_finite x \<longleftrightarrow> fp_mag 23 8 (f32_pat x) < inf_mag 23 8"

definition f32_sign :: "f32 \<Rightarrow> bool" where
  "f32_sign x = fp_sign 23 8 (f32_pat x)"

text \<open>The language's \<^verbatim>\<open><\<close> and \<^verbatim>\<open>==\<close>: false whenever a NaN is involved.\<close>

definition f32_lt :: "f32 \<Rightarrow> f32 \<Rightarrow> bool" where
  "f32_lt x y \<longleftrightarrow> \<not> f32_is_nan x \<and> \<not> f32_is_nan y \<and>
     fp_ord 23 8 (f32_pat x) < fp_ord 23 8 (f32_pat y)"

definition f32_eq :: "f32 \<Rightarrow> f32 \<Rightarrow> bool" where
  "f32_eq x y \<longleftrightarrow> \<not> f32_is_nan x \<and> \<not> f32_is_nan y \<and>
     fp_ord 23 8 (f32_pat x) = fp_ord 23 8 (f32_pat y)"

text \<open>Slice equality \<^verbatim>\<open>&[f32] == &[f32]\<close>: the lengths and then each element by \<^verbatim>\<open>==\<close>.\<close>

definition f32s_eq :: "f32 list \<Rightarrow> f32 list \<Rightarrow> bool" where
  "f32s_eq xs ys \<longleftrightarrow> length xs = length ys \<and> list_all2 f32_eq xs ys"

section \<open>The total order\<close>

text \<open>
  \<^verbatim>\<open>f32::total_cmp\<close> compares the patterns as signed integers after flipping the magnitude bits
  of the negative ones.
\<close>

definition f32_key :: "f32 \<Rightarrow> int" where
  "f32_key x =
     (let n = f32_pat x
      in if fp_sign 23 8 n then - 1 - int (fp_mag 23 8 n) else int (fp_mag 23 8 n))"

lemma f32_pat_less: "f32_pat x < 2 * 2 ^ (23 + 8)"
  using unat32_less [of "f32_bits x"] by (simp add: f32_pat_def)

lemma f32_pat_of_pat [simp]: "n < 2 * 2 ^ (23 + 8) \<Longrightarrow> f32_pat (f32_of_pat n) = n"
  unfolding f32_pat_def f32_of_pat_def f32.sel by (subst unat_of_nat) simp

lemma f32_of_pat_pat [simp]: "f32_of_pat (f32_pat x) = x"
  by (simp add: f32_pat_def f32_of_pat_def)

lemma f32_pat_inject: "f32_pat x = f32_pat y \<longleftrightarrow> x = y"
  by (metis f32_of_pat_pat)

lemma f32_key_inject: "f32_key x = f32_key y \<longleftrightarrow> x = y"
proof
  assume "f32_key x = f32_key y"
  then have eq: "fp_sign 23 8 (f32_pat x) = fp_sign 23 8 (f32_pat y)"
      "fp_mag 23 8 (f32_pat x) = fp_mag 23 8 (f32_pat y)"
    by (auto simp: f32_key_def Let_def split: if_splits)
  have "f32_pat x = fp_make 23 8 (fp_sign 23 8 (f32_pat x)) (fp_mag 23 8 (f32_pat x))"
    by (rule fp_make_decompose [OF f32_pat_less, symmetric])
  also have "\<dots> = fp_make 23 8 (fp_sign 23 8 (f32_pat y)) (fp_mag 23 8 (f32_pat y))"
    by (simp only: eq)
  also have "\<dots> = f32_pat y" by (rule fp_make_decompose [OF f32_pat_less])
  finally have "f32_pat x = f32_pat y" .
  then show "x = y" by (simp add: f32_pat_inject)
qed simp

instantiation f32 :: linorder
begin

definition less_eq_f32 :: "f32 \<Rightarrow> f32 \<Rightarrow> bool" where
  "less_eq_f32 x y \<longleftrightarrow> f32_key x \<le> f32_key y"

definition less_f32 :: "f32 \<Rightarrow> f32 \<Rightarrow> bool" where
  "less_f32 x y \<longleftrightarrow> f32_key x < f32_key y"

instance
  by standard (auto simp: less_eq_f32_def less_f32_def f32_key_inject)

end

lemma f32_lt_irrefl [simp]: "\<not> f32_lt x x"
  by (simp add: f32_lt_def)

lemma f32_lt_trans: "f32_lt x y \<Longrightarrow> f32_lt y z \<Longrightarrow> f32_lt x z"
  by (auto simp: f32_lt_def)

text \<open>The language's order refines into the total order; the converse fails on NaN and zeros.\<close>

lemma f32_lt_imp_less: "f32_lt x y \<Longrightarrow> x < y"
  by (auto simp: f32_lt_def less_f32_def f32_key_def fp_ord_def Let_def split: if_splits)

lemma f32_less_imp_not_lt: "x \<le> y \<Longrightarrow> \<not> f32_lt y x"
  using f32_lt_imp_less by fastforce

lemma f32_eq_refl: "f32_eq x x \<longleftrightarrow> \<not> f32_is_nan x"
  by (simp add: f32_eq_def)

lemma f32s_eq_refl: "f32s_eq xs xs \<longleftrightarrow> (\<forall>x \<in> set xs. \<not> f32_is_nan x)"
  by (simp add: f32s_eq_def list_all2_same f32_eq_refl)

lemma f32_total_cases:
  "\<not> f32_is_nan x \<Longrightarrow> \<not> f32_is_nan y \<Longrightarrow> f32_lt x y \<or> f32_eq x y \<or> f32_lt y x"
  by (auto simp: f32_lt_def f32_eq_def)

section \<open>The operations through their patterns\<close>

lemma fp_sub_less:
  "0 < p \<Longrightarrow> a < 2 * 2 ^ (p + w) \<Longrightarrow> b < 2 * 2 ^ (p + w) \<Longrightarrow> fp_sub p w a b < 2 * 2 ^ (p + w)"
  unfolding fp_sub_def by (intro fp_add_less [where c = b] fp_neg_less [where b = b and c = b])

lemma f32_pat_ops:
  "f32_pat (f32_add x y) = fp_add 23 8 (f32_pat x) (f32_pat y)"
  "f32_pat (f32_sub x y) = fp_sub 23 8 (f32_pat x) (f32_pat y)"
  "f32_pat (f32_mul x y) = fp_mul 23 8 (f32_pat x) (f32_pat y)"
  "f32_pat (f32_fma x y z) = fp_fma 23 8 (f32_pat x) (f32_pat y) (f32_pat z)"
  "f32_pat (f32_neg x) = fp_neg 23 8 (f32_pat x)"
proof -
  note less = f32_pat_less [of x] f32_pat_less [of y] f32_pat_less [of z]
  have p: "(0::nat) < 23" by simp
  show "f32_pat (f32_add x y) = fp_add 23 8 (f32_pat x) (f32_pat y)"
    unfolding f32_add_def by (rule f32_pat_of_pat [OF fp_add_less [OF p less]])
  show "f32_pat (f32_sub x y) = fp_sub 23 8 (f32_pat x) (f32_pat y)"
    unfolding f32_sub_def by (rule f32_pat_of_pat [OF fp_sub_less [OF p less(1,2)]])
  show "f32_pat (f32_mul x y) = fp_mul 23 8 (f32_pat x) (f32_pat y)"
    unfolding f32_mul_def by (rule f32_pat_of_pat [OF fp_mul_less [OF p less]])
  show "f32_pat (f32_fma x y z) = fp_fma 23 8 (f32_pat x) (f32_pat y) (f32_pat z)"
    unfolding f32_fma_def by (rule f32_pat_of_pat [OF fp_fma_less [OF p less]])
  show "f32_pat (f32_neg x) = fp_neg 23 8 (f32_pat x)"
    unfolding f32_neg_def by (rule f32_pat_of_pat [OF fp_neg_less [OF p less]])
qed

lemma f32_add_commute: "f32_add x y = f32_add y x"
  unfolding f32_add_def by (subst fp_add_commute [OF f32_pat_less f32_pat_less]) (rule refl)

lemma f32_mul_commute: "f32_mul x y = f32_mul y x"
  unfolding f32_mul_def by (subst fp_mul_commute) (rule refl)

lemma fp_fma_commute: "fp_fma p w a b c = fp_fma p w b a c"
proof -
  have "(fp_sign p w a \<noteq> fp_sign p w b) = (fp_sign p w b \<noteq> fp_sign p w a)" by blast
  then show ?thesis
    by (auto simp: fp_fma_def Let_def fp_mul_commute [of p w a b] mult.commute)
qed

lemma f32_fma_commute: "f32_fma x y z = f32_fma y x z"
  unfolding f32_fma_def by (subst fp_fma_commute) (rule refl)

lemma fp_fma_self_mag:
  assumes "fp_mag p w a = fp_mag p w b"
  shows "fp_fma p w a a c = fp_fma p w b b c"
proof -
  have "fp_int p w a * fp_int p w a = fp_int p w b * fp_int p w b"
    using assms by (simp add: fp_int_def)
  moreover have "fp_is_nan p w a = fp_is_nan p w b" and "fp_is_inf p w a = fp_is_inf p w b"
    using assms by (simp_all add: fp_is_nan_def fp_is_inf_def)
  ultimately show ?thesis
    using fp_mul_self_mag [OF assms] by (simp add: fp_fma_def Let_def)
qed

text \<open>The square of a difference does not depend on its direction.\<close>

lemma f32_square_swap:
  "f32_mul (f32_sub x y) (f32_sub x y) = f32_mul (f32_sub y x) (f32_sub y x)"
  "f32_fma (f32_sub x y) (f32_sub x y) z = f32_fma (f32_sub y x) (f32_sub y x) z"
proof -
  have mag: "fp_mag 23 8 (f32_pat (f32_sub x y)) = fp_mag 23 8 (f32_pat (f32_sub y x))"
    unfolding f32_pat_ops by (rule fp_sub_swap_mag)
  show "f32_mul (f32_sub x y) (f32_sub x y) = f32_mul (f32_sub y x) (f32_sub y x)"
    unfolding f32_mul_def by (subst fp_mul_self_mag [OF mag]) (rule refl)
  show "f32_fma (f32_sub x y) (f32_sub x y) z = f32_fma (f32_sub y x) (f32_sub y x) z"
    unfolding f32_fma_def by (subst fp_fma_self_mag [OF mag]) (rule refl)
qed

lemma f32_sign_ops:
  "\<not> f32_sign (f32_mul x x)"
  "\<not> f32_sign x \<Longrightarrow> \<not> f32_sign y \<Longrightarrow> \<not> f32_sign (f32_add x y)"
  "\<not> f32_sign z \<Longrightarrow> \<not> f32_sign (f32_fma x x z)"
  by (simp_all add: f32_sign_def f32_pat_ops fp_mul_self_sign fp_add_sign fp_fma_self_sign)

lemma f32_sign_zero [simp]: "\<not> f32_sign f32_zero"
  by (simp add: f32_sign_def f32_zero_def f32_pat_def fp_sign_def)

lemma f32_pat_zero [simp]: "f32_pat f32_zero = 0"
  by (simp add: f32_zero_def f32_pat_def)

text \<open>A finite value minus itself is +0.\<close>

lemma f32_sub_self: "f32_is_finite x \<Longrightarrow> f32_sub x x = f32_zero"
proof -
  assume "f32_is_finite x"
  then have "fp_sub 23 8 (f32_pat x) (f32_pat x) = 0"
    by (simp add: f32_is_finite_def fp_sub_def fp_add_def fp_is_nan_def fp_is_inf_def
        fp_of_int_def fp_make_def)
  then show ?thesis by (simp add: f32_sub_def f32_zero_def f32_of_pat_def)
qed

text \<open>Evaluation of closed terms by the simplifier.\<close>

lemma ilog2_numeral:
  "ilog2 (numeral (num.Bit0 n)) = Suc (ilog2 (numeral n))"
  "ilog2 (numeral (num.Bit1 n)) = Suc (ilog2 (numeral n))"
proof -
  have "numeral (num.Bit0 n) div 2 = (numeral n :: nat)"
    and "numeral (num.Bit1 n) div 2 = (numeral n :: nat)" by simp_all
  moreover have "\<not> numeral (num.Bit0 n) < (2::nat)" and "\<not> numeral (num.Bit1 n) < (2::nat)"
    by simp_all
  ultimately show "ilog2 (numeral (num.Bit0 n)) = Suc (ilog2 (numeral n))"
    and "ilog2 (numeral (num.Bit1 n)) = Suc (ilog2 (numeral n))"
    by (metis ilog2.simps)+
qed

lemma ilog2_one: "ilog2 1 = 0" "ilog2 (Suc 0) = 0" "ilog2 0 = 0"
  by (simp_all add: ilog2.simps)

lemma isqrt_numeral:
  "isqrt (numeral n) = isqrt_step (numeral n) (isqrt (numeral n div 4))"
  by (subst isqrt.simps) simp

lemma isqrt_small: "isqrt 0 = 0" "isqrt (Suc 0) = 1"
  by (simp_all add: isqrt.simps isqrt_step_def)

text \<open>Rounding with a power of two as the divisor, by shifts.\<close>

definition rne_shift :: "nat \<Rightarrow> nat \<Rightarrow> nat" where
  "rne_shift n k = rne_adjust (2 ^ k) (drop_bit k n) (take_bit k n)"

definition fp_pack_shift :: "nat \<Rightarrow> nat \<Rightarrow> nat \<Rightarrow> nat \<Rightarrow> nat \<Rightarrow> nat" where
  "fp_pack_shift p w n k e = min (inf_mag p w) (e * 2 ^ p + rne_shift n (k + e))"

lemma fp_round_shift:
  "fp_round p w n (2 ^ k) = fp_pack_shift p w n k (fp_binade p (drop_bit k n))"
  by (simp add: fp_round_def fp_pack_def fp_pack_shift_def rne_shift_def rne_def
      drop_bit_eq_div take_bit_eq_mod power_add)

lemma fp_mul_shift:
  "fp_mul p w a b =
     (let s = (fp_sign p w a \<noteq> fp_sign p w b);
          ma = fp_units p (fp_mag p w a); mb = fp_units p (fp_mag p w b)
      in if fp_is_nan p w a \<or> fp_is_nan p w b then nan_mag p w
         else if fp_is_inf p w a \<or> fp_is_inf p w b then
           (if ma = 0 \<or> mb = 0 then nan_mag p w else fp_make p w s (inf_mag p w))
         else fp_make p w s (fp_pack_shift p w (ma * mb) (fp_scale p w)
                (fp_binade p (drop_bit (fp_scale p w) (ma * mb)))))"
  unfolding fp_mul_def fp_round_shift ..

lemmas f32_eval =
  f32_add_def f32_sub_def f32_mul_def f32_div_def f32_fma_def f32_neg_def f32_sqrt_def
  f32_lt_def f32_eq_def f32_is_nan_def f32_is_finite_def f32_sign_def f32_key_def
  f32_pat_def f32_of_pat_def f32_zero_def f32_one_def f32_inf_def f32_nan_def
  fp_add_def fp_sub_def fp_mul_shift fp_div_def fp_fma_def fp_sqrt_def fp_ord_def fp_defs Let_def
  fp_pack_shift_def rne_shift_def
  ilog2_numeral ilog2_one isqrt_numeral isqrt_step_def isqrt_small

lemma f32_zero_ops [simp]:
  "f32_add f32_zero f32_zero = f32_zero"
  "f32_mul f32_zero f32_zero = f32_zero"
  "f32_fma f32_zero f32_zero f32_zero = f32_zero"
  by (simp_all add: f32_eval)

end
