(* ===== verification/Neighbors.thy ===== *)
theory Neighbors
  imports Float32 "HOL-Library.Multiset"
begin

text \<open>
  Scored candidates and bounded heaps (\<^verbatim>\<open>Neighbor\<close> and \<^verbatim>\<open>push_bounded\<close> of
  \<^verbatim>\<open>src/vektordb-core/src/storage/exact.rs\<close>).  The order of a candidate is a total order whose
  equality is identity of the distance's pattern and of the id, so a \<^verbatim>\<open>BinaryHeap\<close> of them
  behaves as its elements in ascending order: \<^verbatim>\<open>peek\<close> is the last one, \<^verbatim>\<open>push\<close> is \<open>insort\<close>,
  and \<^verbatim>\<open>into_sorted_vec\<close> is the list itself.  A min-heap through \<^verbatim>\<open>Reverse\<close> pops the first.
\<close>

section \<open>Candidates\<close>

datatype neighbor = Neighbor (nb_id: nat) (nb_dist: f32)

text \<open>
  The standard library's three-way results, a comparison by a total order (\<^verbatim>\<open>f32::total_cmp\<close>, whose
  order is that of \<open>f32\<close>, and \<^verbatim>\<open>u64::cmp\<close>), and \<^verbatim>\<open>Ordering::then_with\<close>.
\<close>

datatype cmp_ordering = Cmp_Less | Cmp_Equal | Cmp_Greater

definition compare :: "'a::linorder \<Rightarrow> 'a \<Rightarrow> cmp_ordering" where
  "compare x y = (if x < y then Cmp_Less else if x = y then Cmp_Equal else Cmp_Greater)"

definition then_with :: "cmp_ordering \<Rightarrow> cmp_ordering \<Rightarrow> cmp_ordering" where
  "then_with c d = (case c of Cmp_Equal \<Rightarrow> d | _ \<Rightarrow> c)"

definition neighbor_cmp :: "neighbor \<Rightarrow> neighbor \<Rightarrow> cmp_ordering" where
  "neighbor_cmp a b = then_with (compare (nb_dist a) (nb_dist b)) (compare (nb_id a) (nb_id b))"

definition neighbor_partial_cmp :: "neighbor \<Rightarrow> neighbor \<Rightarrow> cmp_ordering option" where
  "neighbor_partial_cmp a b = Some (neighbor_cmp a b)"

text \<open>The operators \<^verbatim>\<open><=\<close> and \<^verbatim>\<open><\<close> ask \<^verbatim>\<open>partial_cmp\<close>.\<close>

instantiation neighbor :: linorder
begin

definition less_eq_neighbor :: "neighbor \<Rightarrow> neighbor \<Rightarrow> bool" where
  "less_eq_neighbor a b \<longleftrightarrow> neighbor_partial_cmp a b \<in> {Some Cmp_Less, Some Cmp_Equal}"

definition less_neighbor :: "neighbor \<Rightarrow> neighbor \<Rightarrow> bool" where
  "less_neighbor a b \<longleftrightarrow> neighbor_partial_cmp a b = Some Cmp_Less"

instance
  by standard
    (auto simp: less_eq_neighbor_def less_neighbor_def neighbor_partial_cmp_def neighbor_cmp_def compare_def
      then_with_def neighbor.expand split: if_splits)

end

lemma neighbor_le_iff: "a \<le> b \<longleftrightarrow> nb_dist a < nb_dist b \<or> (nb_dist a = nb_dist b \<and> nb_id a \<le> nb_id b)" for a b :: neighbor
  by (auto simp: less_eq_neighbor_def neighbor_partial_cmp_def neighbor_cmp_def compare_def then_with_def)

lemma neighbor_less_iff: "a < b \<longleftrightarrow> nb_dist a < nb_dist b \<or> (nb_dist a = nb_dist b \<and> nb_id a < nb_id b)" for a b :: neighbor
  by (auto simp: less_neighbor_def neighbor_partial_cmp_def neighbor_cmp_def compare_def then_with_def)

lemma neighbor_le_dist: "a \<le> b \<Longrightarrow> nb_dist a \<le> nb_dist b"
  by (auto simp: neighbor_le_iff)

lemma neighbor_lt_dist: "nb_dist a < nb_dist b \<Longrightarrow> a < b"
  by (simp add: neighbor_less_iff)

type_synonym heap = "neighbor list"

section \<open>Bounded heaps\<close>

definition push_bounded :: "heap \<Rightarrow> neighbor \<Rightarrow> nat \<Rightarrow> heap" where
  "push_bounded h item k =
     (if length h < k then insort item h
      else if h = [] then h
      else if item < last h then insort item (butlast h)
      else h)"

text \<open>What a bounded heap stands for: the \<open>k\<close> least of all elements seen.\<close>

definition top_k :: "nat \<Rightarrow> neighbor list \<Rightarrow> heap" where
  "top_k k xs = take k (sort xs)"

lemma take_insort_below:
  "sorted s \<Longrightarrow> n < length s \<Longrightarrow> x \<le> s ! n \<Longrightarrow> take (Suc n) (insort x s) = insort x (take n s)"
proof (induction s arbitrary: n)
  case (Cons y ys)
  show ?case
  proof (cases n)
    case 0
    with Cons.prems show ?thesis by simp
  next
    case (Suc m)
    with Cons.prems have "sorted ys" "m < length ys" "x \<le> ys ! m" by auto
    then have "take (Suc m) (insort x ys) = insort x (take m ys)" by (rule Cons.IH)
    then show ?thesis by (simp add: Suc)
  qed
qed simp

lemma sorted_mset_unique:
  "mset xs = mset ys \<Longrightarrow> sorted xs \<Longrightarrow> sorted ys \<Longrightarrow> xs = (ys :: 'a :: linorder list)"
  by (metis properties_for_sort)

lemma take_insort_strictly_above:
  "sorted s \<Longrightarrow> n < length s \<Longrightarrow> s ! n < x \<Longrightarrow> take (Suc n) (insort x s) = take (Suc n) s"
proof (induction s arbitrary: n)
  case (Cons y ys)
  show ?case
  proof (cases n)
    case 0
    with Cons.prems show ?thesis by auto
  next
    case (Suc m)
    then have m: "m < length ys" "ys ! m < x" using Cons.prems by auto
    then have "y < x" using Cons.prems(1) by (metis nth_mem order_le_less_trans sorted_simps(2))
    with Cons.IH [OF _ m] Cons.prems(1) Suc show ?thesis by auto
  qed
qed simp

lemma take_insort_above:
  assumes "sorted s" "n < length s" "s ! n \<le> x"
  shows "take (Suc n) (insort x s) = take (Suc n) s"
proof (cases "s ! n = x")
  case True
  have "take (Suc n) (insort x s) = insort x (take n s)"
    using take_insort_below [OF assms(1,2), of x] True by simp
  also have "\<dots> = take (Suc n) s"
  proof (rule sorted_mset_unique)
    have split: "take (Suc n) s = take n s @ [x]"
      using assms(2) True by (simp add: take_Suc_conv_app_nth)
    show "mset (insort x (take n s)) = mset (take (Suc n) s)" unfolding split by simp
    show "sorted (insort x (take n s))" using assms(1) by (simp add: sorted_insort sorted_wrt_take)
    show "sorted (take (Suc n) s)" using assms(1) by (rule sorted_wrt_take)
  qed
  finally show ?thesis .
next
  case False
  with assms show ?thesis by (simp add: take_insort_strictly_above)
qed

lemma push_bounded_take:
  assumes "sorted s"
  shows "push_bounded (take k s) x k = take k (insort x s)"
proof (cases "length s < k")
  case True
  then show ?thesis by (simp add: push_bounded_def)
next
  case False
  show ?thesis
  proof (cases k)
    case 0
    then show ?thesis by (simp add: push_bounded_def)
  next
    case (Suc n)
    with False have n: "n < length s" by simp
    then have last: "last (take k s) = s ! n" and butlast: "butlast (take k s) = take n s"
      and ne: "take k s \<noteq> []"
      by (auto simp: Suc take_Suc_conv_app_nth butlast_take)
    have "push_bounded (take k s) x k = (if x < s ! n then insort x (take n s) else take k s)"
      unfolding push_bounded_def last butlast using False ne by simp
    also have "\<dots> = take k (insort x s)"
      using take_insort_below [OF assms n] take_insort_above [OF assms n] Suc by auto
    finally show ?thesis .
  qed
qed

lemma push_bounded_top_k: "push_bounded (top_k k xs) x k = top_k k (x # xs)"
  by (simp add: top_k_def push_bounded_take)

lemma fold_push_top_k:
  "fold (\<lambda>x h. push_bounded h x k) ys (top_k k xs) = top_k k (rev ys @ xs)"
  by (induction ys arbitrary: xs) (simp_all add: push_bounded_top_k)

lemma top_k_Nil [simp]: "top_k k [] = []"
  by (simp add: top_k_def)

lemma top_k_mset: "mset xs = mset ys \<Longrightarrow> top_k k xs = top_k k ys"
proof -
  assume "mset xs = mset ys"
  then have "sort xs = sort ys" by (simp add: properties_for_sort)
  then show ?thesis by (simp add: top_k_def)
qed

lemma sorted_top_k [simp]: "sorted (top_k k xs)"
  by (simp add: top_k_def sorted_wrt_take)

lemma length_top_k [simp]: "length (top_k k xs) = min k (length xs)"
  by (simp add: top_k_def)

lemma sort_split: "sort (sort xs @ ys) = sort (xs @ ys)"
  by (rule properties_for_sort) simp_all

text \<open>Dropping what the \<open>k\<close> least already exclude does not change the \<open>k\<close> least.\<close>

lemma top_k_top_k: "top_k k (top_k k xs @ ys) = top_k k (xs @ ys)"
proof (induction ys rule: rev_induct)
  case Nil
  have "sort (take k (sort xs)) = take k (sort xs)" by (simp add: sorted_sort_id sorted_wrt_take)
  then show ?case by (simp add: top_k_def)
next
  case (snoc y ys)
  have "top_k k (zs @ ys @ [y]) = push_bounded (top_k k (zs @ ys)) y k" for zs
    by (simp add: push_bounded_top_k) (rule top_k_mset, simp)
  with snoc show ?case by simp
qed

definition merge_heaps :: "nat \<Rightarrow> heap \<Rightarrow> heap \<Rightarrow> heap" where
  "merge_heaps k a b = fold (\<lambda>x h. push_bounded h x k) b a"

lemma merge_top_k: "merge_heaps k (top_k k xs) (top_k k ys) = top_k k (xs @ ys)"
proof -
  have "merge_heaps k (top_k k xs) (top_k k ys) = top_k k (rev (top_k k ys) @ xs)"
    by (simp add: merge_heaps_def fold_push_top_k)
  also have "\<dots> = top_k k (top_k k ys @ xs)" by (rule top_k_mset) simp
  also have "\<dots> = top_k k (xs @ ys)" unfolding top_k_top_k by (rule top_k_mset) simp
  finally show ?thesis .
qed

text \<open>The elements of a heap reach the accumulator in any order: the result is the same.\<close>

lemma merge_heaps_perm:
  "mset b = mset b' \<Longrightarrow> merge_heaps k (top_k k xs) b = merge_heaps k (top_k k xs) b'"
  by (simp add: merge_heaps_def fold_push_top_k) (rule top_k_mset, simp)

lemma set_push_bounded: "set (push_bounded h x k) \<subseteq> insert x (set h)"
  by (auto simp: push_bounded_def set_insort_key dest: in_set_butlastD)

lemma sorted_push_bounded: "sorted h \<Longrightarrow> sorted (push_bounded h x k)"
  by (auto simp: push_bounded_def sorted_insort sorted_butlast)

lemma length_push_bounded:
  "length h \<le> k \<Longrightarrow> length (push_bounded h x k) \<le> k"
  by (auto simp: push_bounded_def)

lemma length_push_bounded_ge: "length h \<le> length (push_bounded h x k)"
  by (auto simp: push_bounded_def)

lemma distinct_ids_push_bounded:
  assumes "distinct (map nb_id h)" and "nb_id x \<notin> nb_id ` set h"
  shows "distinct (map nb_id (push_bounded h x k))"
proof -
  have "mset (map nb_id (insort x l)) = mset (map nb_id (x # l))" for l
    by simp
  then have ins: "distinct (map nb_id (insort x l)) = distinct (map nb_id (x # l))" for l
    by (metis mset_eq_imp_distinct_iff)
  have "distinct (map nb_id (butlast h))" and "nb_id x \<notin> nb_id ` set (butlast h)"
    using assms by (auto simp: map_butlast distinct_butlast dest: in_set_butlastD)
  then show ?thesis using assms by (simp add: push_bounded_def ins)
qed

end
