(* ===== verification/Segments.thy ===== *)
theory Segments
  imports Prelude
begin

text \<open>
  The doubling segments that the vector store (\<^verbatim>\<open>storage/store.rs\<close>) and the node array
  (\<^verbatim>\<open>hnsw/segvec.rs\<close>) share: segment \<open>k\<close> holds \<open>base * 2 ^ k\<close> slots, so an index is found by
  one integer logarithm and no segment ever moves.  The arithmetic is proved once, in the locale
  \<open>doubling\<close>, and instantiated for both.
\<close>

definition seg_first :: "nat \<Rightarrow> nat \<Rightarrow> nat" where
  "seg_first base seg = base * (2 ^ seg - 1)"

lemma seg_first_0 [simp]: "seg_first base 0 = 0"
  by (simp add: seg_first_def)

lemma seg_first_Suc: "seg_first base (Suc seg) = seg_first base seg + base * 2 ^ seg"
proof -
  have "(2::nat) ^ Suc seg - 1 = (2 ^ seg - 1) + 2 ^ seg"
    using one_le_power [of "2::nat" seg] unfolding power_Suc by linarith
  then show ?thesis unfolding seg_first_def by (simp only: distrib_left)
qed

lemma seg_first_mono: "s \<le> t \<Longrightarrow> seg_first base s \<le> seg_first base t"
  by (induction t) (auto simp: seg_first_Suc le_Suc_eq)

locale doubling =
  fixes base :: nat and locate :: "nat \<Rightarrow> nat \<times> nat"
  assumes base_pos: "0 < base"
    and locate_eq: "locate i = (ilog2 (i div base + 1), i - base * (2 ^ ilog2 (i div base + 1) - 1))"
begin

abbreviation seg_start :: "nat \<Rightarrow> nat" where
  "seg_start \<equiv> seg_first base"

text \<open>The segment of an index is the one whose range holds it.\<close>

lemma locate_bounds:
  assumes "locate i = (seg, off)"
  shows "i = seg_start seg + off" and "off < base * 2 ^ seg"
proof -
  let ?q = "i div base + 1"
  have seg: "seg = ilog2 ?q" and off: "off = i - seg_start seg"
    using assms by (auto simp: locate_eq seg_first_def)
  have q: "2 ^ seg \<le> ?q" "?q < 2 * 2 ^ seg" using ilog2_bounds [of ?q] by (simp_all add: seg)
  have "base * (2 ^ seg - 1) \<le> base * (i div base)"
    using q(1) by (intro mult_le_mono2) linarith
  also have "\<dots> \<le> i" by simp
  finally have lo: "seg_start seg \<le> i" by (simp only: seg_first_def)
  then show "i = seg_start seg + off" by (simp add: off)
  have "i div base < 2 * 2 ^ seg - 1" using q(2) by linarith
  then have "i < (2 * 2 ^ seg - 1) * base"
    using base_pos by (simp only: div_less_iff_less_mult)
  then have "i < seg_start (Suc seg)"
    unfolding seg_first_def power_Suc by (simp only: mult.commute)
  then show "off < base * 2 ^ seg" using lo unfolding seg_first_Suc off by linarith
qed

lemma locate_unique:
  assumes "i = seg_start seg + off" and "off < base * 2 ^ seg"
  shows "locate i = (seg, off)"
proof -
  obtain seg' off' where l: "locate i = (seg', off')" by (cases "locate i")
  note b = locate_bounds [OF l]
  have "i < seg_start (Suc seg)" and "i < seg_start (Suc seg')"
    using assms b by (simp_all add: seg_first_Suc)
  moreover have "seg_start seg \<le> i" and "seg_start seg' \<le> i" using assms(1) b(1) by simp_all
  ultimately have "seg = seg'"
    by (metis leD le_less_trans not_less_eq seg_first_mono linorder_neqE_nat Suc_leI)
  then show ?thesis using assms b l by simp
qed

lemma locate_seg_less: "fst (locate i) < n \<longleftrightarrow> i < seg_start n"
proof -
  obtain seg off where l: "locate i = (seg, off)" by (cases "locate i")
  note b = locate_bounds [OF l]
  have "i < seg_start n" if "seg < n"
    using that b seg_first_mono [of "Suc seg" n base] by (simp add: seg_first_Suc)
  moreover have "seg < n" if "i < seg_start n"
    using that b seg_first_mono [of n seg] by (meson le_add1 le_trans leD not_less)
  ultimately show ?thesis using l by auto
qed

lemma locate_inject: "locate i = locate j \<longleftrightarrow> i = j"
  by (metis locate_bounds(1) prod.exhaust)

end

end
