(* ===== verification/Codec.thy ===== *)
theory Codec
  imports Float32
begin

text \<open>
  Byte codecs the persistent formats share: vectors of \<open>f32\<close> in little-endian order (the store's
  rows, the log's payloads and the codebook's centroids), fixed-width integers read from a
  stream, and sequences of items.
\<close>

text \<open>The checksum of the persistent files, \<^verbatim>\<open>crc32fast::hash\<close>, is not in the repository: a parameter.\<close>

type_synonym crc_fun = "byte list \<Rightarrow> 32 word"

section \<open>Vectors\<close>

definition f32_bytes :: "f32 \<Rightarrow> byte list" where
  "f32_bytes x = le_bytes 4 (f32_pat x)"

definition f32_of_bytes :: "byte list \<Rightarrow> f32" where
  "f32_of_bytes bs = f32_of_pat (le_val bs)"

definition f32s_bytes :: "f32 list \<Rightarrow> byte list" where
  "f32s_bytes v = concat (map f32_bytes v)"

text \<open>\<^verbatim>\<open>chunks_exact(4)\<close> and \<^verbatim>\<open>from_le_bytes\<close>: an incomplete last chunk is dropped.\<close>

fun bytes_f32s :: "byte list \<Rightarrow> f32 list" where
  "bytes_f32s (a # b # c # d # rest) = f32_of_bytes [a, b, c, d] # bytes_f32s rest"
| "bytes_f32s bs = []"

lemma length_f32_bytes [simp]: "length (f32_bytes x) = 4"
  by (simp add: f32_bytes_def)

lemma f32_of_bytes_bytes [simp, codec_simps]: "f32_of_bytes (f32_bytes x) = x"
  by (simp add: f32_of_bytes_def f32_bytes_def f32_pat_def f32_of_pat_def)

lemma f32_bytes_of_bytes: "length bs = 4 \<Longrightarrow> f32_bytes (f32_of_bytes bs) = bs"
proof -
  assume len: "length bs = 4"
  have "le_val bs < 2 * 2 ^ (23 + 8)" using le_val_less [of bs] len by simp
  then have "f32_pat (f32_of_pat (le_val bs)) = le_val bs" by (rule f32_pat_of_pat)
  then show ?thesis using le_bytes_le_val [of bs] len by (simp add: f32_bytes_def f32_of_bytes_def)
qed

lemma length_f32s_bytes [simp]: "length (f32s_bytes v) = 4 * length v"
  by (induction v) (simp_all add: f32s_bytes_def)

lemma f32s_bytes_simps [simp]:
  "f32s_bytes [] = []"
  "f32s_bytes (x # v) = f32_bytes x @ f32s_bytes v"
  by (simp_all add: f32s_bytes_def)

lemma length4_cases: "length bs = 4 \<Longrightarrow> \<exists>a b c d. bs = [a, b, c, d]"
  by (auto simp: length_Suc_conv eval_nat_numeral)

lemma bytes_f32s_Cons: "length bs = 4 \<Longrightarrow> bytes_f32s (bs @ rest) = f32_of_bytes bs # bytes_f32s rest"
  using length4_cases by fastforce

lemma bytes_f32s_bytes [simp, codec_simps]: "bytes_f32s (f32s_bytes v) = v"
  by (induction v) (simp_all add: bytes_f32s_Cons)

lemma length_bytes_f32s: "length (bytes_f32s bs) = length bs div 4"
  by (induction bs rule: bytes_f32s.induct) auto

lemma f32s_bytes_of_bytes: "4 dvd length bs \<Longrightarrow> f32s_bytes (bytes_f32s bs) = bs"
proof (induction bs rule: bytes_f32s.induct)
  case (1 a b c d rest)
  then have "4 dvd length rest" by (simp, presburger)
  with 1 show ?case using f32_bytes_of_bytes [of "[a, b, c, d]"] by simp
qed (auto, presburger+)

section \<open>Integers from a stream\<close>

definition read_uint :: "nat \<Rightarrow> byte list \<Rightarrow> (nat \<times> byte list) result" where
  "read_uint k bs = rbind (read_exact k bs) (\<lambda>(xs, rest). Inr (le_val xs, rest))"

lemma read_uint_le_bytes [simp, codec_simps]:
  "v < 256 ^ k \<Longrightarrow> read_uint k (le_bytes k v @ rest) = Inr (v, rest)"
  by (simp add: read_uint_def)

lemma read_uint_Inr:
  "read_uint k bs = Inr (v, rest) \<Longrightarrow> v < 256 ^ k \<and> bs = le_bytes k v @ rest"
  using le_val_less le_bytes_le_val
  by (fastforce simp: read_uint_def read_exact_Inr rbind_eq_Inr)

section \<open>Sequences of items\<close>

text \<open>Read \<open>n\<close> items one after the other, stopping at the first error.\<close>

primrec decode_n :: "(byte list \<Rightarrow> ('a \<times> byte list) result) \<Rightarrow> nat \<Rightarrow> byte list \<Rightarrow>
    ('a list \<times> byte list) result" where
  "decode_n dec 0 bs = Inr ([], bs)"
| "decode_n dec (Suc n) bs =
     rbind (dec bs) (\<lambda>(x, rest). rbind (decode_n dec n rest) (\<lambda>(xs, rest'). Inr (x # xs, rest')))"

text \<open>
  A codec: what an encoder and a decoder promise each other on the values the format admits.
  The decoder also hands back whatever follows.
\<close>

locale codec =
  fixes enc :: "'a \<Rightarrow> byte list"
    and dec :: "byte list \<Rightarrow> ('a \<times> byte list) result"
    and valid :: "'a \<Rightarrow> bool"
  assumes dec_enc: "valid x \<Longrightarrow> dec (enc x @ rest) = Inr (x, rest)"
begin

lemma decode_encode: "valid x \<Longrightarrow> dec (enc x) = Inr (x, [])"
  using dec_enc [of x "[]"] by simp

lemma enc_prefix_free:
  assumes "valid x" "valid y" "enc x @ r = enc y @ r'"
  shows "x = y \<and> r = r'"
proof -
  have "Inr (x, r) = dec (enc x @ r)" by (rule dec_enc [OF assms(1), symmetric])
  also have "\<dots> = Inr (y, r')" unfolding assms(3) by (rule dec_enc [OF assms(2)])
  finally show ?thesis by simp
qed

lemma decode_n_encode:
  "list_all valid xs \<Longrightarrow> decode_n dec (length xs) (concat (map enc xs) @ rest) = Inr (xs, rest)"
  by (induction xs) (simp_all add: dec_enc)

end

interpretation u32_codec: codec "le_bytes 4" "read_uint 4" "\<lambda>v. v < 2 ^ 32"
  by unfold_locales simp

interpretation u64_codec: codec "le_bytes 8" "read_uint 8" "\<lambda>v. v < 2 ^ 64"
  by unfold_locales simp

end
