(* ===== verification/Distance.thy ===== *)
theory Distance
  imports Float32
begin

text \<open>
  \<^verbatim>\<open>src/vektordb-core/src/distance\<close>: the scalar reference kernels (\<^verbatim>\<open>scalar.rs\<close>), the AVX2+FMA
  kernels (\<^verbatim>\<open>avx2.rs\<close>) and the dispatch on the metric and on the CPU (\<^verbatim>\<open>mod.rs\<close>).  Vectors
  are lists of \<open>f32\<close>; a 256-bit register is a list of eight lanes.  Every public kernel checks
  that the lengths agree and panics otherwise: the panic is \<open>None\<close>.  Whether the CPU has
  AVX2 and FMA is the argument \<open>avx\<close>.
\<close>

section \<open>Scalar kernels\<close>

fun l2_loop :: "f32 \<Rightarrow> f32 list \<Rightarrow> f32 list \<Rightarrow> f32" where
  "l2_loop acc (x # xs) (y # ys) =
     (let d = f32_sub x y in l2_loop (f32_add acc (f32_mul d d)) xs ys)"
| "l2_loop acc xs ys = acc"

fun dot_loop :: "f32 \<Rightarrow> f32 list \<Rightarrow> f32 list \<Rightarrow> f32" where
  "dot_loop acc (x # xs) (y # ys) = dot_loop (f32_add acc (f32_mul x y)) xs ys"
| "dot_loop acc xs ys = acc"

fun cosine_loop :: "f32 \<times> f32 \<times> f32 \<Rightarrow> f32 list \<Rightarrow> f32 list \<Rightarrow> f32 \<times> f32 \<times> f32" where
  "cosine_loop (ab, aa, bb) (x # xs) (y # ys) =
     cosine_loop (f32_add ab (f32_mul x y), f32_add aa (f32_mul x x), f32_add bb (f32_mul y y)) xs ys"
| "cosine_loop sums xs ys = sums"

text \<open>The end both cosine kernels share: \<^verbatim>\<open>1 - ab / sqrt(aa * bb)\<close>, or 1 for a zero norm.\<close>

definition cosine_finish :: "f32 \<times> f32 \<times> f32 \<Rightarrow> f32" where
  "cosine_finish = (\<lambda>(ab, aa, bb).
     let denom = f32_sqrt (f32_mul aa bb)
     in if f32_eq denom f32_zero then f32_one else f32_sub f32_one (f32_div ab denom))"

definition scalar_l2_squared :: "f32 list \<Rightarrow> f32 list \<Rightarrow> f32 option" where
  "scalar_l2_squared a b =
     (if length a \<noteq> length b then None else Some (l2_loop f32_zero a b))"

definition scalar_dot :: "f32 list \<Rightarrow> f32 list \<Rightarrow> f32 option" where
  "scalar_dot a b = (if length a \<noteq> length b then None else Some (dot_loop f32_zero a b))"

definition scalar_cosine :: "f32 list \<Rightarrow> f32 list \<Rightarrow> f32 option" where
  "scalar_cosine a b =
     (if length a \<noteq> length b then None
      else Some (cosine_finish (cosine_loop (f32_zero, f32_zero, f32_zero) a b)))"

definition dot_distance_scalar :: "f32 list \<Rightarrow> f32 list \<Rightarrow> f32 option" where
  "dot_distance_scalar a b = map_option f32_neg (scalar_dot a b)"

section \<open>AVX2 kernels\<close>

definition vzero :: "f32 list" where
  "vzero = replicate 8 f32_zero"

definition vadd :: "f32 list \<Rightarrow> f32 list \<Rightarrow> f32 list" where
  "vadd xs ys = map2 f32_add xs ys"

definition vsub :: "f32 list \<Rightarrow> f32 list \<Rightarrow> f32 list" where
  "vsub xs ys = map2 f32_sub xs ys"

definition vfmadd :: "f32 list \<Rightarrow> f32 list \<Rightarrow> f32 list \<Rightarrow> f32 list" where
  "vfmadd xs ys zs = map2 (\<lambda>(x, y) z. f32_fma x y z) (zip xs ys) zs"

text \<open>\<^verbatim>\<open>hsum256\<close>: halves, then the upper pair onto the lower, then lane 1 onto lane 0.\<close>

definition hsum256 :: "f32 list \<Rightarrow> f32" where
  "hsum256 v =
     (let s = vadd (take 4 v) (drop 4 v);
          s0 = f32_add (s ! 0) (s ! 2);
          s1 = f32_add (s ! 1) (s ! 3)
      in f32_add s0 s1)"

text \<open>
  \<^verbatim>\<open>l2_squared\<close> and \<^verbatim>\<open>dot\<close> have the same three loops and differ in the lane operation and in
  the scalar tail, the arguments here: 32 floats per round into four accumulators, then 8 per
  round into the first, then one by one.
\<close>

type_synonym lane_op = "f32 list \<Rightarrow> f32 list \<Rightarrow> f32 list \<Rightarrow> f32 list"
type_synonym tail_op = "f32 \<Rightarrow> f32 \<Rightarrow> f32 \<Rightarrow> f32"

function loop32 ::
    "lane_op \<Rightarrow> f32 list \<times> f32 list \<times> f32 list \<times> f32 list \<Rightarrow> f32 list \<Rightarrow> f32 list \<Rightarrow>
      (f32 list \<times> f32 list \<times> f32 list \<times> f32 list) \<times> f32 list \<times> f32 list" where
  "loop32 op (c0, c1, c2, c3) a b =
     (if 32 \<le> length a then
        loop32 op
          (op c0 (take 8 a) (take 8 b),
           op c1 (take 8 (drop 8 a)) (take 8 (drop 8 b)),
           op c2 (take 8 (drop 16 a)) (take 8 (drop 16 b)),
           op c3 (take 8 (drop 24 a)) (take 8 (drop 24 b)))
          (drop 32 a) (drop 32 b)
      else ((c0, c1, c2, c3), a, b))"
  by pat_completeness auto
termination
  by (relation "measure (\<lambda>(op, c, a, b). length a)") auto

function loop8 :: "lane_op \<Rightarrow> f32 list \<Rightarrow> f32 list \<Rightarrow> f32 list \<Rightarrow> f32 list \<times> f32 list \<times> f32 list" where
  "loop8 op c a b =
     (if 8 \<le> length a then loop8 op (op c (take 8 a) (take 8 b)) (drop 8 a) (drop 8 b)
      else (c, a, b))"
  by pat_completeness auto
termination
  by (relation "measure (\<lambda>(op, c, a, b). length a)") auto

fun tail_loop :: "tail_op \<Rightarrow> f32 \<Rightarrow> f32 list \<Rightarrow> f32 list \<Rightarrow> f32" where
  "tail_loop t s (x # xs) (y # ys) = tail_loop t (t s x y) xs ys"
| "tail_loop t s xs ys = s"

declare loop32.simps [simp del] loop8.simps [simp del]

definition avx2_reduce :: "lane_op \<Rightarrow> tail_op \<Rightarrow> f32 list \<Rightarrow> f32 list \<Rightarrow> f32" where
  "avx2_reduce op t a b =
     (let ((c0, c1, c2, c3), a1, b1) = loop32 op (vzero, vzero, vzero, vzero) a b;
          (c0', a2, b2) = loop8 op c0 a1 b1
      in tail_loop t (hsum256 (vadd (vadd c0' c1) (vadd c2 c3))) a2 b2)"

definition l2_lane :: lane_op where
  "l2_lane c xs ys = (let d = vsub xs ys in vfmadd d d c)"

definition l2_tail :: tail_op where
  "l2_tail s x y = (let d = f32_sub x y in f32_add s (f32_mul d d))"

definition dot_lane :: lane_op where
  "dot_lane c xs ys = vfmadd xs ys c"

definition dot_tail :: tail_op where
  "dot_tail s x y = f32_add s (f32_mul x y)"

definition avx2_l2_squared :: "f32 list \<Rightarrow> f32 list \<Rightarrow> f32" where
  "avx2_l2_squared = avx2_reduce l2_lane l2_tail"

definition avx2_dot :: "f32 list \<Rightarrow> f32 list \<Rightarrow> f32" where
  "avx2_dot = avx2_reduce dot_lane dot_tail"

text \<open>The cosine kernel keeps two triples of accumulators and walks 16 floats per round.\<close>

type_synonym lanes3 = "f32 list \<times> f32 list \<times> f32 list"

definition cosine_lane :: "lanes3 \<Rightarrow> f32 list \<Rightarrow> f32 list \<Rightarrow> lanes3" where
  "cosine_lane = (\<lambda>(ab, aa, bb) xs ys. (vfmadd xs ys ab, vfmadd xs xs aa, vfmadd ys ys bb))"

function cosine16 :: "lanes3 \<Rightarrow> lanes3 \<Rightarrow> f32 list \<Rightarrow> f32 list \<Rightarrow> lanes3 \<times> lanes3 \<times> f32 list \<times> f32 list" where
  "cosine16 c0 c1 a b =
     (if 16 \<le> length a then
        cosine16 (cosine_lane c0 (take 8 a) (take 8 b))
          (cosine_lane c1 (take 8 (drop 8 a)) (take 8 (drop 8 b))) (drop 16 a) (drop 16 b)
      else (c0, c1, a, b))"
  by pat_completeness auto
termination
  by (relation "measure (\<lambda>(c0, c1, a, b). length a)") auto

function cosine8 :: "lanes3 \<Rightarrow> f32 list \<Rightarrow> f32 list \<Rightarrow> lanes3 \<times> f32 list \<times> f32 list" where
  "cosine8 c0 a b =
     (if 8 \<le> length a then cosine8 (cosine_lane c0 (take 8 a) (take 8 b)) (drop 8 a) (drop 8 b)
      else (c0, a, b))"
  by pat_completeness auto
termination
  by (relation "measure (\<lambda>(c0, a, b). length a)") auto

declare cosine16.simps [simp del] cosine8.simps [simp del]

definition avx2_cosine :: "f32 list \<Rightarrow> f32 list \<Rightarrow> f32" where
  "avx2_cosine a b =
     (let z = (vzero, vzero, vzero);
          (c0, (ab1, aa1, bb1), a1, b1) = cosine16 z z a b;
          ((ab0, aa0, bb0), a2, b2) = cosine8 c0 a1 b1
      in cosine_finish (cosine_loop
           (hsum256 (vadd ab0 ab1), hsum256 (vadd aa0 aa1), hsum256 (vadd bb0 bb1)) a2 b2))"

section \<open>Dispatch\<close>

datatype metric = L2 | Dot | Cosine

definition l2_avx2 :: "f32 list \<Rightarrow> f32 list \<Rightarrow> f32 option" where
  "l2_avx2 a b = (if length a \<noteq> length b then None else Some (avx2_l2_squared a b))"

definition dot_distance_avx2 :: "f32 list \<Rightarrow> f32 list \<Rightarrow> f32 option" where
  "dot_distance_avx2 a b = (if length a \<noteq> length b then None else Some (f32_neg (avx2_dot a b)))"

definition cosine_avx2 :: "f32 list \<Rightarrow> f32 list \<Rightarrow> f32 option" where
  "cosine_avx2 a b = (if length a \<noteq> length b then None else Some (avx2_cosine a b))"

fun kernel :: "bool \<Rightarrow> metric \<Rightarrow> f32 list \<Rightarrow> f32 list \<Rightarrow> f32 option" where
  "kernel True L2 = l2_avx2"
| "kernel True Dot = dot_distance_avx2"
| "kernel True Cosine = cosine_avx2"
| "kernel False L2 = scalar_l2_squared"
| "kernel False Dot = dot_distance_scalar"
| "kernel False Cosine = scalar_cosine"

lemmas kernel_defs =
  scalar_l2_squared_def scalar_dot_def scalar_cosine_def dot_distance_scalar_def
  l2_avx2_def dot_distance_avx2_def cosine_avx2_def

text \<open>The kernels accept any two vectors of one dimension.\<close>

lemma kernel_total: "length a = length b \<Longrightarrow> \<exists>d. kernel avx m a b = Some d"
  by (cases avx; cases m) (auto simp: kernel_defs)

section \<open>The three-loop reduction does not see the order of its operands\<close>

text \<open>
  What \<open>l2_squared\<close> and \<open>dot\<close> promise their shared loops: a lane operation and a tail
  operation that are indifferent to the order of the two vectors.
\<close>

locale symmetric_reduction =
  fixes op :: lane_op and t :: tail_op
  assumes op_swap: "op c xs ys = op c ys xs"
    and t_swap: "t s x y = t s y x"
begin

lemma loop32_swap:
  "length a = length b \<Longrightarrow>
     loop32 op cs a b = (case loop32 op cs b a of (cs', b', a') \<Rightarrow> (cs', a', b'))"
proof (induction "length a" arbitrary: cs a b rule: less_induct)
  case less
  obtain c0 c1 c2 c3 where cs: "cs = (c0, c1, c2, c3)" by (cases cs)
  show ?case
  proof (cases "32 \<le> length a")
    case True
    with less.prems have "length (drop 32 a) < length a" "length (drop 32 a) = length (drop 32 b)"
      by auto
    from less.hyps [OF this] True less.prems show ?thesis
      unfolding cs loop32.simps [of _ _ _ _ _ a] loop32.simps [of _ _ _ _ _ b]
      by (simp add: op_swap)
  next
    case False
    with less.prems show ?thesis by (simp add: cs loop32.simps)
  qed
qed

lemma loop32_lengths:
  "length a = length b \<Longrightarrow> loop32 op cs a b = (cs', a', b') \<Longrightarrow> length a' = length b'"
proof (induction "length a" arbitrary: cs a b rule: less_induct)
  case less
  obtain c0 c1 c2 c3 where cs: "cs = (c0, c1, c2, c3)" by (cases cs)
  show ?case
  proof (cases "32 \<le> length a")
    case True
    with less.prems have "length (drop 32 a) < length a" "length (drop 32 a) = length (drop 32 b)"
      by auto
    from less.hyps [OF this] True less.prems(2) show ?thesis
      unfolding cs loop32.simps [of _ _ _ _ _ a] by (simp split: if_splits)
  next
    case False
    with less.prems show ?thesis by (simp add: cs loop32.simps)
  qed
qed

lemma loop8_swap:
  "length a = length b \<Longrightarrow>
     loop8 op c a b = (case loop8 op c b a of (c', b', a') \<Rightarrow> (c', a', b'))"
proof (induction "length a" arbitrary: c a b rule: less_induct)
  case less
  show ?case
  proof (cases "8 \<le> length a")
    case True
    with less.prems have "length (drop 8 a) < length a" "length (drop 8 a) = length (drop 8 b)"
      by auto
    from less.hyps [OF this] True less.prems show ?thesis
      unfolding loop8.simps [of _ _ a] loop8.simps [of _ _ b] by (simp add: op_swap)
  next
    case False
    with less.prems show ?thesis by (simp add: loop8.simps)
  qed
qed

lemma tail_loop_swap: "tail_loop t s a b = tail_loop t s b a"
  by (induction a b arbitrary: s rule: list_induct2') (simp_all add: t_swap)

lemma reduce_swap: "length a = length b \<Longrightarrow> avx2_reduce op t a b = avx2_reduce op t b a"
proof -
  assume len: "length a = length b"
  obtain c0 c1 c2 c3 b1 a1 where l32: "loop32 op (vzero, vzero, vzero, vzero) b a = ((c0, c1, c2, c3), b1, a1)"
    by (metis prod_cases3 surj_pair)
  obtain c0' b2 a2 where l8: "loop8 op c0 b1 a1 = (c0', b2, a2)" by (metis prod_cases3)
  have "length b1 = length a1" using loop32_lengths [OF len [symmetric] l32] .
  with l8 have "loop8 op c0 a1 b1 = (c0', a2, b2)" by (simp add: loop8_swap [of a1 b1])
  moreover have "loop32 op (vzero, vzero, vzero, vzero) a b = ((c0, c1, c2, c3), a1, b1)"
    by (simp add: loop32_swap [OF len] l32)
  ultimately show ?thesis
    by (simp add: avx2_reduce_def l32 l8 tail_loop_swap [of _ a2])
qed

end

lemma vfmadd_commute: "vfmadd xs ys c = vfmadd ys xs c"
proof -
  have "map2 (\<lambda>(x, y) z. f32_fma x y z) (zip xs ys) c = map2 (\<lambda>(x, y) z. f32_fma x y z) (zip ys xs) c"
  proof (induction xs ys arbitrary: c rule: list_induct2')
    case (4 x xs y ys)
    then show ?case by (cases c) (simp_all add: f32_fma_commute)
  qed simp_all
  then show ?thesis by (simp add: vfmadd_def)
qed

lemma l2_lane_swap: "l2_lane c xs ys = l2_lane c ys xs"
proof -
  have "map2 (\<lambda>(x, y) z. f32_fma x y z) (zip (map2 f32_sub xs ys) (map2 f32_sub xs ys)) c =
      map2 (\<lambda>(x, y) z. f32_fma x y z) (zip (map2 f32_sub ys xs) (map2 f32_sub ys xs)) c"
  proof (induction xs ys arbitrary: c rule: list_induct2')
    case (4 x xs y ys)
    then show ?case by (cases c) (simp_all add: f32_square_swap(2) [of x y])
  qed simp_all
  then show ?thesis by (simp add: l2_lane_def vfmadd_def vsub_def Let_def)
qed

interpretation l2_red: symmetric_reduction l2_lane l2_tail
  by unfold_locales
    (rule l2_lane_swap, simp add: l2_tail_def Let_def f32_square_swap(1))

interpretation dot_red: symmetric_reduction dot_lane dot_tail
  by unfold_locales (simp_all add: dot_lane_def dot_tail_def vfmadd_commute f32_mul_commute)

section \<open>Invariants of the reduction\<close>

text \<open>
  A property \<open>P\<close> of every accumulator lane, kept by the lane and tail operations on operand
  pairs related by \<open>R\<close> and by addition, holds of the result.
\<close>

locale reduction_invariant =
  fixes op :: lane_op and t :: tail_op and P :: "f32 \<Rightarrow> bool" and R :: "f32 \<Rightarrow> f32 \<Rightarrow> bool"
  assumes op_inv: "length c = 8 \<Longrightarrow> list_all P c \<Longrightarrow> length xs = 8 \<Longrightarrow> list_all2 R xs ys \<Longrightarrow>
      length (op c xs ys) = 8 \<and> list_all P (op c xs ys)"
    and t_inv: "P s \<Longrightarrow> R x y \<Longrightarrow> P (t s x y)"
    and add_inv: "P x \<Longrightarrow> P y \<Longrightarrow> P (f32_add x y)"
    and zero_inv: "P f32_zero"
begin

lemma op_take:
  assumes "length c = 8" "list_all P c" "k + 8 \<le> length a" "list_all2 R a b"
  shows "length (op c (take 8 (drop k a)) (take 8 (drop k b))) = 8"
    and "list_all P (op c (take 8 (drop k a)) (take 8 (drop k b)))"
proof -
  have "length (take 8 (drop k a)) = 8" using assms(3) by simp
  moreover have "list_all2 R (take 8 (drop k a)) (take 8 (drop k b))"
    using assms(4) by (simp add: list_all2_takeI list_all2_dropI)
  ultimately show "length (op c (take 8 (drop k a)) (take 8 (drop k b))) = 8"
    and "list_all P (op c (take 8 (drop k a)) (take 8 (drop k b)))"
    using op_inv [OF assms(1,2)] by blast+
qed

lemma loop32_inv:
  "list_all2 R a b \<Longrightarrow> (\<And>c. c \<in> {c0, c1, c2, c3} \<Longrightarrow> length c = 8 \<and> list_all P c) \<Longrightarrow>
     loop32 op (c0, c1, c2, c3) a b = ((d0, d1, d2, d3), a', b') \<Longrightarrow>
     list_all2 R a' b' \<and> (\<forall>d \<in> {d0, d1, d2, d3}. length d = 8 \<and> list_all P d)"
proof (induction "length a" arbitrary: c0 c1 c2 c3 a b rule: less_induct)
  case less
  show ?case
  proof (cases "32 \<le> length a")
    case True
    have lanes: "length c = 8 \<and> list_all P c" if "c \<in> {op c0 (take 8 (drop 0 a)) (take 8 (drop 0 b)),
        op c1 (take 8 (drop 8 a)) (take 8 (drop 8 b)), op c2 (take 8 (drop 16 a)) (take 8 (drop 16 b)),
        op c3 (take 8 (drop 24 a)) (take 8 (drop 24 b))}" for c
      using that less.prems(2) True op_take [OF _ _ _ less.prems(1)]
        op_take [OF _ _ _ less.prems(1), where k = 0] by auto
    have "length (drop 32 a) < length a" using True by simp
    moreover have "list_all2 R (drop 32 a) (drop 32 b)" using less.prems(1) by (rule list_all2_dropI)
    moreover have "loop32 op (op c0 (take 8 (drop 0 a)) (take 8 (drop 0 b)),
        op c1 (take 8 (drop 8 a)) (take 8 (drop 8 b)), op c2 (take 8 (drop 16 a)) (take 8 (drop 16 b)),
        op c3 (take 8 (drop 24 a)) (take 8 (drop 24 b))) (drop 32 a) (drop 32 b)
          = ((d0, d1, d2, d3), a', b')"
      using less.prems(3) True by (simp add: loop32.simps [of _ _ _ _ _ a])
    ultimately show ?thesis using less.hyps lanes by blast
  next
    case False
    with less.prems show ?thesis by (simp add: loop32.simps)
  qed
qed

lemma loop8_inv:
  "list_all2 R a b \<Longrightarrow> length c = 8 \<Longrightarrow> list_all P c \<Longrightarrow> loop8 op c a b = (d, a', b') \<Longrightarrow>
     list_all2 R a' b' \<and> length d = 8 \<and> list_all P d"
proof (induction "length a" arbitrary: c a b rule: less_induct)
  case less
  show ?case
  proof (cases "8 \<le> length a")
    case True
    have "length (drop 8 a) < length a" using True by simp
    moreover have "list_all2 R (drop 8 a) (drop 8 b)" using less.prems(1) by (rule list_all2_dropI)
    moreover have "length (op c (take 8 (drop 0 a)) (take 8 (drop 0 b))) = 8"
      and "list_all P (op c (take 8 (drop 0 a)) (take 8 (drop 0 b)))"
      by (rule op_take [OF less.prems(2,3) _ less.prems(1)], use True in simp)+
    moreover have "loop8 op (op c (take 8 (drop 0 a)) (take 8 (drop 0 b))) (drop 8 a) (drop 8 b) = (d, a', b')"
      using less.prems(4) True by (simp add: loop8.simps [of _ _ a])
    ultimately show ?thesis by (rule less.hyps)
  next
    case False
    with less.prems show ?thesis by (simp add: loop8.simps)
  qed
qed

lemma tail_loop_inv: "P s \<Longrightarrow> list_all2 R a b \<Longrightarrow> P (tail_loop t s a b)"
  by (induction a b arbitrary: s rule: list_induct2') (auto simp: t_inv)

lemma vadd_inv:
  "length c = length d \<Longrightarrow> list_all P c \<Longrightarrow> list_all P d \<Longrightarrow>
     length (vadd c d) = length c \<and> list_all P (vadd c d)"
  by (induction c d rule: list_induct2) (auto simp: vadd_def add_inv)

lemma hsum_inv:
  assumes "length v = 8" "list_all P v"
  shows "P (hsum256 v)"
proof -
  have "list_all P (take 4 v)" "list_all P (drop 4 v)"
    using assms(2) by (auto simp: list_all_iff dest: in_set_takeD in_set_dropD)
  then have "length (vadd (take 4 v) (drop 4 v)) = 4 \<and> list_all P (vadd (take 4 v) (drop 4 v))"
    using vadd_inv [of "take 4 v" "drop 4 v"] assms(1) by simp
  then show ?thesis by (simp add: hsum256_def Let_def add_inv list_all_length)
qed

lemma reduce_inv:
  assumes "list_all2 R a b"
  shows "P (avx2_reduce op t a b)"
proof -
  obtain c0 c1 c2 c3 a1 b1 where
    l32: "loop32 op (vzero, vzero, vzero, vzero) a b = ((c0, c1, c2, c3), a1, b1)"
    by (metis prod_cases3 surj_pair)
  have zero: "length vzero = 8 \<and> list_all P vzero"
    by (simp add: vzero_def list_all_length zero_inv)
  have inv32: "list_all2 R a1 b1 \<and> (\<forall>d \<in> {c0, c1, c2, c3}. length d = 8 \<and> list_all P d)"
    by (rule loop32_inv [OF assms _ l32]) (use zero in auto)
  obtain c0' a2 b2 where l8: "loop8 op c0 a1 b1 = (c0', a2, b2)" by (metis prod_cases3)
  have inv8: "list_all2 R a2 b2 \<and> length c0' = 8 \<and> list_all P c0'"
    by (rule loop8_inv [OF _ _ _ l8]) (use inv32 in auto)
  have "P (hsum256 (vadd (vadd c0' c1) (vadd c2 c3)))"
    using inv32 inv8 vadd_inv [of c0' c1] vadd_inv [of c2 c3] vadd_inv [of "vadd c0' c1" "vadd c2 c3"]
    by (intro hsum_inv) auto
  then show ?thesis using inv8 by (simp add: avx2_reduce_def l32 l8 tail_loop_inv)
qed

end

lemma vfmadd_Cons [simp]:
  "vfmadd (x # xs) (y # ys) (z # zs) = f32_fma x y z # vfmadd xs ys zs"
  "vfmadd [] ys zs = []"
  by (simp_all add: vfmadd_def)

lemma vsub_Cons [simp]:
  "vsub (x # xs) (y # ys) = f32_sub x y # vsub xs ys"
  "vsub [] ys = []"
  by (simp_all add: vsub_def)

lemma l2_lane_sign:
  "length c = length xs \<Longrightarrow> length xs = length ys \<Longrightarrow> list_all (\<lambda>x. \<not> f32_sign x) c \<Longrightarrow>
     length (l2_lane c xs ys) = length c \<and> list_all (\<lambda>x. \<not> f32_sign x) (l2_lane c xs ys)"
  by (induction c xs ys rule: list_induct3) (auto simp: l2_lane_def Let_def f32_sign_ops)

lemma l2_lane_self:
  "length c = length xs \<Longrightarrow> list_all2 (\<lambda>x y. x = y \<and> f32_is_finite x) xs ys \<Longrightarrow>
     list_all (\<lambda>x. x = f32_zero) c \<Longrightarrow>
     length (l2_lane c xs ys) = length c \<and> list_all (\<lambda>x. x = f32_zero) (l2_lane c xs ys)"
proof (induction c xs arbitrary: ys rule: list_induct2)
  case (Cons z zs x xs)
  then show ?case by (cases ys) (auto simp: l2_lane_def Let_def f32_sub_self)
qed (simp add: l2_lane_def)

interpretation l2_sign: reduction_invariant l2_lane l2_tail "\<lambda>x. \<not> f32_sign x" "\<lambda>x y. True"
  by unfold_locales
    (use l2_lane_sign in \<open>auto simp: list_all2_lengthD l2_tail_def Let_def f32_sign_ops\<close>)

interpretation l2_self: reduction_invariant l2_lane l2_tail "\<lambda>x. x = f32_zero"
    "\<lambda>x y. x = y \<and> f32_is_finite x"
  by unfold_locales (use l2_lane_self in \<open>auto simp: l2_tail_def Let_def f32_sub_self\<close>)

lemma l2_loop_sign: "\<not> f32_sign acc \<Longrightarrow> \<not> f32_sign (l2_loop acc a b)"
  by (induction acc a b rule: l2_loop.induct) (auto simp: Let_def f32_sign_ops)

lemma l2_loop_self: "list_all f32_is_finite a \<Longrightarrow> l2_loop f32_zero a a = f32_zero"
  by (induction a) (auto simp: Let_def f32_sub_self)

section \<open>Cosine: swapping the operands swaps the two norms\<close>

definition swap3 :: "'a \<times> 'a \<times> 'a \<Rightarrow> 'a \<times> 'a \<times> 'a" where
  "swap3 = (\<lambda>(ab, aa, bb). (ab, bb, aa))"

lemma swap3_simps [simp]: "swap3 (x, y, z) = (x, z, y)" "swap3 (swap3 c) = c"
  by (auto simp: swap3_def split: prod.splits)

lemma cosine_loop_swap: "cosine_loop (swap3 c) b a = swap3 (cosine_loop c a b)"
proof (induction c a b rule: cosine_loop.induct)
  case (1 ab aa bb x xs y ys)
  then show ?case by (simp add: f32_mul_commute [of y x])
qed (auto simp: swap3_def split: prod.splits)

lemma cosine_finish_swap: "cosine_finish (swap3 c) = cosine_finish c"
  by (auto simp: cosine_finish_def swap3_def f32_mul_commute split: prod.splits)

lemma cosine_lane_swap: "cosine_lane (swap3 c) ys xs = swap3 (cosine_lane c xs ys)"
  by (auto simp: cosine_lane_def swap3_def vfmadd_commute split: prod.splits)

lemma cosine16_swap:
  "length a = length b \<Longrightarrow>
     cosine16 (swap3 c) (swap3 d) b a =
       (case cosine16 c d a b of (c', d', a', b') \<Rightarrow> (swap3 c', swap3 d', b', a'))"
proof (induction "length a" arbitrary: c d a b rule: less_induct)
  case less
  show ?case
  proof (cases "16 \<le> length a")
    case True
    with less.prems have "length (drop 16 a) < length a" "length (drop 16 a) = length (drop 16 b)"
      by auto
    from less.hyps [OF this, of "cosine_lane c (take 8 a) (take 8 b)"
        "cosine_lane d (take 8 (drop 8 a)) (take 8 (drop 8 b))"] True less.prems show ?thesis
      by (simp add: cosine16.simps [of _ _ a] cosine16.simps [of _ _ b] cosine_lane_swap)
  next
    case False
    with less.prems show ?thesis by (simp add: cosine16.simps)
  qed
qed

lemma cosine16_lengths:
  "length a = length b \<Longrightarrow> cosine16 c d a b = (c', d', a', b') \<Longrightarrow> length a' = length b'"
proof (induction "length a" arbitrary: c d a b rule: less_induct)
  case less
  show ?case
  proof (cases "16 \<le> length a")
    case True
    with less.prems have "length (drop 16 a) < length a" "length (drop 16 a) = length (drop 16 b)"
      by auto
    from less.hyps [OF this] True less.prems(2) show ?thesis
      by (simp add: cosine16.simps [of _ _ a])
  next
    case False
    with less.prems show ?thesis by (simp add: cosine16.simps)
  qed
qed

lemma cosine8_swap:
  "length a = length b \<Longrightarrow>
     cosine8 (swap3 c) b a = (case cosine8 c a b of (c', a', b') \<Rightarrow> (swap3 c', b', a'))"
proof (induction "length a" arbitrary: c a b rule: less_induct)
  case less
  show ?case
  proof (cases "8 \<le> length a")
    case True
    with less.prems have "length (drop 8 a) < length a" "length (drop 8 a) = length (drop 8 b)"
      by auto
    from less.hyps [OF this, of "cosine_lane c (take 8 a) (take 8 b)"] True less.prems show ?thesis
      by (simp add: cosine8.simps [of _ a] cosine8.simps [of _ b] cosine_lane_swap)
  next
    case False
    with less.prems show ?thesis by (simp add: cosine8.simps)
  qed
qed

lemma avx2_cosine_swap: "length a = length b \<Longrightarrow> avx2_cosine b a = avx2_cosine a b"
proof -
  assume len: "length a = length b"
  let ?z = "(vzero, vzero, vzero)"
  obtain c0 ab1 aa1 bb1 a1 b1 where c16: "cosine16 ?z ?z a b = (c0, (ab1, aa1, bb1), a1, b1)"
    by (metis prod_cases3 surj_pair)
  obtain ab0 aa0 bb0 a2 b2 where c8: "cosine8 c0 a1 b1 = ((ab0, aa0, bb0), a2, b2)"
    by (metis prod_cases3 surj_pair)
  have "cosine16 ?z ?z b a = (swap3 c0, (ab1, bb1, aa1), b1, a1)"
    using cosine16_swap [OF len, of ?z ?z] c16 by simp
  moreover have "cosine8 (swap3 c0) b1 a1 = ((ab0, bb0, aa0), b2, a2)"
    using cosine8_swap [OF cosine16_lengths [OF len c16], of c0] c8 by simp
  moreover have "cosine_loop (x, z, y) b2 a2 = swap3 (cosine_loop (x, y, z) a2 b2)" for x y z
    using cosine_loop_swap [of "(x, y, z)" b2 a2] by simp
  ultimately show ?thesis
    by (simp add: avx2_cosine_def Let_def c16 c8 cosine_finish_swap)
qed

section \<open>A vector of zeros\<close>

lemma f32_eq_zero_iff: "f32_eq x f32_zero \<longleftrightarrow> fp_mag 23 8 (f32_pat x) = 0"
  by (auto simp: f32_eq_def f32_is_nan_def fp_is_nan_def fp_ord_def fp_mag_def)

lemma fp_mag_zero_cases: "fp_mag 23 8 n = 0 \<Longrightarrow> fp_is_nan 23 8 n = False \<and> fp_is_inf 23 8 n = False
    \<and> fp_units 23 (fp_mag 23 8 n) = 0"
  by (simp add: fp_is_nan_def fp_is_inf_def inf_mag_def fp_units_def)

lemma fp_round_zero: "fp_round p w 0 d = 0"
  by (simp add: fp_round_def fp_pack_def rne_def rne_adjust_def fp_binade_def)

lemma f32_mul_zero:
  assumes "fp_mag 23 8 (f32_pat x) = 0" and "f32_is_finite y"
  shows "fp_mag 23 8 (f32_pat (f32_mul x y)) = 0"
  using assms fp_mag_zero_cases [OF assms(1)]
  by (simp add: f32_pat_ops fp_mul_def Let_def fp_round_zero f32_is_finite_def fp_is_nan_def
      fp_is_inf_def)

lemma f32_zero_finite: "fp_mag 23 8 (f32_pat x) = 0 \<Longrightarrow> f32_is_finite x"
  by (simp add: f32_is_finite_def inf_mag_def)

lemma f32_add_zero_zero:
  assumes "fp_mag 23 8 (f32_pat x) = 0" and "fp_mag 23 8 (f32_pat y) = 0"
  shows "fp_mag 23 8 (f32_pat (f32_add x y)) = 0"
  using fp_mag_zero_cases [OF assms(1)] fp_mag_zero_cases [OF assms(2)]
  by (simp add: f32_pat_ops fp_add_def fp_of_int_mag fp_int_def)

lemma cosine_loop_zero:
  "list_all (\<lambda>x. f32_eq x f32_zero) a \<Longrightarrow> fp_mag 23 8 (f32_pat aa) = 0 \<Longrightarrow>
     cosine_loop (ab, aa, bb) a b = (ab', aa', bb') \<Longrightarrow> fp_mag 23 8 (f32_pat aa') = 0"
proof (induction "(ab, aa, bb)" a b arbitrary: ab aa bb rule: cosine_loop.induct)
  case (1 ab aa bb x xs y ys)
  have "fp_mag 23 8 (f32_pat (f32_mul x x)) = 0"
    using 1(2) by (intro f32_mul_zero f32_zero_finite) (auto simp: f32_eq_zero_iff)
  then show ?case using 1 f32_add_zero_zero by auto
qed auto

lemma f32_sqrt_zero:
  assumes "fp_mag 23 8 (f32_pat x) = 0"
  shows "f32_sqrt x = x"
  using fp_mag_zero_cases [OF assms] assms by (simp add: f32_sqrt_def fp_sqrt_def Let_def)

lemma cosine_finish_zero:
  assumes "fp_mag 23 8 (f32_pat aa) = 0" and "f32_is_finite bb"
  shows "cosine_finish (ab, aa, bb) = f32_one"
  using f32_mul_zero [OF assms]
  by (simp add: cosine_finish_def Let_def f32_sqrt_zero f32_eq_zero_iff)

section \<open>Below eight dimensions the two implementations are one\<close>

lemma hsum_zero: "hsum256 (vadd (vadd vzero vzero) (vadd vzero vzero)) = f32_zero"
  "hsum256 (vadd vzero vzero) = f32_zero"
  by (simp_all add: vzero_def vadd_def hsum256_def Let_def eval_nat_numeral)

lemma l2_tail_loop: "tail_loop l2_tail s a b = l2_loop s a b"
  by (induction s a b rule: l2_loop.induct) (simp_all add: l2_tail_def Let_def)

lemma dot_tail_loop: "tail_loop dot_tail s a b = dot_loop s a b"
  by (induction s a b rule: dot_loop.induct) (simp_all add: dot_tail_def)

lemma reduce_small: "length a < 8 \<Longrightarrow> avx2_reduce op t a b = tail_loop t f32_zero a b"
  by (simp add: avx2_reduce_def loop32.simps loop8.simps hsum_zero)

lemma avx2_cosine_small:
  "length a < 8 \<Longrightarrow> avx2_cosine a b = cosine_finish (cosine_loop (f32_zero, f32_zero, f32_zero) a b)"
  by (simp add: avx2_cosine_def cosine16.simps cosine8.simps hsum_zero Let_def)

section \<open>Properties of the dispatched kernels\<close>

text \<open>
  Every kernel the dispatch can return is symmetric, bit for bit: for each metric, with or
  without AVX2, \<^verbatim>\<open>kernel(a, b)\<close> and \<^verbatim>\<open>kernel(b, a)\<close> give the same pattern (or both panic on
  different lengths).  Back-links computed from either end of an edge therefore carry the same
  distance.
\<close>

theorem kernel_symmetric: "kernel avx m a b = kernel avx m b a"
proof (cases "length a = length b")
  case True
  have "l2_loop f32_zero a b = l2_loop f32_zero b a"
    using l2_red.tail_loop_swap [of f32_zero a b] by (simp add: l2_tail_loop)
  moreover have "dot_loop f32_zero a b = dot_loop f32_zero b a"
    using dot_red.tail_loop_swap [of f32_zero a b] by (simp add: dot_tail_loop)
  moreover have "cosine_finish (cosine_loop (f32_zero, f32_zero, f32_zero) a b) =
      cosine_finish (cosine_loop (f32_zero, f32_zero, f32_zero) b a)"
    using cosine_loop_swap [of "(f32_zero, f32_zero, f32_zero)" b a] by (simp add: cosine_finish_swap)
  ultimately show ?thesis
    using True l2_red.reduce_swap [OF True] dot_red.reduce_swap [OF True] avx2_cosine_swap [OF True]
    by (cases avx; cases m) (simp_all add: kernel_defs avx2_l2_squared_def avx2_dot_def)
next
  case False
  then show ?thesis by (cases avx; cases m) (auto simp: kernel_defs)
qed



text \<open>
  The squared L2 distance of a finite vector to itself is exactly +0, in both
  implementations and for every dimension.
\<close>

theorem l2_self_zero:
  assumes "list_all f32_is_finite v"
  shows "kernel avx L2 v v = Some f32_zero"
proof -
  have "list_all2 (\<lambda>x y. x = y \<and> f32_is_finite x) v v"
    using assms by (simp add: list_all2_same list_all_iff)
  then show ?thesis
    using l2_self.reduce_inv [of v v] l2_loop_self [OF assms]
    by (cases avx) (simp_all add: kernel_defs avx2_l2_squared_def)
qed

lemma l2_self_zero_witness:
  "kernel True L2 (replicate 40 f32_one) (replicate 40 f32_one) = Some f32_zero"
  by (rule l2_self_zero) (simp add: list_all_iff f32_eval)

text \<open>
  On vectors of fewer than eight dimensions the AVX2 kernels take only their scalar tail
  and agree with the scalar kernels bit for bit, for every metric.
\<close>

theorem kernels_agree_below_8:
  assumes "length a < 8"
  shows "kernel True m a b = kernel False m a b"
  using assms
  by (cases m)
    (simp_all add: kernel_defs avx2_l2_squared_def avx2_dot_def reduce_small avx2_cosine_small
      l2_tail_loop dot_tail_loop)

lemma kernels_agree_below_8_witness:
  "kernel True Dot [f32_one, f32_zero, f32_one] [f32_zero, f32_one, f32_one] =
   kernel False Dot [f32_one, f32_zero, f32_one] [f32_zero, f32_one, f32_one]"
  by (rule kernels_agree_below_8) simp

text \<open>
  The cosine distance from a vector of zeros is exactly 1, as documented, as long as the
  other vector's squared norm does not overflow.
\<close>

theorem cosine_zero_norm:
  assumes "list_all (\<lambda>x. f32_eq x f32_zero) a" and "length a = length b"
    and "cosine_loop (f32_zero, f32_zero, f32_zero) a b = (ab, aa, bb)" and "f32_is_finite bb"
  shows "kernel False Cosine a b = Some f32_one"
proof -
  have "fp_mag 23 8 (f32_pat aa) = 0"
    by (rule cosine_loop_zero [OF assms(1) _ assms(3)]) (simp add: fp_mag_def)
  then show ?thesis
    using assms cosine_finish_zero by (simp add: scalar_cosine_def)
qed

lemma cosine_zero_norm_witness:
  "kernel False Cosine [f32_zero, f32_zero] [f32_zero, f32_zero] = Some f32_one"
  by (rule cosine_zero_norm [where ab = f32_zero and aa = f32_zero and bb = f32_zero])
    (simp_all add: f32_eq_zero_iff fp_mag_def f32_zero_finite)

text \<open>
  Without that bound the documented value is not returned: for \<open>[0]\<close> and \<open>[1e20]\<close> the norm
  product is zero times infinity, and the result is NaN instead of 1.
\<close>

lemma cosine_zero_norm_overflow:
  "kernel False Cosine [f32_zero] [F32 0x60AD78EC] = Some f32_nan"
proof -
  have m1: "f32_mul f32_zero (F32 0x60AD78EC) = f32_zero" by (simp add: f32_eval)
  have m2: "f32_mul (F32 0x60AD78EC) (F32 0x60AD78EC) = f32_inf" by (simp add: f32_eval)
  have a1: "f32_add f32_zero f32_inf = f32_inf" by (simp add: f32_eval)
  have m3: "f32_mul f32_zero f32_inf = f32_nan" by (simp add: f32_eval)
  have s1: "f32_sqrt f32_nan = f32_nan" by (simp add: f32_sqrt_def fp_sqrt_def f32_nan_def
        f32_pat_def f32_of_pat_def fp_is_nan_def fp_mag_def inf_mag_def nan_mag_def)
  have d1: "f32_div f32_zero f32_nan = f32_nan" by (simp add: f32_eval)
  have s2: "f32_sub f32_one f32_nan = f32_nan" by (simp add: f32_eval)
  have e1: "\<not> f32_eq f32_nan f32_zero" by (simp add: f32_eval)
  show ?thesis
    by (simp add: scalar_cosine_def cosine_finish_def m1 m2 a1 m3 s1 d1 s2 e1)
qed

end
