(* ===== verification/Store.thy ===== *)
theory Store
  imports Segments Codec Distance
begin

text \<open>
  \<^verbatim>\<open>src/vektordb-core/src/storage/store.rs\<close>: the memory-mapped vector store.  The file is its
  length and its bytes as the page cache holds them; the header and every segment are shared
  mappings, so a mapped byte is the file's byte at the mapping's offset and a store through the
  mapping changes the file at once.  \<^verbatim>\<open>OnceLock\<close> segments \<open>0 .. mapped - 1\<close> are set, the others
  are not.  The largest size the file system grants, and whether an \<^verbatim>\<open>msync\<close> succeeds, come
  from outside.
\<close>

section \<open>Files\<close>

record vfile =
  vf_len :: nat
  vf_bytes :: "nat \<Rightarrow> byte"
  vf_limit :: nat
  vf_map_limit :: nat

definition vf_read :: "vfile \<Rightarrow> nat \<Rightarrow> nat \<Rightarrow> byte list" where
  "vf_read f off n = map (vf_bytes f) [off..<off + n]"

definition vf_write :: "vfile \<Rightarrow> nat \<Rightarrow> byte list \<Rightarrow> vfile" where
  "vf_write f off bs =
     f\<lparr>vf_bytes := (\<lambda>i. if off \<le> i \<and> i < off + length bs then bs ! (i - off) else vf_bytes f i)\<rparr>"

text \<open>\<^verbatim>\<open>File::set_len\<close>: the bytes a longer file gains are zero.\<close>

definition vf_set_len :: "vfile \<Rightarrow> nat \<Rightarrow> vfile result" where
  "vf_set_len f n =
     (if vf_limit f < n then Inl (Io DeviceError)
      else Inr (f\<lparr>vf_len := n, vf_bytes := (\<lambda>i. if vf_len f \<le> i then 0 else vf_bytes f i)\<rparr>))"

text \<open>\<^verbatim>\<open>MmapOptions::map_mut\<close>: a shared mapping is the file itself; it only may be refused.\<close>

definition vf_mmap :: "vfile \<Rightarrow> nat \<Rightarrow> unit result" where
  "vf_mmap f n = ensure (n \<le> vf_map_limit f) (Io DeviceError)"

section \<open>Geometry\<close>

definition store_magic :: nat where
  "store_magic = 0x564B4442"

definition store_version :: nat where
  "store_version = 2"

definition header_size :: nat where
  "header_size = 4096"

definition base_rows :: nat where
  "base_rows = 1024"

definition max_segments :: nat where
  "max_segments = 40"

definition row_align :: nat where
  "row_align = 64"

definition off_magic :: nat where
  "off_magic = 0"

definition off_version :: nat where
  "off_version = 4"

definition off_dim :: nat where
  "off_dim = 8"

definition off_count :: nat where
  "off_count = 16"

definition off_stride :: nat where
  "off_stride = 24"

lemmas store_consts =
  store_magic_def store_version_def header_size_def base_rows_def max_segments_def row_align_def
  off_magic_def off_version_def off_dim_def off_count_def off_stride_def

definition store_locate :: "nat \<Rightarrow> nat \<times> nat" where
  "store_locate i =
     (let seg = ilog2 (i div base_rows + 1);
          first = base_rows * (2 ^ seg - 1)
      in (seg, i - first))"

definition seg_rows :: "nat \<Rightarrow> nat" where
  "seg_rows seg = base_rows * 2 ^ seg"

interpretation st_seg: doubling base_rows store_locate
  by unfold_locales (simp_all add: base_rows_def store_locate_def Let_def)

definition geometry_overflows :: error where
  "geometry_overflows = Corrupt ''store geometry overflows''"

definition seg_byte_offset :: "nat \<Rightarrow> nat \<Rightarrow> nat result" where
  "seg_byte_offset stride seg =
     rbind (ok_or (checked_mul base_rows (2 ^ seg - 1)) geometry_overflows) (\<lambda>rows_before.
     rbind (ok_or (checked_mul rows_before stride) geometry_overflows) (\<lambda>bytes_before.
     ok_or (checked_add header_size bytes_before) geometry_overflows))"

text \<open>The file is returned in either case: it stays extended when the mapping is refused.\<close>

definition map_segment :: "vfile \<Rightarrow> nat \<Rightarrow> nat \<Rightarrow> nat \<Rightarrow> bool \<Rightarrow> vfile \<times> unit result" where
  "map_segment f byte_offset rows stride grow =
     (case rbind (ok_or (checked_mul rows stride) geometry_overflows) (\<lambda>len.
           rbind (ok_or (checked_add byte_offset len) geometry_overflows) (\<lambda>upper. Inr (len, upper))) of
        Inl e \<Rightarrow> (f, Inl e)
      | Inr (len, upper) \<Rightarrow>
          if vf_len f < upper then
            if \<not> grow then (f, Inl (Corrupt ''vector store is truncated''))
            else (case vf_set_len f upper of
                    Inl e \<Rightarrow> (f, Inl e)
                  | Inr f' \<Rightarrow> (f', vf_mmap f' len))
          else (f, vf_mmap f len))"

section \<open>State and operations\<close>

record vstore =
  vs_file :: vfile
  vs_mapped :: nat
  vs_dim :: nat
  vs_stride :: nat
  vs_count :: nat

definition vs_len :: "vstore \<Rightarrow> nat" where
  "vs_len s = vs_count s"

function ensure_loop :: "vstore \<Rightarrow> nat \<Rightarrow> bool \<Rightarrow> vstore \<times> unit result" where
  "ensure_loop s want grow =
     (if vs_mapped s < want then
        (case seg_byte_offset (vs_stride s) (vs_mapped s) of
           Inl e \<Rightarrow> (s, Inl e)
         | Inr off \<Rightarrow>
             (case map_segment (vs_file s) off (seg_rows (vs_mapped s)) (vs_stride s) grow of
                (f, Inl e) \<Rightarrow> (s\<lparr>vs_file := f\<rparr>, Inl e)
              | (f, Inr _) \<Rightarrow> ensure_loop (s\<lparr>vs_file := f, vs_mapped := vs_mapped s + 1\<rparr>) want grow))
      else (s, Inr ()))"
  by pat_completeness auto
termination
  by (relation "measure (\<lambda>(s, want, grow). want - vs_mapped s)") auto

declare ensure_loop.simps [simp del]

definition ensure_mapped_locked :: "vstore \<Rightarrow> nat \<Rightarrow> bool \<Rightarrow> vstore \<times> unit result" where
  "ensure_mapped_locked s want grow =
     (if max_segments < want then (s, Inl (Corrupt ''store exceeds maximum size''))
      else ensure_loop s want grow)"

text \<open>What \<^verbatim>\<open>OpenOptions\<close> with \<^verbatim>\<open>truncate\<close> leaves.\<close>

definition empty_file :: "nat \<Rightarrow> nat \<Rightarrow> vfile" where
  "empty_file limit map_limit =
     \<lparr>vf_len = 0, vf_bytes = (\<lambda>_. 0), vf_limit = limit, vf_map_limit = map_limit\<rparr>"

definition write_header :: "vfile \<Rightarrow> nat \<Rightarrow> nat \<Rightarrow> vfile" where
  "write_header f dim stride =
     (let f1 = vf_write f off_magic (le_bytes 4 store_magic);
          f2 = vf_write f1 off_version (le_bytes 4 store_version);
          f3 = vf_write f2 off_dim (le_bytes 4 dim);
          f4 = vf_write f3 off_count (le_bytes 8 0)
      in vf_write f4 off_stride (le_bytes 8 stride))"

definition vs_create :: "nat \<Rightarrow> nat \<Rightarrow> nat \<Rightarrow> vstore result" where
  "vs_create limit map_limit dim =
     rbind (ensure (\<not> (dim = 0 \<or> 2 ^ 32 - 1 < dim))
        (InvalidArgument ''dimension must be in 1..=u32::MAX'')) (\<lambda>_.
     rbind (ok_or (checked_mul dim 4) (InvalidArgument ''dimension is too large'')) (\<lambda>row_bytes.
     rbind (ok_or (checked_next_multiple row_bytes row_align) (InvalidArgument ''dimension is too large'')) (\<lambda>stride.
     rbind (vf_set_len (empty_file limit map_limit) header_size) (\<lambda>f.
     rbind (vf_mmap f header_size) (\<lambda>_.
     let s = \<lparr>vs_file = write_header f dim stride, vs_mapped = 0, vs_dim = dim,
              vs_stride = stride, vs_count = 0\<rparr>
     in case ensure_mapped_locked s 1 True of
          (s', Inl e) \<Rightarrow> Inl e
        | (s', Inr _) \<Rightarrow> Inr s')))))"

definition bad_geometry :: error where
  "bad_geometry = Corrupt ''inconsistent header geometry''"

definition vs_open :: "vfile \<Rightarrow> vstore result" where
  "vs_open f =
     rbind (ensure (header_size \<le> vf_len f) (Corrupt ''file smaller than header'')) (\<lambda>_.
     rbind (vf_mmap f header_size) (\<lambda>_.
     rbind (ensure (le_val (vf_read f off_magic 4) = store_magic) (Corrupt ''bad magic'')) (\<lambda>_.
     rbind (ensure (le_val (vf_read f off_version 4) = store_version) (Corrupt ''unsupported version'')) (\<lambda>_.
     let dim = le_val (vf_read f off_dim 4);
         stride = le_val (vf_read f off_stride 8);
         count = le_val (vf_read f off_count 8)
     in rbind (ok_or (checked_mul dim 4) bad_geometry) (\<lambda>row_bytes.
     rbind (ensure (\<not> (dim = 0 \<or> stride < row_bytes \<or> stride mod row_align \<noteq> 0)) bad_geometry) (\<lambda>_.
     let s = \<lparr>vs_file = f, vs_mapped = 0, vs_dim = dim, vs_stride = stride, vs_count = count\<rparr>;
         needed = (if count = 0 then 1 else fst (store_locate (count - 1)) + 1)
     in case ensure_mapped_locked s needed False of
          (s', Inl e) \<Rightarrow> Inl e
        | (s', Inr _) \<Rightarrow> Inr s'))))))"

text \<open>Where row \<open>i\<close> begins: its segment's mapping offset, then whole strides.\<close>

definition row_addr :: "vstore \<Rightarrow> nat \<Rightarrow> nat" where
  "row_addr s i =
     (case store_locate i of (seg, row) \<Rightarrow>
        header_size + base_rows * (2 ^ seg - 1) * vs_stride s + row * vs_stride s)"

definition vs_append :: "vstore \<Rightarrow> f32 list \<Rightarrow> vstore \<times> nat result" where
  "vs_append s v =
     (if length v \<noteq> vs_dim s then (s, Inl (DimensionMismatch (vs_dim s) (length v)))
      else
        let i = vs_count s
        in case ensure_mapped_locked s (fst (store_locate i) + 1) True of
             (s', Inl e) \<Rightarrow> (s', Inl e)
           | (s', Inr _) \<Rightarrow>
               (s'\<lparr>vs_file := vf_write (vs_file s') (row_addr s' i) (f32s_bytes v),
                   vs_count := i + 1\<rparr>, Inr i))"

definition vs_rollback_last :: "vstore \<Rightarrow> nat \<Rightarrow> vstore \<times> unit result" where
  "vs_rollback_last s i =
     (if vs_count s \<noteq> i + 1 then
        (s, Inl (Corrupt (''cannot roll back store id '' @ show_nat i @ '' at count '' @
                   show_nat (vs_count s))))
      else (s\<lparr>vs_count := i\<rparr>, Inr ()))"

definition vs_get_unchecked :: "vstore \<Rightarrow> nat \<Rightarrow> f32 list" where
  "vs_get_unchecked s i = bytes_f32s (vf_read (vs_file s) (row_addr s i) (4 * vs_dim s))"

definition vs_get :: "vstore \<Rightarrow> nat \<Rightarrow> f32 list result" where
  "vs_get s i =
     (if vs_count s \<le> i then Inl (IdOutOfRange i) else Inr (vs_get_unchecked s i))"

definition vs_flush :: "vstore \<Rightarrow> bool \<Rightarrow> vstore \<times> unit result" where
  "vs_flush s msync_ok =
     (s\<lparr>vs_file := vf_write (vs_file s) off_count (le_bytes 8 (vs_count s))\<rparr>,
      if msync_ok then Inr () else Inl (Io DeviceError))"


section \<open>Reading and writing bytes\<close>

lemma length_vf_read [simp]: "length (vf_read f off n) = n"
  by (simp add: vf_read_def)

lemma vf_write_simps [simp]:
  "vf_len (vf_write f off bs) = vf_len f"
  "vf_limit (vf_write f off bs) = vf_limit f"
  "vf_map_limit (vf_write f off bs) = vf_map_limit f"
  by (simp_all add: vf_write_def)

lemma vf_read_cong:
  "(\<And>i. off \<le> i \<Longrightarrow> i < off + n \<Longrightarrow> vf_bytes f i = vf_bytes g i) \<Longrightarrow> vf_read f off n = vf_read g off n"
  by (simp add: vf_read_def)

lemma vf_read_write_same [simp]: "length bs = n \<Longrightarrow> vf_read (vf_write f off bs) off n = bs"
  by (rule list_eq_by_nth) (simp_all add: vf_read_def vf_write_def)

lemma vf_read_write_other:
  "off + n \<le> off' \<or> off' + length bs \<le> off \<Longrightarrow> vf_read (vf_write f off' bs) off n = vf_read f off n"
  by (rule vf_read_cong) (auto simp: vf_write_def)

section \<open>The invariant\<close>

text \<open>Segment \<open>k\<close> lies inside the file, its end is a \<^verbatim>\<open>u64\<close>, and its mapping was granted.\<close>

definition seg_fits :: "vfile \<Rightarrow> nat \<Rightarrow> nat \<Rightarrow> bool" where
  "seg_fits f stride k \<longleftrightarrow>
     header_size + seg_first base_rows (Suc k) * stride \<le> vf_len f \<and>
     header_size + seg_first base_rows (Suc k) * stride < u64_limit \<and>
     seg_rows k * stride \<le> vf_map_limit f"

definition header_ok :: "vfile \<Rightarrow> nat \<Rightarrow> nat \<Rightarrow> bool" where
  "header_ok f dim stride \<longleftrightarrow>
     header_size \<le> vf_len f \<and> header_size \<le> vf_map_limit f \<and>
     le_val (vf_read f off_magic 4) = store_magic \<and>
     le_val (vf_read f off_version 4) = store_version \<and>
     le_val (vf_read f off_dim 4) = dim \<and> le_val (vf_read f off_stride 8) = stride"

definition header_count :: "vfile \<Rightarrow> nat" where
  "header_count f = le_val (vf_read f off_count 8)"

definition geometry_ok :: "vstore \<Rightarrow> bool" where
  "geometry_ok s \<longleftrightarrow>
     1 \<le> vs_dim s \<and> vs_dim s < 2 ^ 32 \<and> 4 * vs_dim s \<le> vs_stride s \<and> row_align dvd vs_stride s \<and>
     vs_mapped s \<le> max_segments \<and>
     header_ok (vs_file s) (vs_dim s) (vs_stride s) \<and>
     (\<forall>k<vs_mapped s. seg_fits (vs_file s) (vs_stride s) k)"

text \<open>
  The store's invariant: a sound geometry, and both the live count and the flushed count lie in
  the mapped segments.
\<close>

definition vs_inv :: "vstore \<Rightarrow> bool" where
  "vs_inv s \<longleftrightarrow>
     geometry_ok s \<and> 1 \<le> vs_mapped s \<and>
     vs_count s \<le> seg_first base_rows (vs_mapped s) \<and>
     header_count (vs_file s) \<le> seg_first base_rows (vs_mapped s)"

text \<open>What the store promises its callers: the vectors appended so far.\<close>

definition vs_vectors :: "vstore \<Rightarrow> f32 list list" where
  "vs_vectors s = map (vs_get_unchecked s) [0..<vs_count s]"

lemma length_vs_vectors [simp]: "length (vs_vectors s) = vs_count s"
  by (simp add: vs_vectors_def)

lemma vs_vectors_nth [simp]: "i < vs_count s \<Longrightarrow> vs_vectors s ! i = vs_get_unchecked s i"
  by (simp add: vs_vectors_def)

subsection \<open>Where rows are\<close>

lemma row_addr_eq: "row_addr s i = header_size + i * vs_stride s"
proof -
  obtain seg row where l: "store_locate i = (seg, row)" by (cases "store_locate i")
  have i: "i = seg_first base_rows seg + row" by (rule st_seg.locate_bounds(1) [OF l])
  have "row_addr s i = header_size + seg_first base_rows seg * vs_stride s + row * vs_stride s"
    unfolding row_addr_def l seg_first_def by simp
  also have "\<dots> = header_size + i * vs_stride s" by (simp only: i distrib_right add.assoc)
  finally show ?thesis .
qed

lemma row_in_file:
  assumes "geometry_ok s" and "i < seg_first base_rows (vs_mapped s)"
  shows "row_addr s i + vs_stride s \<le> vf_len (vs_file s)"
    and "row_addr s i + vs_stride s < u64_limit"
proof -
  obtain k where k: "vs_mapped s = Suc k" using assms(2) by (cases "vs_mapped s") simp_all
  have "Suc i * vs_stride s \<le> seg_first base_rows (Suc k) * vs_stride s"
    using assms(2) k by (intro mult_le_mono1) simp
  moreover have "seg_fits (vs_file s) (vs_stride s) k" using assms(1) k by (simp add: geometry_ok_def)
  ultimately show "row_addr s i + vs_stride s \<le> vf_len (vs_file s)"
    and "row_addr s i + vs_stride s < u64_limit"
    by (auto simp: row_addr_eq seg_fits_def)
qed

lemma rows_disjoint: "i < j \<Longrightarrow> row_addr s i + vs_stride s \<le> row_addr s j"
  using mult_le_mono1 [of "Suc i" j "vs_stride s"] by (simp add: row_addr_eq)

subsection \<open>Mapping more segments\<close>

text \<open>What growing a file keeps: everything below its old length.\<close>

definition vf_extends :: "vfile \<Rightarrow> vfile \<Rightarrow> bool" where
  "vf_extends f g \<longleftrightarrow>
     vf_len f \<le> vf_len g \<and> vf_limit g = vf_limit f \<and> vf_map_limit g = vf_map_limit f \<and>
     (\<forall>i<vf_len f. vf_bytes g i = vf_bytes f i)"

lemma vf_extends_refl [simp]: "vf_extends f f"
  by (simp add: vf_extends_def)

lemma vf_extends_trans: "vf_extends f g \<Longrightarrow> vf_extends g h \<Longrightarrow> vf_extends f h"
  by (simp add: vf_extends_def)

lemma vf_extends_read: "vf_extends f g \<Longrightarrow> off + n \<le> vf_len f \<Longrightarrow> vf_read g off n = vf_read f off n"
  by (rule vf_read_cong) (simp add: vf_extends_def)

lemma header_ok_extends: "vf_extends f g \<Longrightarrow> header_ok f d st \<Longrightarrow> header_ok g d st"
  by (auto simp: header_ok_def vf_extends_read store_consts) (simp_all add: vf_extends_def)

lemma header_count_extends: "vf_extends f g \<Longrightarrow> header_size \<le> vf_len f \<Longrightarrow> header_count g = header_count f"
  by (simp add: header_count_def vf_extends_read store_consts)

lemma seg_fits_extends: "vf_extends f g \<Longrightarrow> seg_fits f st k \<Longrightarrow> seg_fits g st k"
  by (auto simp: seg_fits_def vf_extends_def)

lemma map_segment_extends: "map_segment f off rows st grow = (g, r) \<Longrightarrow> vf_extends f g"
  by (auto simp: map_segment_def vf_set_len_def vf_extends_def split: sum.splits if_splits prod.splits)

lemma map_segment_no_grow: "map_segment f off rows st False = (g, r) \<Longrightarrow> g = f"
  by (auto simp: map_segment_def split: sum.splits if_splits prod.splits)

lemma map_segment_Inr:
  "map_segment f off rows st grow = (g, Inr u) \<Longrightarrow>
     off + rows * st \<le> vf_len g \<and> off + rows * st < u64_limit \<and> rows * st \<le> vf_map_limit g"
  by (auto simp: map_segment_def vf_set_len_def vf_mmap_def result_simps checked_mul_Some checked_add_Some
      rbind_eq_Inl ensure_eq_Inl
      split: sum.splits if_splits prod.splits)

lemma map_segment_fits:
  "seg_fits f st k \<Longrightarrow> off = header_size + seg_first base_rows k * st \<Longrightarrow>
     map_segment f off (seg_rows k) st grow = (f, Inr ())"
  by (auto simp: seg_fits_def map_segment_def vf_mmap_def checked_mul_def checked_add_def seg_rows_def
      seg_first_Suc algebra_simps)

lemma seg_byte_offset_Inr:
  "seg_byte_offset st k = Inr off \<Longrightarrow> off = header_size + seg_first base_rows k * st"
  by (auto simp: seg_byte_offset_def result_simps checked_mul_Some checked_add_Some seg_first_def)

lemma seg_byte_offset_fits:
  assumes "seg_fits f st k" and "0 < st"
  shows "seg_byte_offset st k = Inr (header_size + seg_first base_rows k * st)"
proof -
  let ?a = "seg_first base_rows k"
  have le: "?a * st \<le> seg_first base_rows (Suc k) * st"
    by (intro mult_le_mono1) (simp add: seg_first_Suc)
  have "header_size + seg_first base_rows (Suc k) * st < u64_limit"
    using assms(1) unfolding seg_fits_def by blast
  with le have *: "header_size + ?a * st < u64_limit" by linarith
  moreover have "?a \<le> ?a * st" using assms(2) by simp
  ultimately have "?a < u64_limit" and "?a * st < u64_limit" by linarith+
  then show ?thesis
    using * by (simp add: seg_byte_offset_def checked_mul_def checked_add_def seg_first_def)
qed

lemma ensure_loop_spec:
  assumes "geometry_ok s"
  shows "ensure_loop s want grow = (s', r) \<Longrightarrow> want \<le> max_segments \<Longrightarrow>
    geometry_ok s' \<and> vf_extends (vs_file s) (vs_file s') \<and> (grow \<or> vs_file s' = vs_file s) \<and>
    vs_dim s' = vs_dim s \<and> vs_stride s' = vs_stride s \<and> vs_count s' = vs_count s \<and>
    vs_mapped s \<le> vs_mapped s' \<and> (r = Inr () \<longrightarrow> want \<le> vs_mapped s')"
  using assms
proof (induction s want grow rule: ensure_loop.induct)
  case (1 s want grow)
  let ?k = "vs_mapped s"
  show ?case
  proof (cases "?k < want")
    case False
    with "1.prems" show ?thesis by (auto simp: ensure_loop.simps)
  next
    case less: True
    show ?thesis
    proof (cases "seg_byte_offset (vs_stride s) ?k")
      case (Inl e)
      with "1.prems" less show ?thesis by (auto simp: ensure_loop.simps)
    next
      case off: (Inr off)
      obtain f q where m: "map_segment (vs_file s) off (seg_rows ?k) (vs_stride s) grow = (f, q)"
        by fastforce
      have ext: "vf_extends (vs_file s) f" using m by (rule map_segment_extends)
      have same: "grow \<or> f = vs_file s" using m map_segment_no_grow by (cases grow) auto
      have geo: "geometry_ok (s\<lparr>vs_file := f\<rparr>)"
        using "1.prems"(3) ext by (auto simp: geometry_ok_def header_ok_extends seg_fits_extends)
      show ?thesis
      proof (cases q)
        case (Inl e)
        then have "s' = s\<lparr>vs_file := f\<rparr>" "r = Inl e"
          using "1.prems"(1) less off m by (simp_all add: ensure_loop.simps [of s])
        with geo ext same show ?thesis by simp
      next
        case (Inr u)
        let ?s = "s\<lparr>vs_file := f, vs_mapped := ?k + 1\<rparr>"
        have "seg_fits f (vs_stride s) ?k"
          using map_segment_Inr [OF m [unfolded Inr]] seg_byte_offset_Inr [OF off]
          by (simp add: seg_fits_def seg_first_Suc seg_rows_def distrib_right)
        then have g: "geometry_ok ?s"
          using geo less "1.prems"(2) by (auto simp: geometry_ok_def less_Suc_eq)
        have e: "ensure_loop ?s want grow = (s', r)"
          using "1.prems"(1) less off m Inr by (simp add: ensure_loop.simps [of s])
        have IH: "geometry_ok s' \<and> vf_extends (vs_file ?s) (vs_file s') \<and>
            (grow \<or> vs_file s' = vs_file ?s) \<and>
            vs_dim s' = vs_dim ?s \<and> vs_stride s' = vs_stride ?s \<and> vs_count s' = vs_count ?s \<and>
            vs_mapped ?s \<le> vs_mapped s' \<and> (r = Inr () \<longrightarrow> want \<le> vs_mapped s')"
          by (rule "1.IH" [OF less off m [symmetric, unfolded Inr] refl e "1.prems"(2) g])
        then show ?thesis using ext same vf_extends_trans by auto
      qed
    qed
  qed
qed

lemma ensure_mapped_spec:
  assumes "geometry_ok s" and "ensure_mapped_locked s want grow = (s', r)"
  shows "geometry_ok s' \<and> vf_extends (vs_file s) (vs_file s') \<and> (grow \<or> vs_file s' = vs_file s) \<and>
    vs_dim s' = vs_dim s \<and> vs_stride s' = vs_stride s \<and> vs_count s' = vs_count s \<and>
    vs_mapped s \<le> vs_mapped s' \<and> (r = Inr () \<longrightarrow> want \<le> vs_mapped s')"
  using assms ensure_loop_spec [OF assms(1), of want grow s' r]
  by (auto simp: ensure_mapped_locked_def split: if_splits)

lemma ensure_loop_fits:
  assumes "0 < vs_stride s" and "\<forall>k<want. seg_fits (vs_file s) (vs_stride s) k"
  shows "ensure_loop s want grow = (s\<lparr>vs_mapped := max want (vs_mapped s)\<rparr>, Inr ())"
  using assms
proof (induction s want grow rule: ensure_loop.induct)
  case (1 s want grow)
  let ?k = "vs_mapped s"
  show ?case
  proof (cases "?k < want")
    case False
    then show ?thesis by (simp add: ensure_loop.simps max_def)
  next
    case less: True
    have fits: "seg_fits (vs_file s) (vs_stride s) ?k" using "1.prems"(2) less by simp
    note off = seg_byte_offset_fits [OF fits "1.prems"(1)]
    note m = map_segment_fits [OF fits refl, of grow]
    have "ensure_loop s want grow = ensure_loop (s\<lparr>vs_mapped := Suc ?k\<rparr>) want grow"
      using less by (simp add: ensure_loop.simps [of s] off m)
    moreover have "ensure_loop (s\<lparr>vs_file := vs_file s, vs_mapped := vs_mapped s + 1\<rparr>) want grow =
        (s\<lparr>vs_file := vs_file s, vs_mapped := vs_mapped s + 1\<rparr>
           \<lparr>vs_mapped := max want (vs_mapped (s\<lparr>vs_file := vs_file s, vs_mapped := vs_mapped s + 1\<rparr>))\<rparr>,
         Inr ())"
      by (rule "1.IH" [OF less off m [symmetric] refl]) (use "1.prems" in simp_all)
    ultimately show ?thesis using less by (simp add: max_def)
  qed
qed

subsection \<open>Reading rows\<close>

lemma vs_inv_row_read:
  assumes "geometry_ok s" "i < seg_first base_rows (vs_mapped s)"
    and "vf_extends (vs_file s) (vs_file s')" "vs_dim s' = vs_dim s" "vs_stride s' = vs_stride s"
  shows "vs_get_unchecked s' i = vs_get_unchecked s i"
proof -
  have "4 * vs_dim s \<le> vs_stride s" using assms(1) by (simp add: geometry_ok_def)
  then have "row_addr s i + 4 * vs_dim s \<le> vf_len (vs_file s)"
    using row_in_file(1) [OF assms(1,2)] by linarith
  then show ?thesis
    using vf_extends_read [OF assms(3)] assms(4,5) by (simp add: vs_get_unchecked_def row_addr_eq)
qed

lemma vs_vectors_extends:
  assumes "geometry_ok s" "vs_count s \<le> seg_first base_rows (vs_mapped s)"
    and "vf_extends (vs_file s) (vs_file s')" "vs_dim s' = vs_dim s" "vs_stride s' = vs_stride s"
    and "vs_count s' = vs_count s"
  shows "vs_vectors s' = vs_vectors s"
  using assms vs_inv_row_read [OF assms(1) _ assms(3-5)] by (simp add: vs_vectors_def)

section \<open>The operations keep the invariant\<close>

lemma store_locate_cover: "fst (store_locate i) + 1 \<le> n \<Longrightarrow> i < seg_first base_rows n"
  using st_seg.locate_seg_less [of i n] by simp

lemma row_write_header:
  assumes "header_ok f d st" "header_size \<le> off"
  shows "header_ok (vf_write f off bs) d st" and "header_count (vf_write f off bs) = header_count f"
  using assms by (auto simp: header_ok_def header_count_def vf_read_write_other store_consts)

lemma seg_fits_write [simp]: "seg_fits (vf_write f off bs) st k = seg_fits f st k"
  by (simp add: seg_fits_def)

lemma get_row_write:
  assumes g: "geometry_ok s" and v: "length v = vs_dim s"
  shows "vs_get_unchecked (s\<lparr>vs_file := vf_write (vs_file s) (row_addr s i) (f32s_bytes v), vs_count := c\<rparr>) j =
     (if j = i then v else vs_get_unchecked s j)"
proof (cases "j = i")
  case True
  then show ?thesis using v by (simp add: vs_get_unchecked_def row_addr_eq)
next
  case False
  have d: "4 * vs_dim s \<le> vs_stride s" using g by (simp add: geometry_ok_def)
  have "row_addr s j + vs_stride s \<le> row_addr s i \<or> row_addr s i + vs_stride s \<le> row_addr s j"
    using False rows_disjoint by (meson nat_neq_iff)
  then have "row_addr s j + 4 * vs_dim s \<le> row_addr s i \<or>
      row_addr s i + length (f32s_bytes v) \<le> row_addr s j"
    using d v by auto
  then show ?thesis using False
    by (simp add: vs_get_unchecked_def row_addr_eq vf_read_write_other)
qed

lemma vs_append_spec:
  assumes inv: "vs_inv s" and app: "vs_append s v = (s', r)"
  shows "vs_inv s' \<and> vs_dim s' = vs_dim s \<and> header_count (vs_file s') = header_count (vs_file s) \<and>
     (case r of
        Inr i \<Rightarrow> length v = vs_dim s \<and> i = vs_count s \<and> vs_vectors s' = vs_vectors s @ [v]
      | Inl e \<Rightarrow> vs_vectors s' = vs_vectors s)"
proof (cases "length v = vs_dim s")
  case False
  with assms show ?thesis by (auto simp: vs_append_def)
next
  case len: True
  let ?i = "vs_count s"
  obtain t q where m: "ensure_mapped_locked s (fst (store_locate ?i) + 1) True = (t, q)"
    by fastforce
  have g: "geometry_ok s" and cap: "?i \<le> seg_first base_rows (vs_mapped s)"
    and hcap: "header_count (vs_file s) \<le> seg_first base_rows (vs_mapped s)" and m1: "1 \<le> vs_mapped s"
    using inv by (simp_all add: vs_inv_def)
  have T: "geometry_ok t" "vf_extends (vs_file s) (vs_file t)" "vs_dim t = vs_dim s"
    "vs_stride t = vs_stride s" "vs_count t = ?i" "vs_mapped s \<le> vs_mapped t"
    "q = Inr () \<longrightarrow> fst (store_locate ?i) + 1 \<le> vs_mapped t"
    using ensure_mapped_spec [OF g m] by simp_all
  have hs: "header_size \<le> vf_len (vs_file s)" using g by (simp add: geometry_ok_def header_ok_def)
  have hc: "header_count (vs_file t) = header_count (vs_file s)"
    by (rule header_count_extends [OF T(2) hs])
  have mono: "seg_first base_rows (vs_mapped s) \<le> seg_first base_rows (vs_mapped t)"
    by (rule seg_first_mono [OF T(6)])
  have vec: "vs_vectors t = vs_vectors s"
    by (rule vs_vectors_extends [OF g cap T(2,3,4,5)])
  show ?thesis
  proof (cases q)
    case (Inl e)
    then have "s' = t" "r = Inl e" using app len m by (simp_all add: vs_append_def Let_def)
    with T hc mono cap hcap m1 vec show ?thesis by (auto simp: vs_inv_def)
  next
    case (Inr u)
    let ?a = "row_addr t ?i"
    have s': "s' = t\<lparr>vs_file := vf_write (vs_file t) ?a (f32s_bytes v), vs_count := Suc ?i\<rparr>"
      and r: "r = Inr ?i"
      using app len m Inr by (simp_all add: vs_append_def Let_def)
    have a: "header_size \<le> ?a" by (simp add: row_addr_eq)
    have hok: "header_ok (vs_file t) (vs_dim t) (vs_stride t)" using T(1) by (simp add: geometry_ok_def)
    have cov: "?i < seg_first base_rows (vs_mapped t)" using T(7) Inr store_locate_cover by simp
    have "vs_inv s'"
      using T(1) m1 T(6) hc hcap mono cov
      by (auto simp: s' vs_inv_def geometry_ok_def row_write_header [OF hok a])
    moreover have "vs_vectors s' = vs_vectors s @ [v]"
    proof -
      have gv: "vs_get_unchecked s' j = (if j = ?i then v else vs_get_unchecked t j)" for j
        using get_row_write [OF T(1), where v = v and i = ?i and c = "Suc ?i"] len T(3) by (simp add: s')
      have "vs_vectors s' = map (vs_get_unchecked s') [0..<?i] @ [v]"
        using gv by (simp add: vs_vectors_def s')
      also have "map (vs_get_unchecked s') [0..<?i] = vs_vectors t"
        using gv by (simp add: vs_vectors_def T(5))
      finally show ?thesis by (simp add: vec)
    qed
    ultimately show ?thesis
      using r hc len T(3) row_write_header(2) [OF hok a] by (simp add: s')
  qed
qed

lemma vs_append_ok:
  assumes inv: "vs_inv s" and len: "length v = vs_dim s"
    and room: "vs_count s < seg_first base_rows (vs_mapped s)"
  shows "\<exists>s'. vs_append s v = (s', Inr (vs_count s)) \<and> vs_file s' =
     vf_write (vs_file s) (row_addr s (vs_count s)) (f32s_bytes v) \<and> vs_mapped s' = vs_mapped s"
proof -
  have need: "fst (store_locate (vs_count s)) + 1 \<le> vs_mapped s"
    using st_seg.locate_seg_less [of "vs_count s" "vs_mapped s"] room by simp
  then have "fst (store_locate (vs_count s)) + 1 \<le> max_segments"
    using inv by (simp add: vs_inv_def geometry_ok_def)
  then have "ensure_mapped_locked s (fst (store_locate (vs_count s)) + 1) True = (s, Inr ())"
    using need by (simp add: ensure_mapped_locked_def ensure_loop.simps)
  then show ?thesis using len by (simp add: vs_append_def Let_def)
qed

text \<open>The room for one more segment: left in the store, in the file system and in the address space.\<close>

definition can_grow :: "vstore \<Rightarrow> bool" where
  "can_grow s \<longleftrightarrow>
     vs_mapped s < max_segments \<and>
     header_size + seg_first base_rows (Suc (vs_mapped s)) * vs_stride s \<le> vf_limit (vs_file s) \<and>
     header_size + seg_first base_rows (Suc (vs_mapped s)) * vs_stride s < u64_limit \<and>
     seg_rows (vs_mapped s) * vs_stride s \<le> vf_map_limit (vs_file s)"

text \<open>An append into rows the file already has room for succeeds, mapping what it needs.\<close>

lemma vs_append_fits:
  assumes inv: "vs_inv s" and len: "length v = vs_dim s"
    and m: "vs_count s < seg_first base_rows m" "m \<le> max_segments"
    and fits: "\<forall>k<m. seg_fits (vs_file s) (vs_stride s) k"
  shows "\<exists>s'. vs_append s v = (s', Inr (vs_count s)) \<and> vs_stride s' = vs_stride s \<and>
     (\<forall>k<m. seg_fits (vs_file s') (vs_stride s) k)"
proof -
  let ?want = "fst (store_locate (vs_count s)) + 1"
  have want: "?want \<le> m" using st_seg.locate_seg_less [of "vs_count s" m] m(1) by simp
  have "0 < vs_stride s" using inv by (auto simp: vs_inv_def geometry_ok_def)
  then have "ensure_loop s ?want True = (s\<lparr>vs_mapped := max ?want (vs_mapped s)\<rparr>, Inr ())"
    using fits want by (intro ensure_loop_fits) auto
  then have "ensure_mapped_locked s ?want True = (s\<lparr>vs_mapped := max ?want (vs_mapped s)\<rparr>, Inr ())"
    using want m(2) by (simp add: ensure_mapped_locked_def)
  then show ?thesis using len fits by (simp add: vs_append_def Let_def)
qed

lemma map_segment_grows:
  assumes "can_grow s"
  shows "\<exists>g. map_segment (vs_file s) (header_size + seg_first base_rows (vs_mapped s) * vs_stride s)
     (seg_rows (vs_mapped s)) (vs_stride s) True = (g, Inr ())"
proof -
  let ?a = "header_size + seg_first base_rows (vs_mapped s) * vs_stride s"
    and ?l = "seg_rows (vs_mapped s) * vs_stride s"
  have e: "header_size + seg_first base_rows (Suc (vs_mapped s)) * vs_stride s = ?a + ?l"
    by (simp add: seg_first_Suc seg_rows_def distrib_right)
  have "?a + ?l \<le> vf_limit (vs_file s)" "?a + ?l < u64_limit" "?l \<le> vf_map_limit (vs_file s)"
    using assms unfolding can_grow_def e by blast+
  moreover from this(2) have "?l < u64_limit" by linarith
  ultimately show ?thesis
    by (simp add: map_segment_def vf_set_len_def vf_mmap_def checked_mul_def checked_add_def not_less)
qed

lemma vs_append_grows:
  assumes inv: "vs_inv s" and len: "length v = vs_dim s"
    and full: "vs_count s = seg_first base_rows (vs_mapped s)" and g: "can_grow s"
  shows "\<exists>s'. vs_append s v = (s', Inr (vs_count s))"
proof -
  let ?m = "vs_mapped s"
  have loc: "fst (store_locate (vs_count s)) = ?m"
    using st_seg.locate_unique [of "vs_count s" ?m 0] full by (simp add: base_rows_def)
  have "0 < vs_stride s" using inv by (simp add: vs_inv_def geometry_ok_def)
  have e: "header_size + seg_first base_rows (Suc ?m) * vs_stride s < u64_limit"
    using g unfolding can_grow_def by blast
  have "seg_first base_rows ?m * vs_stride s \<le> seg_first base_rows (Suc ?m) * vs_stride s"
    by (intro mult_le_mono1) (simp add: seg_first_Suc)
  with e have lt: "header_size + seg_first base_rows ?m * vs_stride s < u64_limit" by linarith
  moreover have "seg_first base_rows ?m \<le> seg_first base_rows ?m * vs_stride s"
    using \<open>0 < vs_stride s\<close> by simp
  ultimately have "seg_first base_rows ?m < u64_limit" "seg_first base_rows ?m * vs_stride s < u64_limit"
    by linarith+
  with lt have off: "seg_byte_offset (vs_stride s) ?m = Inr (header_size + seg_first base_rows ?m * vs_stride s)"
    by (simp add: seg_byte_offset_def checked_mul_def checked_add_def seg_first_def)
  obtain f where f: "map_segment (vs_file s) (header_size + seg_first base_rows ?m * vs_stride s)
     (seg_rows ?m) (vs_stride s) True = (f, Inr ())"
    using map_segment_grows [OF g] by blast
  have "ensure_mapped_locked s (Suc ?m) True = (s\<lparr>vs_file := f, vs_mapped := Suc ?m\<rparr>, Inr ())"
    using g off f by (simp add: ensure_mapped_locked_def can_grow_def ensure_loop.simps)
  then show ?thesis using len loc by (simp add: vs_append_def Let_def)
qed

lemma vs_rollback_spec:
  assumes "vs_inv s" and "vs_append s v = (t, Inr i)"
  shows "vs_rollback_last t i = (t\<lparr>vs_count := i\<rparr>, Inr ()) \<and> vs_inv (t\<lparr>vs_count := i\<rparr>) \<and>
     vs_vectors (t\<lparr>vs_count := i\<rparr>) = vs_vectors s"
proof -
  have A: "vs_inv t" "i = vs_count s" "vs_vectors t = vs_vectors s @ [v]"
    using vs_append_spec [OF assms] by simp_all
  have c: "vs_count t = Suc i" using arg_cong [OF A(3), of length] A(2) by simp
  have "vs_vectors (t\<lparr>vs_count := i\<rparr>) = butlast (vs_vectors t)"
    by (simp add: vs_vectors_def c vs_get_unchecked_def row_addr_def)
  then show ?thesis
    using A c by (simp add: vs_rollback_last_def vs_inv_def geometry_ok_def)
qed

lemma vs_get_spec:
  "vs_get s i = (if i < length (vs_vectors s) then Inr (vs_vectors s ! i) else Inl (IdOutOfRange i))"
  by (simp add: vs_get_def)

section \<open>Create, flush and open\<close>

lemma vs_flush_spec:
  assumes inv: "vs_inv s" and fl: "vs_flush s ok = (s', r)"
  shows "vs_inv s' \<and> vs_vectors s' = vs_vectors s \<and> vs_dim s' = vs_dim s \<and> vs_count s' = vs_count s \<and>
     header_count (vs_file s') = vs_count s"
proof -
  let ?f = "vf_write (vs_file s) off_count (le_bytes 8 (vs_count s))"
  have s': "s' = s\<lparr>vs_file := ?f\<rparr>" using fl by (simp add: vs_flush_def)
  have g: "geometry_ok s" and cap: "vs_count s \<le> seg_first base_rows (vs_mapped s)" and m: "1 \<le> vs_mapped s"
    using inv by (simp_all add: vs_inv_def)
  have d: "1 \<le> vs_stride s" "4 * vs_dim s \<le> vs_stride s" using g by (simp_all add: geometry_ok_def)
  have "vs_count s < u64_limit"
  proof -
    obtain k where k: "vs_mapped s = Suc k" using m by (cases "vs_mapped s") simp_all
    have "seg_fits (vs_file s) (vs_stride s) k" using g k by (simp add: geometry_ok_def)
    then have "seg_first base_rows (Suc k) * vs_stride s < u64_limit"
      unfolding seg_fits_def by linarith
    moreover have "vs_count s * 1 \<le> seg_first base_rows (Suc k) * vs_stride s"
      using cap k d(1) by (intro mult_le_mono) simp_all
    ultimately show ?thesis by linarith
  qed
  then have c: "header_count ?f = vs_count s" by (simp add: header_count_def u64_limit_def)
  have h: "header_ok ?f (vs_dim s) (vs_stride s)"
    using g by (auto simp: geometry_ok_def header_ok_def vf_read_write_other store_consts)
  have rows: "vs_get_unchecked s' i = vs_get_unchecked s i" for i
    by (simp add: s' vs_get_unchecked_def row_addr_eq vf_read_write_other store_consts)
  then have "vs_vectors s' = vs_vectors s" by (simp add: vs_vectors_def) (simp add: s')
  then show ?thesis
    using c h g cap m by (simp add: s' vs_inv_def geometry_ok_def)
qed

text \<open>The \<open>?\<close> after mapping: the store on success, the error otherwise.\<close>

lemma mapped_Inr:
  "(case p of (s', Inl e) \<Rightarrow> Inl e | (s', Inr (u :: unit)) \<Rightarrow> Inr s') = Inr s \<longleftrightarrow> p = (s, Inr ())"
  by (auto split: prod.splits sum.splits)

lemma read_bound: "le_val (vf_read f off n) < 256 ^ n"
  using le_val_less [of "vf_read f off n"] by simp

text \<open>Opening a file whose header is sound, with every segment the count needs in place.\<close>

lemma vs_open_ok:
  assumes h: "header_ok f d st" and d: "1 \<le> d" "4 * d \<le> st" "row_align dvd st"
    and m: "1 \<le> m" "m \<le> max_segments" and cap: "header_count f \<le> seg_first base_rows m"
    and fits: "\<forall>k<m. seg_fits f st k"
  shows "\<exists>n\<le>m. vs_open f = Inr \<lparr>vs_file = f, vs_mapped = n, vs_dim = d, vs_stride = st,
     vs_count = header_count f\<rparr> \<and> 1 \<le> n \<and> header_count f \<le> seg_first base_rows n"
proof -
  let ?c = "header_count f"
  let ?n = "if ?c = 0 then 1 else fst (store_locate (?c - 1)) + 1"
  let ?s = "\<lparr>vs_file = f, vs_mapped = 0, vs_dim = d, vs_stride = st, vs_count = ?c\<rparr>"
  have n: "?n \<le> m" "1 \<le> ?n"
    using m cap st_seg.locate_seg_less [of "?c - 1" m] by auto
  have c: "?c \<le> seg_first base_rows ?n"
    using st_seg.locate_seg_less [of "?c - 1" "fst (store_locate (?c - 1)) + 1"] by auto
  have D: "le_val (vf_read f off_dim 4) = d" "le_val (vf_read f off_stride 8) = st"
    using h by (simp_all add: header_ok_def)
  have "d < 2 ^ 32" using read_bound [of f off_dim 4] D by simp
  then have mul: "checked_mul d 4 = Some (4 * d)" by (simp add: checked_mul_def u64_limit_def)
  have e: "ensure_mapped_locked ?s ?n False = (?s\<lparr>vs_mapped := ?n\<rparr>, Inr ())"
    using ensure_loop_fits [of ?s ?n False] n m(2) d fits by (simp add: ensure_mapped_locked_def)
  have "vs_open f = Inr (?s\<lparr>vs_mapped := ?n\<rparr>)"
    using h d D mul e [unfolded header_count_def]
    by (simp del: One_nat_def split del: if_split
        add: vs_open_def Let_def header_ok_def vf_mmap_def header_count_def dvd_eq_mod_eq_0 mapped_Inr
        cong: if_cong)
  then show ?thesis using n c by auto
qed

lemma vs_open_sound:
  assumes op: "vs_open f = Inr s"
  shows "vs_inv s \<and> vs_file s = f \<and> vs_count s = header_count f"
proof -
  let ?d = "le_val (vf_read f off_dim 4)" and ?st = "le_val (vf_read f off_stride 8)"
  let ?c = "header_count f"
  let ?n = "if ?c = 0 then 1 else fst (store_locate (?c - 1)) + 1"
  let ?s = "\<lparr>vs_file = f, vs_mapped = 0, vs_dim = ?d, vs_stride = ?st, vs_count = ?c\<rparr>"
  have H: "header_ok f ?d ?st" "1 \<le> ?d" "?d * 4 \<le> ?st" "row_align dvd ?st"
    and e: "ensure_mapped_locked ?s ?n False = (s, Inr ())"
    using op
    by (auto simp: vs_open_def Let_def result_simps ensure_eq_Inr header_ok_def vf_mmap_def
        checked_mul_Some header_count_def dvd_eq_mod_eq_0 mapped_Inr)
  have g: "geometry_ok ?s"
    using H read_bound [of f off_dim 4] by (simp add: geometry_ok_def)
  note E = ensure_mapped_spec [OF g e]
  have c: "?c \<le> seg_first base_rows ?n" "1 \<le> ?n"
    using st_seg.locate_seg_less [of "?c - 1" "fst (store_locate (?c - 1)) + 1"] by auto
  have "seg_first base_rows ?n \<le> seg_first base_rows (vs_mapped s)"
    using E by (intro seg_first_mono) simp
  with c E show ?thesis by (simp add: vs_inv_def)
qed

lemma vs_open_file:
  assumes "vs_inv s"
  shows "\<exists>t. vs_open (vs_file s) = Inr t \<and> vs_inv t \<and> vs_dim t = vs_dim s \<and>
     vs_vectors t = map (vs_get_unchecked s) [0..<header_count (vs_file s)]"
proof -
  have g: "geometry_ok s" and m: "1 \<le> vs_mapped s"
    and hc: "header_count (vs_file s) \<le> seg_first base_rows (vs_mapped s)"
    using assms by (simp_all add: vs_inv_def)
  obtain n where o: "vs_open (vs_file s) = Inr \<lparr>vs_file = vs_file s, vs_mapped = n, vs_dim = vs_dim s,
      vs_stride = vs_stride s, vs_count = header_count (vs_file s)\<rparr>"
    using vs_open_ok [of "vs_file s" "vs_dim s" "vs_stride s" "vs_mapped s"] g m hc
    by (auto simp: geometry_ok_def)
  show ?thesis
    using o vs_open_sound [OF o] by (auto simp: vs_vectors_def vs_get_unchecked_def row_addr_def)
qed

lemma write_header_ok:
  assumes "dim < 2 ^ 32" "stride < 2 ^ 64" "header_size \<le> vf_len f" "header_size \<le> vf_map_limit f"
  shows "header_ok (write_header f dim stride) dim stride"
    and "header_count (write_header f dim stride) = 0"
  using assms
  by (simp_all add: header_ok_def header_count_def write_header_def Let_def vf_read_write_other store_consts)

lemma write_header_simps [simp]:
  "vf_len (write_header f d st) = vf_len f"
  "vf_limit (write_header f d st) = vf_limit f"
  "vf_map_limit (write_header f d st) = vf_map_limit f"
  by (simp_all add: write_header_def Let_def)

lemma stride_bounds:
  assumes "checked_next_multiple row_bytes row_align = Some stride" "checked_mul dim 4 = Some row_bytes"
    and "1 \<le> dim" "dim < 2 ^ 32"
  shows "4 * dim \<le> stride" "row_align dvd stride" "stride < 4 * dim + 64"
  using checked_next_multiple_Some [OF assms(1)] assms(2)
  by (auto simp: row_align_def checked_mul_Some)

lemma vs_create_sound:
  assumes "vs_create limit map_limit dim = Inr s"
  shows "vs_inv s \<and> vs_vectors s = [] \<and> vs_dim s = dim \<and> header_count (vs_file s) = 0"
proof -
  from assms obtain row_bytes stride f t where
    dim: "1 \<le> dim" "dim < 2 ^ 32"
    and rb: "checked_mul dim 4 = Some row_bytes"
    and st: "checked_next_multiple row_bytes row_align = Some stride"
    and f: "vf_set_len (empty_file limit map_limit) header_size = Inr f" "header_size \<le> vf_map_limit f"
    and t: "t = \<lparr>vs_file = write_header f dim stride, vs_mapped = 0, vs_dim = dim,
              vs_stride = stride, vs_count = 0\<rparr>"
    and e: "ensure_mapped_locked t 1 True = (s, Inr ())"
    by (auto simp: vs_create_def Let_def result_simps ensure_eq_Inr vf_mmap_def mapped_Inr)
  note S = stride_bounds [OF st rb dim]
  have len: "vf_len f = header_size"
    using f(1) by (auto simp: vf_set_len_def empty_file_def split: if_splits)
  have "stride < 2 ^ 64" using S dim by simp
  then have W: "header_ok (write_header f dim stride) dim stride" "header_count (write_header f dim stride) = 0"
    using write_header_ok [of dim stride f] dim len f(2) by simp_all
  have g: "geometry_ok t" using dim S W by (simp add: geometry_ok_def t)
  note E = ensure_mapped_spec [OF g e]
  have "header_count (vs_file s) = 0"
    using E W len header_count_extends [of "vs_file t" "vs_file s"] by (simp add: t)
  with E show ?thesis by (simp add: vs_inv_def t vs_vectors_def)
qed

lemma vs_create_ok:
  assumes dim: "1 \<le> dim" "dim < 2 ^ 32"
    and room: "header_size + base_rows * (4 * dim + 64) \<le> limit"
    and maps: "header_size + base_rows * (4 * dim + 64) \<le> map_limit"
  shows "\<exists>s. vs_create limit map_limit dim = Inr s"
proof -
  have rb: "checked_mul dim 4 = Some (4 * dim)" using dim by (simp add: checked_mul_def u64_limit_def)
  obtain stride where st: "checked_next_multiple (4 * dim) row_align = Some stride"
  proof -
    have "4 * dim + (row_align - 4 * dim mod row_align) < u64_limit"
      using dim by (simp add: row_align_def u64_limit_def)
    then have "checked_next_multiple (4 * dim) row_align \<noteq> None"
      by (simp add: checked_next_multiple_def checked_add_def)
    then show ?thesis using that by blast
  qed
  note S = stride_bounds [OF st rb dim]
  let ?f = "(empty_file limit map_limit)\<lparr>vf_len := header_size,
     vf_bytes := (\<lambda>i. if vf_len (empty_file limit map_limit) \<le> i then 0 else vf_bytes (empty_file limit map_limit) i)\<rparr>"
  let ?s = "\<lparr>vs_file = write_header ?f dim stride, vs_mapped = 0, vs_dim = dim,
              vs_stride = stride, vs_count = 0\<rparr>"
  have set: "vf_set_len (empty_file limit map_limit) header_size = Inr ?f"
    using room by (simp add: vf_set_len_def empty_file_def)
  have mm: "vf_mmap ?f header_size = Inr ()" using maps by (simp add: vf_mmap_def empty_file_def)
  have off: "seg_byte_offset stride 0 = Inr header_size"
    by (simp add: seg_byte_offset_def checked_mul_def checked_add_def u64_limit_def header_size_def)
  have len: "base_rows * stride \<le> base_rows * (4 * dim + 64)" using S by simp
  have "base_rows * (4 * dim + 64) < 2 ^ 63" using dim by (simp add: base_rows_def)
  with le_less_trans [OF len] have "base_rows * stride < 2 ^ 63" .
  then have big: "base_rows * stride < u64_limit" "header_size + base_rows * stride < u64_limit"
    by (simp_all add: u64_limit_def header_size_def)
  have fit: "header_size + base_rows * stride \<le> limit" "base_rows * stride \<le> map_limit"
    using len room maps by linarith+
  have grow: "\<exists>g. map_segment (vs_file ?s) header_size (seg_rows 0) stride True = (g, Inr ())"
    using big fit
    by (auto simp: map_segment_def seg_rows_def checked_mul_def checked_add_def vf_set_len_def vf_mmap_def
        empty_file_def)
  then obtain g where g: "map_segment (vs_file ?s) header_size (seg_rows 0) stride True = (g, Inr ())" ..
  have "ensure_mapped_locked ?s 1 True = (?s\<lparr>vs_file := g, vs_mapped := 1\<rparr>, Inr ())"
    using off g by (simp add: ensure_mapped_locked_def ensure_loop.simps max_segments_def)
  then show ?thesis
    using dim rb st set mm by (simp add: vs_create_def Let_def)
qed

section \<open>The contract\<close>

text \<open>
  What the index and the database rely on, over any representation: a store is the list of its
  vectors, an append that succeeds adds one at the end and returns its position, one that fails
  changes nothing, and a read returns what was appended.
\<close>

locale vector_store =
  fixes inv :: "'s \<Rightarrow> bool"
    and vectors :: "'s \<Rightarrow> 'v list"
    and append :: "'s \<Rightarrow> 'v \<Rightarrow> 's \<times> nat result"
    and get :: "'s \<Rightarrow> nat \<Rightarrow> 'v result"
  assumes append_inv: "inv s \<Longrightarrow> inv (fst (append s v))"
    and append_Inr: "inv s \<Longrightarrow> append s v = (s', Inr i) \<Longrightarrow>
      i = length (vectors s) \<and> vectors s' = vectors s @ [v]"
    and append_Inl: "inv s \<Longrightarrow> append s v = (s', Inl e) \<Longrightarrow> vectors s' = vectors s"
    and get_eq: "inv s \<Longrightarrow>
      get s i = (if i < length (vectors s) then Inr (vectors s ! i) else Inl (IdOutOfRange i))"
begin

fun append_all :: "'s \<Rightarrow> 'v list \<Rightarrow> 's \<times> nat result list" where
  "append_all s [] = (s, [])"
| "append_all s (v # vs) =
     (case append s v of (s', r) \<Rightarrow> case append_all s' vs of (s'', rs) \<Rightarrow> (s'', r # rs))"

lemma append_all_inv: "inv s \<Longrightarrow> append_all s vs = (t, rs) \<Longrightarrow> inv t"
proof (induction vs arbitrary: s rs)
  case Nil
  then show ?case by simp
next
  case (Cons v vs)
  obtain s' r where a: "append s v = (s', r)" by fastforce
  then have "inv s'" using append_inv [OF Cons.prems(1), of v] by simp
  with Cons a show ?case by (auto split: prod.splits)
qed

lemma append_all_prefix:
  "inv s \<Longrightarrow> append_all s vs = (t, rs) \<Longrightarrow> \<exists>ws. vectors t = vectors s @ ws"
proof (induction vs arbitrary: s rs)
  case Nil
  then show ?case by simp
next
  case (Cons v vs)
  obtain s' r where a: "append s v = (s', r)" by fastforce
  then have "inv s'" using append_inv [OF Cons.prems(1), of v] by simp
  moreover have "\<exists>w. vectors s' = vectors s @ w"
    using a append_Inr [OF Cons.prems(1)] append_Inl [OF Cons.prems(1)] by (cases r) auto
  ultimately show ?case
    using Cons a by (fastforce split: prod.splits)
qed

text \<open>A read that succeeded succeeds with the same answer after any later appends.\<close>

lemma get_stable:
  assumes "inv s" "get s i = Inr v" "append_all s vs = (t, rs)"
  shows "get t i = Inr v"
proof -
  obtain ws where "vectors t = vectors s @ ws" using append_all_prefix [OF assms(1,3)] ..
  moreover have "inv t" by (rule append_all_inv [OF assms(1,3)])
  ultimately show ?thesis
    using assms(1,2) by (auto simp: get_eq nth_append split: if_splits)
qed

lemma append_all_ok:
  "inv s \<Longrightarrow> append_all s vs = (t, map Inr is) \<Longrightarrow>
     vectors t = vectors s @ vs \<and> is = [length (vectors s)..<length (vectors s) + length vs]"
proof (induction vs arbitrary: s "is")
  case Nil
  then show ?case by simp
next
  case (Cons v vs)
  obtain s' r where a: "append s v = (s', r)" by fastforce
  with Cons.prems(2) obtain i js where r: "r = Inr i" "is = i # js" "append_all s' vs = (t, map Inr js)"
    by (auto split: prod.splits)
  have "inv s'" using append_inv [OF Cons.prems(1), of v] a by simp
  moreover have "i = length (vectors s)" "vectors s' = vectors s @ [v]"
    using append_Inr [OF Cons.prems(1)] a r by auto
  ultimately show ?case
    using Cons.IH [OF _ r(3)] r(2) by (simp add: upt_conv_Cons del: upt_Suc)
qed

end

interpretation st: vector_store vs_inv vs_vectors vs_append vs_get
proof
  fix s v i s' e
  show "vs_inv s \<Longrightarrow> vs_inv (fst (vs_append s v))"
    using vs_append_spec [of s v] by (cases "vs_append s v") auto
  show "vs_inv s \<Longrightarrow> vs_append s v = (s', Inr i) \<Longrightarrow> i = length (vs_vectors s) \<and> vs_vectors s' = vs_vectors s @ [v]"
    using vs_append_spec [of s v s' "Inr i"] by simp
  show "vs_inv s \<Longrightarrow> vs_append s v = (s', Inl e) \<Longrightarrow> vs_vectors s' = vs_vectors s"
    using vs_append_spec [of s v s' "Inl e"] by simp
  show "vs_inv s \<Longrightarrow> vs_get s i =
      (if i < length (vs_vectors s) then Inr (vs_vectors s ! i) else Inl (IdOutOfRange i))"
    by (rule vs_get_spec)
qed

section \<open>Properties\<close>

definition example_store :: vstore where
  "example_store =
     (case vs_create (2 ^ 20) (2 ^ 20) 2 of Inr s \<Rightarrow>
        fst (vs_append s [f32_one, f32_zero]))"

lemma example_created: "\<exists>s. vs_create (2 ^ 20) (2 ^ 20) 2 = Inr s"
  by (rule vs_create_ok) (simp_all add: header_size_def base_rows_def)

lemma example_store_inv: "vs_inv example_store \<and> vs_dim example_store = 2 \<and>
    vs_vectors example_store = [[f32_one, f32_zero]] \<and> header_count (vs_file example_store) = 0"
proof -
  obtain s where s: "vs_create (2 ^ 20) (2 ^ 20) 2 = Inr s" using example_created ..
  note c = vs_create_sound [OF s]
  have n: "vs_count s = 0" using c length_vs_vectors [of s] by (simp del: length_vs_vectors)
  have "seg_first base_rows 1 \<le> seg_first base_rows (vs_mapped s)"
    using c by (intro seg_first_mono) (simp add: vs_inv_def)
  then have room: "vs_count s < seg_first base_rows (vs_mapped s)"
    using n by (simp add: seg_first_def base_rows_def)
  obtain s' where a: "vs_append s [f32_one, f32_zero] = (s', Inr (vs_count s))"
    using vs_append_ok [of s "[f32_one, f32_zero]"] c room by auto
  have "example_store = s'" unfolding example_store_def s by (simp add: a)
  with vs_append_spec [OF _ a] c show ?thesis by simp
qed

text \<open>
  An append to a sound store either returns the next id and leaves the vectors with the new
  one at the end, or reports an error and leaves the vectors as they were; the geometry, the
  header and the flushed count stay sound in both cases, and only a vector of the store's
  dimension is ever accepted.
\<close>

theorem append_refines:
  assumes "vs_inv s" and "vs_append s v = (s', r)"
  shows "vs_inv s' \<and> vs_dim s' = vs_dim s \<and> header_count (vs_file s') = header_count (vs_file s) \<and>
     (case r of
        Inr i \<Rightarrow> length v = vs_dim s \<and> i = vs_count s \<and> vs_vectors s' = vs_vectors s @ [v]
      | Inl e \<Rightarrow> vs_vectors s' = vs_vectors s)"
  by (rule vs_append_spec [OF assms])

theorem append_refines_witness:
  "vs_vectors (fst (vs_append example_store [f32_one])) = [[f32_one, f32_zero]]"
  using append_refines [of example_store "[f32_one]"] example_store_inv
  by (auto simp: vs_append_def)

text \<open>
  An append of a vector of the right dimension succeeds whenever its row is in a mapped
  segment, and also when the mapped segments are full, as long as there is a segment left and the
  file system and the address space grant the room for it.
\<close>

theorem append_succeeds:
  assumes "vs_inv s" and "length v = vs_dim s"
    and "vs_count s < seg_first base_rows (vs_mapped s) \<or> can_grow s"
  shows "\<exists>s'. vs_append s v = (s', Inr (vs_count s))"
proof (cases "vs_count s < seg_first base_rows (vs_mapped s)")
  case True
  then show ?thesis using vs_append_ok [OF assms(1,2)] by blast
next
  case False
  then have "vs_count s = seg_first base_rows (vs_mapped s)" "can_grow s"
    using assms by (auto simp: vs_inv_def)
  then show ?thesis using vs_append_grows [OF assms(1,2)] by blast
qed

lemma example_store_room: "vs_count example_store < seg_first base_rows (vs_mapped example_store)"
proof -
  have "vs_count example_store = 1"
    using example_store_inv length_vs_vectors [of example_store] by (simp del: length_vs_vectors)
  moreover have "seg_first base_rows 1 \<le> seg_first base_rows (vs_mapped example_store)"
    using example_store_inv by (intro seg_first_mono) (simp add: vs_inv_def)
  ultimately show ?thesis by (simp add: seg_first_def base_rows_def)
qed

theorem append_succeeds_witness: "\<exists>s'. vs_append example_store [f32_zero, f32_one] = (s', Inr (vs_count example_store))"
  by (rule append_succeeds) (simp_all add: example_store_inv example_store_room)

text \<open>
  \<^verbatim>\<open>rollback_last\<close> exactly undoes the append that precedes it: the vectors are those of before
  and the store stays sound.
\<close>

theorem rollback_undoes_append:
  assumes "vs_inv s" and "vs_append s v = (t, Inr i)"
  shows "\<exists>u. vs_rollback_last t i = (u, Inr ()) \<and> vs_inv u \<and> vs_vectors u = vs_vectors s"
  using vs_rollback_spec [OF assms] by blast

theorem rollback_undoes_append_witness:
  "\<exists>t u. vs_append example_store [f32_zero, f32_one] = (t, Inr (vs_count example_store)) \<and>
     vs_rollback_last t (vs_count example_store) = (u, Inr ()) \<and> vs_vectors u = [[f32_one, f32_zero]]"
proof -
  obtain t where t: "vs_append example_store [f32_zero, f32_one] = (t, Inr (vs_count example_store))"
    using vs_append_ok [of example_store "[f32_zero, f32_one]"] example_store_inv example_store_room by auto
  then show ?thesis
    using rollback_undoes_append [OF _ t] example_store_inv by auto
qed

text \<open>
  A vector read once is read back the same after any later appends, successful or not: rows
  never move and are never overwritten.
\<close>

theorem get_stable_under_appends:
  assumes "vs_inv s" and "vs_get s i = Inr v" and "st.append_all s vs = (t, rs)"
  shows "vs_get t i = Inr v"
  by (rule st.get_stable [OF assms])

theorem get_stable_under_appends_witness:
  "vs_get (fst (st.append_all example_store [[f32_zero, f32_zero], [f32_one]])) 0 = Inr [f32_one, f32_zero]"
proof -
  have "vs_get example_store 0 = Inr [f32_one, f32_zero]"
    using vs_get_spec [of example_store 0] example_store_inv by (simp del: length_vs_vectors vs_vectors_nth)
  then show ?thesis
    using get_stable_under_appends [of example_store 0 "[f32_one, f32_zero]"] example_store_inv
    by (metis prod.collapse)
qed

text \<open>
  Rows live where the layout says: row \<open>i\<close> starts at the header plus \<open>i\<close> strides whatever
  segment it is in, on a 64-byte boundary, inside the file; two rows never overlap.
\<close>

theorem rows_laid_out:
  assumes "vs_inv s" and "i < vs_count s"
  shows "row_addr s i = header_size + i * vs_stride s \<and> row_addr s i mod 64 = 0 \<and>
     row_addr s i + 4 * vs_dim s \<le> vf_len (vs_file s) \<and>
     row_addr s i + 4 * vs_dim s \<le> row_addr s (i + 1)"
proof -
  have g: "geometry_ok s" and i: "i < seg_first base_rows (vs_mapped s)"
    using assms by (auto simp: vs_inv_def)
  have d: "4 * vs_dim s \<le> vs_stride s" "64 dvd vs_stride s" using g by (simp_all add: geometry_ok_def row_align_def)
  have "row_addr s i mod 64 = 0" using d(2) by (auto simp: row_addr_eq header_size_def)
  moreover have "row_addr s i + 4 * vs_dim s \<le> vf_len (vs_file s)"
    using row_in_file(1) [OF g i] d(1) by linarith
  moreover have "row_addr s i + 4 * vs_dim s \<le> row_addr s (i + 1)"
    using rows_disjoint [of i "i + 1" s] d(1) by linarith
  ultimately show ?thesis by (simp add: row_addr_eq)
qed

theorem rows_laid_out_witness: "row_addr example_store 0 = 4096"
  using rows_laid_out [of example_store 0] example_store_inv length_vs_vectors [of example_store]
  by (simp add: header_size_def del: length_vs_vectors)

text \<open>
  Closing after a flush loses nothing: the file opens again, to a sound store of the same
  dimension with exactly the vectors that were there, even when the \<^verbatim>\<open>msync\<close> was refused (the
  process, not the machine, went away).
\<close>

theorem flush_then_open:
  assumes "vs_inv s" and "vs_flush s ok = (s', r)"
  shows "\<exists>t. vs_open (vs_file s') = Inr t \<and> vs_inv t \<and> vs_dim t = vs_dim s \<and> vs_vectors t = vs_vectors s"
proof -
  note F = vs_flush_spec [OF assms]
  obtain t where "vs_open (vs_file s') = Inr t" "vs_inv t" "vs_dim t = vs_dim s'"
    "vs_vectors t = map (vs_get_unchecked s') [0..<header_count (vs_file s')]"
    using vs_open_file F by blast
  moreover from F have "vs_vectors s' = map (vs_get_unchecked s') [0..<vs_count s]"
    by (simp add: vs_vectors_def)
  ultimately show ?thesis using F by simp
qed

theorem flush_then_open_witness:
  "\<exists>t. vs_open (vs_file (fst (vs_flush example_store True))) = Inr t \<and> vs_vectors t = [[f32_one, f32_zero]]"
  using flush_then_open [of example_store True "fst (vs_flush example_store True)"] example_store_inv
  by (metis prod.collapse)

text \<open>
  A store whose process is killed at any point opens again with exactly the vectors of its
  last flush, those appended since being cut off by the header's count.
\<close>

theorem open_after_kill:
  assumes "vs_inv s" and "header_count (vs_file s) \<le> vs_count s"
  shows "\<exists>t. vs_open (vs_file s) = Inr t \<and> vs_inv t \<and> vs_dim t = vs_dim s \<and>
     vs_vectors t = take (header_count (vs_file s)) (vs_vectors s)"
  using vs_open_file [OF assms(1)] assms(2) by (auto simp: vs_vectors_def take_map)

theorem open_after_kill_witness: "\<exists>t. vs_open (vs_file example_store) = Inr t \<and> vs_vectors t = []"
  using open_after_kill [of example_store] example_store_inv by auto

text \<open>
  C40: opening accepts no unsound file: whatever bytes it is given, a store that opens has a
  geometry under which every row up to the count lies in a mapped segment inside the file, so no
  later read leaves the mapping.
\<close>

theorem open_sound:
  assumes "vs_open f = Inr s"
  shows "vs_inv s \<and> vs_file s = f \<and> vs_count s = header_count f"
  by (rule vs_open_sound [OF assms])

theorem open_sound_witness: "\<exists>t. vs_open (vs_file example_store) = Inr t \<and> vs_inv t \<and> vs_count t = 0"
proof -
  obtain t where t: "vs_open (vs_file example_store) = Inr t"
    using vs_open_file [of example_store] example_store_inv by blast
  then show ?thesis using open_sound [OF t] example_store_inv by auto
qed

text \<open>
  Creating a store of any dimension the header can hold succeeds when the first segment fits
  the limits, and gives an empty sound store of that dimension.
\<close>

theorem create_fresh:
  assumes "1 \<le> dim" and "dim < 2 ^ 32"
    and "header_size + base_rows * (4 * dim + 64) \<le> limit"
    and "header_size + base_rows * (4 * dim + 64) \<le> map_limit"
  shows "\<exists>s. vs_create limit map_limit dim = Inr s \<and> vs_inv s \<and> vs_vectors s = [] \<and> vs_dim s = dim"
  using vs_create_ok [OF assms] vs_create_sound by blast

theorem create_fresh_witness:
  "\<exists>s. vs_create (2 ^ 24) (2 ^ 24) 128 = Inr s \<and> vs_inv s \<and> vs_vectors s = [] \<and> vs_dim s = 128"
  by (rule create_fresh) (simp_all add: header_size_def base_rows_def)

end
