(* ===== verification/Exact.thy ===== *)
theory Exact
  imports Neighbors Store "HOL-Library.Monad_Syntax"
begin

text \<open>
  \<^verbatim>\<open>search\<close> of \<^verbatim>\<open>src/vektordb-core/src/storage/exact.rs\<close>: brute force, in parallel chunks that
  each keep a bounded heap, merged pairwise.  Which partial heaps the thread pool merges with
  which, starting from empty ones, is a schedule, an argument of the model; so is the
  order in which a heap hands out its elements, an arbitrary permutation \<open>shuffle\<close>.  \<open>None\<close> is the
  panic of a kernel on vectors of different lengths.
\<close>

section \<open>The parallel reduction\<close>

text \<open>How the thread pool cuts the list of chunks up.\<close>

datatype schedule = Leaf | Split nat schedule schedule

definition merge_shuffled :: "(heap \<Rightarrow> heap) \<Rightarrow> nat \<Rightarrow> heap \<Rightarrow> heap \<Rightarrow> heap" where
  "merge_shuffled shuffle k a b = fold (\<lambda>item h. push_bounded h item k) (shuffle b) a"

text \<open>
  \<open>Split n\<close> reduces the first \<open>n\<close> chunks and the others; a \<open>Leaf\<close> folds what it is given, if
  anything, one by one onto an empty heap.
\<close>

fun reduce :: "(heap \<Rightarrow> heap) \<Rightarrow> nat \<Rightarrow> schedule \<Rightarrow> heap list \<Rightarrow> heap" where
  "reduce shuffle k Leaf hs = fold (\<lambda>b a. merge_shuffled shuffle k a b) hs []"
| "reduce shuffle k (Split n l r) hs =
     merge_shuffled shuffle k (reduce shuffle k l (take n hs)) (reduce shuffle k r (drop n hs))"

section \<open>Scanning a chunk\<close>

definition chunk_rows :: nat where
  "chunk_rows = 16384"

primrec scan_rows :: "(f32 list \<Rightarrow> f32 list \<Rightarrow> f32 option) \<Rightarrow> vstore \<Rightarrow> f32 list \<Rightarrow> nat \<Rightarrow> nat list \<Rightarrow> heap \<Rightarrow>
    heap option" where
  "scan_rows kern s query k [] h = Some h"
| "scan_rows kern s query k (i # is) h = do {
     d \<leftarrow> kern query (vs_get_unchecked s i);
     scan_rows kern s query k is (push_bounded h (Neighbor i d) k) }"

definition chunk_starts :: "nat \<Rightarrow> nat list" where
  "chunk_starts n = map (\<lambda>c. c * chunk_rows) [0..<(n + chunk_rows - 1) div chunk_rows]"

definition chunk_ids :: "nat \<Rightarrow> nat \<Rightarrow> nat list" where
  "chunk_ids n start = [start..<min (start + chunk_rows) n]"

primrec scan_chunks :: "(f32 list \<Rightarrow> f32 list \<Rightarrow> f32 option) \<Rightarrow> vstore \<Rightarrow> f32 list \<Rightarrow> nat \<Rightarrow> nat list \<Rightarrow>
    heap list option" where
  "scan_chunks kern s query k [] = Some []"
| "scan_chunks kern s query k (start # starts) = do {
     h \<leftarrow> scan_rows kern s query k (chunk_ids (vs_len s) start) [];
     hs \<leftarrow> scan_chunks kern s query k starts;
     Some (h # hs) }"

text \<open>Popping the merged heap worst first and reversing gives its ascending list.\<close>

definition exact_search :: "(heap \<Rightarrow> heap) \<Rightarrow> schedule \<Rightarrow> bool \<Rightarrow> vstore \<Rightarrow> f32 list \<Rightarrow> nat \<Rightarrow> metric \<Rightarrow>
    neighbor list option" where
  "exact_search shuffle plan avx s query k m = do {
     hs \<leftarrow> scan_chunks (kernel avx m) s query k (chunk_starts (vs_len s));
     Some (reduce shuffle k plan hs) }"

section \<open>Every schedule gives the k least\<close>

lemma merge_shuffled_top_k:
  assumes "\<And>h. mset (shuffle h) = mset h"
  shows "merge_shuffled shuffle k (top_k k xs) (top_k k ys) = top_k k (xs @ ys)"
proof -
  have "merge_shuffled shuffle k (top_k k xs) (top_k k ys) = merge_heaps k (top_k k xs) (shuffle (top_k k ys))"
    by (simp add: merge_shuffled_def merge_heaps_def)
  also have "\<dots> = merge_heaps k (top_k k xs) (top_k k ys)"
    by (rule merge_heaps_perm) (rule assms)
  finally show ?thesis by (simp add: merge_top_k)
qed

lemma reduce_leaf:
  assumes "\<And>h. mset (shuffle h) = mset h"
  shows "fold (\<lambda>b a. merge_shuffled shuffle k a b) (map (top_k k) xss) (top_k k xs) = top_k k (xs @ concat xss)"
proof (induction xss arbitrary: xs)
  case Nil
  then show ?case by simp
next
  case (Cons ys xss)
  then show ?case by (simp add: merge_shuffled_top_k [OF assms])
qed

lemma reduce_top_k:
  assumes p: "\<And>h. mset (shuffle h) = mset h"
  shows "reduce shuffle k plan (map (top_k k) xss) = top_k k (concat xss)"
proof (induction plan arbitrary: xss)
  case Leaf
  show ?case using reduce_leaf [OF p, of k xss "[]"] by simp
next
  case (Split n l r)
  have "concat (take n xss) @ concat (drop n xss) = concat xss"
    by (metis append_take_drop_id concat_append)
  then show ?case
    using Split.IH(1) [of "take n xss"] Split.IH(2) [of "drop n xss"] merge_shuffled_top_k [of shuffle k] p
    by (simp add: take_map drop_map)
qed

lemma scan_rows_spec:
  "\<forall>i \<in> set is. kern query (vs_get_unchecked s i) = Some (f i) \<Longrightarrow>
     scan_rows kern s query k is (top_k k xs) = Some (top_k k (rev (map (\<lambda>i. Neighbor i (f i)) is) @ xs))"
  by (induction "is" arbitrary: xs) (simp_all add: push_bounded_top_k)

lemma scan_chunks_spec:
  "\<forall>start \<in> set starts. \<forall>i \<in> set (chunk_ids (vs_len s) start). kern query (vs_get_unchecked s i) = Some (f i) \<Longrightarrow>
     scan_chunks kern s query k starts =
       Some (map (top_k k) (map (\<lambda>start. rev (map (\<lambda>i. Neighbor i (f i)) (chunk_ids (vs_len s) start))) starts))"
proof (induction starts)
  case Nil
  then show ?case by simp
next
  case (Cons start starts)
  then have "scan_rows kern s query k (chunk_ids (vs_len s) start) (top_k k []) =
      Some (top_k k (rev (map (\<lambda>i. Neighbor i (f i)) (chunk_ids (vs_len s) start)) @ []))"
    by (intro scan_rows_spec) simp
  with Cons show ?case by simp
qed

text \<open>The chunks cut the ids up without gap or overlap.\<close>

lemma upt_glue: "i \<le> j \<Longrightarrow> j \<le> k \<Longrightarrow> [i..<j] @ [j..<k] = [i..<k]"
  by (metis le_add_diff_inverse upt_add_eq_append)

lemma concat_chunks: "concat (map (\<lambda>c. [c * b..<min (c * b + b) n]) [0..<m]) = [0..<min (m * b) n]"
proof (induction m)
  case 0
  then show ?case by simp
next
  case (Suc m)
  show ?case
  proof (cases "m * b \<le> n")
    case True
    then have "[0..<min (m * b) n] @ [m * b..<min (m * b + b) n] = [0..<min (m * b + b) n]"
      by (simp add: upt_glue)
    with Suc show ?thesis by (simp add: add.commute)
  next
    case False
    with Suc show ?thesis by simp
  qed
qed

lemma chunk_ids_all: "concat (map (chunk_ids n) (chunk_starts n)) = [0..<n]"
proof -
  let ?m = "(n + chunk_rows - 1) div chunk_rows"
  have "n \<le> ?m * chunk_rows"
    by (simp add: chunk_rows_def)
  then have "[0..<min (?m * chunk_rows) n] = [0..<n]" by (simp add: min_def)
  moreover have "map (chunk_ids n) (chunk_starts n) =
      map (\<lambda>c. [c * chunk_rows..<min (c * chunk_rows + chunk_rows) n]) [0..<?m]"
    by (simp add: chunk_starts_def chunk_ids_def)
  ultimately show ?thesis using concat_chunks [of chunk_rows n ?m] by simp
qed

lemma mset_concat_rev: "mset (concat (map (\<lambda>x. rev (map f (g x))) xs)) = mset (map f (concat (map g xs)))"
  by (induction xs) simp_all

lemma exact_search_spec:
  assumes p: "\<And>h. mset (shuffle h) = mset h"
    and k: "\<forall>i < vs_len s. kernel avx m query (vs_get_unchecked s i) = Some (f i)"
  shows "exact_search shuffle plan avx s query k m = Some (top_k k (map (\<lambda>i. Neighbor i (f i)) [0..<vs_len s]))"
proof -
  let ?n = "vs_len s" and ?N = "\<lambda>i. Neighbor i (f i)"
  let ?xss = "map (\<lambda>start. rev (map ?N (chunk_ids ?n start))) (chunk_starts ?n)"
  have "scan_chunks (kernel avx m) s query k (chunk_starts ?n) = Some (map (top_k k) ?xss)"
    by (rule scan_chunks_spec) (use k in \<open>auto simp: chunk_ids_def\<close>)
  moreover have "mset (concat ?xss) = mset (map ?N [0..<?n])"
    using mset_concat_rev [of ?N "chunk_ids ?n" "chunk_starts ?n"] by (simp add: chunk_ids_all)
  then have "top_k k (concat ?xss) = top_k k (map ?N [0..<?n])" by (rule top_k_mset)
  ultimately show ?thesis
    using reduce_top_k [OF p, of k plan ?xss] by (simp add: exact_search_def)
qed

section \<open>Properties\<close>

text \<open>
  C35: the exact search is exact and deterministic: for every way the thread pool splits and merges
  the chunks and every order in which heaps hand out their elements, it returns the \<open>k\<close> least of
  all stored vectors by distance and id, sorted.
\<close>

theorem exact_search_is_top_k:
  assumes "\<And>h. mset (shuffle h) = mset h"
    and "\<forall>i < vs_len s. kernel avx m query (vs_get_unchecked s i) = Some (f i)"
  shows "exact_search shuffle plan avx s query k m = Some (take k (sort (map (\<lambda>i. Neighbor i (f i)) [0..<vs_len s])))"
  using exact_search_spec [OF assms] by (simp add: top_k_def)

lemma get_length: "4 * length (vs_get_unchecked s i) = 4 * vs_dim s"
  by (simp add: vs_get_unchecked_def length_bytes_f32s)

lemma kernel_the:
  "length query = vs_dim s \<Longrightarrow> \<exists>d. kernel avx m query (vs_get_unchecked s i) = Some d"
  using kernel_total [of query "vs_get_unchecked s i" avx m] get_length [of s i] by simp

theorem exact_search_is_top_k_witness:
  "\<exists>f. exact_search rev (Split 1 Leaf Leaf) True example_store [f32_one, f32_one] 3 Cosine =
     Some (take 3 (sort (map (\<lambda>i. Neighbor i (f i)) [0..<1])))"
proof -
  have n: "vs_len example_store = 1"
    using example_store_inv length_vs_vectors [of example_store] by (simp add: vs_len_def del: length_vs_vectors)
  obtain d where "kernel True Cosine [f32_one, f32_one] (vs_get_unchecked example_store 0) = Some d"
    using kernel_the [of "[f32_one, f32_one]" example_store True Cosine 0] example_store_inv by auto
  then show ?thesis
    using exact_search_is_top_k [of rev example_store True Cosine "[f32_one, f32_one]" "\<lambda>_. d"
        "Split 1 Leaf Leaf" 3] n by auto
qed

text \<open>
  The exact search of a query of the store's dimension never panics, at any store size.
\<close>

theorem exact_search_total:
  assumes "length query = vs_dim s" and "\<And>h. mset (shuffle h) = mset h"
  shows "\<exists>out. exact_search shuffle plan avx s query k m = Some out \<and> sorted out \<and>
     length out = min k (vs_len s)"
proof -
  let ?f = "\<lambda>i. the (kernel avx m query (vs_get_unchecked s i))"
  have "kernel avx m query (vs_get_unchecked s i) = Some (?f i)" for i
    using kernel_the [OF assms(1), of avx m i] by auto
  then show ?thesis using exact_search_spec [OF assms(2), of s avx m query ?f plan k] by auto
qed

theorem exact_search_total_witness:
  "\<exists>out. exact_search rev Leaf False example_store [f32_one, f32_one] 3 L2 = Some out \<and> length out = 1"
proof -
  have "vs_len example_store = 1"
    using example_store_inv length_vs_vectors [of example_store] by (simp add: vs_len_def del: length_vs_vectors)
  then show ?thesis
    using exact_search_total [of "[f32_one, f32_one]" example_store rev Leaf False 3 L2] example_store_inv by auto
qed

text \<open>A query of another length panics as soon as the store holds a vector.\<close>

lemma exact_search_panics:
  assumes "length query \<noteq> vs_dim s" and "0 < vs_len s"
  shows "exact_search shuffle plan avx s query k m = None"
proof -
  have "length (vs_get_unchecked s i) = vs_dim s" for i using get_length [of s i] by simp
  then have bad: "kernel avx m query (vs_get_unchecked s i) = None" for i
    using assms(1) by (cases avx; cases m) (auto simp: kernel_defs)
  obtain c where c: "(vs_len s + chunk_rows - 1) div chunk_rows = Suc c"
    using assms(2) by (cases "(vs_len s + chunk_rows - 1) div chunk_rows") (auto simp: chunk_rows_def)
  have "chunk_starts (vs_len s) = 0 # map (\<lambda>c. c * chunk_rows) [1..<Suc c]"
    unfolding chunk_starts_def c by (simp add: upt_conv_Cons del: upt_Suc)
  moreover have "chunk_ids (vs_len s) 0 = 0 # [1..<min chunk_rows (vs_len s)]"
    using assms(2) by (simp add: chunk_ids_def upt_conv_Cons chunk_rows_def)
  ultimately show ?thesis by (simp add: exact_search_def bad)
qed

end
