(* ===== verification/Wal.thy ===== *)
theory Wal
  imports Codec
begin

text \<open>
  \<^verbatim>\<open>src/vektordb-core/src/wal/mod.rs\<close>: the write-ahead log.  The log disk is its bytes; the
  descriptor's position is always at the end when the log is healthy.  The checksum
  (\<^verbatim>\<open>crc32fast::hash\<close>) is a parameter \<open>crc\<close>.  What the device does is an argument of each
  operation: \<open>io\<close> says whether the write and the sync went through or where they stopped, and
  \<open>rd pos k\<close> whether reading \<open>k\<close> bytes at \<open>pos\<close> succeeds.
\<close>

section \<open>Records and frames\<close>

datatype sync_policy = Always | Never

datatype wal_op = Insert (op_id: nat) (op_vector: "f32 list")

definition op_insert :: byte where
  "op_insert = 1"

record wal =
  wal_content :: "byte list"
  wal_policy :: sync_policy
  wal_next_lsn :: nat
  wal_poisoned :: bool

definition wal_payload :: "nat \<Rightarrow> wal_op \<Rightarrow> byte list result" where
  "wal_payload lsn op =
     rbind (ensure (length (op_vector op) < 2 ^ 32) (InvalidArgument ''WAL vector is too large'')) (\<lambda>_.
     Inr (le_bytes 8 lsn @ [op_insert] @ le_bytes 8 (op_id op) @
          le_bytes 4 (length (op_vector op)) @ f32s_bytes (op_vector op)))"

definition wal_frame :: "crc_fun \<Rightarrow> nat \<Rightarrow> wal_op \<Rightarrow> byte list result" where
  "wal_frame crc lsn op =
     rbind (wal_payload lsn op) (\<lambda>payload.
     rbind (ensure (length payload < 2 ^ 32) (InvalidArgument ''WAL record is too large'')) (\<lambda>_.
     Inr (le_bytes 4 (length payload) @ le_bytes 4 (unat (crc payload)) @ payload)))"

section \<open>Appending\<close>

text \<open>
  How an I/O call ends: it goes through, or it stops after \<open>n\<close> units.  For an append the units are
  the bytes of the frame that reached the disk; all of them and still stopped means that the sync
  failed.  For the others they count the system calls that went through.
\<close>

datatype io_out = IoOk | IoStop nat

definition poisoned_error :: error where
  "poisoned_error = Corrupt ''WAL is unavailable after an I/O failure; reopen the database''"

definition ensure_healthy :: "wal \<Rightarrow> unit result" where
  "ensure_healthy w = ensure (\<not> wal_poisoned w) poisoned_error"

definition ensure_lsn_at_least :: "wal \<Rightarrow> nat \<Rightarrow> wal" where
  "ensure_lsn_at_least w least = w\<lparr>wal_next_lsn := max (wal_next_lsn w) least\<rparr>"

definition write_and_sync :: "sync_policy \<Rightarrow> byte list \<Rightarrow> io_out \<Rightarrow> byte list \<times> bool" where
  "write_and_sync policy fr io =
     (case io of
        IoOk \<Rightarrow> (fr, True)
      | IoStop n \<Rightarrow> (take n fr, length fr \<le> n \<and> policy = Never))"

definition wal_append :: "crc_fun \<Rightarrow> wal \<Rightarrow> wal_op \<Rightarrow> io_out \<Rightarrow> wal \<times> nat result" where
  "wal_append crc w op io =
     (case rbind (ensure_healthy w) (\<lambda>_. wal_frame crc (wal_next_lsn w) op) of
        Inl e \<Rightarrow> (w, Inl e)
      | Inr fr \<Rightarrow>
          (case write_and_sync (wal_policy w) fr io of
             (bs, ok) \<Rightarrow>
               if ok then
                 (w\<lparr>wal_content := wal_content w @ bs, wal_next_lsn := wal_next_lsn w + 1\<rparr>,
                  Inr (wal_next_lsn w))
               else
                 (w\<lparr>wal_content := wal_content w @ bs, wal_poisoned := True\<rparr>, Inl (Io DeviceError))))"

text \<open>\<^verbatim>\<open>reset\<close>: \<^verbatim>\<open>set_len(0)\<close>, \<^verbatim>\<open>seek\<close>, \<^verbatim>\<open>sync_data\<close>; stopping at 0 means the disk kept its bytes.\<close>

definition wal_reset :: "wal \<Rightarrow> io_out \<Rightarrow> wal \<times> unit result" where
  "wal_reset w io =
     (case ensure_healthy w of
        Inl e \<Rightarrow> (w, Inl e)
      | Inr _ \<Rightarrow>
          (case io of
             IoOk \<Rightarrow> (w\<lparr>wal_content := []\<rparr>, Inr ())
           | IoStop n \<Rightarrow>
               (w\<lparr>wal_content := (if n = 0 then wal_content w else []), wal_poisoned := True\<rparr>,
                Inl (Io DeviceError))))"

definition wal_sync :: "wal \<Rightarrow> io_out \<Rightarrow> wal \<times> unit result" where
  "wal_sync w io =
     (case ensure_healthy w of
        Inl e \<Rightarrow> (w, Inl e)
      | Inr _ \<Rightarrow>
          (case io of
             IoOk \<Rightarrow> (w, Inr ())
           | IoStop n \<Rightarrow> (w\<lparr>wal_poisoned := True\<rparr>, Inl (Io DeviceError))))"

section \<open>Recovery\<close>

datatype stop = Eof | Torn | Damaged string

datatype step = Record nat nat wal_op | Stopped stop

definition parse_payload :: "byte list \<Rightarrow> step" where
  "parse_payload payload =
     (if payload ! 8 = op_insert then
        if length payload < 21 then Stopped (Damaged ''insert record too short'')
        else
          let lsn = le_val (take 8 payload);
              i = le_val (take 8 (drop 9 payload));
              dim = le_val (take 4 (drop 17 payload))
          in if length payload \<noteq> 21 + dim * 4 then
               Stopped (Damaged ''insert record length disagrees with its dim'')
             else Record (8 + length payload) lsn (Insert i (bytes_f32s (drop 21 payload)))
      else Stopped (Damaged ''unknown op tag''))"

definition read_record :: "crc_fun \<Rightarrow> (nat \<Rightarrow> nat \<Rightarrow> bool) \<Rightarrow> byte list \<Rightarrow> nat \<Rightarrow> step" where
  "read_record crc rd disk pos =
     (if pos = length disk then Stopped Eof
      else if length disk < pos + 8 then Stopped Torn
      else if \<not> rd pos 8 then Stopped Torn
      else
        let len = le_val (take 4 (drop pos disk));
            sum = le_val (take 4 (drop (pos + 4) disk));
            payload = take len (drop (pos + 8) disk)
        in if len < 9 then
             Stopped (if pos + 8 = length disk then Torn else Damaged ''impossible record length'')
           else if length disk < pos + 8 + len then Stopped Torn
           else if \<not> rd (pos + 8) len then Stopped Torn
           else if unat (crc payload) \<noteq> sum then Stopped (Damaged ''checksum mismatch'')
           else parse_payload payload)"

definition damaged_error :: "string \<Rightarrow> nat \<Rightarrow> nat \<Rightarrow> error" where
  "damaged_error why good n =
     Corrupt (''wal: '' @ why @ '' at byte offset '' @ show_nat good @ '', after '' @ show_nat n @
       '' intact record(s); the frame is complete but invalid and may '' @
       ''have been acknowledged. Refusing to truncate.'')"

lemma read_record_consumed:
  "read_record crc rd disk pos = Record consumed lsn op \<Longrightarrow> 0 < consumed \<and> pos + consumed \<le> length disk"
  by (auto simp: read_record_def parse_payload_def Let_def split: if_splits)

function wal_scan :: "crc_fun \<Rightarrow> (nat \<Rightarrow> nat \<Rightarrow> bool) \<Rightarrow> byte list \<Rightarrow> nat \<Rightarrow> nat \<Rightarrow> (nat \<times> wal_op) list \<Rightarrow>
    (nat \<times> nat \<times> (nat \<times> wal_op) list) result" where
  "wal_scan crc rd disk good next_lsn records =
     (case read_record crc rd disk good of
        Record consumed lsn op \<Rightarrow>
          rbind (ok_or (checked_add lsn 1) (Corrupt ''wal: LSN overflow'')) (\<lambda>following.
            wal_scan crc rd disk (good + consumed) (max next_lsn following) (records @ [(lsn, op)]))
      | Stopped (Damaged why) \<Rightarrow> Inl (damaged_error why good (length records))
      | Stopped _ \<Rightarrow> Inr (good, next_lsn, records))"
  by pat_completeness auto
termination
proof (relation "measure (\<lambda>(crc, rd, disk, good, next_lsn, records). length disk - good)", goal_cases)
  case 1
  then show ?case by simp
next
  case 2
  then show ?case by (auto dest: read_record_consumed)
qed

declare wal_scan.simps [simp del]

text \<open>
  \<^verbatim>\<open>Wal::open\<close> on the bytes found.  Dropping the torn tail is two system calls, \<^verbatim>\<open>set_len\<close> and
  \<^verbatim>\<open>sync_data\<close>; the first result is what the disk holds afterwards.
\<close>

definition wal_open :: "crc_fun \<Rightarrow> (nat \<Rightarrow> nat \<Rightarrow> bool) \<Rightarrow> byte list \<Rightarrow> sync_policy \<Rightarrow> io_out \<Rightarrow>
    byte list \<times> (wal \<times> (nat \<times> wal_op) list) result" where
  "wal_open crc rd disk policy io =
     (case wal_scan crc rd disk 0 0 [] of
        Inl e \<Rightarrow> (disk, Inl e)
      | Inr (good, next_lsn, records) \<Rightarrow>
          let w = \<lparr>wal_content = take good disk, wal_policy = policy,
                   wal_next_lsn = next_lsn, wal_poisoned = False\<rparr>
          in if good < length disk then
               (case io of
                  IoOk \<Rightarrow> (take good disk, Inr (w, records))
                | IoStop n \<Rightarrow> (if n = 0 then disk else take good disk, Inl (Io DeviceError)))
             else (disk, Inr (w, records)))"

section \<open>Frames round trip\<close>

text \<open>What the format can hold.\<close>

definition op_fits :: "wal_op \<Rightarrow> bool" where
  "op_fits op \<longleftrightarrow> op_id op < 2 ^ 64 \<and> 21 + 4 * length (op_vector op) < 2 ^ 32"

lemma wal_frame_Inr:
  assumes "wal_frame crc lsn op = Inr fr"
  shows "\<exists>p. fr = le_bytes 4 (length p) @ le_bytes 4 (unat (crc p)) @ p \<and>
     p = le_bytes 8 lsn @ [op_insert] @ le_bytes 8 (op_id op) @
          le_bytes 4 (length (op_vector op)) @ f32s_bytes (op_vector op) \<and>
     length p = 21 + 4 * length (op_vector op) \<and> length p < 2 ^ 32"
  using assms by (auto simp: wal_frame_def wal_payload_def result_simps)

lemma wal_frame_ok: "op_fits op \<Longrightarrow> \<exists>fr. wal_frame crc lsn op = Inr fr"
  by (simp add: wal_frame_def wal_payload_def op_fits_def ensure_def)

lemma wal_frame_length: "wal_frame crc lsn op = Inr fr \<Longrightarrow> length fr = 29 + 4 * length (op_vector op)"
  using wal_frame_Inr by fastforce

lemma parse_payload_frame:
  assumes "lsn < 2 ^ 64" "i < 2 ^ 64" "length v < 2 ^ 32"
  shows "parse_payload (le_bytes 8 lsn @ [op_insert] @ le_bytes 8 i @ le_bytes 4 (length v) @ f32s_bytes v) =
     Record (29 + 4 * length v) lsn (Insert i v)"
  using assms by (simp add: parse_payload_def nth_append Let_def)

lemma take_app: "length xs = n \<Longrightarrow> take n (xs @ ys) = xs"
  by simp

lemma drop_app: "length xs = n \<Longrightarrow> drop n (xs @ ys) = ys"
  by simp

text \<open>A device on which every read goes through.\<close>

definition reads_ok :: "nat \<Rightarrow> nat \<Rightarrow> bool" where
  "reads_ok pos k = True"

lemma read_record_frame:
  assumes fr: "wal_frame crc lsn op = Inr fr" and lsn: "lsn < 2 ^ 64" and i: "op_id op < 2 ^ 64"
  shows "read_record crc reads_ok (pre @ fr @ post) (length pre) = Record (length fr) lsn op"
proof -
  obtain i' v where op: "op = Insert i' v" by (cases op)
  obtain p where fr_eq: "fr = le_bytes 4 (length p) @ le_bytes 4 (unat (crc p)) @ p"
    and p: "p = le_bytes 8 lsn @ [op_insert] @ le_bytes 8 i' @ le_bytes 4 (length v) @ f32s_bytes v"
    and lp: "length p = 21 + 4 * length v" "length p < 2 ^ 32"
    using wal_frame_Inr [OF fr] op by auto
  let ?disk = "pre @ fr @ post"
  have len: "le_val (take 4 (drop (length pre) ?disk)) = length p"
    using lp(2) by (simp add: fr_eq)
  have sum: "le_val (take 4 (drop (length pre + 4) ?disk)) = unat (crc p)"
    by (simp add: fr_eq)
  have pay: "take (length p) (drop (length pre + 8) ?disk) = p"
    by (simp add: fr_eq)
  have "parse_payload p = Record (29 + 4 * length v) lsn op"
    unfolding p op using parse_payload_frame [of lsn i' v] lsn i op lp by simp
  moreover have "length fr = 29 + 4 * length v" using wal_frame_length [OF fr] op by simp
  moreover have "length pre + 8 + length p \<le> length ?disk" "9 \<le> length p" using lp fr_eq by simp_all
  ultimately show ?thesis
    unfolding read_record_def len sum pay Let_def by (simp add: reads_ok_def)
qed

text \<open>A proper prefix of a frame at the end of the file is torn; nothing at all is the end.\<close>

lemma read_record_torn:
  assumes fr: "wal_frame crc lsn op = Inr fr" and n: "n < length fr"
  shows "read_record crc rd (pre @ take n fr) (length pre) = Stopped (if n = 0 then Eof else Torn)"
proof -
  obtain p where fr_eq: "fr = le_bytes 4 (length p) @ le_bytes 4 (unat (crc p)) @ p"
    and lp: "length p = 21 + 4 * length (op_vector op)" "length p < 2 ^ 32"
    using wal_frame_Inr [OF fr] by auto
  have len: "le_val (take 4 (drop (length pre) (pre @ take n fr))) = length p" if "8 \<le> n"
    using that lp(2) by (simp add: fr_eq min_def)
  show ?thesis
    using n lp fr_eq len by (auto simp: read_record_def Let_def)
qed

section \<open>What a log holds\<close>

definition frame_bytes :: "crc_fun \<Rightarrow> nat \<times> wal_op \<Rightarrow> byte list" where
  "frame_bytes crc r = (case wal_frame crc (fst r) (snd r) of Inl _ \<Rightarrow> [] | Inr fr \<Rightarrow> fr)"

definition log_bytes :: "crc_fun \<Rightarrow> (nat \<times> wal_op) list \<Rightarrow> byte list" where
  "log_bytes crc rs = concat (map (frame_bytes crc) rs)"

definition record_fits :: "nat \<times> wal_op \<Rightarrow> bool" where
  "record_fits r \<longleftrightarrow> fst r + 1 < u64_limit \<and> op_fits (snd r)"

text \<open>Bytes after the last record that recovery takes for an interrupted write.\<close>

definition torn_tail :: "byte list \<Rightarrow> bool" where
  "torn_tail t \<longleftrightarrow>
     length t < 8 \<or> (length t = 8 \<and> le_val (take 4 t) < 9) \<or>
     (9 \<le> le_val (take 4 t) \<and> length t < 8 + le_val (take 4 t))"

lemma log_bytes_simps [simp]:
  "log_bytes crc [] = []"
  "log_bytes crc (r # rs) = frame_bytes crc r @ log_bytes crc rs"
  "log_bytes crc (rs @ rs') = log_bytes crc rs @ log_bytes crc rs'"
  by (simp_all add: log_bytes_def)

lemma frame_bytes_frame: "record_fits r \<Longrightarrow> wal_frame crc (fst r) (snd r) = Inr (frame_bytes crc r)"
  using wal_frame_ok [of "snd r" crc "fst r"] by (auto simp: frame_bytes_def record_fits_def)

lemma torn_prefix:
  assumes fr: "wal_frame crc lsn op = Inr fr" and n: "n < length fr"
  shows "torn_tail (take n fr)"
proof -
  obtain p where "fr = le_bytes 4 (length p) @ le_bytes 4 (unat (crc p)) @ p" "length p < 2 ^ 32" "9 \<le> length p"
    using wal_frame_Inr [OF fr] by auto
  then show ?thesis using n by (auto simp: torn_tail_def min_def)
qed

lemma read_record_stop:
  "torn_tail t \<longleftrightarrow>
     read_record crc reads_ok (pre @ t) (length pre) \<in> {Stopped Eof, Stopped Torn}"
  by (auto simp: torn_tail_def reads_ok_def read_record_def Let_def parse_payload_def split: if_splits)

text \<open>The walk over intact records, whatever follows them.\<close>

lemma wal_scan_records:
  "list_all record_fits rs \<Longrightarrow>
    wal_scan crc reads_ok (pre @ log_bytes crc rs @ t) (length pre) nl recs =
      wal_scan crc reads_ok (pre @ log_bytes crc rs @ t) (length (pre @ log_bytes crc rs))
        (fold max (map (\<lambda>r. Suc (fst r)) rs) nl) (recs @ rs)"
proof (induction rs arbitrary: pre nl recs)
  case Nil
  then show ?case by simp
next
  case (Cons r rs)
  obtain lsn op where r: "r = (lsn, op)" by (cases r)
  have fits: "record_fits r" using Cons.prems by simp
  note fr = frame_bytes_frame [OF fits]
  let ?f = "frame_bytes crc r"
  have b: "lsn < 2 ^ 64" "op_id op < 2 ^ 64" "checked_add lsn 1 = Some (lsn + 1)"
    using fits r by (simp_all add: record_fits_def u64_limit_def op_fits_def checked_add_def)
  have rr: "read_record crc reads_ok (pre @ ?f @ (log_bytes crc rs @ t)) (length pre) = Record (length ?f) lsn op"
    by (rule read_record_frame) (use fr r b in simp_all)
  have "wal_scan crc reads_ok (pre @ log_bytes crc (r # rs) @ t) (length pre) nl recs =
     wal_scan crc reads_ok ((pre @ ?f) @ log_bytes crc rs @ t) (length (pre @ ?f)) (max nl (Suc lsn)) (recs @ [r])"
    using rr b(3) by (simp add: wal_scan.simps [of _ _ _ "length pre"] r)
  also have "\<dots> = wal_scan crc reads_ok ((pre @ ?f) @ log_bytes crc rs @ t)
      (length ((pre @ ?f) @ log_bytes crc rs))
      (fold max (map (\<lambda>r. Suc (fst r)) rs) (max nl (Suc lsn))) ((recs @ [r]) @ rs)"
    by (rule Cons.IH) (use Cons.prems in simp)
  finally show ?case by (simp add: r max.commute add.assoc)
qed

lemma wal_scan_log:
  assumes t: "torn_tail t" and rs: "list_all record_fits rs"
  shows "wal_scan crc reads_ok (log_bytes crc rs @ t) 0 0 [] =
    Inr (length (log_bytes crc rs), fold max (map (\<lambda>r. Suc (fst r)) rs) 0, rs)"
proof -
  let ?l = "log_bytes crc rs"
  have "read_record crc reads_ok (?l @ t) (length ?l) \<in> {Stopped Eof, Stopped Torn}"
    using read_record_stop t by blast
  then show ?thesis
    using wal_scan_records [OF rs, of crc "[]" t 0 "[]"]
    by (auto simp: wal_scan.simps [of _ _ _ "length ?l"])
qed

lemma wal_open_log:
  assumes t: "torn_tail t" and rs: "list_all record_fits rs"
  shows "wal_open crc reads_ok (log_bytes crc rs @ t) policy IoOk =
    (log_bytes crc rs, Inr (\<lparr>wal_content = log_bytes crc rs, wal_policy = policy,
       wal_next_lsn = fold max (map (\<lambda>r. Suc (fst r)) rs) 0, wal_poisoned = False\<rparr>, rs))"
  using wal_scan_log [OF t rs, of crc] by (simp add: wal_open_def Let_def)

subsection \<open>The records decide the bytes\<close>

lemma f32s_bytes_inv: "length bs = 4 * n \<Longrightarrow> f32s_bytes (bytes_f32s bs) = bs"
  by (rule f32s_bytes_of_bytes) simp

lemma le_bytes_take: "k \<le> length bs \<Longrightarrow> le_bytes k (le_val (take k bs)) = take k bs"
  by (metis le_bytes_le_val length_take min.absorb2)

lemma step_ifs:
  "(if a then if b then Stopped x else if c then Stopped y else Record n lsn op else Stopped z) =
      Record n' lsn' op' \<longleftrightarrow> a \<and> \<not> b \<and> \<not> c \<and> n = n' \<and> lsn = lsn' \<and> op = op'"
  by simp

lemma parse_payload_inv:
  assumes "parse_payload p = Record n lsn op"
  shows "n = 8 + length p" and "length p = 21 + 4 * length (op_vector op)"
    and "p = le_bytes 8 lsn @ [op_insert] @ le_bytes 8 (op_id op) @
          le_bytes 4 (length (op_vector op)) @ f32s_bytes (op_vector op)"
    and "op_id op < 2 ^ 64"
proof -
  let ?dim = "le_val (take 4 (drop 17 p))" and ?v = "bytes_f32s (drop 21 p)"
    and ?i = "le_val (take 8 (drop 9 p))"
  have p8: "p ! 8 = op_insert" and l21: "21 \<le> length p" and ld: "length p = 21 + ?dim * 4"
    and n: "n = 8 + length p" and lsn: "lsn = le_val (take 8 p)" and op: "op = Insert ?i ?v"
    using assms unfolding parse_payload_def Let_def step_ifs not_less by blast+
  show "n = 8 + length p" by (rule n)
  have lv: "length ?v = ?dim" using ld by (simp only: length_bytes_f32s length_drop)
  show "length p = 21 + 4 * length (op_vector op)" unfolding op wal_op.sel lv by (rule ld [THEN trans]) simp
  have "length (drop 21 p) = 4 * ?dim" using ld unfolding length_drop by linarith
  then have vb: "f32s_bytes ?v = drop 21 p" by (rule f32s_bytes_inv)
  have e1: "p = take 8 p @ p ! 8 # drop 9 p" using id_take_nth_drop [of 8 p] l21 by simp
  have e2: "drop 9 p = take 8 (drop 9 p) @ take 4 (drop 17 p) @ drop 21 p"
    using append_take_drop_id [of 8 "drop 9 p"] append_take_drop_id [of 4 "drop 17 p"] by simp
  have b: "le_bytes 8 lsn = take 8 p" "le_bytes 8 ?i = take 8 (drop 9 p)" "le_bytes 4 ?dim = take 4 (drop 17 p)"
    unfolding lsn using l21 by (simp_all only: le_bytes_take length_drop)
  have "p = take 8 p @ [op_insert] @ take 8 (drop 9 p) @ take 4 (drop 17 p) @ drop 21 p"
    using e1 unfolding p8 by (simp only: append_Cons append_Nil e2 [symmetric])
  then show "p = le_bytes 8 lsn @ [op_insert] @ le_bytes 8 (op_id op) @
          le_bytes 4 (length (op_vector op)) @ f32s_bytes (op_vector op)"
    unfolding op wal_op.sel lv b vb .
  have "length (take 8 (drop 9 p)) = 8" using l21 by simp
  with le_val_less [of "take 8 (drop 9 p)"] show "op_id op < 2 ^ 64" unfolding op wal_op.sel by simp
qed

lemma read_record_inv:
  assumes "read_record crc rd (pre @ s) (length pre) = Record n lsn op"
  shows "\<exists>post. s = frame_bytes crc (lsn, op) @ post \<and> n = length (frame_bytes crc (lsn, op)) \<and>
     wal_frame crc lsn op = Inr (frame_bytes crc (lsn, op)) \<and> op_fits op"
proof -
  let ?len = "le_val (take 4 s)" and ?sum = "le_val (take 4 (drop 4 s))"
  let ?p = "take ?len (drop 8 s)"
  have H: "8 + ?len \<le> length s" "unat (crc ?p) = ?sum" "parse_payload ?p = Record n lsn op"
    using assms by (simp_all add: read_record_def Let_def split: if_split_asm)
  note P = parse_payload_inv [OF H(3)]
  have lp: "length ?p = ?len" using H(1) by simp
  have small: "?len < 2 ^ 32" using le_val_less [of "take 4 s"] H(1) by simp
  have l21: "?len = 21 + 4 * length (op_vector op)" using P(2) unfolding lp .
  have fits: "op_fits op" using P(4) small unfolding op_fits_def l21 by simp
  have dim: "length (op_vector op) < 2 ^ 32" using small l21 by linarith
  have pay: "wal_payload lsn op = Inr ?p"
    unfolding wal_payload_def P(3) [symmetric] using dim by simp
  have fr: "wal_frame crc lsn op = Inr (le_bytes 4 ?len @ le_bytes 4 ?sum @ ?p)"
    unfolding wal_frame_def pay rbind_simps lp H(2) using small by simp
  then have fb: "frame_bytes crc (lsn, op) = le_bytes 4 ?len @ le_bytes 4 ?sum @ ?p"
    by (simp add: frame_bytes_def)
  have "le_bytes 4 ?len = take 4 s" "le_bytes 4 ?sum = take 4 (drop 4 s)"
    using H(1) by (simp_all add: le_bytes_take)
  then have "s = frame_bytes crc (lsn, op) @ drop ?len (drop 8 s)"
    unfolding fb using append_take_drop_id [of 4 s] append_take_drop_id [of 4 "drop 4 s"]
      append_take_drop_id [of ?len "drop 8 s"] by simp
  moreover have "n = length (frame_bytes crc (lsn, op))" unfolding fb P(1) using lp by simp
  ultimately show ?thesis using fr fb fits by auto
qed

lemma wal_scan_inv:
  "wal_scan crc rd disk good nl recs = Inr (g, nl', out) \<Longrightarrow> rd = reads_ok \<Longrightarrow> disk = pre @ s \<Longrightarrow> good = length pre \<Longrightarrow>
    \<exists>rs t. s = log_bytes crc rs @ t \<and> out = recs @ rs \<and> g = good + length (log_bytes crc rs) \<and>
      list_all record_fits rs \<and> torn_tail t"
proof (induction crc rd disk good nl recs arbitrary: pre s rule: wal_scan.induct)
  case (1 crc rd disk good nl recs)
  note rd [simp] = "1.prems"(2)
  show ?case
  proof (cases "read_record crc reads_ok disk good")
    case (Stopped st)
    with "1.prems" have st: "st \<in> {Eof, Torn}" and e: "g = good" "out = recs"
      by (auto simp: wal_scan.simps [of crc] split: stop.splits)
    then have "torn_tail s" using read_record_stop [of s crc pre] Stopped "1.prems" by auto
    with e show ?thesis by (intro exI [of _ "[]"] exI [of _ s]) simp
  next
    case (Record n lsn op)
    then have c: "checked_add lsn 1 = Some (lsn + 1)" and small: "lsn + 1 < u64_limit"
      and rest: "wal_scan crc reads_ok disk (good + n) (max nl (lsn + 1)) (recs @ [(lsn, op)]) = Inr (g, nl', out)"
      using "1.prems"(1) by (auto simp: wal_scan.simps [of crc] result_simps checked_add_Some)
    obtain post where post: "s = frame_bytes crc (lsn, op) @ post" "n = length (frame_bytes crc (lsn, op))"
      "op_fits op"
      using read_record_inv Record "1.prems"(3,4) by metis
    have "\<exists>rs t. post = log_bytes crc rs @ t \<and> out = (recs @ [(lsn, op)]) @ rs \<and>
        g = good + n + length (log_bytes crc rs) \<and> list_all record_fits rs \<and> torn_tail t"
      by (rule "1.IH" [OF Record [folded rd] rest [folded rd], of "pre @ frame_bytes crc (lsn, op)" post])
        (use c post "1.prems" in simp_all)
    then obtain rs t where "post = log_bytes crc rs @ t" "out = (recs @ [(lsn, op)]) @ rs"
      "g = good + n + length (log_bytes crc rs)" "list_all record_fits rs" "torn_tail t" by blast
    moreover have "record_fits (lsn, op)" using post(3) small by (simp add: record_fits_def)
    ultimately show ?thesis
      using post(1,2) by (intro exI [of _ "(lsn, op) # rs"] exI [of _ t]) simp
  qed
qed

section \<open>The life of a log\<close>

text \<open>
  The log holds the records \<open>rs\<close>, and behind them at most an interrupted write, which only a
  poisoned log has.
\<close>

definition wal_holds :: "crc_fun \<Rightarrow> wal \<Rightarrow> (nat \<times> wal_op) list \<Rightarrow> bool" where
  "wal_holds crc w rs \<longleftrightarrow>
     (\<exists>t. wal_content w = log_bytes crc rs @ t \<and> torn_tail t \<and> (\<not> wal_poisoned w \<longrightarrow> t = [])) \<and>
     list_all record_fits rs \<and> sorted_wrt (<) (map fst rs) \<and>
     (\<forall>r \<in> set rs. wal_poisoned w \<or> fst r < wal_next_lsn w) \<and>
     (\<forall>r \<in> set rs. fst r \<le> wal_next_lsn w)"

lemma torn_tail_Nil [simp]: "torn_tail []"
  by (simp add: torn_tail_def)

lemma wal_append_Inl_frame:
  assumes "wal_append crc w op io = (w', Inl e)"
  shows "w' = w \<or> (\<exists>fr n. \<not> wal_poisoned w \<and> wal_frame crc (wal_next_lsn w) op = Inr fr \<and> io = IoStop n \<and>
     w' = w\<lparr>wal_content := wal_content w @ take n fr, wal_poisoned := True\<rparr> \<and> e = Io DeviceError)"
  using assms
  by (auto simp: wal_append_def write_and_sync_def ensure_healthy_def ensure_def rbind_eq_Inl
      split: sum.splits io_out.splits if_splits)

lemma wal_append_Inr_frame:
  assumes "wal_append crc w op io = (w', Inr lsn)"
  shows "\<not> wal_poisoned w \<and> lsn = wal_next_lsn w \<and> (\<exists>fr. wal_frame crc lsn op = Inr fr \<and>
     w' = w\<lparr>wal_content := wal_content w @ fr, wal_next_lsn := lsn + 1\<rparr>)"
  using assms
  by (auto simp: wal_append_def write_and_sync_def ensure_healthy_def ensure_def result_simps
      split: sum.splits io_out.splits if_splits)

lemma wal_frame_fits:
  "wal_frame crc lsn op = Inr fr \<Longrightarrow> op_id op < 2 ^ 64 \<Longrightarrow> lsn + 1 < u64_limit \<Longrightarrow>
     record_fits (lsn, op) \<and> frame_bytes crc (lsn, op) = fr"
  using wal_frame_Inr [of crc lsn op fr] by (auto simp: record_fits_def op_fits_def frame_bytes_def)

lemma wal_append_step:
  assumes h: "wal_holds crc w rs" and op: "op_id op < 2 ^ 64" and room: "wal_next_lsn w + 1 < u64_limit"
    and app: "wal_append crc w op io = (w', r)"
  shows "case r of
      Inr lsn \<Rightarrow> lsn = wal_next_lsn w \<and> \<not> wal_poisoned w' \<and> wal_holds crc w' (rs @ [(lsn, op)])
    | Inl e \<Rightarrow> wal_holds crc w' rs \<or>
        (wal_poisoned w' \<and> wal_holds crc w' (rs @ [(wal_next_lsn w, op)]))"
proof (cases r)
  case (Inr lsn)
  obtain fr where H: "\<not> wal_poisoned w" "lsn = wal_next_lsn w" "wal_frame crc lsn op = Inr fr"
    "w' = w\<lparr>wal_content := wal_content w @ fr, wal_next_lsn := lsn + 1\<rparr>"
    using wal_append_Inr_frame app Inr by blast
  note F = wal_frame_fits [OF H(3) op]
  have "wal_content w = log_bytes crc rs" "\<forall>r\<in>set rs. fst r < lsn"
    using h H(1,2) by (auto simp: wal_holds_def)
  then show ?thesis
    using h H F room Inr by (auto simp: wal_holds_def sorted_wrt_append)
next
  case (Inl e)
  consider (same) "w' = w"
    | (stop) fr n where "\<not> wal_poisoned w" "wal_frame crc (wal_next_lsn w) op = Inr fr"
        "w' = w\<lparr>wal_content := wal_content w @ take n fr, wal_poisoned := True\<rparr>"
    using wal_append_Inl_frame app Inl by blast
  then show ?thesis
  proof cases
    case same
    with h Inl show ?thesis by simp
  next
    case stop
    note F = wal_frame_fits [OF stop(2) op room]
    have c: "wal_content w = log_bytes crc rs" "\<forall>r\<in>set rs. fst r < wal_next_lsn w"
      using h stop(1) by (auto simp: wal_holds_def)
    show ?thesis
    proof (cases "n < length fr")
      case True
      then have "torn_tail (take n fr)" by (rule torn_prefix [OF stop(2)])
      with h stop c Inl show ?thesis by (auto simp: wal_holds_def)
    next
      case False
      with h stop c Inl F show ?thesis by (auto simp: wal_holds_def sorted_wrt_append)
    qed
  qed
qed

text \<open>A session: appends one after the other, each with what the device made of it.\<close>

fun wal_run :: "crc_fun \<Rightarrow> wal \<Rightarrow> (wal_op \<times> io_out) list \<Rightarrow> wal \<times> (nat \<times> wal_op) list" where
  "wal_run crc w [] = (w, [])"
| "wal_run crc w ((op, io) # xs) =
     (case wal_append crc w op io of
        (w', Inr lsn) \<Rightarrow> (case wal_run crc w' xs of (w'', acked) \<Rightarrow> (w'', (lsn, op) # acked))
      | (w', Inl e) \<Rightarrow> wal_run crc w' xs)"

lemma wal_append_poisoned: "wal_poisoned w \<Longrightarrow> wal_append crc w op io = (w, Inl poisoned_error)"
  by (simp add: wal_append_def ensure_healthy_def)

lemma wal_run_poisoned: "wal_poisoned w \<Longrightarrow> wal_run crc w xs = (w, [])"
  by (induction xs) (auto simp: wal_append_poisoned)

lemma wal_append_next: "wal_append crc w op io = (w', r) \<Longrightarrow> wal_next_lsn w' \<le> wal_next_lsn w + 1"
  using wal_append_Inl_frame [of crc w op io w'] wal_append_Inr_frame [of crc w op io w']
  by (cases r) fastforce+

lemma wal_run_holds:
  assumes "wal_holds crc w rs" and "\<forall>(op, io) \<in> set xs. op_id op < 2 ^ 64"
    and "wal_next_lsn w + length xs < u64_limit" and "wal_run crc w xs = (w', acked)"
  shows "\<exists>extra. wal_holds crc w' (rs @ acked @ extra) \<and> length extra \<le> 1 \<and>
     (extra \<noteq> [] \<longrightarrow> wal_poisoned w') \<and> snd ` set extra \<subseteq> fst ` set xs"
  using assms
proof (induction xs arbitrary: w rs acked)
  case Nil
  then show ?case by (intro exI [of _ "[]"]) simp
next
  case (Cons x xs)
  obtain op io where x: "x = (op, io)" by (cases x)
  obtain w1 r where app: "wal_append crc w op io = (w1, r)" by fastforce
  have op: "op_id op < 2 ^ 64" and room: "wal_next_lsn w + 1 < u64_limit"
    using Cons.prems(2,3) x by auto
  have nxt: "wal_next_lsn w1 + length xs < u64_limit"
    using wal_append_next [OF app] Cons.prems(3) by simp
  note step = wal_append_step [OF Cons.prems(1) op room app]
  show ?case
  proof (cases r)
    case (Inr lsn)
    obtain acked' where run: "wal_run crc w1 xs = (w', acked')" and ack: "acked = (lsn, op) # acked'"
      using Cons.prems(4) app Inr x by (auto split: prod.splits)
    have "wal_holds crc w1 (rs @ [(lsn, op)])" using step unfolding Inr sum.case by blast
    then obtain extra where "wal_holds crc w' ((rs @ [(lsn, op)]) @ acked' @ extra)" "length extra \<le> 1"
      "extra \<noteq> [] \<longrightarrow> wal_poisoned w'" "snd ` set extra \<subseteq> fst ` set xs"
      using Cons.IH [of w1 "rs @ [(lsn, op)]" acked'] Cons.prems(2) nxt run by auto
    then show ?thesis using ack by (intro exI [of _ extra]) auto
  next
    case (Inl e)
    have run: "wal_run crc w1 xs = (w', acked)" using Cons.prems(4) app Inl x by simp
    consider "wal_holds crc w1 rs" | "wal_poisoned w1" "wal_holds crc w1 (rs @ [(wal_next_lsn w, op)])"
      using step Inl by auto
    then show ?thesis
    proof cases
      case 1
      then obtain extra where "wal_holds crc w' (rs @ acked @ extra)" "length extra \<le> 1"
        "extra \<noteq> [] \<longrightarrow> wal_poisoned w'" "snd ` set extra \<subseteq> fst ` set xs"
        using Cons.IH [of w1 rs acked] Cons.prems(2) nxt run by auto
      then show ?thesis by (intro exI [of _ extra]) auto
    next
      case 2
      then show ?thesis using wal_run_poisoned [OF 2(1), of crc xs] run x
        by (intro exI [of _ "[(wal_next_lsn w, op)]"]) simp
    qed
  qed
qed

lemma fold_max_ge: "(\<forall>x \<in> set xs. x \<le> fold max xs m) \<and> m \<le> fold max xs (m :: nat)"
proof (induction xs arbitrary: m)
  case Nil
  then show ?case by simp
next
  case (Cons x xs)
  from Cons [of "max x m"] show ?case by (simp add: max.bounded_iff)
qed

lemma fold_max_le: "\<forall>x \<in> set xs. x \<le> b \<Longrightarrow> m \<le> b \<Longrightarrow> fold max xs m \<le> (b :: nat)"
  by (induction xs arbitrary: m) auto

lemma wal_reopen_holds:
  assumes "wal_holds crc w rs"
  shows "\<exists>w2. wal_open crc reads_ok (wal_content w) policy IoOk = (wal_content w2, Inr (w2, rs)) \<and>
     wal_holds crc w2 rs \<and> \<not> wal_poisoned w2 \<and> wal_policy w2 = policy \<and> wal_next_lsn w2 \<le> wal_next_lsn w + 1"
proof -
  obtain t where t: "wal_content w = log_bytes crc rs @ t" "torn_tail t" and fits: "list_all record_fits rs"
    and srt: "sorted_wrt (<) (map fst rs)" and le: "\<forall>r \<in> set rs. fst r \<le> wal_next_lsn w"
    using assms by (auto simp: wal_holds_def)
  let ?n = "fold max (map (\<lambda>r. Suc (fst r)) rs) 0"
  have "fst r < ?n" if "r \<in> set rs" for r
    using fold_max_ge [of "map (\<lambda>r. Suc (fst r)) rs" 0] that by auto
  moreover have "?n \<le> wal_next_lsn w + 1" using le by (intro fold_max_le) auto
  ultimately show ?thesis
    using wal_open_log [OF t(2) fits, of crc policy] fits srt
    by (auto simp: t(1) wal_holds_def less_imp_le)
qed

lemma ensure_lsn_holds: "wal_holds crc w rs \<Longrightarrow> wal_holds crc (ensure_lsn_at_least w least) rs"
  by (fastforce simp: wal_holds_def ensure_lsn_at_least_def)

lemma wal_reset_holds:
  "wal_holds crc w rs \<Longrightarrow> wal_reset w io = (w', r) \<Longrightarrow>
     (if r = Inr () then wal_holds crc w' [] \<and> \<not> wal_poisoned w' \<and> wal_next_lsn w' = wal_next_lsn w
      else wal_poisoned w' \<and> (wal_holds crc w' rs \<or> wal_holds crc w' []))"
  by (auto simp: wal_reset_def ensure_healthy_def ensure_def wal_holds_def split: io_out.splits if_splits)

section \<open>Properties\<close>

text \<open>A checksum and a session to evaluate with: the second write is interrupted after 5 bytes.\<close>

definition sum_crc :: crc_fun where
  "sum_crc bs = word_of_nat (le_val bs)"

definition fresh_wal :: "sync_policy \<Rightarrow> wal" where
  "fresh_wal policy = \<lparr>wal_content = [], wal_policy = policy, wal_next_lsn = 0, wal_poisoned = False\<rparr>"

definition example_session :: "(wal_op \<times> io_out) list" where
  "example_session =
     [(Insert 0 [f32_one], IoOk), (Insert 1 [f32_zero], IoStop 5), (Insert 1 [f32_one], IoOk)]"

lemma fresh_wal_holds: "wal_holds crc (fresh_wal policy) []"
  by (simp add: wal_holds_def fresh_wal_def)

lemma example_session_run:
  "snd (wal_run sum_crc (fresh_wal Always) example_session) = [(0, Insert 0 [f32_one])]"
  by (simp add: example_session_def fresh_wal_def wal_append_def write_and_sync_def ensure_healthy_def
      wal_frame_def wal_payload_def)

text \<open>
  C33: no acknowledged record is ever lost and none is invented: after any session of appends, each
  cut short or not by the device, reopening the file yields the records that were there, then
  exactly the acknowledged ones in order, then at most one more, the append that failed in the
  sync after its whole frame had reached the file.
\<close>

theorem acked_records_survive:
  assumes "wal_holds crc w rs" and "\<forall>(op, io) \<in> set xs. op_id op < 2 ^ 64"
    and "wal_next_lsn w + length xs < u64_limit" and "wal_run crc w xs = (w', acked)"
  shows "\<exists>extra w2. wal_open crc reads_ok (wal_content w') policy IoOk =
       (wal_content w2, Inr (w2, rs @ acked @ extra)) \<and>
     wal_holds crc w2 (rs @ acked @ extra) \<and> \<not> wal_poisoned w2 \<and>
     length extra \<le> 1 \<and> (extra \<noteq> [] \<longrightarrow> wal_poisoned w') \<and> snd ` set extra \<subseteq> fst ` set xs"
proof -
  obtain extra where E: "wal_holds crc w' (rs @ acked @ extra)" "length extra \<le> 1"
    "extra \<noteq> [] \<longrightarrow> wal_poisoned w'" "snd ` set extra \<subseteq> fst ` set xs"
    using wal_run_holds [OF assms] by blast
  then show ?thesis using wal_reopen_holds [OF E(1)] by blast
qed

theorem acked_records_survive_witness:
  "\<exists>extra w2. wal_open sum_crc reads_ok (wal_content (fst (wal_run sum_crc (fresh_wal Always) example_session)))
       Always IoOk = (wal_content w2, Inr (w2, [(0, Insert 0 [f32_one])] @ extra)) \<and> length extra \<le> 1"
proof -
  obtain w' acked where run: "wal_run sum_crc (fresh_wal Always) example_session = (w', acked)"
    by fastforce
  have "\<forall>(op, io) \<in> set example_session. op_id op < 2 ^ 64"
    and "wal_next_lsn (fresh_wal Always) + length example_session < u64_limit"
    by (simp_all add: example_session_def fresh_wal_def u64_limit_def)
  then show ?thesis
    using acked_records_survive [OF fresh_wal_holds _ _ run] example_session_run run by fastforce
qed



text \<open>
  A complete frame whose checksum does not match is reported, not dropped, wherever it is in the
  file: opening fails with its offset and the number of intact records, and the file keeps every
  byte.
\<close>

theorem damaged_frame_refused:
  assumes "list_all record_fits rs" and "9 \<le> length payload" and "length payload < 2 ^ 32"
    and "crc payload \<noteq> c"
  shows "wal_open crc reads_ok
       (log_bytes crc rs @ le_bytes 4 (length payload) @ le_bytes 4 (unat c) @ payload @ rest) policy io =
     (log_bytes crc rs @ le_bytes 4 (length payload) @ le_bytes 4 (unat c) @ payload @ rest,
      Inl (damaged_error ''checksum mismatch'' (length (log_bytes crc rs)) (length rs)))"
proof -
  let ?l = "log_bytes crc rs"
  let ?disk = "?l @ le_bytes 4 (length payload) @ le_bytes 4 (unat c) @ payload @ rest"
  have "unat (crc payload) \<noteq> unat c" using assms(4) by (simp add: word_unat_eq_iff)
  then have "read_record crc reads_ok ?disk (length ?l) = Stopped (Damaged ''checksum mismatch'')"
    using assms(2,3) by (simp add: read_record_def reads_ok_def Let_def)
  then have "wal_scan crc reads_ok ?disk 0 0 [] = Inl (damaged_error ''checksum mismatch'' (length ?l) (length rs))"
    using wal_scan_records [OF assms(1), of crc "[]" _ 0 "[]"]
    by (simp add: wal_scan.simps [of _ _ _ "length ?l"])
  then show ?thesis by (simp add: wal_open_def)
qed

theorem damaged_frame_refused_witness:
  "snd (wal_open sum_crc reads_ok
       (log_bytes sum_crc [(0, Insert 0 [f32_one])] @ le_bytes 4 9 @ le_bytes 4 7 @ replicate 9 0 @ []) Always IoOk) =
     Inl (damaged_error ''checksum mismatch'' (length (log_bytes sum_crc [(0, Insert 0 [f32_one])])) 1)"
proof -
  have "list_all record_fits [(0, Insert 0 [f32_one])]"
    by (simp add: record_fits_def op_fits_def u64_limit_def)
  moreover have "sum_crc (replicate 9 0) \<noteq> 7" 
  proof -
    have "le_val (replicate n 0) = 0" for n by (induction n) simp_all
    then show ?thesis by (simp add: sum_crc_def)
  qed
  ultimately show ?thesis
    using damaged_frame_refused [of "[(0, Insert 0 [f32_one])]" "replicate 9 0" sum_crc 7 "[]" Always IoOk]
    by simp
qed

text \<open>
  A failed write or sync poisons the log: from then on every append, reset and sync is refused
  with an error and the file is not touched again, until it is opened anew.
\<close>

theorem poisoned_is_final:
  assumes "wal_append crc w op io = (w', Inl (Io e))"
  shows "wal_poisoned w' \<and> wal_append crc w' op' io' = (w', Inl poisoned_error) \<and>
     wal_reset w' io' = (w', Inl poisoned_error) \<and> wal_sync w' io' = (w', Inl poisoned_error)"
proof -
  have "wal_poisoned w'"
    using assms
    by (auto simp: wal_append_def write_and_sync_def ensure_healthy_def ensure_def rbind_eq_Inl
        poisoned_error_def wal_frame_def wal_payload_def
        split: sum.splits io_out.splits if_splits)
  then show ?thesis by (simp add: wal_append_poisoned wal_reset_def wal_sync_def ensure_healthy_def)
qed

theorem poisoned_is_final_witness:
  "wal_sync (fst (wal_append sum_crc (fresh_wal Always) (Insert 1 [f32_zero]) (IoStop 5))) IoOk =
     (fst (wal_append sum_crc (fresh_wal Always) (Insert 1 [f32_zero]) (IoStop 5)), Inl poisoned_error)"
proof -
  obtain w' where a: "wal_append sum_crc (fresh_wal Always) (Insert 1 [f32_zero]) (IoStop 5) =
      (w', Inl (Io DeviceError))"
    by (simp add: fresh_wal_def wal_append_def write_and_sync_def ensure_healthy_def
      wal_frame_def wal_payload_def)
  show ?thesis using poisoned_is_final [OF a] a by simp
qed

text \<open>
  Log sequence numbers only go up across a reset: after a checkpoint empties the log, every
  record appended later has a number at or above the one the snapshot recorded, also when the log
  was reopened in between and floored with that number.
\<close>

theorem lsn_above_watermark:
  assumes "wal_reset w io = (w1, Inr ())" and "watermark = wal_next_lsn w"
    and "w2 = w1 \<or> (\<exists>disk. wal_open crc reads_ok (wal_content w1) policy IoOk = (disk, Inr (w3, rs)) \<and>
      w2 = ensure_lsn_at_least w3 watermark)"
    and "wal_append crc w2 op io' = (w4, Inr lsn)"
  shows "watermark \<le> lsn \<and> wal_next_lsn w4 = lsn + 1"
proof -
  have "wal_next_lsn w1 = wal_next_lsn w"
    using assms(1) by (auto simp: wal_reset_def split: sum.splits io_out.splits)
  then have "watermark \<le> wal_next_lsn w2"
    using assms(2,3) by (auto simp: ensure_lsn_at_least_def)
  then show ?thesis using wal_append_Inr_frame [OF assms(4)] by auto
qed

theorem lsn_above_watermark_witness:
  "\<exists>w4. wal_append sum_crc (ensure_lsn_at_least (fresh_wal Always) 300) (Insert 300 [f32_one]) IoOk = (w4, Inr 300) \<and>
     wal_next_lsn w4 = 301"
proof -
  let ?w = "(fresh_wal Always)\<lparr>wal_next_lsn := 300\<rparr>"
  obtain w4 where a: "wal_append sum_crc (ensure_lsn_at_least (fresh_wal Always) 300) (Insert 300 [f32_one]) IoOk = (w4, Inr 300)"
    by (simp add: fresh_wal_def wal_append_def write_and_sync_def ensure_healthy_def
      wal_frame_def wal_payload_def ensure_lsn_at_least_def)
  have r: "wal_reset ?w IoOk = (?w, Inr ())" by (simp add: wal_reset_def ensure_healthy_def fresh_wal_def)
  have o: "wal_open sum_crc reads_ok (wal_content ?w) Always IoOk = ([], Inr (fresh_wal Always, []))"
    by (simp add: wal_open_def wal_scan.simps read_record_def fresh_wal_def Let_def)
  have "300 \<le> (300::nat) \<and> wal_next_lsn w4 = 300 + 1"
    by (rule lsn_above_watermark [OF r _ _ a]) (use o in \<open>auto simp: fresh_wal_def\<close>)
  with a show ?thesis by simp
qed

section \<open>What the walk cannot tell apart\<close>

text \<open>
  A damaged length field that points past the end of the file is taken for an interrupted write,
  wherever the frame is: the records behind it, acknowledged or not, are dropped without an error.
  The module's comment claims that a bad frame with data after it is always refused.
\<close>

theorem damaged_length_drops_records:
  assumes "8 \<le> length disk" and "9 \<le> le_val (take 4 disk)" and "length disk < 8 + le_val (take 4 disk)"
  shows "\<exists>w. wal_open crc rd disk policy IoOk = ([], Inr (w, []))"
  using assms by (auto simp: wal_open_def wal_scan.simps read_record_def Let_def)

text \<open>A read error while walking the log is also taken for an interrupted write.\<close>

theorem read_error_drops_records:
  assumes "8 \<le> length disk" and "\<not> rd 0 8"
  shows "\<exists>w. wal_open crc rd disk policy IoOk = ([], Inr (w, []))"
  using assms by (auto simp: wal_open_def wal_scan.simps read_record_def Let_def)

end
