(* ===== verification/SegVec.thy ===== *)
theory SegVec
  imports Segments "HOL-Library.Finite_Map"
begin

text \<open>
  \<^verbatim>\<open>src/vektordb-core/src/hnsw/segvec.rs\<close>: the append-only segmented array of graph nodes.  A slot
  is found by its segment and offset; an unallocated segment and an unwritten slot both hold
  nothing, and reading one (undefined behaviour in the code) is \<open>None\<close>.  Writing past the 40th
  segment is the code's index panic, also \<open>None\<close>.
\<close>

definition sv_base :: nat where
  "sv_base = 1024"

definition sv_max_segments :: nat where
  "sv_max_segments = 40"

definition sv_locate :: "nat \<Rightarrow> nat \<times> nat" where
  "sv_locate i =
     (let seg = ilog2 (i div sv_base + 1);
          first = sv_base * (2 ^ seg - 1)
      in (seg, i - first))"

definition sv_seg_len :: "nat \<Rightarrow> nat" where
  "sv_seg_len seg = sv_base * 2 ^ seg"

interpretation sv_seg: doubling sv_base sv_locate
  by unfold_locales (simp_all add: sv_base_def sv_locate_def Let_def)

record 'a segvec =
  sv_slots :: "(nat \<times> nat, 'a) fmap"
  sv_len :: nat

definition sv_new :: "'a segvec" where
  "sv_new = \<lparr>sv_slots = fmempty, sv_len = 0\<rparr>"

definition sv_set :: "'a segvec \<Rightarrow> nat \<Rightarrow> 'a \<Rightarrow> 'a segvec option" where
  "sv_set v i x =
     (if sv_max_segments \<le> fst (sv_locate i) then None
      else Some (v\<lparr>sv_slots := fmupd (sv_locate i) x (sv_slots v), sv_len := max (sv_len v) (i + 1)\<rparr>))"

definition sv_get_unchecked :: "'a segvec \<Rightarrow> nat \<Rightarrow> 'a option" where
  "sv_get_unchecked v i = fmlookup (sv_slots v) (sv_locate i)"

text \<open>A change made through the reference that \<^verbatim>\<open>get_unchecked\<close> returns.\<close>

definition sv_modify :: "'a segvec \<Rightarrow> nat \<Rightarrow> ('a \<Rightarrow> 'a) \<Rightarrow> 'a segvec option" where
  "sv_modify v i f =
     (case sv_get_unchecked v i of
        None \<Rightarrow> None
      | Some x \<Rightarrow> Some (v\<lparr>sv_slots := fmupd (sv_locate i) (f x) (sv_slots v)\<rparr>))"

text \<open>The slots \<^verbatim>\<open>drop\<close> visits: in every segment, those below the published length.\<close>

definition sv_dropped :: "'a segvec \<Rightarrow> (nat \<times> nat) list" where
  "sv_dropped v =
     concat (map (\<lambda>seg. map (\<lambda>i. (seg, i)) [0..<min (sv_len v - sv_base * (2 ^ seg - 1)) (sv_seg_len seg)])
       [0..<sv_max_segments])"

definition sv_capacity :: nat where
  "sv_capacity = seg_first sv_base sv_max_segments"

lemma sv_locate_small: "fst (sv_locate i) < sv_max_segments \<longleftrightarrow> i < sv_capacity"
  by (simp add: sv_seg.locate_seg_less sv_capacity_def)

lemma sv_set_Some: "sv_set v i x = Some v' \<longleftrightarrow>
    i < sv_capacity \<and> v' = v\<lparr>sv_slots := fmupd (sv_locate i) x (sv_slots v), sv_len := max (sv_len v) (i + 1)\<rparr>"
  using sv_locate_small [of i] by (auto simp: sv_set_def)

lemma sv_get_set:
  "sv_set v i x = Some v' \<Longrightarrow> sv_get_unchecked v' j = (if j = i then Some x else sv_get_unchecked v j)"
  by (auto simp: sv_set_Some sv_get_unchecked_def sv_seg.locate_inject)

lemma sv_len_set: "sv_set v i x = Some v' \<Longrightarrow> sv_len v' = max (sv_len v) (i + 1)"
  by (auto simp: sv_set_Some)

lemma sv_modify_Some:
  "sv_modify v i f = Some v' \<Longrightarrow> sv_len v' = sv_len v \<and> (\<exists>x. sv_get_unchecked v i = Some x \<and>
     (\<forall>j. sv_get_unchecked v' j = (if j = i then Some (f x) else sv_get_unchecked v j)))"
  by (auto simp: sv_modify_def sv_get_unchecked_def sv_seg.locate_inject split: option.splits)

lemma sv_get_new [simp]: "sv_get_unchecked sv_new i = None" "sv_len sv_new = 0"
  by (simp_all add: sv_new_def sv_get_unchecked_def)

text \<open>
  Every published slot is written when indices are claimed densely, in any order of completion: the
  invariant the index keeps.
\<close>

definition sv_dense :: "'a segvec \<Rightarrow> bool" where
  "sv_dense v \<longleftrightarrow> sv_len v \<le> sv_capacity \<and> (\<forall>i. sv_get_unchecked v i \<noteq> None \<longleftrightarrow> i < sv_len v)"

lemma sv_dense_new: "sv_dense sv_new"
  by (simp add: sv_dense_def)

lemma sv_dense_push:
  assumes "sv_dense v" "sv_set v (sv_len v) x = Some v'"
  shows "sv_dense v' \<and> sv_len v' = Suc (sv_len v)"
  using assms sv_get_set [OF assms(2)] sv_len_set [OF assms(2)]
  by (auto simp: sv_dense_def sv_set_Some less_Suc_eq)

lemma sv_dense_modify: "sv_dense v \<Longrightarrow> sv_modify v i f = Some v' \<Longrightarrow> sv_dense v'"
  using sv_modify_Some [of v i f v'] by (fastforce simp: sv_dense_def)

lemma sv_set_ok: "i < sv_capacity \<Longrightarrow> \<exists>v'. sv_set v i x = Some v'"
  by (simp add: sv_set_Some)

text \<open>Dropping frees each written slot of a dense array exactly once and no other.\<close>

lemma distinct_concat_segs:
  "distinct (concat (map (\<lambda>seg. map (\<lambda>i. (seg, i)) [0..<f seg]) [0..<n]))"
  by (induction n) (auto simp: distinct_map inj_on_def)

lemma sv_dropped_iff:
  assumes "sv_len v \<le> sv_capacity"
  shows "(seg, off) \<in> set (sv_dropped v) \<longleftrightarrow> (\<exists>i < sv_len v. sv_locate i = (seg, off))"
proof
  assume "(seg, off) \<in> set (sv_dropped v)"
  then have *: "seg < sv_max_segments" "off < sv_len v - seg_first sv_base seg" "off < sv_base * 2 ^ seg"
    by (auto simp: sv_dropped_def sv_seg_len_def seg_first_def)
  then have "sv_locate (seg_first sv_base seg + off) = (seg, off)"
    by (intro sv_seg.locate_unique) simp_all
  with * show "\<exists>i < sv_len v. sv_locate i = (seg, off)"
    by (intro exI [of _ "seg_first sv_base seg + off"]) linarith
next
  assume "\<exists>i < sv_len v. sv_locate i = (seg, off)"
  then obtain i where i: "i < sv_len v" "sv_locate i = (seg, off)" by blast
  note b = sv_seg.locate_bounds [OF i(2)]
  have "seg < sv_max_segments" using sv_locate_small [of i] i assms by simp
  moreover have "off < sv_len v - seg_first sv_base seg" using b(1) i(1) by linarith
  ultimately show "(seg, off) \<in> set (sv_dropped v)"
    using b(2) unfolding sv_dropped_def sv_seg_len_def seg_first_def set_concat set_map image_image
    by (intro UN_I [of seg]) auto
qed

text \<open>
  The segmented array behaves as an array: a read returns what the last write to that index
  stored and no write moves or disturbs another index; and dropping a dense array releases each
  written slot exactly once and touches no unwritten one.
\<close>

theorem segvec_array:
  assumes "sv_set v i x = Some v'"
  shows "sv_get_unchecked v' j = (if j = i then Some x else sv_get_unchecked v j) \<and>
     (sv_dense v' \<longrightarrow> distinct (sv_dropped v') \<and>
        (\<forall>p. p \<in> set (sv_dropped v') \<longleftrightarrow> (\<exists>n. sv_locate n = p \<and> sv_get_unchecked v' n \<noteq> None)))"
proof -
  have "distinct (sv_dropped v')" by (simp add: sv_dropped_def distinct_concat_segs)
  then show ?thesis
    using sv_get_set [OF assms, of j] sv_dropped_iff [of v'] by (auto simp: sv_dense_def)
qed

theorem segvec_array_witness:
  "\<exists>v'. sv_set sv_new 2000 True = Some v' \<and> sv_get_unchecked v' 2000 = Some True \<and> sv_get_unchecked v' 976 = None"
proof -
  obtain v' where v: "sv_set sv_new 2000 True = Some v'"
    using sv_set_ok [of 2000 sv_new True]
    by (auto simp: sv_capacity_def seg_first_def sv_base_def sv_max_segments_def)
  show ?thesis using segvec_array [OF v, of 2000] segvec_array [OF v, of 976] v by simp
qed

end
