(* ===== verification/Visited.thy ===== *)
theory Visited
  imports Prelude
begin

text \<open>
  \<^verbatim>\<open>src/vektordb-core/src/hnsw/scratch.rs\<close>: the visited set a thread reuses for every traversal,
  one \<^verbatim>\<open>u32\<close> stamp per node and a generation counter that wraps.
\<close>

record visited =
  vis_stamps :: "32 word list"
  vis_generation :: "32 word"

definition vis_new :: visited where
  "vis_new = \<lparr>vis_stamps = [], vis_generation = 0\<rparr>"

text \<open>\<^verbatim>\<open>Vec::resize\<close> to a larger size.\<close>

definition grow_stamps :: "32 word list \<Rightarrow> nat \<Rightarrow> 32 word list" where
  "grow_stamps xs n = (if length xs < n then xs @ replicate (n - length xs) 0 else xs)"

definition begin_pass :: "visited \<Rightarrow> nat \<Rightarrow> visited" where
  "begin_pass v n =
     (let stamps = grow_stamps (vis_stamps v) n;
          generation = vis_generation v + 1
      in if generation = 0 then \<lparr>vis_stamps = map (\<lambda>_. 0) stamps, vis_generation = 1\<rparr>
         else \<lparr>vis_stamps = stamps, vis_generation = generation\<rparr>)"

definition mark :: "visited \<Rightarrow> nat \<Rightarrow> visited \<times> bool" where
  "mark v i =
     (let stamps = grow_stamps (vis_stamps v) (i + 1)
      in if stamps ! i = vis_generation v then (v\<lparr>vis_stamps := stamps\<rparr>, True)
         else (v\<lparr>vis_stamps := stamps[i := vis_generation v]\<rparr>, False))"

text \<open>What a visited set stands for, and the invariant between passes.\<close>

definition vis_set :: "visited \<Rightarrow> nat set" where
  "vis_set v = {i. i < length (vis_stamps v) \<and> vis_stamps v ! i = vis_generation v}"

definition vis_inv :: "visited \<Rightarrow> bool" where
  "vis_inv v \<longleftrightarrow> (\<forall>s \<in> set (vis_stamps v). s \<le> vis_generation v)"

definition vis_active :: "visited \<Rightarrow> bool" where
  "vis_active v \<longleftrightarrow> vis_inv v \<and> vis_generation v \<noteq> 0"

lemma length_grow_stamps [simp]: "length (grow_stamps xs n) = max (length xs) n"
  by (simp add: grow_stamps_def max_def)

lemma grow_stamps_nth: "i < max (length xs) n \<Longrightarrow> grow_stamps xs n ! i = (if i < length xs then xs ! i else 0)"
  by (auto simp: grow_stamps_def nth_append)

lemma set_grow_stamps: "set (grow_stamps xs n) \<subseteq> insert 0 (set xs)"
  by (auto simp: grow_stamps_def)

lemma finite_vis_set [simp]: "finite (vis_set v)"
  by (simp add: vis_set_def)

lemma vis_new_inv: "vis_inv vis_new"
  by (simp add: vis_inv_def vis_new_def)

lemma word_succ_gt: "(g :: 32 word) + 1 \<noteq> 0 \<Longrightarrow> s \<le> g \<Longrightarrow> s < g + 1"
  using unatSuc [of g] by (simp add: word_le_nat_alt word_less_nat_alt add.commute)

lemma begin_pass_spec:
  assumes "vis_inv v"
  shows "vis_active (begin_pass v n) \<and> vis_set (begin_pass v n) = {}"
proof (cases "vis_generation v + 1 = 0")
  case True
  then show ?thesis
    by (auto simp: begin_pass_def Let_def vis_active_def vis_inv_def vis_set_def)
next
  case False
  let ?s = "grow_stamps (vis_stamps v) n"
  have "s < vis_generation v + 1" if "s \<in> set ?s" for s
    using that set_grow_stamps [of "vis_stamps v" n] assms word_succ_gt [OF False]
    by (auto simp: vis_inv_def word_neq_0_conv [symmetric] False)
  then show ?thesis
    using False nth_mem [of _ ?s]
    by (fastforce simp: begin_pass_def Let_def vis_active_def vis_inv_def vis_set_def)
qed

lemma mark_mono: "vis_set v \<subseteq> vis_set (fst (mark v i))"
  by (auto simp: vis_set_def mark_def Let_def grow_stamps_nth nth_list_update)

lemma mark_in: "i \<in> vis_set (fst (mark v i))"
  by (auto simp: vis_set_def mark_def Let_def)

lemma mark_fresh: "\<not> snd (mark v i) \<Longrightarrow> i \<notin> vis_set v"
  by (auto simp: vis_set_def mark_def Let_def grow_stamps_nth split: if_splits)

lemma mark_spec:
  assumes "vis_active v"
  shows "vis_active (fst (mark v i)) \<and> vis_set (fst (mark v i)) = insert i (vis_set v) \<and>
     snd (mark v i) = (i \<in> vis_set v)"
proof -
  let ?s = "grow_stamps (vis_stamps v) (i + 1)"
  have g: "vis_generation v \<noteq> 0" using assms by (simp add: vis_active_def)
  have b: "\<forall>s \<in> set ?s. s \<le> vis_generation v"
    using assms set_grow_stamps [of "vis_stamps v" "i + 1"] by (auto simp: vis_active_def vis_inv_def)
  then have "vis_active (fst (mark v i))"
    using g set_update_subset_insert [of ?s i "vis_generation v"]
    by (auto simp: mark_def Let_def vis_active_def vis_inv_def)
  moreover have "vis_set (fst (mark v i)) = insert i (vis_set v)"
    using g by (auto simp: vis_set_def mark_def Let_def grow_stamps_nth nth_list_update split: if_splits)
  moreover have "snd (mark v i) = (i \<in> vis_set v)"
    using g by (auto simp: vis_set_def mark_def Let_def grow_stamps_nth)
  ultimately show ?thesis by blast
qed

text \<open>
  The stamps implement a set, in every pass and across the wrap of the generation counter: a
  new pass starts empty whatever the earlier ones left behind, and \<^verbatim>\<open>mark\<close> answers whether the id
  was marked in this pass and adds it.
\<close>

theorem visited_is_a_set:
  assumes "vis_inv v"
  shows "vis_set (begin_pass v n) = {} \<and>
     (let v' = fold (\<lambda>i w. fst (mark w i)) is (begin_pass v n)
      in vis_inv v' \<and> vis_set v' = set is \<and> (\<forall>j. snd (mark v' j) = (j \<in> set is)))"
proof -
  have "vis_active (fold (\<lambda>i w. fst (mark w i)) is w) \<and>
      vis_set (fold (\<lambda>i w. fst (mark w i)) is w) = set is \<union> vis_set w" if "vis_active w" for w
    using that
  proof (induction "is" arbitrary: w)
    case (Cons i js)
    then show ?case using mark_spec [OF Cons.prems, of i] by simp
  qed simp
  then show ?thesis
    using begin_pass_spec [OF assms, of n] mark_spec by (auto simp: Let_def vis_active_def)
qed

theorem visited_is_a_set_witness:
  "vis_set (begin_pass \<lparr>vis_stamps = [1, - 1, 0], vis_generation = - 1\<rparr> 3) = {}"
  using visited_is_a_set [of "\<lparr>vis_stamps = [1, - 1, 0], vis_generation = - 1\<rparr>" 3 "[]"]
  by (simp add: vis_inv_def)

end
