(* ===== verification/Hnsw.thy ===== *)
theory Hnsw
  imports Neighbors Distance SegVec Visited "HOL-Library.Monad_Syntax"
begin

text \<open>
  \<^verbatim>\<open>src/vektordb-core/src/hnsw/mod.rs\<close>: the graph index.  A node is its adjacency list per
  layer, a null pointer being an empty list; the nodes live in the segmented array.  \<open>None\<close> is a
  panic of the code or a read it must never make (an unwritten node, a vector outside the store).
  A distance \<open>dist_fun\<close> is a function on ids, \<open>vec\<close> the store's \<^verbatim>\<open>get_unchecked\<close>.  The level of a new
  node, drawn by the code from the seeded generator, is an argument.  The operations are those of
  one thread; the set of visited nodes is the thread's reusable scratch and is threaded through.
\<close>

section \<open>State\<close>

record hnsw_config =
  cfg_m :: nat
  cfg_ef_construction :: nat
  cfg_metric :: metric

definition default_config :: hnsw_config where
  "default_config = \<lparr>cfg_m = 16, cfg_ef_construction = 200, cfg_metric = L2\<rparr>"

definition entry_none :: "64 word" where
  "entry_none = - 1"

definition pack_entry :: "nat \<Rightarrow> nat \<Rightarrow> 64 word" where
  "pack_entry i level = or (push_bit 56 (word_of_nat level)) (word_of_nat i)"

definition unpack_entry :: "64 word \<Rightarrow> nat \<times> nat" where
  "unpack_entry packed = (unat (and packed (mask 56)), unat (drop_bit 56 packed))"

record node =
  node_links :: "nat list list"

definition node_new :: "nat \<Rightarrow> node" where
  "node_new level = \<lparr>node_links = replicate (level + 1) []\<rparr>"

definition node_level :: "node \<Rightarrow> nat" where
  "node_level nd = length (node_links nd) - 1"

type_synonym kernel_fun = "f32 list \<Rightarrow> f32 list \<Rightarrow> f32 option"
type_synonym dist_fun = "nat \<Rightarrow> f32 option"
type_synonym vec_fun = "nat \<Rightarrow> f32 list option"

record hnsw =
  hn_config :: hnsw_config
  hn_kernel :: kernel_fun
  hn_nodes :: "node segvec"
  hn_entry :: "64 word"

definition hnsw_new :: "bool \<Rightarrow> hnsw_config \<Rightarrow> hnsw result" where
  "hnsw_new avx config =
     rbind (ensure (2 \<le> cfg_m config \<and> cfg_m config \<le> 4096) (InvalidArgument ''HNSW M must be in 2..=4096'')) (\<lambda>_.
     Inr \<lparr>hn_config = config, hn_kernel = kernel avx (cfg_metric config), hn_nodes = sv_new,
          hn_entry = entry_none\<rparr>)"

definition hnsw_len :: "hnsw \<Rightarrow> nat" where
  "hnsw_len h = sv_len (hn_nodes h)"

definition max_degree :: "hnsw \<Rightarrow> nat \<Rightarrow> nat" where
  "max_degree h layer = (if layer = 0 then cfg_m (hn_config h) * 2 else cfg_m (hn_config h))"

text \<open>\<^verbatim>\<open>distance\<close>: the dist_fun of a query vector.\<close>

definition hnsw_distance :: "kernel_fun \<Rightarrow> vec_fun \<Rightarrow> f32 list \<Rightarrow> dist_fun" where
  "hnsw_distance kern vec q i = do { v \<leftarrow> vec i; kern q v }"

text \<open>The adjacency snapshot that \<^verbatim>\<open>with_links\<close> walks.\<close>

definition links_of :: "hnsw \<Rightarrow> nat \<Rightarrow> nat \<Rightarrow> nat list option" where
  "links_of h i layer = do {
     nd \<leftarrow> sv_get_unchecked (hn_nodes h) i;
     if layer < length (node_links nd) then Some (node_links nd ! layer) else None }"

section \<open>Search on one layer\<close>

definition worst :: "heap \<Rightarrow> f32" where
  "worst res = (if res = [] then f32_inf else nb_dist (last res))"

type_synonym search_state = "visited \<times> heap \<times> heap"

definition visit_one :: "dist_fun \<Rightarrow> nat \<Rightarrow> search_state \<Rightarrow> nat \<Rightarrow> search_state option" where
  "visit_one dist ef st i =
     (case st of (vis, cand, res) \<Rightarrow>
        (case mark vis i of (vis', seen) \<Rightarrow>
           if seen then Some (vis', cand, res)
           else do {
             d \<leftarrow> dist i;
             if length res < ef \<or> f32_lt d (worst res) then
               Some (vis', insort (Neighbor i d) cand, push_bounded res (Neighbor i d) ef)
             else Some (vis', cand, res) }))"

primrec visit_all :: "dist_fun \<Rightarrow> nat \<Rightarrow> nat list \<Rightarrow> search_state \<Rightarrow> search_state option" where
  "visit_all dist ef [] st = Some st"
| "visit_all dist ef (i # ns) st = do { st' \<leftarrow> visit_one dist ef st i; visit_all dist ef ns st' }"

text \<open>Every id some list of the layer names; the walk marks at most these.\<close>

definition link_targets :: "hnsw \<Rightarrow> nat \<Rightarrow> nat set" where
  "link_targets h layer = (\<Union>i. case links_of h i layer of None \<Rightarrow> {} | Some ns \<Rightarrow> set ns)"

lemma links_of_Some:
  "links_of h i layer = Some ns \<longleftrightarrow>
     (\<exists>nd. sv_get_unchecked (hn_nodes h) i = Some nd \<and> layer < length (node_links nd) \<and> ns = node_links nd ! layer)"
  by (auto simp: links_of_def split: bind_splits)

lemma link_targets_iff: "j \<in> link_targets h layer \<longleftrightarrow> (\<exists>i ns. links_of h i layer = Some ns \<and> j \<in> set ns)"
  by (auto simp: link_targets_def split: option.splits)

lemma finite_link_targets [simp]: "finite (link_targets h layer)"
proof -
  let ?T = "\<lambda>nd. if layer < length (node_links nd) then set (node_links nd ! layer) else {}"
  have "link_targets h layer \<subseteq> (\<Union>nd \<in> fset (fmran (sv_slots (hn_nodes h))). ?T nd)"
  proof
    fix j assume "j \<in> link_targets h layer"
    then obtain i nd where nd: "sv_get_unchecked (hn_nodes h) i = Some nd" "layer < length (node_links nd)"
      "j \<in> set (node_links nd ! layer)"
      by (auto simp: link_targets_iff links_of_Some)
    then have "nd |\<in>| fmran (sv_slots (hn_nodes h))"
      by (auto simp: sv_get_unchecked_def intro: fmranI)
    then show "j \<in> (\<Union>nd \<in> fset (fmran (sv_slots (hn_nodes h))). ?T nd)" using nd by force
  qed
  then show ?thesis by (rule finite_subset) auto
qed

lemma visit_one_progress:
  "visit_one dist ef (vis, cand, res) i = Some (vis', cand', res') \<Longrightarrow>
    vis_set vis \<subseteq> vis_set vis' \<and> (cand' = cand \<or> (i \<in> vis_set vis' \<and> i \<notin> vis_set vis))"
  using mark_mono [of vis i] mark_in [of i vis] mark_fresh [of vis i]
  by (auto simp: visit_one_def split: prod.splits if_splits bind_splits)

lemma visit_all_progress:
  "visit_all dist ef ns (vis, cand, res) = Some (vis', cand', res') \<Longrightarrow>
    vis_set vis \<subseteq> vis_set vis' \<and> (cand' = cand \<or> (\<exists>i \<in> set ns. i \<in> vis_set vis' \<and> i \<notin> vis_set vis))"
proof (induction ns arbitrary: vis cand res)
  case Nil
  then show ?case by simp
next
  case (Cons i ns)
  obtain v1 c1 r1 where s: "visit_one dist ef (vis, cand, res) i = Some (v1, c1, r1)"
    and rest: "visit_all dist ef ns (v1, c1, r1) = Some (vis', cand', res')"
    using Cons.prems by (auto split: bind_splits)
  from visit_one_progress [OF s] Cons.IH [OF rest] show ?case by auto
qed

definition loop_measure :: "hnsw \<times> dist_fun \<times> nat \<times> nat \<times> visited \<times> heap \<times> heap \<Rightarrow> nat \<times> nat" where
  "loop_measure =
     (\<lambda>(h, dist, ef, layer, vis, cand, res). (card (link_targets h layer - vis_set vis), length cand))"

function search_loop :: "hnsw \<Rightarrow> dist_fun \<Rightarrow> nat \<Rightarrow> nat \<Rightarrow> visited \<Rightarrow> heap \<Rightarrow> heap \<Rightarrow>
    (visited \<times> heap) option" where
  "search_loop h dist ef layer vis cand res =
     (case cand of
        [] \<Rightarrow> Some (vis, res)
      | current # rest \<Rightarrow>
          if f32_lt (worst res) (nb_dist current) \<and> ef \<le> length res then Some (vis, res)
          else do {
            ns \<leftarrow> links_of h (nb_id current) layer;
            (vis', cand', res') \<leftarrow> visit_all dist ef ns (vis, rest, res);
            search_loop h dist ef layer vis' cand' res' })"
  by pat_completeness auto
termination
proof (relation "inv_image (less_than <*lex*> less_than) loop_measure", goal_cases)
  case 1
  then show ?case by (intro wf_inv_image wf_lex_prod wf_less_than)
next
  case (2 h dist ef layer vis cand res current rest ns st vis' p cand' res')
  let ?A = "link_targets h layer - vis_set vis" and ?A' = "link_targets h layer - vis_set vis'"
  have sub: "set ns \<subseteq> link_targets h layer"
    using 2(3) link_targets_iff by blast
  have "visit_all dist ef ns (vis, rest, res) = Some (vis', cand', res')" using 2(4,5,6) by simp
  note prog = visit_all_progress [OF this]
  have le: "card ?A' \<le> card ?A" by (rule card_mono) (use prog in auto)
  have "card ?A' < card ?A \<or> length cand' < length cand"
  proof (cases "cand' = rest")
    case True
    then show ?thesis using 2(1) by simp
  next
    case False
    then have "?A' \<subset> ?A" using prog sub by blast
    then show ?thesis by (simp add: psubset_card_mono)
  qed
  with le show ?case by (auto simp: loop_measure_def)
qed

declare search_loop.simps [simp del]

definition search_layer :: "hnsw \<Rightarrow> dist_fun \<Rightarrow> visited \<Rightarrow> nat \<Rightarrow> nat \<Rightarrow> nat \<Rightarrow> (visited \<times> heap) option" where
  "search_layer h dist vis entry ef layer = do {
     let vis1 = fst (mark (begin_pass vis (hnsw_len h)) entry);
     entry_dist \<leftarrow> dist entry;
     search_loop h dist ef layer vis1 [Neighbor entry entry_dist] [Neighbor entry entry_dist] }"

section \<open>Greedy descent\<close>

primrec greedy_scan :: "dist_fun \<Rightarrow> nat list \<Rightarrow> nat \<times> f32 \<times> bool \<Rightarrow> (nat \<times> f32 \<times> bool) option" where
  "greedy_scan dist [] st = Some st"
| "greedy_scan dist (i # ns) st = do {
     d \<leftarrow> dist i;
     greedy_scan dist ns (if f32_lt d (fst (snd st)) then (i, d, True) else st) }"

lemma finite_f32 [simp]: "finite (A :: f32 set)"
proof -
  have "(UNIV :: f32 set) = F32 ` UNIV" by (metis f32.exhaust rangeI UNIV_eq_I)
  then have "finite (UNIV :: f32 set)" by (metis finite finite_imageI)
  then show ?thesis by (rule finite_subset [OF subset_UNIV])
qed

lemma greedy_scan_spec:
  "greedy_scan dist ns (e, b, imp) = Some (e', b', imp') \<Longrightarrow>
     (e', b', imp') = (e, b, imp) \<or> (imp' \<and> e' \<in> set ns \<and> dist e' = Some b' \<and> f32_lt b' b)"
proof (induction ns arbitrary: e b imp)
  case Nil
  then show ?case by simp
next
  case (Cons i ns)
  then obtain d where d: "dist i = Some d" by (auto split: bind_splits)
  show ?case
  proof (cases "f32_lt d b")
    case True
    with Cons.prems d have "greedy_scan dist ns (i, d, True) = Some (e', b', imp')" by simp
    from Cons.IH [OF this] True d show ?thesis by (auto intro: f32_lt_trans)
  next
    case False
    with Cons.prems d have "greedy_scan dist ns (e, b, imp) = Some (e', b', imp')" by simp
    from Cons.IH [OF this] show ?thesis by auto
  qed
qed

function greedy_descend :: "hnsw \<Rightarrow> dist_fun \<Rightarrow> nat \<Rightarrow> f32 \<Rightarrow> nat \<Rightarrow> (nat \<times> f32) option" where
  "greedy_descend h dist entry best layer = do {
     ns \<leftarrow> links_of h entry layer;
     (entry', best', improved) \<leftarrow> greedy_scan dist ns (entry, best, False);
     if improved then greedy_descend h dist entry' best' layer else Some (entry', best') }"
  by pat_completeness auto
termination
proof (relation "measure (\<lambda>(h, dist, entry, best, layer). card {y. f32_lt y best})", goal_cases)
  case 1
  then show ?case by simp
next
  case (2 h dist entry best layer ns st entry' p best' improved)
  then have "f32_lt best' best" using greedy_scan_spec [of dist ns entry best False entry' best' improved] by auto
  then have "{y. f32_lt y best'} \<subset> {y. f32_lt y best}"
    using f32_lt_trans f32_lt_irrefl by blast
  then show ?case by (simp add: psubset_card_mono)
qed

declare greedy_descend.simps [simp del]

text \<open>The descent through a range of layers, highest first.\<close>

primrec descend_layers :: "hnsw \<Rightarrow> dist_fun \<Rightarrow> nat list \<Rightarrow> nat \<times> f32 \<Rightarrow> (nat \<times> f32) option" where
  "descend_layers h dist [] ep = Some ep"
| "descend_layers h dist (layer # layers) ep = do {
     ep' \<leftarrow> greedy_descend h dist (fst ep) (snd ep) layer;
     descend_layers h dist layers ep' }"

section \<open>Selecting neighbours\<close>

text \<open>\<^verbatim>\<open>any\<close> over the selected ones, stopping at the first that dominates.\<close>

primrec dominated :: "kernel_fun \<Rightarrow> vec_fun \<Rightarrow> f32 list \<Rightarrow> f32 \<Rightarrow> neighbor list \<Rightarrow> bool option" where
  "dominated kern vec cv cd [] = Some False"
| "dominated kern vec cv cd (s # ss) = do {
     sv \<leftarrow> vec (nb_id s);
     d \<leftarrow> kern cv sv;
     if f32_lt d cd then Some True else dominated kern vec cv cd ss }"

primrec select_loop :: "kernel_fun \<Rightarrow> vec_fun \<Rightarrow> nat \<Rightarrow> neighbor list \<Rightarrow> neighbor list \<Rightarrow> neighbor list \<Rightarrow>
    (neighbor list \<times> neighbor list) option" where
  "select_loop kern vec m [] selected pruned = Some (selected, pruned)"
| "select_loop kern vec m (c # cs) selected pruned =
     (if m \<le> length selected then Some (selected, pruned)
      else do {
        cv \<leftarrow> vec (nb_id c);
        dom \<leftarrow> dominated kern vec cv (nb_dist c) selected;
        if dom then select_loop kern vec m cs selected (pruned @ [c])
        else select_loop kern vec m cs (selected @ [c]) pruned })"

primrec top_up :: "nat \<Rightarrow> nat list \<Rightarrow> neighbor list \<Rightarrow> nat list" where
  "top_up m out [] = out"
| "top_up m out (p # ps) = (if m \<le> length out then out else top_up m (out @ [nb_id p]) ps)"

definition select_neighbors :: "kernel_fun \<Rightarrow> vec_fun \<Rightarrow> neighbor list \<Rightarrow> nat \<Rightarrow> nat list option" where
  "select_neighbors kern vec cands m = do {
     (selected, pruned) \<leftarrow> select_loop kern vec m cands [] [];
     Some (top_up m (map nb_id selected) pruned) }"

section \<open>Inserting\<close>

definition set_links :: "hnsw \<Rightarrow> nat \<Rightarrow> nat \<Rightarrow> nat list \<Rightarrow> hnsw option" where
  "set_links h i layer ns = do {
     nodes \<leftarrow> sv_modify (hn_nodes h) i (\<lambda>nd. nd\<lparr>node_links := (node_links nd)[layer := ns]\<rparr>);
     Some (h\<lparr>hn_nodes := nodes\<rparr>) }"

definition rewrite_links :: "hnsw \<Rightarrow> nat \<Rightarrow> nat \<Rightarrow> (nat list \<Rightarrow> nat list option) \<Rightarrow> hnsw option" where
  "rewrite_links h i layer mutate = do {
     cur \<leftarrow> links_of h i layer;
     ns \<leftarrow> mutate cur;
     set_links h i layer ns }"

primrec score :: "kernel_fun \<Rightarrow> vec_fun \<Rightarrow> f32 list \<Rightarrow> nat list \<Rightarrow> neighbor list option" where
  "score kern vec base [] = Some []"
| "score kern vec base (x # xs) = do {
     v \<leftarrow> vec x;
     d \<leftarrow> kern base v;
     rest \<leftarrow> score kern vec base xs;
     Some (Neighbor x d # rest) }"

definition add_own_links :: "nat list \<Rightarrow> nat list \<Rightarrow> nat list option" where
  "add_own_links chosen cur = Some (remdups_adj (cur @ chosen))"

definition add_back_link :: "kernel_fun \<Rightarrow> vec_fun \<Rightarrow> nat \<Rightarrow> nat \<Rightarrow> nat \<Rightarrow> nat list \<Rightarrow> nat list option" where
  "add_back_link kern vec i nb upper cur =
     (if i \<in> set cur then Some cur
      else
        let ns = cur @ [i]
        in if length ns \<le> upper then Some ns
           else do {
             base \<leftarrow> vec nb;
             cands \<leftarrow> score kern vec base ns;
             select_neighbors kern vec (sort cands) upper })"

primrec back_links :: "hnsw \<Rightarrow> vec_fun \<Rightarrow> nat \<Rightarrow> nat \<Rightarrow> nat list \<Rightarrow> hnsw option" where
  "back_links h vec i layer [] = Some h"
| "back_links h vec i layer (nb # nbs) = do {
     h' \<leftarrow> rewrite_links h nb layer (add_back_link (hn_kernel h) vec i nb (max_degree h layer));
     back_links h' vec i layer nbs }"

definition connect_layer :: "hnsw \<Rightarrow> vec_fun \<Rightarrow> dist_fun \<Rightarrow> nat \<Rightarrow> nat \<Rightarrow> visited \<Rightarrow> nat \<Rightarrow>
    (hnsw \<times> visited \<times> nat) option" where
  "connect_layer h vec dist i layer vis ep = do {
     (vis', found) \<leftarrow> search_layer h dist vis ep (cfg_ef_construction (hn_config h)) layer;
     let ep' = (case found of [] \<Rightarrow> ep | best # _ \<Rightarrow> nb_id best);
     let cands = filter (\<lambda>n. nb_id n \<noteq> i) found;
     chosen \<leftarrow> select_neighbors (hn_kernel h) vec cands (cfg_m (hn_config h));
     h1 \<leftarrow> rewrite_links h i layer (add_own_links chosen);
     h2 \<leftarrow> back_links h1 vec i layer chosen;
     Some (h2, vis', ep') }"

primrec connect_layers :: "vec_fun \<Rightarrow> dist_fun \<Rightarrow> nat \<Rightarrow> nat list \<Rightarrow> hnsw \<times> visited \<times> nat \<Rightarrow>
    (hnsw \<times> visited \<times> nat) option" where
  "connect_layers vec dist i [] st = Some st"
| "connect_layers vec dist i (layer # layers) st = do {
     st' \<leftarrow> connect_layer (fst st) vec dist i layer (fst (snd st)) (snd (snd st));
     connect_layers vec dist i layers st' }"

definition raise_entry :: "hnsw \<Rightarrow> nat \<Rightarrow> nat \<Rightarrow> nat \<Rightarrow> hnsw" where
  "raise_entry h i level upper =
     (if upper < level \<and> snd (unpack_entry (hn_entry h)) < level
      then h\<lparr>hn_entry := pack_entry i level\<rparr> else h)"

definition hnsw_insert :: "hnsw \<Rightarrow> vec_fun \<Rightarrow> nat \<Rightarrow> nat \<Rightarrow> visited \<Rightarrow> (hnsw \<times> visited) option" where
  "hnsw_insert h vec i level vis = do {
     query \<leftarrow> vec i;
     nodes \<leftarrow> sv_set (hn_nodes h) i (node_new level);
     let h1 = h\<lparr>hn_nodes := nodes\<rparr>;
     if hn_entry h1 = entry_none then Some (h1\<lparr>hn_entry := pack_entry i level\<rparr>, vis)
     else do {
       let dist = hnsw_distance (hn_kernel h) vec query;
       let (entry_id, upper) = unpack_entry (hn_entry h1);
       ep_dist \<leftarrow> dist entry_id;
       ep \<leftarrow> descend_layers h1 dist (rev [level + 1..<upper + 1]) (entry_id, ep_dist);
       (h2, vis', _) \<leftarrow> connect_layers vec dist i (rev [0..<min level upper + 1]) (h1, vis, fst ep);
       Some (raise_entry h2 i level upper, vis') }}"

section \<open>Searching\<close>

definition search_with_oracle :: "hnsw \<Rightarrow> dist_fun \<Rightarrow> visited \<Rightarrow> nat \<Rightarrow> nat \<Rightarrow> (neighbor list \<times> visited) option" where
  "search_with_oracle h dist vis k ef =
     (if hn_entry h = entry_none then Some ([], vis)
      else do {
        let (entry_id, upper) = unpack_entry (hn_entry h);
        let ef' = max ef k;
        ep_dist \<leftarrow> dist entry_id;
        ep \<leftarrow> descend_layers h dist (rev [1..<upper + 1]) (entry_id, ep_dist);
        (vis', found) \<leftarrow> search_layer h dist vis (fst ep) ef' 0;
        Some (take k found, vis') })"

definition hnsw_search :: "hnsw \<Rightarrow> vec_fun \<Rightarrow> f32 list \<Rightarrow> visited \<Rightarrow> nat \<Rightarrow> nat \<Rightarrow> (neighbor list \<times> visited) option" where
  "hnsw_search h vec query vis k ef =
     search_with_oracle h (hnsw_distance (hn_kernel h) vec query) vis k ef"

text \<open>All the layer-0 links in the order the count walks them; \<open>None\<close> when one indexes past the counters.\<close>

primrec collect_links :: "hnsw \<Rightarrow> nat list \<Rightarrow> nat list option" where
  "collect_links h [] = Some []"
| "collect_links h (i # is) = do {
     ns \<leftarrow> links_of h i 0;
     rest \<leftarrow> (if \<forall>nb \<in> set ns. nb < hnsw_len h then collect_links h is else None);
     Some (ns @ rest) }"

definition zero_indegree_nodes :: "hnsw \<Rightarrow> nat list option" where
  "zero_indegree_nodes h = do {
     targets \<leftarrow> collect_links h [0..<hnsw_len h];
     Some (filter (\<lambda>i. count_list targets i = 0 \<and> i \<noteq> fst (unpack_entry (hn_entry h))) [0..<hnsw_len h]) }"

definition zero_indegree_count :: "hnsw \<Rightarrow> nat option" where
  "zero_indegree_count h = map_option length (zero_indegree_nodes h)"

text \<open>\<^verbatim>\<open>check_invariants\<close>, the structural check of the code's own tests.\<close>

definition check_invariants :: "hnsw \<Rightarrow> bool" where
  "check_invariants h \<longleftrightarrow>
     (\<forall>i < hnsw_len h. \<exists>nd. sv_get_unchecked (hn_nodes h) i = Some nd \<and>
        (\<forall>layer \<le> node_level nd.
           (\<forall>nb \<in> set (node_links nd ! layer). nb \<noteq> i \<and>
              (\<exists>nd'. sv_get_unchecked (hn_nodes h) nb = Some nd' \<and> layer \<le> node_level nd')) \<and>
           length (node_links nd ! layer) \<le> max_degree h layer))"

section \<open>The packed entry pointer\<close>

lemma pack_nat:
  assumes "i < 2 ^ 56"
  shows "or (push_bit 56 l) i = l * 2 ^ 56 + (i::nat)"
proof -
  have "and (push_bit 56 l) i = 0"
  proof (rule bit_eqI)
    fix n show "bit (and (push_bit 56 l) i) n \<longleftrightarrow> bit (0::nat) n"
    proof (cases "n < 56")
      case True
      then show ?thesis by (simp add: bit_and_iff bit_push_bit_iff)
    next
      case False
      have "i < 2 ^ n" using assms False by (meson less_le_trans not_less one_le_numeral power_increasing)
      then have "\<not> bit i n" by (simp add: bit_iff_odd)
      then show ?thesis by (simp add: bit_and_iff)
    qed
  qed
  then have "push_bit 56 l + i = or (push_bit 56 l) i" by (rule disjunctive_add_eq_or)
  then show ?thesis by (simp add: push_bit_eq_mult)
qed

lemma pack_entry_unat:
  assumes "i < 2 ^ 56" "l < 256"
  shows "unat (pack_entry i l) = l * 2 ^ 56 + i"
proof -
  have "pack_entry i l = word_of_nat (or (push_bit 56 l) i)" by (simp add: pack_entry_def of_nat_or_eq push_bit_of_nat)
  also have "\<dots> = word_of_nat (l * 2 ^ 56 + i)" by (simp only: pack_nat [OF assms(1)])
  finally have "unat (pack_entry i l) = (l * 2 ^ 56 + i) mod 2 ^ 64"
    by (simp only: unat_of_nat) simp
  also have "\<dots> = l * 2 ^ 56 + i" using assms by (intro mod_less) simp
  finally show ?thesis .
qed

lemma unpack_pack:
  assumes "i < 2 ^ 56" "l < 256"
  shows "unpack_entry (pack_entry i l) = (i, l)"
proof -
  have "unat (and (pack_entry i l) (mask 56)) = unat (pack_entry i l) mod 2 ^ 56"
    unfolding take_bit_eq_mask [symmetric] by (subst unsigned_take_bit_eq) (simp_all add: take_bit_eq_mod)
  moreover have "unat (drop_bit 56 (pack_entry i l)) = unat (pack_entry i l) div 2 ^ 56"
    unfolding unat_drop_bit_eq by (rule drop_bit_eq_div)
  ultimately show ?thesis using assms by (simp add: unpack_entry_def pack_entry_unat)
qed

lemma pack_not_none:
  assumes "i < 2 ^ 56 - 1" "l < 256"
  shows "pack_entry i l \<noteq> entry_none"
proof
  assume "pack_entry i l = entry_none"
  then have "l * 2 ^ 56 + i = unat (- 1 :: 64 word)" using pack_entry_unat [of i l] assms by (simp add: entry_none_def)
  moreover have "unat (- 1 :: 64 word) = 2 ^ 64 - 1" by (simp add: unsigned_minus_1_eq_mask mask_eq_exp_minus_1)
  ultimately show False using assms by simp
qed

end
