(* ===== verification/Hnsw_Search.thy ===== *)
theory Hnsw_Search
  imports Hnsw
begin

text \<open>
  What the searches of \<^verbatim>\<open>hnsw/mod.rs\<close> return: on a graph whose lists name only nodes of the layer
  they always return (no panic, no bad read, and they end), and the candidates are distinct,
  reachable, sorted, scored by the oracle, at most as many as asked for, and complete when the
  beam is as wide as the reachable part of the layer.
\<close>

section \<open>Where a traversal can go\<close>

definition layer_edges :: "hnsw \<Rightarrow> nat \<Rightarrow> (nat \<times> nat) set" where
  "layer_edges h layer = {(i, j). \<exists>ns. links_of h i layer = Some ns \<and> j \<in> set ns}"

definition reach :: "hnsw \<Rightarrow> nat \<Rightarrow> nat \<Rightarrow> nat set" where
  "reach h layer e = {x. (e, x) \<in> (layer_edges h layer)\<^sup>*}"

text \<open>A set of nodes of the layer that the links do not leave.\<close>

definition closed_at :: "hnsw \<Rightarrow> nat \<Rightarrow> nat set \<Rightarrow> bool" where
  "closed_at h layer V \<longleftrightarrow> (\<forall>i \<in> V. \<exists>ns. links_of h i layer = Some ns \<and> set ns \<subseteq> V)"

definition total_on :: "dist_fun \<Rightarrow> nat set \<Rightarrow> bool" where
  "total_on dist V \<longleftrightarrow> (\<forall>i \<in> V. dist i \<noteq> None)"

lemma reach_self [simp]: "e \<in> reach h layer e"
  by (simp add: reach_def)

lemma reach_subset: "closed_at h layer V \<Longrightarrow> e \<in> V \<Longrightarrow> reach h layer e \<subseteq> V"
proof
  fix x assume c: "closed_at h layer V" "e \<in> V" and "x \<in> reach h layer e"
  then have "(e, x) \<in> (layer_edges h layer)\<^sup>*" by (simp add: reach_def)
  then show "x \<in> V"
    by (induction rule: rtrancl_induct) (use c in \<open>fastforce simp: closed_at_def layer_edges_def\<close>)+
qed

lemma reach_closed:
  assumes "closed_at h layer V" "e \<in> V"
  shows "closed_at h layer (reach h layer e)"
  unfolding closed_at_def
proof
  fix i assume i: "i \<in> reach h layer e"
  then have "i \<in> V" using reach_subset [OF assms] by blast
  then obtain ns where ns: "links_of h i layer = Some ns" using assms(1) by (auto simp: closed_at_def)
  have "j \<in> reach h layer e" if "j \<in> set ns" for j
    using i ns that unfolding reach_def layer_edges_def by (auto intro: rtrancl_into_rtrancl)
  then show "\<exists>ns. links_of h i layer = Some ns \<and> set ns \<subseteq> reach h layer e" using ns by auto
qed

lemma finite_reach: "finite (reach h layer e)"
proof -
  have "reach h layer e \<subseteq> insert e (link_targets h layer)"
  proof
    fix x assume "x \<in> reach h layer e"
    then have "(e, x) \<in> (layer_edges h layer)\<^sup>*" by (simp add: reach_def)
    then show "x \<in> insert e (link_targets h layer)"
      by (cases rule: rtranclE) (auto simp: layer_edges_def link_targets_iff)
  qed
  then show ?thesis by (rule finite_subset) simp
qed

section \<open>The beam\<close>

definition ids :: "neighbor list \<Rightarrow> nat set" where
  "ids ns = nb_id ` set ns"

definition scored :: "dist_fun \<Rightarrow> neighbor list \<Rightarrow> bool" where
  "scored dist ns \<longleftrightarrow> (\<forall>n \<in> set ns. dist (nb_id n) = Some (nb_dist n))"

definition beam_ok :: "dist_fun \<Rightarrow> nat \<Rightarrow> nat set \<Rightarrow> search_state \<Rightarrow> bool" where
  "beam_ok dist ef V st \<longleftrightarrow>
     (case st of (vis, cand, res) \<Rightarrow>
        vis_active vis \<and> vis_set vis \<subseteq> V \<and> sorted cand \<and> sorted res \<and>
        ids cand \<subseteq> vis_set vis \<and> ids res \<subseteq> vis_set vis \<and> scored dist cand \<and> scored dist res \<and>
        distinct (map nb_id res) \<and> res \<noteq> [] \<and> length res \<le> max 1 ef)"

definition st_vis :: "search_state \<Rightarrow> nat set" where
  "st_vis st = vis_set (fst st)"

lemma set_push: "set (push_bounded h x k) \<subseteq> insert x (set h)"
  by (rule set_push_bounded)

lemma push_not_Nil: "h \<noteq> [] \<Longrightarrow> push_bounded h x k \<noteq> []"
  using length_push_bounded_ge [of h x k] by (cases h) (auto simp del: push_bounded_def)

lemma length_push_max: "length (push_bounded h x k) \<le> max (length h) k"
  by (auto simp: push_bounded_def)

lemma visit_one_ok:
  assumes ok: "beam_ok dist ef V st" and i: "i \<in> V" and tot: "total_on dist V"
  shows "\<exists>st'. visit_one dist ef st i = Some st' \<and> beam_ok dist ef V st' \<and>
     st_vis st' = insert i (st_vis st) \<and> length (snd (snd st)) \<le> length (snd (snd st'))"
proof -
  obtain vis cand res where st: "st = (vis, cand, res)" by (cases st)
  obtain vis' seen where m: "mark vis i = (vis', seen)" by fastforce
  have M: "vis_active vis'" "vis_set vis' = insert i (vis_set vis)" "seen = (i \<in> vis_set vis)"
    using mark_spec [of vis i] ok m by (auto simp: beam_ok_def st)
  obtain d where d: "dist i = Some d" using tot i by (auto simp: total_on_def)
  let ?n = "Neighbor i d"
  show ?thesis
  proof (cases "seen \<or> \<not> (length res < ef \<or> f32_lt d (worst res))")
    case True
    then have "visit_one dist ef st i = Some (vis', cand, res)" by (auto simp: visit_one_def st m d)
    then show ?thesis using ok M i by (auto simp: beam_ok_def st st_vis_def)
  next
    case False
    let ?r = "push_bounded res ?n ef"
    have v: "visit_one dist ef st i = Some (vis', insort ?n cand, ?r)" using False by (auto simp: visit_one_def st m d)
    have new: "i \<notin> nb_id ` set res" using False M(3) ok by (auto simp: beam_ok_def st ids_def)
    have "distinct (map nb_id ?r)"
      by (rule distinct_ids_push_bounded) (use ok new in \<open>auto simp: beam_ok_def st\<close>)
    moreover have "ids ?r \<subseteq> vis_set vis'"
    proof -
      have "ids ?r \<subseteq> insert i (ids res)" using set_push [of res ?n ef] by (auto simp: ids_def)
      then show ?thesis using ok M(2) by (auto simp: beam_ok_def st)
    qed
    moreover have "scored dist ?r"
      using set_push [of res ?n ef] ok d by (auto simp: beam_ok_def st scored_def)
    moreover have "length ?r \<le> max 1 ef"
      using length_push_max [of res ?n ef] ok by (auto simp: beam_ok_def st)
    moreover have "?r \<noteq> []" using push_not_Nil ok by (auto simp: beam_ok_def st)
    ultimately have "beam_ok dist ef V (vis', insort ?n cand, ?r)"
      using ok M i d
      by (auto simp: beam_ok_def st ids_def scored_def sorted_insort sorted_push_bounded set_insort_key)
    then show ?thesis
      using v M length_push_bounded_ge [of res ?n ef] by (auto simp: st_vis_def st)
  qed
qed

lemma visit_all_ok:
  "beam_ok dist ef V st \<Longrightarrow> set ns \<subseteq> V \<Longrightarrow> total_on dist V \<Longrightarrow>
    \<exists>st'. visit_all dist ef ns st = Some st' \<and> beam_ok dist ef V st' \<and>
     st_vis st' = st_vis st \<union> set ns \<and> length (snd (snd st)) \<le> length (snd (snd st'))"
proof (induction ns arbitrary: st)
  case Nil
  then show ?case by simp
next
  case (Cons i ns)
  obtain st1 where 1: "visit_one dist ef st i = Some st1" "beam_ok dist ef V st1"
    "st_vis st1 = insert i (st_vis st)" "length (snd (snd st)) \<le> length (snd (snd st1))"
    using visit_one_ok [of dist ef V st i] Cons.prems by (meson list.set_intros(1) subsetD)
  from Cons.IH [OF 1(2)] Cons.prems 1 show ?case by fastforce
qed

lemma search_loop_ok:
  "beam_ok dist ef V (vis, cand, res) \<Longrightarrow> closed_at h layer V \<Longrightarrow> total_on dist V \<Longrightarrow>
    \<exists>vis' res'. search_loop h dist ef layer vis cand res = Some (vis', res') \<and>
      (\<exists>cand'. beam_ok dist ef V (vis', cand', res')) \<and> length res \<le> length res'"
proof (induction h dist ef layer vis cand res rule: search_loop.induct)
  case (1 h dist ef layer vis cand res)
  show ?case
  proof (cases cand)
    case Nil
    then show ?thesis using "1.prems" by (auto simp: search_loop.simps)
  next
    case (Cons c rest)
    show ?thesis
    proof (cases "f32_lt (worst res) (nb_dist c) \<and> ef \<le> length res")
      case True
      then show ?thesis using "1.prems" Cons by (auto simp: search_loop.simps)
    next
      case False
      have "nb_id c \<in> V" using "1.prems"(1) Cons by (auto simp: beam_ok_def ids_def)
      then obtain ns where ns: "links_of h (nb_id c) layer = Some ns" "set ns \<subseteq> V"
        using "1.prems"(2) by (auto simp: closed_at_def)
      have "beam_ok dist ef V (vis, rest, res)"
        using "1.prems"(1) Cons by (auto simp: beam_ok_def ids_def scored_def)
      from visit_all_ok [OF this ns(2) "1.prems"(3)] obtain vis' cand' res' where
        v: "visit_all dist ef ns (vis, rest, res) = Some (vis', cand', res')"
        and ok: "beam_ok dist ef V (vis', cand', res')" and len: "length res \<le> length res'"
        by auto
      have e: "search_loop h dist ef layer vis cand res = search_loop h dist ef layer vis' cand' res'"
        using False ns(1) v unfolding Cons by (auto simp add: search_loop.simps [of h dist ef layer vis "c # rest"])
      show ?thesis
        using "1.IH" [OF Cons False ns(1) v refl refl ok "1.prems"(2,3)] len
        unfolding e by fastforce
    qed
  qed
qed

section \<open>A beam as wide as the graph\<close>

text \<open>
  With at least as much room as there are nodes to find, nothing is ever evicted: every marked node
  is a result, and it is still a candidate or its links have all been followed.
\<close>

definition beam_full :: "hnsw \<Rightarrow> nat \<Rightarrow> search_state \<Rightarrow> bool" where
  "beam_full h layer st \<longleftrightarrow>
     (case st of (vis, cand, res) \<Rightarrow>
        ids res = vis_set vis \<and>
        (\<forall>x \<in> vis_set vis. x \<in> ids cand \<or> (\<forall>ns. links_of h x layer = Some ns \<longrightarrow> set ns \<subseteq> vis_set vis)))"

lemma card_ids: "distinct (map nb_id res) \<Longrightarrow> card (ids res) = length res"
  by (metis distinct_card ids_def length_map set_map)

lemma visit_one_full:
  assumes ok: "beam_ok dist ef V st" and i: "i \<in> V" and tot: "total_on dist V"
    and V: "finite V" "card V \<le> ef" and full: "ids (snd (snd st)) = st_vis st"
    and v: "visit_one dist ef st i = Some st'"
  shows "ids (snd (snd st')) = st_vis st' \<and>
     ids (fst (snd st')) = ids (fst (snd st)) \<union> ({i} - st_vis st)"
proof -
  obtain vis cand res where st: "st = (vis, cand, res)" by (cases st)
  obtain vis' seen where m: "mark vis i = (vis', seen)" by fastforce
  have M: "vis_set vis' = insert i (vis_set vis)" "seen = (i \<in> vis_set vis)"
    using mark_spec [of vis i] ok m by (auto simp: beam_ok_def st)
  show ?thesis
  proof (cases seen)
    case True
    then show ?thesis using v m M full by (auto simp: visit_one_def st st_vis_def)
  next
    case False
    obtain d where d: "dist i = Some d" using tot i by (auto simp: total_on_def)
    have "i \<notin> ids res" "ids res \<subseteq> V" "distinct (map nb_id res)"
      using full False M(2) ok by (auto simp: st st_vis_def beam_ok_def)
    moreover from this have "ids res \<subset> V" using i by blast
    ultimately have "length res < ef"
      using card_ids [of res] V psubset_card_mono [of V "ids res"] by simp
    then have "st' = (vis', insort (Neighbor i d) cand, insort (Neighbor i d) res)"
      using v m d False by (simp add: visit_one_def st push_bounded_def)
    then show ?thesis
      using full M False by (auto simp: st st_vis_def ids_def set_insort_key)
  qed
qed

lemma visit_all_full:
  "beam_ok dist ef V st \<Longrightarrow> set ns \<subseteq> V \<Longrightarrow> total_on dist V \<Longrightarrow> finite V \<Longrightarrow> card V \<le> ef \<Longrightarrow>
   ids (snd (snd st)) = st_vis st \<Longrightarrow> visit_all dist ef ns st = Some st' \<Longrightarrow>
     ids (snd (snd st')) = st_vis st' \<and> st_vis st' = st_vis st \<union> set ns \<and>
     ids (fst (snd st')) = ids (fst (snd st)) \<union> (set ns - st_vis st)"
proof (induction ns arbitrary: st)
  case Nil
  then show ?case by simp
next
  case (Cons i ns)
  have i: "i \<in> V" using Cons.prems(2) by simp
  obtain st1 where 1: "visit_one dist ef st i = Some st1" "beam_ok dist ef V st1"
    "st_vis st1 = insert i (st_vis st)"
    using visit_one_ok [OF Cons.prems(1) i Cons.prems(3)] by blast
  have F: "ids (snd (snd st1)) = st_vis st1"
    "ids (fst (snd st1)) = ids (fst (snd st)) \<union> ({i} - st_vis st)"
    using visit_one_full [OF Cons.prems(1) i Cons.prems(3-6) 1(1)] by simp_all
  have rest: "visit_all dist ef ns st1 = Some st'" using Cons.prems(7) 1(1) by simp
  have "ids (snd (snd st')) = st_vis st' \<and> st_vis st' = st_vis st1 \<union> set ns \<and>
     ids (fst (snd st')) = ids (fst (snd st1)) \<union> (set ns - st_vis st1)"
    by (rule Cons.IH [OF 1(2) _ Cons.prems(3-5) F(1) rest]) (use Cons.prems(2) in simp)
  then show ?case using 1(3) F(2) by auto
qed

lemma search_loop_full:
  "beam_ok dist ef V (vis, cand, res) \<Longrightarrow> beam_full h layer (vis, cand, res) \<Longrightarrow> closed_at h layer V \<Longrightarrow>
   total_on dist V \<Longrightarrow> finite V \<Longrightarrow> card V \<le> ef \<Longrightarrow>
   search_loop h dist ef layer vis cand res = Some (vis', res') \<Longrightarrow>
     vis_set vis \<subseteq> ids res' \<and> (ids res' = V \<or> closed_at h layer (ids res'))"
proof (induction h dist ef layer vis cand res rule: search_loop.induct)
  case (1 h dist ef layer vis cand res)
  show ?case
  proof (cases cand)
    case Nil
    then have "res' = res" using "1.prems"(7) by (simp add: search_loop.simps)
    moreover have "closed_at h layer (ids res)"
      unfolding closed_at_def
    proof
      fix i assume "i \<in> ids res"
      then have i: "i \<in> vis_set vis" "i \<in> V"
        using "1.prems"(1,2) by (auto simp: beam_full_def beam_ok_def)
      then obtain ns where ns: "links_of h i layer = Some ns"
        using "1.prems"(3) by (auto simp: closed_at_def)
      have "set ns \<subseteq> ids res"
        using "1.prems"(2) i(1) ns Nil by (auto simp: beam_full_def ids_def)
      then show "\<exists>ns. links_of h i layer = Some ns \<and> set ns \<subseteq> ids res" using ns by blast
    qed
    ultimately show ?thesis using "1.prems"(2) by (simp add: beam_full_def)
  next
    case (Cons c rest)
    show ?thesis
    proof (cases "f32_lt (worst res) (nb_dist c) \<and> ef \<le> length res")
      case True
      then have r: "res' = res" using "1.prems"(7) Cons by (auto simp: search_loop.simps)
      have "ids res \<subseteq> V" "length res = card (ids res)"
        using "1.prems"(1) by (auto simp: beam_ok_def card_ids)
      then have "ids res = V"
        using True "1.prems"(5,6) by (metis card_subset_eq card_mono le_antisym le_trans)
      then show ?thesis using r "1.prems"(2) by (simp add: beam_full_def)
    next
      case False
      have c: "nb_id c \<in> V" using "1.prems"(1) Cons by (auto simp: beam_ok_def ids_def)
      then obtain ns where ns: "links_of h (nb_id c) layer = Some ns" "set ns \<subseteq> V"
        using "1.prems"(3) by (auto simp: closed_at_def)
      have ok: "beam_ok dist ef V (vis, rest, res)"
        using "1.prems"(1) Cons by (auto simp: beam_ok_def ids_def scored_def)
      obtain v1 c1 r1 where v: "visit_all dist ef ns (vis, rest, res) = Some (v1, c1, r1)"
        and ok1: "beam_ok dist ef V (v1, c1, r1)"
        using visit_all_ok [OF ok ns(2) "1.prems"(4)] by auto
      have F: "ids r1 = vis_set v1" "vis_set v1 = vis_set vis \<union> set ns"
        "ids c1 = ids rest \<union> (set ns - vis_set vis)"
        using visit_all_full [OF ok ns(2) "1.prems"(4-6) _ v] "1.prems"(2)
        by (auto simp: st_vis_def beam_full_def)
      have e: "search_loop h dist ef layer v1 c1 r1 = Some (vis', res')"
        using False ns(1) v "1.prems"(7) unfolding Cons
        by (auto simp add: search_loop.simps [of h dist ef layer vis "c # rest"])
      have full: "beam_full h layer (v1, c1, r1)"
        unfolding beam_full_def prod.case
      proof (intro conjI ballI F(1))
        fix x assume x: "x \<in> vis_set v1"
        show "x \<in> ids c1 \<or> (\<forall>ns. links_of h x layer = Some ns \<longrightarrow> set ns \<subseteq> vis_set v1)"
        proof (cases "x \<in> vis_set vis")
          case True
          then have "x = nb_id c \<or> x \<in> ids rest \<or>
              (\<forall>ns. links_of h x layer = Some ns \<longrightarrow> set ns \<subseteq> vis_set vis)"
            using "1.prems"(2) Cons by (auto simp: beam_full_def ids_def)
          then show ?thesis using F(2,3) ns(1) by auto
        next
          case False
          then show ?thesis using x F(2,3) by blast
        qed
      qed
      have "vis_set v1 \<subseteq> ids res' \<and> (ids res' = V \<or> closed_at h layer (ids res'))"
        by (rule "1.IH" [OF Cons False ns(1) v refl refl ok1 full "1.prems"(3-6) e])
      then show ?thesis using F(2) by blast
    qed
  qed
qed

section \<open>Search-layer\<close>

lemma search_layer_start:
  assumes "vis_inv vis" "e \<in> V" "dist e = Some d"
  shows "beam_ok dist ef V (fst (mark (begin_pass vis n) e), [Neighbor e d], [Neighbor e d])"
    and "vis_set (fst (mark (begin_pass vis n) e)) = {e}"
    and "beam_full h layer (fst (mark (begin_pass vis n) e), [Neighbor e d], [Neighbor e d])"
  using begin_pass_spec [OF assms(1), of n] mark_spec [of "begin_pass vis n" e] assms
  by (auto simp: beam_ok_def beam_full_def ids_def scored_def)

lemma search_layer_ok:
  assumes vis: "vis_inv vis" and e: "e \<in> V" and V: "closed_at h layer V" "total_on dist V"
  shows "\<exists>vis' res. search_layer h dist vis e ef layer = Some (vis', res) \<and> vis_inv vis' \<and>
     sorted res \<and> distinct (map nb_id res) \<and> res \<noteq> [] \<and> length res \<le> max 1 ef \<and>
     ids res \<subseteq> reach h layer e \<and> scored dist res"
proof -
  let ?R = "reach h layer e"
  have R: "closed_at h layer ?R" "?R \<subseteq> V" using reach_closed [OF V(1) e] reach_subset [OF V(1) e] .
  have tot: "total_on dist ?R" using R(2) V(2) by (auto simp: total_on_def)
  obtain d where d: "dist e = Some d" using V(2) e by (auto simp: total_on_def)
  note start = search_layer_start [where dist = dist, OF vis reach_self [of e h layer] d]
  from search_loop_ok [OF start(1) R(1) tot]
  show ?thesis by (fastforce simp: search_layer_def d beam_ok_def vis_active_def)
qed

lemma search_layer_complete:
  assumes vis: "vis_inv vis" and e: "e \<in> V" and V: "closed_at h layer V" "total_on dist V"
    and ef: "card (reach h layer e) \<le> ef" and s: "search_layer h dist vis e ef layer = Some (vis', res)"
  shows "ids res = reach h layer e"
proof -
  let ?R = "reach h layer e"
  have R: "closed_at h layer ?R" "?R \<subseteq> V" using reach_closed [OF V(1) e] reach_subset [OF V(1) e] .
  have tot: "total_on dist ?R" using R(2) V(2) by (auto simp: total_on_def)
  obtain d where d: "dist e = Some d" using V(2) e by (auto simp: total_on_def)
  let ?v = "fst (mark (begin_pass vis (hnsw_len h)) e)"
  have loop: "search_loop h dist ef layer ?v [Neighbor e d] [Neighbor e d] = Some (vis', res)"
    using s by (simp add: search_layer_def d)
  note start = search_layer_start [where dist = dist, OF vis reach_self [of e h layer] d]
  note L = search_loop_full [OF start(1) start(3) R(1) tot finite_reach ef loop]
  have "e \<in> ids res" using L start(2) by blast
  then have "?R \<subseteq> ids res" using L reach_subset [of h layer "ids res" e] by blast
  moreover have "ids res \<subseteq> ?R"
    using search_layer_ok [OF vis e V, of ef] s by auto
  ultimately show ?thesis by blast
qed

section \<open>Greedy descent\<close>

lemma greedy_scan_total: "total_on dist (set ns) \<Longrightarrow> \<exists>st'. greedy_scan dist ns st = Some st'"
  by (induction ns arbitrary: st) (auto simp: total_on_def)

lemma greedy_scan_flag: "greedy_scan dist ns (e, b, True) = Some (e', b', imp') \<Longrightarrow> imp'"
  by (induction ns arbitrary: e b) (auto split: bind_splits if_splits)

lemma greedy_scan_still:
  "greedy_scan dist ns (e, b, False) = Some (e', b', False) \<Longrightarrow>
     e' = e \<and> b' = b \<and> (\<forall>j \<in> set ns. \<forall>d. dist j = Some d \<longrightarrow> \<not> f32_lt d b)"
proof (induction ns)
  case Nil
  then show ?case by simp
next
  case (Cons i ns)
  then obtain d where d: "dist i = Some d" by (auto split: bind_splits)
  show ?case
  proof (cases "f32_lt d b")
    case True
    with Cons.prems d have "greedy_scan dist ns (i, d, True) = Some (e', b', False)" by simp
    then show ?thesis using greedy_scan_flag by blast
  next
    case False
    with Cons.prems d have "greedy_scan dist ns (e, b, False) = Some (e', b', False)" by simp
    from Cons.IH [OF this] False d show ?thesis by auto
  qed
qed

text \<open>
  The descent ends (its distance strictly decreases), on the layer it started on, at a node none of
  whose neighbours is nearer, and with that node's distance.
\<close>

lemma greedy_descend_ok:
  "closed_at h layer V \<Longrightarrow> total_on dist V \<Longrightarrow> entry \<in> V \<Longrightarrow> dist entry = Some best \<Longrightarrow>
    \<exists>e' b'. greedy_descend h dist entry best layer = Some (e', b') \<and> e' \<in> V \<and> dist e' = Some b' \<and>
      (b' = best \<or> f32_lt b' best) \<and>
      (\<forall>ns. links_of h e' layer = Some ns \<longrightarrow> (\<forall>j \<in> set ns. \<forall>d. dist j = Some d \<longrightarrow> \<not> f32_lt d b'))"
proof (induction h dist entry best layer rule: greedy_descend.induct)
  case (1 h dist entry best layer)
  obtain ns where ns: "links_of h entry layer = Some ns" "set ns \<subseteq> V"
    using "1.prems"(1,3) by (auto simp: closed_at_def)
  have "total_on dist (set ns)" using ns(2) "1.prems"(2) by (auto simp: total_on_def)
  then obtain e1 b1 imp where s: "greedy_scan dist ns (entry, best, False) = Some (e1, b1, imp)"
    using greedy_scan_total by (metis prod_cases3)
  show ?case
  proof (cases imp)
    case False
    then have "greedy_descend h dist entry best layer = Some (e1, b1)"
      using ns(1) s by (simp add: greedy_descend.simps [of h dist entry])
    then show ?thesis
      using greedy_scan_still [of dist ns entry best e1 b1] s False ns(1) "1.prems" by auto
  next
    case True
    then have e: "greedy_descend h dist entry best layer = greedy_descend h dist e1 b1 layer"
      using ns(1) s by (simp add: greedy_descend.simps [of h dist entry])
    have n: "e1 \<in> V" "dist e1 = Some b1" "f32_lt b1 best"
      using greedy_scan_spec [OF s] True ns(2) by auto
    show ?thesis
      using "1.IH" [OF ns(1) s refl refl True "1.prems"(1,2) n(1,2)] n(3) f32_lt_trans
      unfolding e by fastforce
  qed
qed

section \<open>The index invariant\<close>

definition on_layer :: "hnsw \<Rightarrow> nat \<Rightarrow> nat set" where
  "on_layer h layer = {i. links_of h i layer \<noteq> None}"

definition level_ok :: "hnsw \<Rightarrow> nat \<Rightarrow> bool" where
  "level_ok h l \<longleftrightarrow> (\<forall>i nd. sv_get_unchecked (hn_nodes h) i = Some nd \<longrightarrow>
     node_links nd \<noteq> [] \<and> node_level nd \<le> l)"

definition links_ok :: "hnsw \<Rightarrow> bool" where
  "links_ok h \<longleftrightarrow> (\<forall>i layer ns. links_of h i layer = Some ns \<longrightarrow>
     distinct ns \<and> length ns \<le> max_degree h layer \<and> i \<notin> set ns \<and> set ns \<subseteq> on_layer h layer)"

definition entry_ok :: "hnsw \<Rightarrow> bool" where
  "entry_ok h \<longleftrightarrow>
     (if hnsw_len h = 0 then hn_entry h = entry_none
      else \<exists>e l. hn_entry h = pack_entry e l \<and> l < 256 \<and> e \<in> on_layer h l \<and> level_ok h l)"

definition hn_inv :: "hnsw \<Rightarrow> bool" where
  "hn_inv h \<longleftrightarrow> sv_dense (hn_nodes h) \<and> 2 \<le> cfg_m (hn_config h) \<and> cfg_m (hn_config h) \<le> 4096 \<and>
     links_ok h \<and> entry_ok h"

lemma on_layer_iff: "i \<in> on_layer h layer \<longleftrightarrow>
    (\<exists>nd. sv_get_unchecked (hn_nodes h) i = Some nd \<and> layer < length (node_links nd))"
  by (cases "sv_get_unchecked (hn_nodes h) i") (auto simp: on_layer_def links_of_def)

lemma on_layer_antimono: "l' \<le> l \<Longrightarrow> on_layer h l \<subseteq> on_layer h l'"
  by (auto simp: on_layer_iff)

lemma on_layer_len: "hn_inv h \<Longrightarrow> on_layer h layer \<subseteq> {..<hnsw_len h}"
  by (auto simp: hn_inv_def sv_dense_def hnsw_len_def on_layer_def links_of_def split: option.splits)

lemma sv_capacity_less: "sv_capacity < 2 ^ 50"
  by (simp add: sv_capacity_def seg_first_def sv_base_def sv_max_segments_def)

lemma hnsw_len_small: "hn_inv h \<Longrightarrow> i < hnsw_len h \<Longrightarrow> i < 2 ^ 50"
  using sv_capacity_less by (auto simp: hn_inv_def sv_dense_def hnsw_len_def)

lemma links_ok_closed: "links_ok h \<Longrightarrow> closed_at h layer (on_layer h layer)"
  by (auto simp: links_ok_def closed_at_def on_layer_def)

lemma hn_inv_entry:
  assumes "hn_inv h" and "hnsw_len h \<noteq> 0"
  obtains e l where "hn_entry h \<noteq> entry_none" "unpack_entry (hn_entry h) = (e, l)" "e \<in> on_layer h l"
    "level_ok h l" "l < 256" "hn_entry h = pack_entry e l"
proof -
  obtain e l where E: "hn_entry h = pack_entry e l" "l < 256" "e \<in> on_layer h l" "level_ok h l"
    using assms by (auto simp: hn_inv_def entry_ok_def)
  have "e < 2 ^ 50" using on_layer_len [OF assms(1)] E(3) hnsw_len_small [OF assms(1)] by auto
  then show thesis
    using that [of e l] E unpack_pack [of e l] pack_not_none [of e l] by simp
qed

lemma descend_layers_ok:
  assumes "links_ok h"
  shows "sorted_wrt (>) layers \<Longrightarrow> (\<forall>l \<in> set layers. l \<le> t) \<Longrightarrow> fst ep \<in> on_layer h t \<Longrightarrow>
    total_on dist (on_layer h 0) \<Longrightarrow> dist (fst ep) = Some (snd ep) \<Longrightarrow>
    \<exists>ep'. descend_layers h dist layers ep = Some ep' \<and> dist (fst ep') = Some (snd ep') \<and>
      fst ep' \<in> on_layer h (if layers = [] then t else last layers)"
proof (induction layers arbitrary: ep t)
  case Nil
  then show ?case by simp
next
  case (Cons l layers)
  have "fst ep \<in> on_layer h l" using Cons.prems(2,3) on_layer_antimono [of l t h] by auto
  moreover have "total_on dist (on_layer h l)"
    using Cons.prems(4) on_layer_antimono [of 0 l h] by (auto simp: total_on_def)
  ultimately obtain ep1 where g: "greedy_descend h dist (fst ep) (snd ep) l = Some ep1"
    "fst ep1 \<in> on_layer h l" "dist (fst ep1) = Some (snd ep1)"
    using greedy_descend_ok [OF links_ok_closed [OF assms, of l], of dist "fst ep" "snd ep"] Cons.prems(5)
    by auto
  have "\<exists>ep'. descend_layers h dist layers ep1 = Some ep' \<and> dist (fst ep') = Some (snd ep') \<and>
      fst ep' \<in> on_layer h (if layers = [] then l else last layers)"
    by (rule Cons.IH) (use Cons.prems(1,4) g in auto)
  then show ?case using g(1) by simp
qed

section \<open>K-nearest-neighbour search\<close>

lemma rev_upt_sorted: "sorted_wrt (>) (rev [a..<b])"
  by (simp add: sorted_wrt_rev)

lemma last_rev_upt: "a < b \<Longrightarrow> last (rev [a..<b]) = a"
  by (simp add: last_rev)

text \<open>The start of the beam on layer \<open>low\<close>: a node of that layer, with its distance.\<close>

lemma descend_to:
  assumes inv: "hn_inv h" and ne: "hnsw_len h \<noteq> 0" and tot: "total_on dist {..<hnsw_len h}"
  shows "\<exists>d ep. dist (fst (unpack_entry (hn_entry h))) = Some d \<and>
     descend_layers h dist (rev [lev + 1..<snd (unpack_entry (hn_entry h)) + 1])
       (fst (unpack_entry (hn_entry h)), d) = Some ep \<and>
     dist (fst ep) = Some (snd ep) \<and> fst ep \<in> on_layer h (min lev (snd (unpack_entry (hn_entry h))))"
proof -
  obtain e l where E: "unpack_entry (hn_entry h) = (e, l)" "e \<in> on_layer h l"
    using hn_inv_entry [OF inv ne] by metis
  have t: "total_on dist (on_layer h layer)" for layer
    using tot on_layer_len [OF inv, of layer] by (auto simp: total_on_def)
  obtain d where d: "dist e = Some d" using t [of l] E(2) by (auto simp: total_on_def)
  have links: "links_ok h" using inv by (simp add: hn_inv_def)
  let ?ls = "rev [lev + 1..<l + 1]"
  have "\<exists>ep. descend_layers h dist ?ls (e, d) = Some ep \<and> dist (fst ep) = Some (snd ep) \<and>
      fst ep \<in> on_layer h (if ?ls = [] then l else last ?ls)"
    by (rule descend_layers_ok [OF links rev_upt_sorted]) (use E d t in auto)
  then obtain ep where ep: "descend_layers h dist ?ls (e, d) = Some ep" "dist (fst ep) = Some (snd ep)"
    "fst ep \<in> on_layer h (if ?ls = [] then l else last ?ls)" by blast
  have "fst ep \<in> on_layer h (min lev l)"
  proof (cases "lev < l")
    case True
    then have "fst ep \<in> on_layer h (lev + 1)"
      using ep(3) last_rev_upt [of "lev + 1" "l + 1"] by simp
    moreover have "min lev l \<le> lev + 1" by (simp add: le_SucI)
    ultimately show ?thesis using on_layer_antimono [of "min lev l" "lev + 1" h] by blast
  next
    case False
    then show ?thesis using ep(3) by (simp add: min_def)
  qed
  then show ?thesis
    unfolding E(1) fst_conv snd_conv using d ep(1,2) by blast
qed

lemma take_ids: "ids (take k xs) \<subseteq> ids xs"
  using set_take_subset [of k xs] by (auto simp: ids_def)

lemma search_with_oracle_cases:
  assumes inv: "hn_inv h" and vis: "vis_inv vis" and tot: "total_on dist {..<hnsw_len h}"
    and ne: "hnsw_len h \<noteq> 0"
  shows "\<exists>ep vis' res. ep \<in> on_layer h 0 \<and> search_layer h dist vis ep (max ef k) 0 = Some (vis', res) \<and>
     search_with_oracle h dist vis k ef = Some (take k res, vis')"
proof -
  obtain e l where E: "unpack_entry (hn_entry h) = (e, l)" "hn_entry h \<noteq> entry_none"
    using hn_inv_entry [OF inv ne] by metis
  obtain d ep where D: "dist e = Some d" "descend_layers h dist (rev [0 + 1..<l + 1]) (e, d) = Some ep"
    "fst ep \<in> on_layer h (min 0 l)"
    using descend_to [OF inv ne tot, of 0] E(1) by auto
  have tot0: "total_on dist (on_layer h 0)"
    using tot on_layer_len [OF inv, of 0] by (auto simp: total_on_def)
  have cl: "closed_at h 0 (on_layer h 0)" using inv by (intro links_ok_closed) (simp add: hn_inv_def)
  have ep: "fst ep \<in> on_layer h 0" using D(3) by simp
  obtain vis' res where "search_layer h dist vis (fst ep) (max ef k) 0 = Some (vis', res)"
    using search_layer_ok [OF vis ep cl tot0, of "max ef k"] by blast
  then show ?thesis using E D ep
    by (intro exI [of _ "fst ep"] exI [of _ vis'] exI [of _ res]) (simp add: search_with_oracle_def Let_def)
qed

section \<open>An example index\<close>

text \<open>
  Two nodes on two layers: node 0, the entry, links to node 1 on layer 1, node 1 links back to 0 on
  layer 0, and nothing links to node 1 on layer 0.
\<close>

definition example_nodes :: "node segvec" where
  "example_nodes =
     \<lparr>sv_slots = fmupd (sv_locate 1) \<lparr>node_links = [[0], []]\<rparr>
        (fmupd (sv_locate 0) \<lparr>node_links = [[], [1]]\<rparr> fmempty), sv_len = 2\<rparr>"

definition example_index :: hnsw where
  "example_index =
     \<lparr>hn_config = default_config, hn_kernel = kernel False L2, hn_nodes = example_nodes,
      hn_entry = pack_entry 0 1\<rparr>"

definition example_dist :: dist_fun where
  "example_dist i = Some (if i = 1 then f32_zero else f32_one)"

lemma example_get: "sv_get_unchecked example_nodes i =
    (if i = 1 then Some \<lparr>node_links = [[0], []]\<rparr> else if i = 0 then Some \<lparr>node_links = [[], [1]]\<rparr> else None)"
  by (simp add: sv_get_unchecked_def example_nodes_def sv_seg.locate_inject)

lemma example_links: "links_of example_index i layer =
    (if i = 1 \<and> layer = 0 then Some [0] else if i = 1 \<and> layer = 1 then Some []
     else if i = 0 \<and> layer = 0 then Some [] else if i = 0 \<and> layer = 1 then Some [1] else None)"
  by (cases layer) (auto simp: links_of_def example_index_def example_get less_Suc_eq)

lemma example_inv: "hn_inv example_index"
proof -
  have dense: "sv_dense example_nodes"
    by (auto simp: sv_dense_def example_get)
      (simp_all add: example_nodes_def sv_capacity_def seg_first_def sv_base_def sv_max_segments_def)
  have links: "links_ok example_index"
  proof -
    have "max_degree example_index 0 = 32" "max_degree example_index 1 = 16"
      by (simp_all add: max_degree_def example_index_def default_config_def)
    then show ?thesis
      unfolding links_ok_def by (auto simp: example_links on_layer_def split: if_splits)
  qed
  have "level_ok example_index 1"
    by (simp add: level_ok_def example_index_def example_get node_level_def)
  moreover have "0 \<in> on_layer example_index 1" by (simp add: on_layer_def example_links)
  moreover have "hnsw_len example_index \<noteq> 0" "hn_entry example_index = pack_entry 0 1"
    by (simp_all add: example_index_def example_nodes_def hnsw_len_def)
  ultimately have "entry_ok example_index"
    unfolding entry_ok_def using zero_less_numeral by (metis one_less_numeral_iff semiring_norm(76))
  with dense links show ?thesis
    unfolding hn_inv_def by (simp add: example_index_def default_config_def)
qed

lemma example_len: "hnsw_len example_index = 2"
  by (simp add: hnsw_len_def example_index_def example_nodes_def)

lemma example_total: "total_on example_dist V"
  by (simp add: total_on_def example_dist_def)

section \<open>Properties\<close>

lemma search_with_oracle_sound:
  assumes "hn_inv h" and "vis_inv vis" and "total_on dist {..<hnsw_len h}"
  shows "\<exists>out vis'. search_with_oracle h dist vis k ef = Some (out, vis') \<and> vis_inv vis' \<and>
     sorted out \<and> distinct (map nb_id out) \<and> length out \<le> k \<and> ids out \<subseteq> {..<hnsw_len h} \<and>
     scored dist out \<and> (0 < k \<and> 0 < hnsw_len h \<longrightarrow> out \<noteq> [])"
proof (cases "hnsw_len h = 0")
  case True
  then show ?thesis
    using assms by (auto simp: hn_inv_def entry_ok_def search_with_oracle_def ids_def scored_def)
next
  case False
  obtain ep vis' res where S: "ep \<in> on_layer h 0" "search_layer h dist vis ep (max ef k) 0 = Some (vis', res)"
    "search_with_oracle h dist vis k ef = Some (take k res, vis')"
    using search_with_oracle_cases [OF assms False] by blast
  have tot0: "total_on dist (on_layer h 0)"
    using assms(3) on_layer_len [OF assms(1), of 0] by (auto simp: total_on_def)
  have cl: "closed_at h 0 (on_layer h 0)" using assms(1) by (intro links_ok_closed) (simp add: hn_inv_def)
  have R: "vis_inv vis'" "sorted res" "distinct (map nb_id res)" "res \<noteq> []" "ids res \<subseteq> reach h 0 ep"
    "scored dist res"
    using search_layer_ok [OF assms(2) S(1) cl tot0, of "max ef k"] S(2) by auto
  have "ids res \<subseteq> {..<hnsw_len h}"
    using R(5) reach_subset [OF cl S(1)] on_layer_len [OF assms(1), of 0] by blast
  then have "ids (take k res) \<subseteq> {..<hnsw_len h}" using take_ids by blast
  moreover have "distinct (map nb_id (take k res))" using R(3) by (simp add: take_map [symmetric])
  moreover have "scored dist (take k res)" using R(6) by (auto simp: scored_def dest: in_set_takeD)
  ultimately show ?thesis using S(3) R by (simp add: sorted_wrt_take)
qed

text \<open>
  C20: a search on a sound index always returns: it neither panics nor reads an unwritten node nor
  runs forever, whatever the query, the beam and the scratch left by earlier searches.  It returns
  at most \<open>k\<close> distinct ids of the index, each with the oracle's distance, nearest first, and at
  least one when the index has one and \<open>k\<close> is not 0.
\<close>

theorem search_sound:
  assumes "hn_inv h" and "vis_inv vis" and "total_on dist {..<hnsw_len h}"
  shows "\<exists>out vis'. search_with_oracle h dist vis k ef = Some (out, vis') \<and> vis_inv vis' \<and>
     sorted out \<and> distinct (map nb_id out) \<and> length out \<le> k \<and> ids out \<subseteq> {..<hnsw_len h} \<and>
     scored dist out \<and> (0 < k \<and> 0 < hnsw_len h \<longrightarrow> out \<noteq> [])"
  by (rule search_with_oracle_sound [OF assms])

theorem search_sound_witness:
  "\<exists>out vis'. search_with_oracle example_index example_dist vis_new 1 10 = Some (out, vis') \<and> length out \<le> 1 \<and> out \<noteq> []"
  using search_sound [OF example_inv vis_new_inv example_total, of 1 10] example_len by auto

text \<open>
  C36: a beam at least as wide as the index misses nothing it can reach: the answer is exactly the
  \<open>k\<close> nearest, ties broken by id, among all nodes that layer-0 links lead to from the node the
  descent stopped at.
\<close>

theorem wide_search_exact:
  assumes "hn_inv h" and "vis_inv vis" and "total_on dist {..<hnsw_len h}"
    and "0 < hnsw_len h" and "hnsw_len h \<le> max ef k"
  shows "\<exists>ep < hnsw_len h. \<exists>vis'. search_with_oracle h dist vis k ef =
     Some (top_k k (map (\<lambda>i. Neighbor i (the (dist i))) (sorted_list_of_set (reach h 0 ep))), vis')"
proof -
  obtain ep vis' res where S: "ep \<in> on_layer h 0" "search_layer h dist vis ep (max ef k) 0 = Some (vis', res)"
    "search_with_oracle h dist vis k ef = Some (take k res, vis')"
    using search_with_oracle_cases [OF assms(1-3)] assms(4) by blast
  have tot0: "total_on dist (on_layer h 0)"
    using assms(3) on_layer_len [OF assms(1), of 0] by (auto simp: total_on_def)
  have cl: "closed_at h 0 (on_layer h 0)" using assms(1) by (intro links_ok_closed) (simp add: hn_inv_def)
  let ?R = "reach h 0 ep"
  have sub: "?R \<subseteq> {..<hnsw_len h}"
    using reach_subset [OF cl S(1)] on_layer_len [OF assms(1), of 0] by blast
  then have "card ?R \<le> max ef k" using card_mono [OF _ sub] assms(5) by simp
  then have R: "ids res = ?R" by (rule search_layer_complete [OF assms(2) S(1) cl tot0 _ S(2)])
  have O: "sorted res" "distinct (map nb_id res)" "scored dist res"
    using search_layer_ok [OF assms(2) S(1) cl tot0, of "max ef k"] S(2) by auto
  let ?l = "map (\<lambda>i. Neighbor i (the (dist i))) (sorted_list_of_set ?R)"
  have "set res = set ?l"
  proof -
    have "set res = (\<lambda>i. Neighbor i (the (dist i))) ` ids res"
      using O(3) by (force simp: scored_def ids_def)
    then show ?thesis using R finite_reach [of h 0 ep] by simp
  qed
  moreover have "distinct res" using O(2) by (simp add: distinct_map)
  moreover have "distinct ?l" by (simp add: distinct_map inj_on_def)
  ultimately have "mset res = mset ?l" by (metis set_eq_iff_mset_eq_distinct)
  then have "sort ?l = res" using O(1) by (simp add: properties_for_sort)
  moreover have "ep < hnsw_len h" using sub reach_self [of ep h 0] by blast
  ultimately show ?thesis using S(3) by (auto simp: top_k_def)
qed

theorem wide_search_exact_witness:
  "\<exists>ep < 2. \<exists>vis'. search_with_oracle example_index example_dist vis_new 1 10 =
     Some (top_k 1 (map (\<lambda>i. Neighbor i (the (example_dist i))) (sorted_list_of_set (reach example_index 0 ep))), vis')"
  using wide_search_exact [OF example_inv vis_new_inv example_total, of 10 1] by (simp add: example_len)


section \<open>The scratch does not matter\<close>

definition same_marks :: "visited \<Rightarrow> visited \<Rightarrow> bool" where
  "same_marks v w \<longleftrightarrow> vis_active v \<and> vis_active w \<and> vis_set v = vis_set w"

definition same_beam :: "search_state option \<Rightarrow> search_state option \<Rightarrow> bool" where
  "same_beam a b \<longleftrightarrow>
     (case (a, b) of
        (None, None) \<Rightarrow> True
      | (Some (v, c, r), Some (w, c', r')) \<Rightarrow> same_marks v w \<and> c = c' \<and> r = r'
      | _ \<Rightarrow> False)"

lemma same_beam_cases:
  assumes "same_beam a b"
  obtains "a = None" "b = None" | v w c r where "a = Some (v, c, r)" "b = Some (w, c, r)" "same_marks v w"
  using assms by (auto simp: same_beam_def split: option.splits prod.splits)

lemma visit_one_same:
  assumes "same_marks v w"
  shows "same_beam (visit_one dist ef (v, c, r) i) (visit_one dist ef (w, c, r) i)"
proof -
  obtain v' sv where v: "mark v i = (v', sv)" by fastforce
  obtain w' sw where w: "mark w i = (w', sw)" by fastforce
  have "same_marks v' w'" "sv = sw"
    using mark_spec [of v i] mark_spec [of w i] assms v w by (auto simp: same_marks_def)
  then show ?thesis by (cases "dist i") (simp_all add: visit_one_def v w same_beam_def)
qed

lemma visit_all_same:
  "same_marks v w \<Longrightarrow> same_beam (visit_all dist ef ns (v, c, r)) (visit_all dist ef ns (w, c, r))"
proof (induction ns arbitrary: v w c r)
  case Nil
  then show ?case by (simp add: same_beam_def)
next
  case (Cons i ns)
  from visit_one_same [OF Cons.prems, of dist ef c r i] show ?case
    by (cases rule: same_beam_cases) (simp_all add: same_beam_def [of None] Cons.IH)
qed

lemma search_loop_same:
  "same_marks v w \<Longrightarrow>
    map_option snd (search_loop h dist ef layer v cand res) = map_option snd (search_loop h dist ef layer w cand res)"
proof (induction h dist ef layer v cand res arbitrary: w rule: search_loop.induct)
  case (1 h dist ef layer v cand res)
  show ?case
  proof (cases cand)
    case Nil
    then show ?thesis by (simp add: search_loop.simps)
  next
    case (Cons c rest)
    show ?thesis
    proof (cases "f32_lt (worst res) (nb_dist c) \<and> ef \<le> length res")
      case True
      then show ?thesis unfolding Cons by (simp add: search_loop.simps [of _ _ _ _ _ "c # rest"])
    next
      case False
      show ?thesis
      proof (cases "links_of h (nb_id c) layer")
        case None
        with False show ?thesis unfolding Cons by (auto simp: search_loop.simps [of _ _ _ _ _ "c # rest"])
      next
        case (Some ns)
        from visit_all_same [OF "1.prems", of dist ef ns rest res]
        show ?thesis
        proof (cases rule: same_beam_cases)
          case 1
          with False Some show ?thesis unfolding Cons by (auto simp: search_loop.simps [of _ _ _ _ _ "c # rest"])
        next
          case (2 v' w' c' r')
          have "map_option snd (search_loop h dist ef layer v' c' r') =
              map_option snd (search_loop h dist ef layer w' c' r')"
            by (rule "1.IH" [OF Cons False Some 2(1) refl refl 2(3)])
          with 2(1,2) False Some show ?thesis
            unfolding Cons by (auto simp: search_loop.simps [of _ _ _ _ _ "c # rest"])
        qed
      qed
    qed
  qed
qed

lemma search_layer_same:
  assumes "vis_inv v" "vis_inv w"
  shows "map_option snd (search_layer h dist v e ef layer) = map_option snd (search_layer h dist w e ef layer)"
proof -
  let ?m = "\<lambda>v. fst (mark (begin_pass v (hnsw_len h)) e)"
  have "same_marks (?m v) (?m w)"
    using begin_pass_spec [OF assms(1), of "hnsw_len h"] begin_pass_spec [OF assms(2), of "hnsw_len h"]
      mark_spec [of "begin_pass v (hnsw_len h)" e] mark_spec [of "begin_pass w (hnsw_len h)" e]
    by (auto simp: same_marks_def)
  then show ?thesis
    by (cases "dist e") (simp_all add: search_layer_def search_loop_same)
qed

text \<open>
  Reusing a thread's scratch is invisible: two searches of the same index with the same query
  return the same answer (or the same failure) whatever earlier searches left in their visited
  sets, the generation counter about to wrap included.
\<close>

theorem search_ignores_scratch:
  assumes "vis_inv v" and "vis_inv w"
  shows "map_option fst (search_with_oracle h dist v k ef) = map_option fst (search_with_oracle h dist w k ef)"
proof -
  have *: "map_option fst (do { (vis', found) \<leftarrow> search_layer h dist v e ef' 0; Some (take k found, vis') }) =
      map_option fst (do { (vis', found) \<leftarrow> search_layer h dist w e ef' 0; Some (take k found, vis') })" for e ef'
    using search_layer_same [OF assms, of h dist e ef' 0]
    by (cases "search_layer h dist v e ef' 0"; cases "search_layer h dist w e ef' 0") auto
  obtain e t where u: "unpack_entry (hn_entry h) = (e, t)" by fastforce
  show ?thesis
  proof (cases "hn_entry h = entry_none")
    case True
    then show ?thesis by (simp add: search_with_oracle_def)
  next
    case False
    show ?thesis
    proof (cases "dist e")
      case None
      then show ?thesis using False by (simp add: search_with_oracle_def u)
    next
      case (Some d)
      show ?thesis
      proof (cases "descend_layers h dist (rev [1..<t + 1]) (e, d)")
        case None
        then show ?thesis using False Some by (simp add: search_with_oracle_def u Let_def)
      next
        case ep: (Some ep)
        then show ?thesis
          using False Some * [of "fst ep" "max ef k"] by (simp add: search_with_oracle_def u Let_def)
      qed
    qed
  qed
qed

theorem search_ignores_scratch_witness:
  "map_option fst (search_with_oracle example_index example_dist \<lparr>vis_stamps = [- 1, 5], vis_generation = - 1\<rparr> 1 10) =
     map_option fst (search_with_oracle example_index example_dist vis_new 1 10)"
  by (rule search_ignores_scratch) (simp_all add: vis_inv_def vis_new_def)

text \<open>
  The descent above the target layer ends, at a node of the layer none of whose neighbours there
  is strictly nearer to the query, never farther than where it started, and reports that node's
  distance.
\<close>

theorem greedy_descent_local_minimum:
  assumes "links_ok h" and "total_on dist (on_layer h layer)" and "entry \<in> on_layer h layer"
    and "dist entry = Some best"
  shows "\<exists>e' b'. greedy_descend h dist entry best layer = Some (e', b') \<and> e' \<in> on_layer h layer \<and>
     dist e' = Some b' \<and> (b' = best \<or> f32_lt b' best) \<and>
     (\<forall>ns. links_of h e' layer = Some ns \<longrightarrow> (\<forall>j \<in> set ns. \<forall>d. dist j = Some d \<longrightarrow> \<not> f32_lt d b'))"
  by (rule greedy_descend_ok [OF links_ok_closed [OF assms(1)] assms(2-4)])

theorem greedy_descent_local_minimum_witness:
  "\<exists>e' b'. greedy_descend example_index example_dist 0 f32_one 1 = Some (e', b') \<and> example_dist e' = Some b'"
proof -
  have "links_ok example_index" using example_inv by (simp add: hn_inv_def)
  moreover have "0 \<in> on_layer example_index 1" by (simp add: on_layer_def example_links)
  moreover have "example_dist 0 = Some f32_one" by (simp add: example_dist_def)
  ultimately show ?thesis
    using greedy_descent_local_minimum [of example_index example_dist 1 0 f32_one] example_total by blast
qed

section \<open>Nodes without incoming links\<close>

lemma collect_links_iff:
  "collect_links h is = Some ts \<Longrightarrow> j \<in> set ts \<longleftrightarrow> (\<exists>i \<in> set is. \<exists>ns. links_of h i 0 = Some ns \<and> j \<in> set ns)"
proof (induction "is" arbitrary: ts)
  case Nil
  then show ?case by simp
next
  case (Cons i js)
  then obtain ns rest where "links_of h i 0 = Some ns" "collect_links h js = Some rest" "ts = ns @ rest"
    by (auto split: bind_splits if_splits)
  with Cons.IH show ?case by auto
qed

lemma collect_links_total:
  assumes "hn_inv h"
  shows "set is \<subseteq> {..<hnsw_len h} \<Longrightarrow> \<exists>ts. collect_links h is = Some ts"
proof (induction "is")
  case Nil
  then show ?case by simp
next
  case (Cons i js)
  then have "sv_get_unchecked (hn_nodes h) i \<noteq> None"
    using assms by (auto simp: hn_inv_def sv_dense_def hnsw_len_def)
  then obtain nd where nd: "sv_get_unchecked (hn_nodes h) i = Some nd" by blast
  have "hnsw_len h \<noteq> 0" using Cons.prems by auto
  then have "node_links nd \<noteq> []"
    using hn_inv_entry [OF assms] nd unfolding level_ok_def by metis
  then obtain ns where ns: "links_of h i 0 = Some ns" using nd by (simp add: links_of_def)
  have "set ns \<subseteq> {..<hnsw_len h}"
    using assms ns on_layer_len [OF assms, of 0] unfolding hn_inv_def links_ok_def by blast
  then show ?case using Cons ns by auto
qed

lemma reach_in_degree: "x \<in> reach h layer e \<Longrightarrow> x = e \<or> (\<exists>i ns. links_of h i layer = Some ns \<and> x \<in> set ns)"
  unfolding reach_def mem_Collect_eq by (erule rtranclE) (auto simp: layer_edges_def)

text \<open>
  Counting the nodes without incoming layer-0 links never indexes out of range, and a node it
  counts is never found by a beam on layer 0 that starts elsewhere, at any width.
\<close>

theorem zero_indegree_not_found:
  assumes "hn_inv h" and "vis_inv vis" and "total_on dist {..<hnsw_len h}" and "e \<in> on_layer h 0"
  shows "\<exists>zs. zero_indegree_nodes h = Some zs \<and>
     (\<forall>i \<in> set zs. i \<noteq> e \<longrightarrow> (\<exists>vis' res. search_layer h dist vis e ef 0 = Some (vis', res) \<and> i \<notin> ids res))"
proof -
  have "set [0..<hnsw_len h] \<subseteq> {..<hnsw_len h}" by auto
  from collect_links_total [OF assms(1) this] obtain ts
    where ts: "collect_links h [0..<hnsw_len h] = Some ts" ..
  let ?zs = "filter (\<lambda>i. count_list ts i = 0 \<and> i \<noteq> fst (unpack_entry (hn_entry h))) [0..<hnsw_len h]"
  have z: "zero_indegree_nodes h = Some ?zs" by (simp add: zero_indegree_nodes_def ts)
  have tot0: "total_on dist (on_layer h 0)"
    using assms(3) on_layer_len [OF assms(1), of 0] by (auto simp: total_on_def)
  have cl: "closed_at h 0 (on_layer h 0)" using assms(1) by (intro links_ok_closed) (simp add: hn_inv_def)
  obtain vis' res where S: "search_layer h dist vis e ef 0 = Some (vis', res)" "ids res \<subseteq> reach h 0 e"
    using search_layer_ok [OF assms(2,4) cl tot0, of ef] by blast
  have "i \<notin> ids res" if i: "i \<in> set ?zs" "i \<noteq> e" for i
  proof
    assume "i \<in> ids res"
    then have "i \<in> reach h 0 e" using S(2) by blast
    then obtain j ns where j: "links_of h j 0 = Some ns" "i \<in> set ns"
      using i(2) reach_in_degree by blast
    then have "j \<in> on_layer h 0" by (auto simp: on_layer_def)
    then have "j < hnsw_len h" using on_layer_len [OF assms(1), of 0] by blast
    then have "i \<in> set ts" using collect_links_iff [OF ts] j by auto
    then show False using i(1) by (simp add: count_list_0_iff)
  qed
  then show ?thesis using z S(1) by blast
qed

lemma example_zero_indegree: "zero_indegree_nodes example_index = Some [1]"
proof -
  have "[0..<hnsw_len example_index] = [0, 1]" by (simp add: example_len upt_rec)
  moreover have "fst (unpack_entry (hn_entry example_index)) = 0"
    by (simp add: example_index_def unpack_pack)
  ultimately show ?thesis by (simp add: zero_indegree_nodes_def example_links example_len)
qed

theorem zero_indegree_not_found_witness:
  "\<exists>vis' res. search_layer example_index example_dist vis_new 0 10 0 = Some (vis', res) \<and> 1 \<notin> ids res"
proof -
  have "0 \<in> on_layer example_index 0" by (simp add: on_layer_def example_links)
  then show ?thesis
    using zero_indegree_not_found [OF example_inv vis_new_inv example_total, of 0 10] example_zero_indegree
    by force
qed

text \<open>
  The comment on \<^verbatim>\<open>zero_indegree_count\<close> claims more, that a counted node is provably unreachable
  from the entry point at any width.  The example refutes it: node 1 is counted, and the search
  from the entry point returns it, having descended to it on layer 1.
\<close>

theorem zero_indegree_yet_found:
  "zero_indegree_nodes example_index = Some [1] \<and>
   (\<exists>vis'. search_with_oracle example_index example_dist vis_new 1 1 = Some ([Neighbor 1 f32_zero], vis'))"
proof -
  have lt: "f32_lt f32_zero f32_one" "\<not> f32_lt f32_one f32_zero" "\<not> f32_lt f32_zero f32_zero"
    by (simp_all add: f32_eval)
  have less: "Neighbor 1 f32_zero \<noteq> Neighbor 0 f32_one" by simp
  have u: "unpack_entry (hn_entry example_index) = (0, 1)" "hn_entry example_index \<noteq> entry_none"
    by (simp_all add: example_index_def unpack_pack pack_not_none)
  have d: "example_dist 0 = Some f32_one" "example_dist 1 = Some f32_zero" by (simp_all add: example_dist_def)
  have g: "greedy_descend example_index example_dist 0 f32_one 1 = Some (1, f32_zero)"
    using lt d by (simp add: greedy_descend.simps example_links)
  obtain vis' res where S: "search_layer example_index example_dist vis_new 1 1 0 = Some (vis', res)"
    using search_layer_ok [OF vis_new_inv, of 1 "on_layer example_index 0" example_index 0 example_dist 1]
      links_ok_closed [of example_index 0] example_inv example_total
    by (auto simp: on_layer_def example_links hn_inv_def)
  obtain v1 s1 where m1: "mark (begin_pass vis_new (hnsw_len example_index)) 1 = (v1, s1)" by fastforce
  have "res = [Neighbor 1 f32_zero]"
    using S lt d by (auto simp: search_layer_def search_loop.simps example_links visit_one_def worst_def
        m1 split: prod.splits if_splits)
  then show ?thesis
    using example_zero_indegree u d g S by (simp add: search_with_oracle_def)
qed

end
