(* ===== verification/Hnsw_Insert.thy ===== *)
theory Hnsw_Insert
  imports Hnsw_Search
begin

text \<open>
  What \<^verbatim>\<open>insert\<close> of \<^verbatim>\<open>hnsw/mod.rs\<close> keeps: it never fails on a sound index, the structural
  invariants the code's tests check hold after every insert, the degree bounds included, and the
  neighbour selection returns as many candidates as it may, the nearest among them.
\<close>

section \<open>Total kernels\<close>

text \<open>Every id below \<open>n\<close> has a vector, and the kernel accepts any two of them.\<close>

definition vecs_ok :: "kernel_fun \<Rightarrow> vec_fun \<Rightarrow> nat \<Rightarrow> bool" where
  "vecs_ok kern vec n \<longleftrightarrow>
     (\<forall>i<n. vec i \<noteq> None) \<and> (\<forall>i<n. \<forall>j<n. \<forall>v w. vec i = Some v \<longrightarrow> vec j = Some w \<longrightarrow> kern v w \<noteq> None)"

lemma vecs_ok_vec: "vecs_ok kern vec n \<Longrightarrow> i < n \<Longrightarrow> \<exists>v. vec i = Some v"
  by (auto simp: vecs_ok_def)

lemma vecs_ok_kern:
  "vecs_ok kern vec n \<Longrightarrow> i < n \<Longrightarrow> j < n \<Longrightarrow> vec i = Some v \<Longrightarrow> vec j = Some w \<Longrightarrow> \<exists>d. kern v w = Some d"
  by (auto simp: vecs_ok_def)

lemma vecs_ok_total:
  assumes "vecs_ok kern vec n" "i < n" "vec i = Some v"
  shows "total_on (hnsw_distance kern vec v) {..<n}"
  unfolding total_on_def
proof
  fix j assume "j \<in> {..<n}"
  then obtain w d where "vec j = Some w" "kern v w = Some d"
    using assms vecs_ok_vec vecs_ok_kern by (metis lessThan_iff)
  then show "hnsw_distance kern vec v j \<noteq> None" by (simp add: hnsw_distance_def)
qed

section \<open>Selecting neighbours\<close>

lemma dominated_total:
  "vecs_ok kern vec n \<Longrightarrow> ids ss \<subseteq> {..<n} \<Longrightarrow> i < n \<Longrightarrow> vec i = Some cv \<Longrightarrow>
     \<exists>b. dominated kern vec cv cd ss = Some b"
proof (induction ss)
  case Nil
  then show ?case by auto
next
  case (Cons s ss)
  then have s: "nb_id s < n" and "ids ss \<subseteq> {..<n}" by (auto simp: ids_def)
  with Cons obtain b where b: "dominated kern vec cv cd ss = Some b" by auto
  obtain sv where sv: "vec (nb_id s) = Some sv" using vecs_ok_vec [OF Cons.prems(1) s] ..
  obtain d where "kern cv sv = Some d"
    using vecs_ok_kern [OF Cons.prems(1,3) s Cons.prems(4) sv] ..
  then show ?case using b sv by auto
qed

text \<open>The loop deals the candidates it looks at into the selected and the pruned ones.\<close>

lemma select_loop_spec:
  "vecs_ok kern vec n \<Longrightarrow> ids cands \<subseteq> {..<n} \<Longrightarrow> ids sel \<subseteq> {..<n} \<Longrightarrow> length sel \<le> m \<Longrightarrow>
    \<exists>sel' pr' rest. select_loop kern vec m cands sel pr = Some (sel', pr') \<and> length sel' \<le> m \<and>
      mset (sel' @ pr') + mset rest = mset (sel @ pr) + mset cands \<and> (rest = [] \<or> length sel' = m) \<and>
      (\<exists>more. sel' = sel @ more)"
proof (induction cands arbitrary: sel pr)
  case Nil
  then show ?case by (intro exI [of _ sel] exI [of _ pr] exI [of _ "[]"]) simp
next
  case (Cons c cs)
  show ?case
  proof (cases "m \<le> length sel")
    case True
    then show ?thesis using Cons.prems
      by (intro exI [of _ sel] exI [of _ pr] exI [of _ "c # cs"]) simp
  next
    case False
    have c: "nb_id c < n" and cs: "ids cs \<subseteq> {..<n}" using Cons.prems(2) by (auto simp: ids_def)
    obtain cv where cv: "vec (nb_id c) = Some cv" using vecs_ok_vec [OF Cons.prems(1) c] ..
    obtain b where b: "dominated kern vec cv (nb_dist c) sel = Some b"
      using dominated_total [OF Cons.prems(1,3) c cv] ..
    show ?thesis
    proof (cases b)
      case True
      obtain sel' pr' rest where "select_loop kern vec m cs sel (pr @ [c]) = Some (sel', pr')" "length sel' \<le> m"
        "mset (sel' @ pr') + mset rest = mset (sel @ pr @ [c]) + mset cs" "rest = [] \<or> length sel' = m"
        "\<exists>more. sel' = sel @ more"
        using Cons.IH [OF Cons.prems(1) cs Cons.prems(3,4)] by blast
      then show ?thesis using False True cv b by (intro exI [of _ sel'] exI [of _ pr'] exI [of _ rest]) simp
    next
      case nb: False
      have "ids (sel @ [c]) \<subseteq> {..<n}" using Cons.prems(3) c by (auto simp: ids_def)
      moreover have "length (sel @ [c]) \<le> m" using False by simp
      ultimately obtain sel' pr' rest where "select_loop kern vec m cs (sel @ [c]) pr = Some (sel', pr')"
        "length sel' \<le> m" "mset (sel' @ pr') + mset rest = mset ((sel @ [c]) @ pr) + mset cs"
        "rest = [] \<or> length sel' = m" "\<exists>more. sel' = (sel @ [c]) @ more"
        using Cons.IH [OF Cons.prems(1) cs] by blast
      then show ?thesis using False nb cv b by (intro exI [of _ sel'] exI [of _ pr'] exI [of _ rest]) auto
    qed
  qed
qed

lemma top_up_eq: "top_up m out ps = out @ take (m - length out) (map nb_id ps)"
proof (induction ps arbitrary: out)
  case Nil
  then show ?case by simp
next
  case (Cons p ps)
  show ?case
  proof (cases "m \<le> length out")
    case False
    then have "m - length out = Suc (m - Suc (length out))" by simp
    with False Cons show ?thesis by simp
  qed simp
qed

lemma select_neighbors_spec:
  assumes k: "vecs_ok kern vec n" and c: "ids cands \<subseteq> {..<n}" and d: "distinct (map nb_id cands)"
  shows "\<exists>out. select_neighbors kern vec cands m = Some out \<and> distinct out \<and> set out \<subseteq> ids cands \<and>
     length out = min m (length cands) \<and> (0 < m \<and> cands \<noteq> [] \<longrightarrow> nb_id (hd cands) \<in> set out)"
proof -
  have e: "ids [] \<subseteq> {..<n}" "length ([] :: neighbor list) \<le> m" by (simp_all add: ids_def)
  obtain sel pr rest where S: "select_loop kern vec m cands [] [] = Some (sel, pr)" "length sel \<le> m"
    "mset (sel @ pr) + mset rest = mset cands" "rest = [] \<or> length sel = m"
    using select_loop_spec [OF k c e, of "[]"] by auto
  let ?out = "map nb_id sel @ take (m - length sel) (map nb_id pr)"
  have out: "select_neighbors kern vec cands m = Some ?out"
    by (simp add: select_neighbors_def S(1) top_up_eq)
  have ms: "mset (sel @ pr @ rest) = mset cands" using S(3) by (simp add: ac_simps)
  then have "mset (map nb_id (sel @ pr @ rest)) = mset (map nb_id cands)" by (metis mset_map)
  then have dd: "distinct (map nb_id (sel @ pr @ rest))" using d by (metis mset_eq_imp_distinct_iff)
  have "set (take (m - length sel) (map nb_id pr)) \<subseteq> set (map nb_id pr)" by (rule set_take_subset)
  then have dist: "distinct ?out" using dd by auto
  have "set (sel @ pr @ rest) = set cands" using ms by (metis mset_eq_setD)
  then have sub: "set ?out \<subseteq> ids cands"
    using set_take_subset [of "m - length sel" "map nb_id pr"] by (fastforce simp: ids_def)
  have len: "length (sel @ pr @ rest) = length cands" using ms by (metis mset_eq_length)
  then have l: "length ?out = min m (length cands)" using S(2,4) by auto
  have "nb_id (hd cands) \<in> set ?out" if "0 < m" "cands \<noteq> []"
  proof -
    obtain c cs where cc: "cands = c # cs" using \<open>cands \<noteq> []\<close> by (cases cands) auto
    have cn: "nb_id c < n" "ids cs \<subseteq> {..<n}" using c cc by (auto simp: ids_def)
    obtain cv where "vec (nb_id c) = Some cv" using vecs_ok_vec [OF k cn(1)] ..
    then have "select_loop kern vec m cs [c] [] = Some (sel, pr)" using S(1) cc \<open>0 < m\<close> by simp
    moreover have "ids [c] \<subseteq> {..<n}" "length [c] \<le> m" using cn \<open>0 < m\<close> by (simp_all add: ids_def)
    ultimately have "\<exists>more. sel = [c] @ more"
      using select_loop_spec [OF k cn(2), of "[c]" m "[]"] by auto
    then show ?thesis using cc by auto
  qed
  then show ?thesis using out dist sub l by blast
qed

section \<open>Rewriting adjacency\<close>

text \<open>What a rewrite leaves alone: everything but the lists.\<close>

definition same_shape :: "hnsw \<Rightarrow> hnsw \<Rightarrow> bool" where
  "same_shape h h' \<longleftrightarrow>
     hn_config h' = hn_config h \<and> hn_kernel h' = hn_kernel h \<and> hn_entry h' = hn_entry h \<and>
     hnsw_len h' = hnsw_len h \<and> (sv_dense (hn_nodes h) \<longrightarrow> sv_dense (hn_nodes h')) \<and>
     (\<forall>layer. on_layer h' layer = on_layer h layer)"

lemma same_shape_refl [simp]: "same_shape h h"
  by (simp add: same_shape_def)

lemma same_shape_trans: "same_shape h h' \<Longrightarrow> same_shape h' h'' \<Longrightarrow> same_shape h h''"
  by (simp add: same_shape_def)

lemma same_shape_max_degree: "same_shape h h' \<Longrightarrow> max_degree h' layer = max_degree h layer"
  by (simp add: same_shape_def max_degree_def)

lemma set_links_spec:
  assumes "i \<in> on_layer h layer"
  shows "\<exists>h'. set_links h i layer ns = Some h' \<and> same_shape h h' \<and>
     (\<forall>j l. links_of h' j l = (if j = i \<and> l = layer then Some ns else links_of h j l))"
proof -
  obtain nd where nd: "sv_get_unchecked (hn_nodes h) i = Some nd" "layer < length (node_links nd)"
    using assms by (auto simp: on_layer_iff)
  let ?f = "\<lambda>nd. nd\<lparr>node_links := (node_links nd)[layer := ns]\<rparr>"
  obtain nodes where m: "sv_modify (hn_nodes h) i ?f = Some nodes"
    using nd by (simp add: sv_modify_def)
  note M = sv_modify_Some [OF m]
  let ?h = "h\<lparr>hn_nodes := nodes\<rparr>"
  have get: "sv_get_unchecked nodes j = (if j = i then Some (?f nd) else sv_get_unchecked (hn_nodes h) j)" for j
    using M nd by auto
  have links: "links_of ?h j l = (if j = i \<and> l = layer then Some ns else links_of h j l)" for j l
    using nd by (auto simp: links_of_def get)
  then have "on_layer ?h l = on_layer h l" for l using assms by (auto simp: on_layer_def)
  then have "same_shape h ?h" using M sv_dense_modify [OF _ m] by (simp add: same_shape_def hnsw_len_def)
  then show ?thesis using links m by (simp add: set_links_def)
qed

text \<open>A rewrite that keeps the list within the rules keeps the index within them.\<close>

definition list_ok :: "hnsw \<Rightarrow> nat \<Rightarrow> nat \<Rightarrow> nat list \<Rightarrow> bool" where
  "list_ok h i layer ns \<longleftrightarrow>
     distinct ns \<and> length ns \<le> max_degree h layer \<and> i \<notin> set ns \<and> set ns \<subseteq> on_layer h layer"

lemma links_ok_list: "links_ok h \<longleftrightarrow> (\<forall>i layer ns. links_of h i layer = Some ns \<longrightarrow> list_ok h i layer ns)"
  by (simp add: links_ok_def list_ok_def)

lemma list_ok_shape: "same_shape h h' \<Longrightarrow> list_ok h' i layer ns = list_ok h i layer ns"
  by (simp add: list_ok_def same_shape_max_degree) (simp add: same_shape_def)

lemma rewrite_links_spec:
  assumes ok: "links_ok h" and i: "i \<in> on_layer h layer"
    and mut: "\<And>cur. links_of h i layer = Some cur \<Longrightarrow> list_ok h i layer cur \<Longrightarrow>
      \<exists>ns. mutate cur = Some ns \<and> list_ok h i layer ns"
  shows "\<exists>h'. rewrite_links h i layer mutate = Some h' \<and> same_shape h h' \<and> links_ok h' \<and>
     (\<forall>j l. j \<noteq> i \<or> l \<noteq> layer \<longrightarrow> links_of h' j l = links_of h j l)"
proof -
  obtain cur where cur: "links_of h i layer = Some cur" using i by (auto simp: on_layer_def)
  obtain ns where ns: "mutate cur = Some ns" "list_ok h i layer ns"
    using mut [OF cur] ok cur by (auto simp: links_ok_list)
  obtain h' where H: "set_links h i layer ns = Some h'" "same_shape h h'"
    "\<forall>j l. links_of h' j l = (if j = i \<and> l = layer then Some ns else links_of h j l)"
    using set_links_spec [OF i] by blast
  have "links_ok h'"
    using ok ns(2) H(3) by (auto simp: links_ok_list list_ok_shape [OF H(2)])
  then show ?thesis using cur ns(1) H by (simp add: rewrite_links_def)
qed

lemma score_spec:
  assumes "vecs_ok kern vec n" "i < n" "vec i = Some base"
  shows "set xs \<subseteq> {..<n} \<Longrightarrow> \<exists>cs. score kern vec base xs = Some cs \<and> map nb_id cs = xs"
proof (induction xs)
  case Nil
  then show ?case by simp
next
  case (Cons x xs)
  then have x: "x < n" by simp
  obtain v where v: "vec x = Some v" using vecs_ok_vec [OF assms(1) x] ..
  obtain d where "kern base v = Some d" using vecs_ok_kern [OF assms(1,2) x assms(3) v] ..
  with v Cons show ?case by auto
qed

lemma add_back_link_spec:
  assumes k: "vecs_ok kern vec n" and on: "on_layer h layer \<subseteq> {..<n}"
    and cur: "list_ok h nb layer cur" and i: "i \<in> on_layer h layer" "i \<noteq> nb" and nb: "nb < n"
  shows "\<exists>ns. add_back_link kern vec i nb (max_degree h layer) cur = Some ns \<and> list_ok h nb layer ns"
proof (cases "i \<in> set cur \<or> length cur < max_degree h layer")
  case True
  then show ?thesis using cur i by (auto simp: add_back_link_def list_ok_def Let_def)
next
  case False
  obtain base where base: "vec nb = Some base" using vecs_ok_vec [OF k nb] ..
  have sub: "set (cur @ [i]) \<subseteq> {..<n}" using cur i on by (auto simp: list_ok_def)
  obtain cs where cs: "score kern vec base (cur @ [i]) = Some cs" "map nb_id cs = cur @ [i]"
    using score_spec [OF k nb base sub] by blast
  have idc: "ids (sort cs) = set (cur @ [i])" using cs(2) by (metis ids_def set_map set_sort)
  have "distinct (map nb_id cs)" using cs(2) cur False by (simp add: list_ok_def)
  then have "distinct (map nb_id (sort cs))" by (metis mset_eq_imp_distinct_iff mset_map mset_sort)
  then obtain out where "select_neighbors kern vec (sort cs) (max_degree h layer) = Some out" "distinct out"
    "set out \<subseteq> set (cur @ [i])" "length out \<le> max_degree h layer"
    using select_neighbors_spec [OF k, of "sort cs" "max_degree h layer"] idc sub by auto
  then show ?thesis using False base cs(1) cur i by (auto simp: add_back_link_def list_ok_def Let_def)
qed

lemma back_links_spec:
  "links_ok h \<Longrightarrow> vecs_ok (hn_kernel h) vec n \<Longrightarrow> on_layer h layer \<subseteq> {..<n} \<Longrightarrow> i \<in> on_layer h layer \<Longrightarrow>
   set nbs \<subseteq> on_layer h layer - {i} \<Longrightarrow>
    \<exists>h'. back_links h vec i layer nbs = Some h' \<and> same_shape h h' \<and> links_ok h' \<and>
      (\<forall>j l. j = i \<or> l \<noteq> layer \<longrightarrow> links_of h' j l = links_of h j l)"
proof (induction nbs arbitrary: h)
  case Nil
  then show ?case by simp
next
  case (Cons nb nbs)
  have nb: "nb \<in> on_layer h layer" "nb \<noteq> i" "nb < n" using Cons.prems(3,5) by auto
  obtain h1 where H: "rewrite_links h nb layer (add_back_link (hn_kernel h) vec i nb (max_degree h layer)) = Some h1"
    "same_shape h h1" "links_ok h1" "\<forall>j l. j \<noteq> nb \<or> l \<noteq> layer \<longrightarrow> links_of h1 j l = links_of h j l"
    using rewrite_links_spec [OF Cons.prems(1) nb(1)]
      add_back_link_spec [OF Cons.prems(2,3) _ Cons.prems(4) nb(2) [symmetric] nb(3)] by metis
  have "\<exists>h'. back_links h1 vec i layer nbs = Some h' \<and> same_shape h1 h' \<and> links_ok h' \<and>
      (\<forall>j l. j = i \<or> l \<noteq> layer \<longrightarrow> links_of h' j l = links_of h1 j l)"
    by (rule Cons.IH) (use H Cons.prems in \<open>auto simp: same_shape_def\<close>)
  then obtain h' where "back_links h1 vec i layer nbs = Some h'" "same_shape h1 h'" "links_ok h'"
    "\<forall>j l. j = i \<or> l \<noteq> layer \<longrightarrow> links_of h' j l = links_of h1 j l" by blast
  then show ?case using H nb(2) same_shape_trans by fastforce
qed

section \<open>Connecting a node\<close>

lemma connect_layer_spec:
  assumes ok: "links_ok h" and m: "2 \<le> cfg_m (hn_config h)" and k: "vecs_ok (hn_kernel h) vec n"
    and on: "\<And>l. on_layer h l \<subseteq> {..<n}" and tot: "total_on dist {..<n}"
    and own: "links_of h i layer = Some []" and ep: "ep \<in> on_layer h layer" and vis: "vis_inv vis"
  shows "\<exists>h' vis' ep'. connect_layer h vec dist i layer vis ep = Some (h', vis', ep') \<and>
     same_shape h h' \<and> links_ok h' \<and> vis_inv vis' \<and> ep' \<in> on_layer h layer \<and>
     (\<forall>l. l \<noteq> layer \<longrightarrow> links_of h' i l = links_of h i l)"
proof -
  let ?ef = "cfg_ef_construction (hn_config h)" and ?m = "cfg_m (hn_config h)"
  have i: "i \<in> on_layer h layer" using own by (simp add: on_layer_def)
  have cl: "closed_at h layer (on_layer h layer)" by (rule links_ok_closed [OF ok])
  have tl: "total_on dist (on_layer h layer)" using tot on [of layer] by (auto simp: total_on_def)
  obtain vis' found where S: "search_layer h dist vis ep ?ef layer = Some (vis', found)" "vis_inv vis'"
    "distinct (map nb_id found)" "found \<noteq> []" "ids found \<subseteq> reach h layer ep"
    using search_layer_ok [OF vis ep cl tl, of ?ef] by blast
  have sub: "ids found \<subseteq> on_layer h layer" using S(5) reach_subset [OF cl ep] by blast
  let ?cands = "filter (\<lambda>n. nb_id n \<noteq> i) found"
  let ?ep = "case found of [] \<Rightarrow> ep | best # _ \<Rightarrow> nb_id best"
  have ep': "?ep \<in> on_layer h layer" using S(4) sub by (cases found) (auto simp: ids_def)
  have cn: "ids ?cands \<subseteq> on_layer h layer - {i}" using sub by (auto simp: ids_def)
  then have "ids ?cands \<subseteq> {..<n}" using on [of layer] by blast
  moreover have "distinct (map nb_id ?cands)" using S(3) by (rule distinct_map_filter)
  ultimately obtain chosen where C: "select_neighbors (hn_kernel h) vec ?cands ?m = Some chosen"
    "distinct chosen" "set chosen \<subseteq> ids ?cands" "length chosen = min ?m (length ?cands)"
    using select_neighbors_spec [OF k, of ?cands ?m] by blast
  have "?m \<le> max_degree h layer" by (simp add: max_degree_def)
  then have lok: "list_ok h i layer chosen"
    using C(2,3,4) cn by (auto simp: list_ok_def)
  have mut: "\<exists>ns. add_own_links chosen cur = Some ns \<and> list_ok h i layer ns"
    if "links_of h i layer = Some cur" for cur
    using that own C(2) lok by (simp add: add_own_links_def remdups_adj_distinct)
  obtain h1 where R: "rewrite_links h i layer (add_own_links chosen) = Some h1" "same_shape h h1" "links_ok h1"
    "\<forall>j l. j \<noteq> i \<or> l \<noteq> layer \<longrightarrow> links_of h1 j l = links_of h j l"
    using rewrite_links_spec [OF ok i, of "add_own_links chosen"] mut by blast
  have sh: "hn_kernel h1 = hn_kernel h" "on_layer h1 layer = on_layer h layer"
    using R(2) by (simp_all add: same_shape_def)
  have "\<exists>h2. back_links h1 vec i layer chosen = Some h2 \<and> same_shape h1 h2 \<and> links_ok h2 \<and>
      (\<forall>j l. j = i \<or> l \<noteq> layer \<longrightarrow> links_of h2 j l = links_of h1 j l)"
    by (rule back_links_spec [OF R(3), of vec n]) (use sh k on i C(3) cn in auto)
  then obtain h2 where B: "back_links h1 vec i layer chosen = Some h2" "same_shape h1 h2" "links_ok h2"
    "\<forall>j l. j = i \<or> l \<noteq> layer \<longrightarrow> links_of h2 j l = links_of h1 j l" by blast
  have "connect_layer h vec dist i layer vis ep = Some (h2, vis', ?ep)"
    using S(1) C(1) R(1) B(1) by (simp add: connect_layer_def)
  then show ?thesis using R B ep' S(2) same_shape_trans [OF R(2) B(2)] by auto
qed

lemma connect_layers_spec:
  assumes m: "2 \<le> cfg_m (hn_config h)" and k: "vecs_ok (hn_kernel h) vec n" and tot: "total_on dist {..<n}"
  shows "sorted_wrt (>) layers \<Longrightarrow> (\<forall>l \<in> set layers. l \<le> t \<and> links_of h1 i l = Some []) \<Longrightarrow>
    ep \<in> on_layer h t \<Longrightarrow> links_ok h1 \<Longrightarrow> same_shape h h1 \<Longrightarrow> (\<And>l. on_layer h l \<subseteq> {..<n}) \<Longrightarrow> vis_inv vis \<Longrightarrow>
    \<exists>h' vis' ep'. connect_layers vec dist i layers (h1, vis, ep) = Some (h', vis', ep') \<and>
      same_shape h h' \<and> links_ok h' \<and> vis_inv vis'"
proof (induction layers arbitrary: h1 vis ep t)
  case Nil
  then show ?case by simp
next
  case (Cons l layers)
  have sh: "hn_config h1 = hn_config h" "hn_kernel h1 = hn_kernel h" "\<And>l. on_layer h1 l = on_layer h l"
    using Cons.prems(5) by (simp_all add: same_shape_def)
  have "ep \<in> on_layer h1 l" using Cons.prems(2,3) on_layer_antimono [of l t h] sh(3) by auto
  then obtain h2 vis' ep' where C: "connect_layer h1 vec dist i l vis ep = Some (h2, vis', ep')"
    "same_shape h1 h2" "links_ok h2" "vis_inv vis'" "ep' \<in> on_layer h l"
    "\<forall>l'. l' \<noteq> l \<longrightarrow> links_of h2 i l' = links_of h1 i l'"
    using connect_layer_spec [OF Cons.prems(4), of vec n dist i l ep vis] m k tot sh Cons.prems(2,6,7)
    by auto
  have "\<exists>h' vis'' ep''. connect_layers vec dist i layers (h2, vis', ep') = Some (h', vis'', ep'') \<and>
      same_shape h h' \<and> links_ok h' \<and> vis_inv vis''"
    by (rule Cons.IH [where t = l])
      (use Cons.prems C same_shape_trans [OF Cons.prems(5) C(2)] in auto)
  then show ?case using C(1) by auto
qed

lemma level_ok_on_layer:
  assumes "sv_dense (hn_nodes h)"
  shows "level_ok h l \<longleftrightarrow> {..<hnsw_len h} \<subseteq> on_layer h 0 \<and> on_layer h (Suc l) = {}"
proof -
  have ex: "sv_get_unchecked (hn_nodes h) i = None \<longleftrightarrow> \<not> i < hnsw_len h" for i
    using assms by (metis sv_dense_def hnsw_len_def)
  have "(\<forall>nd. sv_get_unchecked (hn_nodes h) i = Some nd \<longrightarrow> node_links nd \<noteq> [] \<and> node_level nd \<le> l) \<longleftrightarrow>
      (i < hnsw_len h \<longrightarrow> i \<in> on_layer h 0) \<and> i \<notin> on_layer h (Suc l)" for i
    using ex [of i] by (cases "sv_get_unchecked (hn_nodes h) i") (auto simp: on_layer_iff node_level_def)
  then show ?thesis unfolding level_ok_def by blast
qed

lemma with_entry [simp]:
  "links_of (h\<lparr>hn_entry := x\<rparr>) i l = links_of h i l"
  "on_layer (h\<lparr>hn_entry := x\<rparr>) l = on_layer h l"
  "hnsw_len (h\<lparr>hn_entry := x\<rparr>) = hnsw_len h"
  "max_degree (h\<lparr>hn_entry := x\<rparr>) l = max_degree h l"
  "links_ok (h\<lparr>hn_entry := x\<rparr>) = links_ok h"
  by (simp_all add: links_of_def on_layer_def hnsw_len_def max_degree_def links_ok_def)

section \<open>Insert\<close>

lemma insert_node_spec:
  assumes inv: "hn_inv h" and room: "hnsw_len h < sv_capacity"
  shows "\<exists>nodes. sv_set (hn_nodes h) (hnsw_len h) (node_new level) = Some nodes \<and>
     (let h1 = h\<lparr>hn_nodes := nodes\<rparr> in
        sv_dense nodes \<and> hnsw_len h1 = Suc (hnsw_len h) \<and> links_ok h1 \<and>
        (\<forall>l. on_layer h1 l = on_layer h l \<union> (if l \<le> level then {hnsw_len h} else {})) \<and>
        (\<forall>l \<le> level. links_of h1 (hnsw_len h) l = Some []))"
proof -
  let ?n = "hnsw_len h"
  have dense: "sv_dense (hn_nodes h)" and lok: "links_ok h" using inv by (simp_all add: hn_inv_def)
  obtain nodes where s: "sv_set (hn_nodes h) ?n (node_new level) = Some nodes"
    using sv_set_ok [OF room, of "hn_nodes h" "node_new level"] by blast
  let ?h = "h\<lparr>hn_nodes := nodes\<rparr>"
  have d: "sv_dense nodes" "hnsw_len ?h = Suc ?n"
    using sv_dense_push [OF dense] s by (simp_all add: hnsw_len_def)
  have links: "links_of ?h j l = (if j = ?n then (if l \<le> level then Some [] else None) else links_of h j l)" for j l
    using sv_get_set [OF s, of j] by (auto simp: links_of_def node_new_def less_Suc_eq_le simp del: replicate_Suc)
  have "links_of h ?n l = None" for l
    using dense by (auto simp: links_of_def sv_dense_def hnsw_len_def)
  then have on: "on_layer ?h l = on_layer h l \<union> (if l \<le> level then {?n} else {})" for l
    using links by (auto simp: on_layer_def)
  have "links_ok ?h"
    unfolding links_ok_def
  proof (intro allI impI)
    fix j l ns assume a: "links_of ?h j l = Some ns"
    show "distinct ns \<and> length ns \<le> max_degree ?h l \<and> j \<notin> set ns \<and> set ns \<subseteq> on_layer ?h l"
    proof (cases "j = ?n")
      case True
      then show ?thesis using a links by (auto split: if_splits)
    next
      case False
      then have "links_of h j l = Some ns" using a links by simp
      then have "distinct ns \<and> length ns \<le> max_degree h l \<and> j \<notin> set ns \<and> set ns \<subseteq> on_layer h l"
        using lok unfolding links_ok_def by blast
      moreover have "max_degree ?h l = max_degree h l" by (simp add: max_degree_def)
      ultimately show ?thesis using on [of l] by auto
    qed
  qed
  then show ?thesis using s d on links by (auto simp: Let_def)
qed

lemma hnsw_insert_layers:
  assumes inv: "hn_inv h" and room: "hnsw_len h < sv_capacity" and lev: "level < 256"
    and k: "vecs_ok (hn_kernel h) vec (Suc (hnsw_len h))" and vis: "vis_inv vis"
  shows "\<exists>h' vis'. hnsw_insert h vec (hnsw_len h) level vis = Some (h', vis') \<and> hn_inv h' \<and>
     hnsw_len h' = Suc (hnsw_len h) \<and> hn_config h' = hn_config h \<and> hn_kernel h' = hn_kernel h \<and> vis_inv vis' \<and>
     (\<forall>l. on_layer h' l = on_layer h l \<union> (if l \<le> level then {hnsw_len h} else {}))"
proof -
  let ?n = "hnsw_len h"
  have dense: "sv_dense (hn_nodes h)" and m: "2 \<le> cfg_m (hn_config h)" "cfg_m (hn_config h) \<le> 4096"
    using inv by (simp_all add: hn_inv_def)
  obtain q where q: "vec ?n = Some q" using vecs_ok_vec [OF k, of ?n] by auto
  obtain nodes where s: "sv_set (hn_nodes h) ?n (node_new level) = Some nodes"
    and N: "let h1 = h\<lparr>hn_nodes := nodes\<rparr> in
        sv_dense nodes \<and> hnsw_len h1 = Suc ?n \<and> links_ok h1 \<and>
        (\<forall>l. on_layer h1 l = on_layer h l \<union> (if l \<le> level then {?n} else {})) \<and>
        (\<forall>l \<le> level. links_of h1 ?n l = Some [])"
    using insert_node_spec [OF inv room] by blast
  let ?h1 = "h\<lparr>hn_nodes := nodes\<rparr>"
  have d1: "sv_dense (hn_nodes ?h1)" and len1: "hnsw_len ?h1 = Suc ?n" and ok1: "links_ok ?h1"
    and on1: "\<And>l. on_layer ?h1 l = on_layer h l \<union> (if l \<le> level then {?n} else {})"
    and own: "\<And>l. l \<le> level \<Longrightarrow> links_of ?h1 ?n l = Some []"
    using N by (simp_all add: Let_def)
  have below: "on_layer ?h1 l \<subseteq> {..<Suc ?n}" for l
    using on1 [of l] on_layer_len [OF inv, of l] by auto
  show ?thesis
  proof (cases "?n = 0")
    case True
    have empty: "on_layer h l = {}" for l using on_layer_len [OF inv, of l] True by auto
    have e: "hn_entry h = entry_none" using inv True by (simp add: hn_inv_def entry_ok_def)
    let ?h2 = "?h1\<lparr>hn_entry := pack_entry ?n level\<rparr>"
    have ok2: "links_ok ?h2" using ok1 by simp
    have "{..<hnsw_len ?h2} \<subseteq> on_layer ?h2 0" "on_layer ?h2 (Suc level) = {}"
      using on1 empty len1 True by (simp_all add: lessThan_Suc)
    then have "level_ok ?h2 level" using level_ok_on_layer [of ?h2 level] d1 by simp
    moreover have "?n \<in> on_layer ?h2 level" using on1 [of level] by simp
    moreover have "hnsw_len ?h2 \<noteq> 0" using len1 by simp
    ultimately have "entry_ok ?h2" using lev unfolding entry_ok_def by (metis (no_types) hnsw.select_convs(4) hnsw.update_convs(4) hnsw.surjective)
    then have "hn_inv ?h2" using ok2 d1 m by (simp add: hn_inv_def)
    moreover have "hnsw_insert h vec ?n level vis = Some (?h2, vis)"
      using q s e by (simp add: hnsw_insert_def)
    ultimately show ?thesis using len1 vis on1 by (simp add: hnsw_len_def)
  next
    case False
    obtain e l where E: "hn_entry h \<noteq> entry_none" "unpack_entry (hn_entry h) = (e, l)" "e \<in> on_layer h l"
      "level_ok h l" "l < 256" "hn_entry h = pack_entry e l"
      using hn_inv_entry [OF inv False] by blast
    let ?dist = "hnsw_distance (hn_kernel h) vec q"
    have tot: "total_on ?dist {..<Suc ?n}" using vecs_ok_total [OF k _ q] by simp
    have tot0: "total_on ?dist (on_layer ?h1 0)" using tot below [of 0] by (auto simp: total_on_def)
    have e1: "e \<in> on_layer ?h1 l" using E(3) on1 by auto
    obtain ed where ed: "?dist e = Some ed"
      using tot e1 below [of l] unfolding total_on_def by blast
    let ?ls = "rev [level + 1..<l + 1]"
    have "\<exists>ep. descend_layers ?h1 ?dist ?ls (e, ed) = Some ep \<and> ?dist (fst ep) = Some (snd ep) \<and>
        fst ep \<in> on_layer ?h1 (if ?ls = [] then l else last ?ls)"
      by (rule descend_layers_ok [OF ok1 rev_upt_sorted]) (use e1 ed tot0 in auto)
    then obtain ep where ep: "descend_layers ?h1 ?dist ?ls (e, ed) = Some ep"
      "fst ep \<in> on_layer ?h1 (if ?ls = [] then l else last ?ls)" by blast
    have "min level l \<le> (if ?ls = [] then l else last ?ls)"
      using last_rev_upt [of "level + 1" "l + 1"] by (auto simp: min_def)
    then have epm: "fst ep \<in> on_layer ?h1 (min level l)" using ep(2) on_layer_antimono by blast
    have "\<exists>h' vis' ep'. connect_layers vec ?dist ?n (rev [0..<min level l + 1]) (?h1, vis, fst ep) =
        Some (h', vis', ep') \<and> same_shape ?h1 h' \<and> links_ok h' \<and> vis_inv vis'"
    proof -
      have 1: "2 \<le> cfg_m (hn_config ?h1)" and 2: "vecs_ok (hn_kernel ?h1) vec (Suc ?n)"
        using m k by simp_all
      have 3: "\<forall>l' \<in> set (rev [0..<min level l + 1]). l' \<le> min level l \<and> links_of ?h1 ?n l' = Some []"
        using own by auto
      show ?thesis
        by (rule connect_layers_spec [OF 1 2 tot rev_upt_sorted 3 epm ok1 same_shape_refl below vis])
    qed
    then obtain h2 vis' ep' where C: "connect_layers vec ?dist ?n (rev [0..<min level l + 1]) (?h1, vis, fst ep) =
        Some (h2, vis', ep')" "same_shape ?h1 h2" "links_ok h2" "vis_inv vis'" by blast
    have ins: "hnsw_insert h vec ?n level vis = Some (raise_entry h2 ?n level l, vis')"
      using q s E(1,2) ed ep(1) C(1) by (simp add: hnsw_insert_def Let_def del: upt_Suc)
    have sh: "sv_dense (hn_nodes h2)" "hnsw_len h2 = Suc ?n" "hn_entry h2 = hn_entry h"
      "hn_config h2 = hn_config h" "hn_kernel h2 = hn_kernel h" "\<And>l. on_layer h2 l = on_layer ?h1 l"
      using C(2) d1 len1 by (simp_all add: same_shape_def)
    have lv: "{..<?n} \<subseteq> on_layer h 0" "on_layer h (Suc l) = {}"
      using E(4) level_ok_on_layer [OF dense] by blast+
    let ?h3 = "raise_entry h2 ?n level l"
    have same3: "on_layer ?h3 l' = on_layer h2 l'" "links_of ?h3 j l' = links_of h2 j l'"
      "hn_nodes ?h3 = hn_nodes h2" "hn_config ?h3 = hn_config h2" "hn_kernel ?h3 = hn_kernel h2" for j l'
      by (simp_all add: raise_entry_def on_layer_def links_of_def)
    have ok3: "links_ok ?h3" using C(3) by (simp add: raise_entry_def)
    have "{..<Suc ?n} \<subseteq> on_layer h2 0" using lv(1) sh(6) on1 by (auto simp: less_Suc_eq)
    moreover have "on_layer h2 (Suc (max level l)) = {}"
      using lv(2) sh(6) on1 on_layer_antimono [of "Suc l" "Suc (max level l)" h] by auto
    ultimately have "level_ok ?h3 (max level l)"
      using level_ok_on_layer [of ?h3 "max level l"] sh(1,2) same3 by (simp add: hnsw_len_def)
    moreover have "if l < level then hn_entry ?h3 = pack_entry ?n level \<and> ?n \<in> on_layer ?h3 level
        else hn_entry ?h3 = pack_entry e l \<and> e \<in> on_layer ?h3 l"
      using E sh(3,6) on1 e1 same3(1) by (auto simp: raise_entry_def)
    ultimately have "entry_ok ?h3"
      using lev E(5) sh(2) same3(3) unfolding entry_ok_def hnsw_len_def
      by (auto simp: max_def split: if_splits)
    then have "hn_inv ?h3" using ok3 sh m same3 by (simp add: hn_inv_def)
    then show ?thesis using ins sh same3 C(4) on1 by (simp add: hnsw_len_def)
  qed
qed

lemma hnsw_insert_spec:
  assumes "hn_inv h" and "hnsw_len h < sv_capacity" and "level < 256"
    and "vecs_ok (hn_kernel h) vec (Suc (hnsw_len h))" and "vis_inv vis"
  shows "\<exists>h' vis'. hnsw_insert h vec (hnsw_len h) level vis = Some (h', vis') \<and> hn_inv h' \<and>
     hnsw_len h' = Suc (hnsw_len h) \<and> hn_config h' = hn_config h \<and> hn_kernel h' = hn_kernel h \<and> vis_inv vis'"
  using hnsw_insert_layers [OF assms] by blast

section \<open>Building an index\<close>

text \<open>Inserts of consecutive ids, each with the level drawn for it.\<close>

primrec insert_all :: "hnsw \<Rightarrow> vec_fun \<Rightarrow> nat list \<Rightarrow> visited \<Rightarrow> (hnsw \<times> visited) option" where
  "insert_all h vec [] vis = Some (h, vis)"
| "insert_all h vec (level # levels) vis = do {
     (h', vis') \<leftarrow> hnsw_insert h vec (hnsw_len h) level vis;
     insert_all h' vec levels vis' }"

lemma vecs_ok_mono: "vecs_ok kern vec n \<Longrightarrow> k \<le> n \<Longrightarrow> vecs_ok kern vec k"
  unfolding vecs_ok_def by (meson less_le_trans)

lemma insert_all_spec:
  "hn_inv h \<Longrightarrow> vecs_ok (hn_kernel h) vec (hnsw_len h + length levels) \<Longrightarrow>
   hnsw_len h + length levels \<le> sv_capacity \<Longrightarrow> list_all (\<lambda>l. l < 256) levels \<Longrightarrow> vis_inv vis \<Longrightarrow>
    \<exists>h' vis'. insert_all h vec levels vis = Some (h', vis') \<and> hn_inv h' \<and>
      hnsw_len h' = hnsw_len h + length levels \<and> hn_config h' = hn_config h \<and>
      hn_kernel h' = hn_kernel h \<and> vis_inv vis'"
proof (induction levels arbitrary: h vis)
  case Nil
  then show ?case by simp
next
  case (Cons level levels)
  have "vecs_ok (hn_kernel h) vec (Suc (hnsw_len h))"
    using Cons.prems(2) by (rule vecs_ok_mono) simp
  then obtain h1 vis1 where 1: "hnsw_insert h vec (hnsw_len h) level vis = Some (h1, vis1)" "hn_inv h1"
    "hnsw_len h1 = Suc (hnsw_len h)" "hn_config h1 = hn_config h" "hn_kernel h1 = hn_kernel h" "vis_inv vis1"
    using hnsw_insert_spec [of h level vec vis] Cons.prems by auto
  have "\<exists>h' vis'. insert_all h1 vec levels vis1 = Some (h', vis') \<and> hn_inv h' \<and>
      hnsw_len h' = hnsw_len h1 + length levels \<and> hn_config h' = hn_config h1 \<and>
      hn_kernel h' = hn_kernel h1 \<and> vis_inv vis'"
    by (rule Cons.IH) (use 1 Cons.prems in auto)
  with 1 show ?case by auto
qed

lemma hnsw_new_inv:
  "hnsw_new avx config = Inr h \<Longrightarrow> hn_inv h \<and> hnsw_len h = 0 \<and> hn_config h = config \<and>
     hn_kernel h = kernel avx (cfg_metric config)"
  by (auto simp: hnsw_new_def result_simps ensure_eq_Inr hn_inv_def sv_dense_new links_ok_def links_of_def
      entry_ok_def hnsw_len_def)

lemma hn_inv_check:
  assumes "hn_inv h"
  shows "check_invariants h"
  unfolding check_invariants_def
proof (intro allI impI)
  fix i assume i: "i < hnsw_len h"
  have dense: "sv_dense (hn_nodes h)" and lok: "links_ok h" using assms by (simp_all add: hn_inv_def)
  obtain nd where nd: "sv_get_unchecked (hn_nodes h) i = Some nd"
    using dense i by (auto simp: sv_dense_def hnsw_len_def)
  have ne: "node_links nd \<noteq> []"
    using hn_inv_entry [OF assms] nd i unfolding level_ok_def by (metis not_less_zero)
  have "(\<forall>nb \<in> set (node_links nd ! layer). nb \<noteq> i \<and>
        (\<exists>nd'. sv_get_unchecked (hn_nodes h) nb = Some nd' \<and> layer \<le> node_level nd')) \<and>
      length (node_links nd ! layer) \<le> max_degree h layer" if "layer \<le> node_level nd" for layer
  proof -
    have "layer < length (node_links nd)" using that ne by (cases "node_links nd") (auto simp: node_level_def)
    then have "links_of h i layer = Some (node_links nd ! layer)" using nd by (simp add: links_of_def)
    then have "i \<notin> set (node_links nd ! layer)" "set (node_links nd ! layer) \<subseteq> on_layer h layer"
      "length (node_links nd ! layer) \<le> max_degree h layer"
      using lok unfolding links_ok_def by blast+
    moreover have "\<exists>nd'. sv_get_unchecked (hn_nodes h) nb = Some nd' \<and> layer \<le> node_level nd'"
      if "nb \<in> on_layer h layer" for nb
      using that by (auto simp: on_layer_iff node_level_def)
    ultimately show ?thesis by blast
  qed
  then show "\<exists>nd. sv_get_unchecked (hn_nodes h) i = Some nd \<and>
        (\<forall>layer \<le> node_level nd.
           (\<forall>nb \<in> set (node_links nd ! layer). nb \<noteq> i \<and>
              (\<exists>nd'. sv_get_unchecked (hn_nodes h) nb = Some nd' \<and> layer \<le> node_level nd')) \<and>
           length (node_links nd ! layer) \<le> max_degree h layer)"
    using nd by blast
qed

lemma vecs_ok_kernel:
  "\<forall>i<n. \<exists>v. vec i = Some v \<and> length v = dim \<Longrightarrow> vecs_ok (kernel avx m) vec n"
  unfolding vecs_ok_def
proof (intro conjI allI impI)
  fix i assume "\<forall>i<n. \<exists>v. vec i = Some v \<and> length v = dim" "i < n"
  then show "vec i \<noteq> None" by auto
next
  fix i j v w
  assume "\<forall>i<n. \<exists>v. vec i = Some v \<and> length v = dim" "i < n" "j < n" "vec i = Some v" "vec j = Some w"
  then have "length v = length w" by (metis option.inject)
  then show "kernel avx m v w \<noteq> None" using kernel_total by (metis option.distinct(1))
qed

section \<open>Properties\<close>

text \<open>
  C21: an index built by inserts is always sound.  Starting from a fresh index, inserting vectors of
  one dimension with whatever levels the generator draws and whatever the scratch holds never
  panics; the result has every node, and passes the structural check: no self-link, no link to a
  node that is not on the layer, no adjacency list longer than the layer's bound.
\<close>

theorem built_index_sound:
  assumes "hnsw_new avx config = Inr h0" and "list_all (\<lambda>l. l < 256) levels"
    and "length levels \<le> sv_capacity" and "\<forall>i < length levels. \<exists>v. vec i = Some v \<and> length v = dim"
    and "vis_inv vis"
  shows "\<exists>h vis'. insert_all h0 vec levels vis = Some (h, vis') \<and> hn_inv h \<and> check_invariants h \<and>
     hnsw_len h = length levels"
proof -
  note new = hnsw_new_inv [OF assms(1)]
  have "vecs_ok (hn_kernel h0) vec (hnsw_len h0 + length levels)"
    using new vecs_ok_kernel [OF assms(4)] by simp
  then show ?thesis
    using insert_all_spec [of h0 vec levels vis] new assms(2,3,5) hn_inv_check by auto
qed

definition zero_vec :: vec_fun where
  "zero_vec i = Some [f32_zero]"

theorem built_index_sound_witness:
  "\<exists>h0 h vis'. hnsw_new False default_config = Inr h0 \<and>
     insert_all h0 zero_vec [1, 0, 2] vis_new = Some (h, vis') \<and> hn_inv h \<and> hnsw_len h = 3"
proof -
  obtain h0 where h0: "hnsw_new False default_config = Inr h0"
    by (simp add: hnsw_new_def default_config_def)
  have "length [1, 0, 2 :: nat] \<le> sv_capacity"
    by (simp add: sv_capacity_def seg_first_def sv_base_def sv_max_segments_def)
  then show ?thesis
    using built_index_sound [OF h0, of "[1, 0, 2]" zero_vec 1 vis_new] vis_new_inv h0
    by (auto simp: zero_vec_def)
qed

text \<open>
  One insert on a sound index with room succeeds, publishes exactly the new node, keeps the
  configuration and the kernel, and leaves the index sound, whichever node is the entry point
  afterwards.
\<close>

theorem insert_preserves:
  assumes "hn_inv h" and "hnsw_len h < sv_capacity" and "level < 256"
    and "vecs_ok (hn_kernel h) vec (Suc (hnsw_len h))" and "vis_inv vis"
  shows "\<exists>h' vis'. hnsw_insert h vec (hnsw_len h) level vis = Some (h', vis') \<and> hn_inv h' \<and>
     hnsw_len h' = Suc (hnsw_len h) \<and> hn_config h' = hn_config h \<and> hn_kernel h' = hn_kernel h \<and> vis_inv vis'"
  by (rule hnsw_insert_spec [OF assms])

theorem insert_preserves_witness:
  "\<exists>h' vis'. hnsw_insert example_index zero_vec 2 3 vis_new = Some (h', vis') \<and> hn_inv h' \<and> hnsw_len h' = 3"
proof -
  have "vecs_ok (hn_kernel example_index) zero_vec 3"
    using vecs_ok_kernel [of 3 zero_vec 1 False L2] by (simp add: zero_vec_def example_index_def)
  moreover have "2 < sv_capacity"
    by (simp add: sv_capacity_def seg_first_def sv_base_def sv_max_segments_def)
  ultimately show ?thesis
    using insert_preserves [of example_index 3 zero_vec vis_new] example_inv vis_new_inv
    by (auto simp: example_len numeral_3_eq_3)
qed

text \<open>
  The neighbour selection returns distinct candidates, as many as it may, \<open>m\<close> or all of them
  when there are fewer, and always the nearest one.
\<close>

theorem select_neighbors_full:
  assumes "vecs_ok kern vec n" and "ids cands \<subseteq> {..<n}" and "distinct (map nb_id cands)"
  shows "\<exists>out. select_neighbors kern vec cands m = Some out \<and> distinct out \<and> set out \<subseteq> ids cands \<and>
     length out = min m (length cands) \<and> (0 < m \<and> cands \<noteq> [] \<longrightarrow> nb_id (hd cands) \<in> set out)"
  by (rule select_neighbors_spec [OF assms])

theorem select_neighbors_full_witness:
  "\<exists>out. select_neighbors (kernel False L2) zero_vec [Neighbor 4 f32_zero, Neighbor 7 f32_zero] 1 = Some out \<and>
     length out = 1 \<and> 4 \<in> set out"
  using select_neighbors_full [OF vecs_ok_kernel [of 8 zero_vec 1 False L2],
      of "[Neighbor 4 f32_zero, Neighbor 7 f32_zero]" 1]
  by (auto simp: zero_vec_def ids_def)

text \<open>
  The packed entry pointer loses nothing: for every id the node array can hold and every level
  below 256 it unpacks to the id and level packed, and it is never the word that means no entry.
\<close>

theorem entry_roundtrip:
  assumes "i < sv_capacity" and "level < 256"
  shows "unpack_entry (pack_entry i level) = (i, level) \<and> pack_entry i level \<noteq> entry_none"
  using unpack_pack [of i level] pack_not_none [of i level] assms sv_capacity_less by simp

theorem entry_roundtrip_witness: "unpack_entry (pack_entry 1024 255) = (1024, 255)"
proof -
  have "(1024 :: nat) < sv_capacity"
    by (simp add: sv_capacity_def seg_first_def sv_base_def sv_max_segments_def)
  then show ?thesis using entry_roundtrip [of 1024 255] by simp
qed

end
