(* ===== verification/Persist.thy ===== *)
theory Persist
  imports Hnsw_Insert Codec
begin

text \<open>
  \<^verbatim>\<open>src/vektordb-core/src/hnsw/persist.rs\<close>: the index snapshot.  A file is its bytes; the
  checksum is the parameter \<open>crc\<close>, and hashing in pieces is hashing the concatenation.  Saving
  writes a temporary file, syncs it and renames it over the target, so the target holds either its
  old bytes or all of the new ones.  The outer \<open>None\<close> is a panic or a bad read, as in the index.
\<close>

section \<open>Saving\<close>

definition snap_magic :: nat where
  "snap_magic = 0x564B534E"

definition snap_version :: nat where
  "snap_version = 1"

primrec metric_tag :: "metric \<Rightarrow> nat" where
  "metric_tag L2 = 0"
| "metric_tag Dot = 1"
| "metric_tag Cosine = 2"

definition metric_from :: "nat \<Rightarrow> metric result" where
  "metric_from tag =
     (if tag = 0 then Inr L2 else if tag = 1 then Inr Dot else if tag = 2 then Inr Cosine
      else Inl (Corrupt ''unknown metric tag''))"

definition links_bytes :: "nat list \<Rightarrow> byte list" where
  "links_bytes ns = le_bytes 4 (length ns) @ concat (map (le_bytes 8) ns)"

definition node_bytes :: "node \<Rightarrow> byte list" where
  "node_bytes nd = le_bytes 4 (node_level nd) @ concat (map links_bytes (node_links nd))"

primrec nodes_bytes :: "hnsw \<Rightarrow> nat list \<Rightarrow> byte list option" where
  "nodes_bytes h [] = Some []"
| "nodes_bytes h (i # is) = do {
     nd \<leftarrow> sv_get_unchecked (hn_nodes h) i;
     rest \<leftarrow> nodes_bytes h is;
     Some (node_bytes nd @ rest) }"

definition snap_header :: "hnsw \<Rightarrow> nat \<Rightarrow> byte list" where
  "snap_header h wal_lsn =
     le_bytes 4 snap_magic @ le_bytes 4 snap_version @
     le_bytes 4 (cfg_m (hn_config h)) @ le_bytes 4 (cfg_ef_construction (hn_config h)) @
     le_bytes 1 (metric_tag (cfg_metric (hn_config h))) @ le_bytes 8 wal_lsn @
     le_bytes 8 (hnsw_len h) @ le_bytes 8 (unat (hn_entry h))"

definition snapshot_bytes :: "crc_fun \<Rightarrow> hnsw \<Rightarrow> nat \<Rightarrow> byte list option" where
  "snapshot_bytes crc h wal_lsn = do {
     nodes \<leftarrow> nodes_bytes h [0..<hnsw_len h];
     let body = snap_header h wal_lsn @ nodes;
     Some (body @ le_bytes 4 (unat (crc body))) }"

text \<open>
  Replacing a file through a temporary one.  A failure at step 0 is one before the rename, a later
  one is the directory's sync: the new file is in place then, but the caller sees the error.
\<close>

datatype replace_out = Replaced | FailedBefore | FailedAfter

definition replace_file :: "'a option \<Rightarrow> 'a \<Rightarrow> replace_out \<Rightarrow> 'a option \<times> unit result" where
  "replace_file old new io =
     (case io of
        Replaced \<Rightarrow> (Some new, Inr ())
      | FailedBefore \<Rightarrow> (old, Inl (Io DeviceError))
      | FailedAfter \<Rightarrow> (Some new, Inl (Io DeviceError)))"

definition hnsw_save :: "crc_fun \<Rightarrow> hnsw \<Rightarrow> nat \<Rightarrow> byte list option \<Rightarrow> replace_out \<Rightarrow>
    (byte list option \<times> unit result) option" where
  "hnsw_save crc h wal_lsn old io = do {
     bs \<leftarrow> snapshot_bytes crc h wal_lsn;
     Some (replace_file old bs io) }"

section \<open>Loading\<close>

definition verify_crc :: "crc_fun \<Rightarrow> byte list \<Rightarrow> nat result" where
  "verify_crc crc raw =
     rbind (ensure (4 \<le> length raw) (Corrupt ''snapshot: truncated'')) (\<lambda>_.
     let body = take (length raw - 4) raw
     in rbind (ensure (le_val (drop (length raw - 4) raw) = unat (crc body))
          (Corrupt ''snapshot: checksum mismatch'')) (\<lambda>_. Inr (length raw)))"

primrec read_ids :: "nat \<Rightarrow> nat \<Rightarrow> byte list \<Rightarrow> (nat list \<times> byte list) result" where
  "read_ids cnt 0 bs = Inr ([], bs)"
| "read_ids cnt (Suc n) bs =
     rbind (read_uint 8 bs) (\<lambda>(nb, rest).
     rbind (ensure (nb < cnt) (Corrupt ''snapshot: link out of range'')) (\<lambda>_.
     rbind (read_ids cnt n rest) (\<lambda>(ns, rest'). Inr (nb # ns, rest'))))"

primrec read_layers :: "nat \<Rightarrow> nat \<Rightarrow> nat list \<Rightarrow> byte list \<Rightarrow> (nat list list \<times> byte list) result" where
  "read_layers m cnt [] bs = Inr ([], bs)"
| "read_layers m cnt (layer # layers) bs =
     rbind (read_uint 4 bs) (\<lambda>(len, rest).
     rbind (ensure (len \<le> (if layer = 0 then 2 * m else m)) (Corrupt ''snapshot: absurd degree'')) (\<lambda>_.
     rbind (read_ids cnt len rest) (\<lambda>(ns, rest').
     rbind (read_layers m cnt layers rest') (\<lambda>(nss, rest''). Inr (ns # nss, rest'')))))"

definition read_node :: "nat \<Rightarrow> nat \<Rightarrow> byte list \<Rightarrow> (node \<times> byte list) result" where
  "read_node m cnt bs =
     rbind (read_uint 4 bs) (\<lambda>(level, rest).
     rbind (ensure (level \<le> 63) (Corrupt ''snapshot: absurd level'')) (\<lambda>_.
     rbind (read_layers m cnt [0..<level + 1] rest) (\<lambda>(nss, rest').
     Inr (\<lparr>node_links = nss\<rparr>, rest'))))"

primrec read_nodes :: "nat \<Rightarrow> nat \<Rightarrow> nat list \<Rightarrow> node segvec \<Rightarrow> byte list \<Rightarrow>
    (node segvec \<times> byte list) result option" where
  "read_nodes m cnt [] v bs = Some (Inr (v, bs))"
| "read_nodes m cnt (i # is) v bs =
     (case read_node m cnt bs of
        Inl e \<Rightarrow> Some (Inl e)
      | Inr (nd, rest) \<Rightarrow>
          (case sv_set v i nd of None \<Rightarrow> None | Some v' \<Rightarrow> read_nodes m cnt is v' rest))"

text \<open>The fixed fields: \<open>m\<close>, \<open>ef_construction\<close>, metric, LSN, node count and entry word.\<close>

definition read_snap_header :: "byte list \<Rightarrow> ((hnsw_config \<times> nat \<times> nat \<times> nat) \<times> byte list) result" where
  "read_snap_header bs =
     rbind (read_uint 4 bs) (\<lambda>(magic, bs).
     rbind (ensure (magic = snap_magic) (Corrupt ''snapshot: bad magic'')) (\<lambda>_.
     rbind (read_uint 4 bs) (\<lambda>(version, bs).
     rbind (ensure (version = snap_version) (Corrupt ''snapshot: unsupported version'')) (\<lambda>_.
     rbind (read_uint 4 bs) (\<lambda>(m, bs).
     rbind (read_uint 4 bs) (\<lambda>(ef, bs).
     rbind (read_uint 1 bs) (\<lambda>(tag, bs).
     rbind (metric_from tag) (\<lambda>metric.
     rbind (read_uint 8 bs) (\<lambda>(wal_lsn, bs).
     rbind (read_uint 8 bs) (\<lambda>(cnt, bs).
     rbind (read_uint 8 bs) (\<lambda>(entry, bs).
     Inr ((\<lparr>cfg_m = m, cfg_ef_construction = ef, cfg_metric = metric\<rparr>, wal_lsn, cnt, entry), bs))))))))))))"

definition set_entry :: "hnsw \<Rightarrow> nat \<Rightarrow> nat \<Rightarrow> hnsw result option" where
  "set_entry h cnt entry =
     (if word_of_nat entry = entry_none then Some (Inr h)
      else
        let (i, level) = unpack_entry (word_of_nat entry)
        in if cnt \<le> i then Some (Inl (Corrupt ''snapshot: entry out of range''))
           else do {
             nd \<leftarrow> sv_get_unchecked (hn_nodes h) i;
             Some (if level \<noteq> node_level nd then Inl (Corrupt ''snapshot: entry level mismatch'')
                   else Inr (h\<lparr>hn_entry := pack_entry i level\<rparr>)) })"

text \<open>The second check: the bytes consumed against the checksum that follows, then the end.\<close>

definition check_end :: "crc_fun \<Rightarrow> byte list \<Rightarrow> byte list \<Rightarrow> unit result" where
  "check_end crc raw rest =
     rbind (read_uint 4 rest) (\<lambda>(sum, trailing).
     rbind (ensure (sum = unat (crc (take (length raw - length rest) raw)))
       (Corrupt ''snapshot: checksum mismatch'')) (\<lambda>_.
     ensure (trailing = []) (Corrupt ''snapshot: trailing bytes'')))"

definition hnsw_load :: "crc_fun \<Rightarrow> bool \<Rightarrow> byte list \<Rightarrow> (hnsw \<times> nat) result option" where
  "hnsw_load crc avx raw =
     (case rbind (verify_crc crc raw) (\<lambda>file_len.
           rbind (read_snap_header raw) (\<lambda>((config, wal_lsn, cnt, entry), bs).
           rbind (ensure (2 \<le> cfg_m config \<and> cfg_m config \<le> 4096) (Corrupt ''snapshot: HNSW M out of range'')) (\<lambda>_.
           rbind (ensure (cnt \<le> file_len div 8) (Corrupt ''snapshot: impossible node count'')) (\<lambda>_.
           rbind (hnsw_new avx config) (\<lambda>h. Inr (h, wal_lsn, cnt, entry, bs)))))) of
        Inl e \<Rightarrow> Some (Inl e)
      | Inr (h, wal_lsn, cnt, entry, bs) \<Rightarrow> do {
          r \<leftarrow> read_nodes (cfg_m (hn_config h)) cnt [0..<cnt] (hn_nodes h) bs;
          case r of
            Inl e \<Rightarrow> Some (Inl e)
          | Inr (nodes, rest) \<Rightarrow>
              (case check_end crc raw rest of
                 Inl e \<Rightarrow> Some (Inl e)
               | Inr _ \<Rightarrow> do {
                   r' \<leftarrow> set_entry (h\<lparr>hn_nodes := nodes\<rparr>) cnt entry;
                   Some (rbind r' (\<lambda>h'. Inr (h', wal_lsn))) }) })"

section \<open>Round trip\<close>

lemma read_uint_app [simp]:
  "v < 256 ^ k \<Longrightarrow> read_uint k (le_bytes k v @ rest) = Inr (v, rest)"
  by (rule read_uint_le_bytes)

lemma read_ids_bytes:
  "\<forall>nb \<in> set ns. nb < cnt \<Longrightarrow> cnt \<le> 2 ^ 64 \<Longrightarrow>
     read_ids cnt (length ns) (concat (map (le_bytes 8) ns) @ rest) = Inr (ns, rest)"
  by (induction ns) auto

lemma read_layers_bytes:
  "(\<forall>k < length nss. length (nss ! k) \<le> (if layers ! k = 0 then 2 * m else m)) \<Longrightarrow> length layers = length nss \<Longrightarrow>
   \<forall>ns \<in> set nss. \<forall>nb \<in> set ns. nb < cnt \<Longrightarrow> cnt \<le> 2 ^ 64 \<Longrightarrow> m \<le> 4096 \<Longrightarrow>
     read_layers m cnt layers (concat (map links_bytes nss) @ rest) = Inr (nss, rest)"
proof (induction nss arbitrary: layers)
  case Nil
  then show ?case by simp
next
  case (Cons ns nss)
  then obtain l ls where l: "layers = l # ls" by (cases layers) auto
  have b: "length ns \<le> (if l = 0 then 2 * m else m)" using Cons.prems(1) l by fastforce
  then have small: "length ns < 256 ^ 4" using Cons.prems(5) by (simp split: if_splits)
  have "read_layers m cnt ls (concat (map links_bytes nss) @ rest) = Inr (nss, rest)"
    by (rule Cons.IH) (use Cons.prems l in fastforce)+
  then show ?case
    using Cons.prems(3,4) b small by (simp add: l links_bytes_def [of ns] read_ids_bytes)
qed

text \<open>What the loader accepts of a node.\<close>

definition node_fits :: "nat \<Rightarrow> nat \<Rightarrow> node \<Rightarrow> bool" where
  "node_fits m cnt nd \<longleftrightarrow>
     node_links nd \<noteq> [] \<and> length (node_links nd) \<le> 64 \<and>
     (\<forall>k < length (node_links nd). length (node_links nd ! k) \<le> (if k = 0 then 2 * m else m)) \<and>
     (\<forall>ns \<in> set (node_links nd). \<forall>nb \<in> set ns. nb < cnt)"

lemma read_node_bytes:
  assumes "node_fits m cnt nd" "cnt \<le> 2 ^ 64" "m \<le> 4096"
  shows "read_node m cnt (node_bytes nd @ rest) = Inr (nd, rest)"
proof -
  have l: "length (node_links nd) = node_level nd + 1" "node_level nd \<le> 63"
    using assms(1) by (cases "node_links nd"; simp add: node_fits_def node_level_def)+
  have "read_layers m cnt [0..<node_level nd + 1] (concat (map links_bytes (node_links nd)) @ rest) =
      Inr (node_links nd, rest)"
  proof (rule read_layers_bytes)
    show "\<forall>k<length (node_links nd). length (node_links nd ! k) \<le>
        (if [0..<node_level nd + 1] ! k = 0 then 2 * m else m)"
      using assms(1) l unfolding node_fits_def by (auto simp del: upt_Suc)
    show "length [0..<node_level nd + 1] = length (node_links nd)" using l by simp
  qed (use assms in \<open>auto simp: node_fits_def\<close>)
  then show ?thesis using l(2) by (simp add: read_node_def node_bytes_def del: upt_Suc)
qed

lemma read_nodes_bytes:
  "\<forall>nd \<in> set nds. node_fits m cnt nd \<Longrightarrow> cnt \<le> 2 ^ 64 \<Longrightarrow> m \<le> 4096 \<Longrightarrow> sv_dense v \<Longrightarrow>
   sv_len v + length nds \<le> sv_capacity \<Longrightarrow>
    \<exists>v'. read_nodes m cnt [sv_len v..<sv_len v + length nds] v (concat (map node_bytes nds) @ rest) =
        Some (Inr (v', rest)) \<and> sv_dense v' \<and> sv_len v' = sv_len v + length nds \<and>
      (\<forall>j. sv_get_unchecked v' j =
        (if sv_len v \<le> j \<and> j < sv_len v + length nds then Some (nds ! (j - sv_len v)) else sv_get_unchecked v j))"
proof (induction nds arbitrary: v)
  case Nil
  then show ?case by auto
next
  case (Cons nd nds)
  let ?i = "sv_len v"
  obtain v1 where v1: "sv_set v ?i nd = Some v1" using sv_set_ok [of ?i v nd] Cons.prems(5) by auto
  note d = sv_dense_push [OF Cons.prems(4) v1]
  have "\<exists>v'. read_nodes m cnt [sv_len v1..<sv_len v1 + length nds] v1 (concat (map node_bytes nds) @ rest) =
        Some (Inr (v', rest)) \<and> sv_dense v' \<and> sv_len v' = sv_len v1 + length nds \<and>
      (\<forall>j. sv_get_unchecked v' j =
        (if sv_len v1 \<le> j \<and> j < sv_len v1 + length nds then Some (nds ! (j - sv_len v1)) else sv_get_unchecked v1 j))"
    by (rule Cons.IH) (use Cons.prems d in simp_all)
  then obtain v' where V: "read_nodes m cnt [Suc ?i..<Suc ?i + length nds] v1 (concat (map node_bytes nds) @ rest) =
        Some (Inr (v', rest))" "sv_dense v'" "sv_len v' = Suc ?i + length nds"
      "\<And>j. sv_get_unchecked v' j =
        (if Suc ?i \<le> j \<and> j < Suc ?i + length nds then Some (nds ! (j - Suc ?i)) else sv_get_unchecked v1 j)"
    using d by auto
  have r: "read_node m cnt (node_bytes nd @ concat (map node_bytes nds) @ rest) =
      Inr (nd, concat (map node_bytes nds) @ rest)"
    by (rule read_node_bytes) (use Cons.prems in simp_all)
  have e: "[?i..<?i + length (nd # nds)] = ?i # [Suc ?i..<Suc ?i + length nds]"
    by (simp add: upt_conv_Cons del: upt_Suc)
  have "read_nodes m cnt [?i..<?i + length (nd # nds)] v (concat (map node_bytes (nd # nds)) @ rest) = Some (Inr (v', rest))"
    unfolding e using r v1 V(1) by simp
  moreover have "sv_get_unchecked v' j =
        (if ?i \<le> j \<and> j < ?i + length (nd # nds) then Some ((nd # nds) ! (j - ?i)) else sv_get_unchecked v j)" for j
    using V(4) [of j] sv_get_set [OF v1, of j] by (auto simp: nth_Cons' Suc_le_eq)
  ultimately show ?case using V(2,3) by simp
qed

lemma nodes_bytes_Some:
  "\<forall>i \<in> set is. sv_get_unchecked (hn_nodes h) i = Some (f i) \<Longrightarrow>
     nodes_bytes h is = Some (concat (map node_bytes (map f is)))"
  by (induction "is") auto

text \<open>Two indexes that no operation can tell apart.\<close>

definition same_index :: "hnsw \<Rightarrow> hnsw \<Rightarrow> bool" where
  "same_index h h' \<longleftrightarrow>
     hn_config h' = hn_config h \<and> hn_kernel h' = hn_kernel h \<and> hn_entry h' = hn_entry h \<and>
     hnsw_len h' = hnsw_len h \<and>
     (\<forall>i. sv_get_unchecked (hn_nodes h') i = sv_get_unchecked (hn_nodes h) i)"

text \<open>What a snapshot can hold: the fields it narrows, and the levels its loader accepts.\<close>

definition snap_fits :: "hnsw \<Rightarrow> bool \<Rightarrow> nat \<Rightarrow> bool" where
  "snap_fits h avx wal_lsn \<longleftrightarrow>
     cfg_ef_construction (hn_config h) < 2 ^ 32 \<and> wal_lsn < 2 ^ 64 \<and> on_layer h 64 = {} \<and>
     hn_kernel h = kernel avx (cfg_metric (hn_config h))"

lemma read_snap_header_bytes:
  assumes "cfg_m (hn_config h) < 2 ^ 32" "cfg_ef_construction (hn_config h) < 2 ^ 32" "wal_lsn < 2 ^ 64"
    "hnsw_len h < 2 ^ 64"
  shows "read_snap_header (snap_header h wal_lsn @ rest) =
     Inr ((hn_config h, wal_lsn, hnsw_len h, unat (hn_entry h)), rest)"
proof -
  have t: "metric_tag m < 256" "metric_from (metric_tag m) = Inr m" for m
    by (cases m; simp add: metric_from_def)+
  have "unat (hn_entry h) < 18446744073709551616" by (rule unat64_less)
  then show ?thesis
    using assms t by (simp add: read_snap_header_def snap_header_def snap_magic_def snap_version_def
        del: le_bytes.simps)
qed

lemma hn_inv_node_fits:
  assumes inv: "hn_inv h" and lev: "on_layer h 64 = {}" and nd: "sv_get_unchecked (hn_nodes h) i = Some nd"
  shows "node_fits (cfg_m (hn_config h)) (hnsw_len h) nd"
  unfolding node_fits_def
proof (intro conjI)
  have i: "i < hnsw_len h" using inv nd by (auto simp: hn_inv_def sv_dense_def hnsw_len_def)
  show "node_links nd \<noteq> []"
    using hn_inv_entry [OF inv] nd i unfolding level_ok_def by (metis not_less_zero)
  show "length (node_links nd) \<le> 64" using lev nd by (metis empty_iff not_le on_layer_iff)
  have lok: "links_ok h" using inv by (simp add: hn_inv_def)
  have L: "length (node_links nd ! k) \<le> max_degree h k \<and> set (node_links nd ! k) \<subseteq> on_layer h k"
    if "k < length (node_links nd)" for k
    using lok nd that unfolding links_ok_def links_of_Some by blast
  then show "\<forall>k < length (node_links nd). length (node_links nd ! k) \<le>
      (if k = 0 then 2 * cfg_m (hn_config h) else cfg_m (hn_config h))"
    unfolding max_degree_def by (simp only: mult.commute [of 2]) blast
  show "\<forall>ns \<in> set (node_links nd). \<forall>nb \<in> set ns. nb < hnsw_len h"
    using L on_layer_len [OF inv] by (fastforce simp: in_set_conv_nth [of _ "node_links nd"])
qed

lemma length_node_bytes: "node_links nd \<noteq> [] \<Longrightarrow> 8 \<le> length (node_bytes nd)"
  by (cases "node_links nd") (simp_all add: node_bytes_def links_bytes_def)

lemma length_concat_nodes:
  "\<forall>nd \<in> set nds. node_links nd \<noteq> [] \<Longrightarrow> 8 * length nds \<le> length (concat (map node_bytes nds))"
  by (induction nds) (auto dest: length_node_bytes)

lemma snapshot_roundtrip_spec:
  assumes inv: "hn_inv h" and fits: "snap_fits h avx wal_lsn"
  shows "\<exists>bs h'. snapshot_bytes crc h wal_lsn = Some bs \<and> hnsw_load crc avx bs = Some (Inr (h', wal_lsn)) \<and>
     same_index h h' \<and> sv_dense (hn_nodes h')"
proof -
  let ?n = "hnsw_len h" and ?m = "cfg_m (hn_config h)"
  have dense: "sv_dense (hn_nodes h)" and m: "2 \<le> ?m" "?m \<le> 4096" using inv by (simp_all add: hn_inv_def)
  have cap: "?n \<le> sv_capacity" using dense by (simp add: sv_dense_def hnsw_len_def)
  then have n64: "?n < 2 ^ 64" using sv_capacity_less by simp
  let ?f = "\<lambda>i. the (sv_get_unchecked (hn_nodes h) i)"
  have get: "sv_get_unchecked (hn_nodes h) i = Some (?f i)" if "i < ?n" for i
    using dense that by (auto simp: sv_dense_def hnsw_len_def)
  let ?nds = "map ?f [0..<?n]"
  have nfits: "\<forall>nd \<in> set ?nds. node_fits ?m ?n nd"
    using hn_inv_node_fits [OF inv _ get] fits by (auto simp: snap_fits_def)
  have nb: "nodes_bytes h [0..<?n] = Some (concat (map node_bytes ?nds))"
    by (rule nodes_bytes_Some) (use get in simp)
  define body where "body = snap_header h wal_lsn @ concat (map node_bytes ?nds)"
  define tail where "tail = le_bytes 4 (unat (crc body))"
  have bs: "snapshot_bytes crc h wal_lsn = Some (body @ tail)"
    using nb by (simp add: snapshot_bytes_def Let_def body_def tail_def)
  have lt: "length tail = 4" "le_val tail = unat (crc body)" by (simp_all add: tail_def)
  have v: "verify_crc crc (body @ tail) = Inr (length (body @ tail))"
    using lt by (simp add: verify_crc_def)
  have hd: "read_snap_header (body @ tail) =
      Inr ((hn_config h, wal_lsn, ?n, unat (hn_entry h)), concat (map node_bytes ?nds) @ tail)"
    using read_snap_header_bytes [of h wal_lsn] m fits n64 by (simp add: body_def snap_fits_def)
  have "8 * ?n \<le> length (concat (map node_bytes ?nds))"
    using length_concat_nodes [of ?nds] nfits by (simp add: node_fits_def)
  then have cnt: "?n \<le> length (body @ tail) div 8" by (simp add: body_def)
  let ?h0 = "\<lparr>hn_config = hn_config h, hn_kernel = kernel avx (cfg_metric (hn_config h)), hn_nodes = sv_new,
          hn_entry = entry_none\<rparr>"
  have new: "hnsw_new avx (hn_config h) = Inr ?h0" using m by (simp add: hnsw_new_def)
  have "?n \<le> 2 ^ 64" "sv_len (sv_new :: node segvec) + length ?nds \<le> sv_capacity" using n64 cap by simp_all
  from read_nodes_bytes [OF nfits this(1) m(2) sv_dense_new this(2), of tail]
  obtain v' where V: "read_nodes ?m ?n [0..<?n] sv_new (concat (map node_bytes ?nds) @ tail) = Some (Inr (v', tail))"
    "sv_dense v'" "sv_len v' = ?n" "\<And>j. sv_get_unchecked v' j = (if j < ?n then Some (?nds ! j) else None)"
    by auto
  have get': "sv_get_unchecked v' j = sv_get_unchecked (hn_nodes h) j" for j
    using V(4) [of j] get [of j] dense by (auto simp: sv_dense_def hnsw_len_def)
  have ce: "check_end crc (body @ tail) tail = Inr ()"
    using lt read_uint_le_bytes [of "unat (crc body)" 4 "[]"] unat32_less [of "crc body"]
    by (simp add: check_end_def tail_def)
  let ?h1 = "?h0\<lparr>hn_nodes := v'\<rparr>"
  have se: "set_entry ?h1 ?n (unat (hn_entry h)) = Some (Inr (?h1\<lparr>hn_entry := hn_entry h\<rparr>))"
  proof (cases "?n = 0")
    case True
    then have "hn_entry h = entry_none" using inv by (simp add: hn_inv_def entry_ok_def)
    then show ?thesis by (simp add: set_entry_def)
  next
    case False
    obtain e l where E: "hn_entry h \<noteq> entry_none" "unpack_entry (hn_entry h) = (e, l)" "e \<in> on_layer h l"
      "level_ok h l" "hn_entry h = pack_entry e l"
      using hn_inv_entry [OF inv False] by blast
    obtain nd where nd: "sv_get_unchecked (hn_nodes h) e = Some nd" "l < length (node_links nd)"
      using E(3) by (auto simp: on_layer_iff)
    then have "node_level nd = l" using E(4) unfolding level_ok_def node_level_def by fastforce
    moreover have "e < ?n" using on_layer_len [OF inv] E(3) by blast
    ultimately show ?thesis using E nd get' by (simp add: set_entry_def)
  qed
  have "hnsw_load crc avx (body @ tail) = Some (Inr (?h1\<lparr>hn_entry := hn_entry h\<rparr>, wal_lsn))"
    unfolding hnsw_load_def v hd using m cnt new V(1) ce se by simp
  moreover have "same_index h (?h1\<lparr>hn_entry := hn_entry h\<rparr>)"
    using fits get' V(3) by (simp add: same_index_def snap_fits_def hnsw_len_def)
  moreover have "sv_dense (hn_nodes (?h1\<lparr>hn_entry := hn_entry h\<rparr>))" using V(2) by simp
  ultimately show ?thesis using bs by blast
qed

section \<open>What cannot be told apart\<close>

lemma same_index_links: "same_index h h' \<Longrightarrow> links_of h' = links_of h"
  by (intro ext) (simp add: same_index_def links_of_def)

lemma same_index_on_layer: "same_index h h' \<Longrightarrow> on_layer h' layer = on_layer h layer"
  by (simp add: on_layer_def same_index_links)

lemma same_index_inv:
  assumes s: "same_index h h'" and inv: "hn_inv h" and d: "sv_dense (hn_nodes h')"
  shows "hn_inv h'"
proof -
  have "links_ok h'"
  proof -
    have "max_degree h' layer = max_degree h layer" for layer
      using s by (simp add: max_degree_def same_index_def)
    then show ?thesis
      using inv s by (simp add: hn_inv_def links_ok_def same_index_links same_index_on_layer)
  qed
  moreover have "entry_ok h'"
  proof -
    have "level_ok h' = level_ok h" using s by (intro ext) (simp add: level_ok_def same_index_def)
    moreover have "hn_entry h' = hn_entry h" "hnsw_len h' = hnsw_len h" using s by (simp_all add: same_index_def)
    moreover have "entry_ok h" using inv by (simp add: hn_inv_def)
    ultimately show ?thesis by (simp add: entry_ok_def same_index_on_layer [OF s])
  qed
  ultimately show ?thesis using inv s d by (simp add: hn_inv_def same_index_def)
qed

lemma same_index_loop:
  "same_index h h' \<Longrightarrow> search_loop h' dist ef layer vis cand res = search_loop h dist ef layer vis cand res"
proof (induction h dist ef layer vis cand res rule: search_loop.induct)
  case (1 h dist ef layer vis cand res)
  have "search_loop h' dist ef layer v c r = search_loop h dist ef layer v c r"
    if "cand = current # rest" "\<not> (f32_lt (worst res) (nb_dist current) \<and> ef \<le> length res)"
      "links_of h (nb_id current) layer = Some ns" "visit_all dist ef ns (vis, rest, res) = Some (v, c, r)"
    for current rest ns v c r
    by (rule "1.IH" [OF that refl refl "1.prems"])
  then show ?case
    unfolding search_loop.simps [of h' dist ef layer vis cand res] search_loop.simps [of h dist ef layer vis cand res]
      same_index_links [OF "1.prems"]
    by (cases cand) (auto intro!: Option.bind_cong [OF refl] split: prod.splits)
qed

lemma same_index_greedy:
  "same_index h h' \<Longrightarrow> greedy_descend h' dist e b layer = greedy_descend h dist e b layer"
proof (induction h dist e b layer rule: greedy_descend.induct)
  case (1 h dist e b layer)
  have "greedy_descend h' dist e' b' layer = greedy_descend h dist e' b' layer"
    if "links_of h e layer = Some ns" "greedy_scan dist ns (e, b, False) = Some (e', b', True)" for ns e' b'
    by (rule "1.IH" [OF that refl refl TrueI "1.prems"])
  then show ?case
    unfolding greedy_descend.simps [of h' dist e b layer] greedy_descend.simps [of h dist e b layer]
      same_index_links [OF "1.prems"]
    by (auto intro!: Option.bind_cong [OF refl] split: prod.splits)
qed

lemma same_index_search:
  assumes s: "same_index h h'"
  shows "search_with_oracle h' dist vis k ef = search_with_oracle h dist vis k ef"
proof -
  have "descend_layers h' dist ls ep = descend_layers h dist ls ep" for ls ep
    by (induction ls arbitrary: ep) (simp_all add: same_index_greedy [OF s])
  moreover have "search_layer h' dist vis e n layer = search_layer h dist vis e n layer" for e n layer
    using s by (simp add: search_layer_def same_index_loop [OF s]) (simp add: same_index_def)
  moreover have "hn_entry h' = hn_entry h" using s by (simp add: same_index_def)
  ultimately show ?thesis by (simp add: search_with_oracle_def)
qed

section \<open>Properties\<close>

text \<open>
  C34: a checkpoint loses nothing of the graph: loading the bytes of a snapshot gives back the LSN it
  was taken at and an index with the same configuration, kernel, nodes, links and entry point,
  which is sound and answers every search exactly as the saved one.
\<close>

theorem snapshot_roundtrip:
  assumes "hn_inv h" and "snap_fits h avx wal_lsn"
  shows "\<exists>bs h'. snapshot_bytes crc h wal_lsn = Some bs \<and> hnsw_load crc avx bs = Some (Inr (h', wal_lsn)) \<and>
     same_index h h' \<and> hn_inv h' \<and>
     (\<forall>dist vis k ef. search_with_oracle h' dist vis k ef = search_with_oracle h dist vis k ef)"
proof -
  obtain bs h' where S: "snapshot_bytes crc h wal_lsn = Some bs" "hnsw_load crc avx bs = Some (Inr (h', wal_lsn))"
    "same_index h h'" "sv_dense (hn_nodes h')"
    using snapshot_roundtrip_spec [OF assms] by blast
  then show ?thesis using same_index_inv [OF S(3) assms(1) S(4)] same_index_search [OF S(3)] by blast
qed

definition xor_crc :: crc_fun where
  "xor_crc bs = word_of_nat (le_val bs)"

lemma example_snap_fits: "snap_fits example_index False 7"
proof -
  have "on_layer example_index 64 = {}" by (auto simp: on_layer_def example_links)
  then show ?thesis
    by (simp add: snap_fits_def) (simp add: example_index_def default_config_def)
qed

theorem snapshot_roundtrip_witness:
  "\<exists>bs h'. snapshot_bytes xor_crc example_index 7 = Some bs \<and> hnsw_load xor_crc False bs = Some (Inr (h', 7)) \<and>
     same_index example_index h'"
  using snapshot_roundtrip [OF example_inv example_snap_fits, of xor_crc] by blast

text \<open>
  The loader trusts nothing before its checksum: when the last four bytes of the file are not the
  checksum of the rest, or there are fewer than four, it reports corruption, whatever the rest says.
\<close>

theorem load_rejects_bad_checksum:
  assumes "length raw < 4 \<or>
    le_val (drop (length raw - 4) raw) \<noteq> unat (crc (take (length raw - 4) raw))"
  shows "\<exists>why. hnsw_load crc avx raw = Some (Inl (Corrupt why))"
  using assms by (auto simp: hnsw_load_def verify_crc_def ensure_def Let_def)

theorem load_rejects_bad_checksum_witness: "\<exists>why. hnsw_load xor_crc True [1, 2, 3] = Some (Inl (Corrupt why))"
  using load_rejects_bad_checksum [of "[1, 2, 3]" xor_crc True] by simp

text \<open>
  Replacing a file is atomic: whatever step fails, afterwards the target holds either its old
  bytes or all the new ones, and the new ones whenever success was reported.
\<close>

theorem save_is_atomic:
  assumes "hnsw_save crc h wal_lsn old io = Some (now, r)"
  shows "(now = old \<or> (\<exists>bs. snapshot_bytes crc h wal_lsn = Some bs \<and> now = Some bs)) \<and>
     (r = Inr () \<longrightarrow> (\<exists>bs. snapshot_bytes crc h wal_lsn = Some bs \<and> now = Some bs))"
  using assms by (auto simp: hnsw_save_def replace_file_def split: bind_splits replace_out.splits)

theorem save_is_atomic_witness:
  "\<exists>now r. hnsw_save xor_crc example_index 7 None FailedBefore = Some (now, r) \<and> now = None"
proof -
  obtain bs where "snapshot_bytes xor_crc example_index 7 = Some bs"
    using snapshot_roundtrip_spec [OF example_inv example_snap_fits, of xor_crc] by blast
  then have s: "hnsw_save xor_crc example_index 7 None FailedBefore = Some (None, Inl (Io DeviceError))"
    by (simp add: hnsw_save_def replace_file_def)
  show ?thesis using save_is_atomic [OF s] s by blast
qed

end
