(* ===== verification/Pq.thy ===== *)
theory Pq
  imports Distance Codec "HOL-Library.Monad_Syntax"
begin

text \<open>
  \<^verbatim>\<open>src/vektordb-core/src/pq/mod.rs\<close>, the quantizer itself: encoding a vector to one byte per
  subspace, decoding, the table of subspace distances and the distance of a code by lookup, the
  codebook's bytes, and its file with magic and checksum (\<^verbatim>\<open>save_codebook\<close>, \<^verbatim>\<open>load_codebook\<close>
  of \<^verbatim>\<open>db.rs\<close>).  \<open>None\<close> is the panic of a slice or an index out of range.
\<close>

definition pq_k :: nat where
  "pq_k = 256"

record quantizer =
  pq_dim :: nat
  pq_m :: nat
  pq_sub_dim :: nat
  pq_centroids :: "f32 list"

text \<open>\<^verbatim>\<open>xs[off..][..n]\<close>.\<close>

definition slice :: "'a list \<Rightarrow> nat \<Rightarrow> nat \<Rightarrow> 'a list option" where
  "slice xs off n = (if off + n \<le> length xs then Some (take n (drop off xs)) else None)"

definition nth_opt :: "'a list \<Rightarrow> nat \<Rightarrow> 'a option" where
  "nth_opt xs i = (if i < length xs then Some (xs ! i) else None)"

definition centroid :: "quantizer \<Rightarrow> nat \<Rightarrow> nat \<Rightarrow> f32 list option" where
  "centroid pq sub k = slice (pq_centroids pq) ((sub * pq_k + k) * pq_sub_dim pq) (pq_sub_dim pq)"

definition sub_vector :: "quantizer \<Rightarrow> f32 list \<Rightarrow> nat \<Rightarrow> f32 list option" where
  "sub_vector pq v sub = slice v (sub * pq_sub_dim pq) (pq_sub_dim pq)"

definition sub_distance :: "quantizer \<Rightarrow> f32 list \<Rightarrow> nat \<Rightarrow> nat \<Rightarrow> f32 option" where
  "sub_distance pq x sub k = do { c \<leftarrow> centroid pq sub k; scalar_l2_squared x c }"

section \<open>Encode and decode\<close>

text \<open>The scan of the centroids: the running best and its distance.\<close>

primrec best_loop :: "(nat \<Rightarrow> f32 option) \<Rightarrow> nat list \<Rightarrow> nat \<times> f32 \<Rightarrow> (nat \<times> f32) option" where
  "best_loop dist [] st = Some st"
| "best_loop dist (k # ks) st = do {
     d \<leftarrow> dist k;
     best_loop dist ks (if f32_lt d (snd st) then (k, d) else st) }"

definition encode_sub :: "quantizer \<Rightarrow> f32 list \<Rightarrow> nat \<Rightarrow> byte option" where
  "encode_sub pq v sub = do {
     x \<leftarrow> sub_vector pq v sub;
     (best, best_d) \<leftarrow> best_loop (sub_distance pq x sub) [0..<pq_k] (0, f32_inf);
     Some (word_of_nat best) }"

primrec map_opt :: "('a \<Rightarrow> 'b option) \<Rightarrow> 'a list \<Rightarrow> 'b list option" where
  "map_opt f [] = Some []"
| "map_opt f (x # xs) = do { y \<leftarrow> f x; ys \<leftarrow> map_opt f xs; Some (y # ys) }"

definition pq_encode :: "quantizer \<Rightarrow> f32 list \<Rightarrow> byte list option" where
  "pq_encode pq v = map_opt (encode_sub pq v) [0..<pq_m pq]"

definition pq_decode :: "quantizer \<Rightarrow> byte list \<Rightarrow> f32 list option" where
  "pq_decode pq code = map_option concat
     (map_opt (\<lambda>sub. do { k \<leftarrow> nth_opt code sub; centroid pq sub (unat k) }) [0..<pq_m pq])"

section \<open>Asymmetric distances\<close>

definition adc_table :: "quantizer \<Rightarrow> f32 list \<Rightarrow> f32 list option" where
  "adc_table pq query = map_option concat
     (map_opt (\<lambda>sub. do { q \<leftarrow> sub_vector pq query sub; map_opt (sub_distance pq q sub) [0..<pq_k] }) [0..<pq_m pq])"

definition adc_term :: "f32 list \<Rightarrow> byte list \<Rightarrow> nat \<Rightarrow> f32 option" where
  "adc_term table code sub = do { k \<leftarrow> nth_opt code sub; nth_opt table (sub * pq_k + unat k) }"

type_synonym acc4 = "f32 \<times> f32 \<times> f32 \<times> f32"

text \<open>Four accumulators while four terms are left, then their sum, then the rest one by one.\<close>

function adc4 :: "(nat \<Rightarrow> f32 option) \<Rightarrow> nat \<Rightarrow> nat \<Rightarrow> acc4 \<Rightarrow> (nat \<times> acc4) option" where
  "adc4 tm m sub (a0, a1, a2, a3) =
     (if sub + 4 \<le> m then do {
        t0 \<leftarrow> tm sub; t1 \<leftarrow> tm (sub + 1); t2 \<leftarrow> tm (sub + 2); t3 \<leftarrow> tm (sub + 3);
        adc4 tm m (sub + 4) (f32_add a0 t0, f32_add a1 t1, f32_add a2 t2, f32_add a3 t3) }
      else Some (sub, (a0, a1, a2, a3)))"
  by pat_completeness auto
termination by (relation "measure (\<lambda>(tm, m, sub, acc). m - sub)") auto

declare adc4.simps [simp del]

primrec adc_tail :: "(nat \<Rightarrow> f32 option) \<Rightarrow> nat list \<Rightarrow> f32 \<Rightarrow> f32 option" where
  "adc_tail tm [] s = Some s"
| "adc_tail tm (sub # subs) s = do { t \<leftarrow> tm sub; adc_tail tm subs (f32_add s t) }"

definition adc_sum :: "(nat \<Rightarrow> f32 option) \<Rightarrow> nat \<Rightarrow> f32 option" where
  "adc_sum tm m = do {
     (sub, (a0, a1, a2, a3)) \<leftarrow> adc4 tm m 0 (f32_zero, f32_zero, f32_zero, f32_zero);
     adc_tail tm [sub..<m] (f32_add (f32_add a0 a1) (f32_add a2 a3)) }"

definition adc_distance :: "f32 list \<Rightarrow> byte list \<Rightarrow> f32 option" where
  "adc_distance table code = adc_sum (adc_term table code) (length code)"

section \<open>The codebook's bytes\<close>

definition pq_to_bytes :: "quantizer \<Rightarrow> byte list" where
  "pq_to_bytes pq =
     le_bytes 4 (pq_dim pq) @ le_bytes 4 (pq_m pq) @ le_bytes 4 (pq_sub_dim pq) @ f32s_bytes (pq_centroids pq)"

definition pq_from_bytes :: "byte list \<Rightarrow> quantizer option" where
  "pq_from_bytes data = do {
     head \<leftarrow> slice data 0 12;
     let dim = le_val (take 4 head);
     let m = le_val (take 4 (drop 4 head));
     let sub_dim = le_val (take 4 (drop 8 head));
     let body = drop 12 data;
     if dim = 0 \<or> m = 0 \<or> sub_dim = 0 then None
     else do {
       d \<leftarrow> checked_mul sub_dim m;
       if d \<noteq> dim then None
       else do {
         mk \<leftarrow> checked_mul m pq_k;
         mks \<leftarrow> checked_mul mk sub_dim;
         len \<leftarrow> checked_mul mks 4;
         if length body \<noteq> len then None
         else Some \<lparr>pq_dim = dim, pq_m = m, pq_sub_dim = sub_dim, pq_centroids = bytes_f32s body\<rparr> } } }"

section \<open>The codebook file\<close>

definition pq_magic :: nat where
  "pq_magic = 0x564B5051"

definition pq_version :: nat where
  "pq_version = 1"

definition codebook_bytes :: "crc_fun \<Rightarrow> quantizer \<Rightarrow> byte list" where
  "codebook_bytes crc pq =
     (let buf = le_bytes 4 pq_magic @ le_bytes 4 pq_version @ pq_to_bytes pq
      in buf @ le_bytes 4 (unat (crc buf)))"

definition load_codebook :: "crc_fun \<Rightarrow> byte list \<Rightarrow> quantizer result" where
  "load_codebook crc raw =
     rbind (ensure (16 \<le> length raw) (Corrupt ''pq.codebook truncated'')) (\<lambda>_.
     let payload = take (length raw - 4) raw;
         want = le_val (drop (length raw - 4) raw);
         version = le_val (take 4 (drop 4 payload))
     in rbind (ensure (unat (crc payload) = want) (Corrupt ''pq.codebook checksum mismatch'')) (\<lambda>_.
     rbind (ensure (le_val (take 4 payload) = pq_magic) (Corrupt ''pq.codebook bad magic'')) (\<lambda>_.
     rbind (ensure (version = pq_version)
       (Corrupt (''pq.codebook version '' @ show_nat version @ '', expected '' @ show_nat pq_version))) (\<lambda>_.
     ok_or (pq_from_bytes (drop 8 payload)) (Corrupt ''pq.codebook malformed'')))))"

section \<open>Well-formed quantizers\<close>

definition pq_inv :: "quantizer \<Rightarrow> bool" where
  "pq_inv pq \<longleftrightarrow>
     0 < pq_m pq \<and> 0 < pq_sub_dim pq \<and> pq_dim pq = pq_sub_dim pq * pq_m pq \<and> pq_dim pq < 2 ^ 32 \<and>
     length (pq_centroids pq) = pq_m pq * pq_k * pq_sub_dim pq"

lemma slice_Some: "off + n \<le> length xs \<Longrightarrow> slice xs off n = Some (take n (drop off xs))"
  by (simp add: slice_def)

lemma slice_length: "slice xs off n = Some ys \<Longrightarrow> length ys = n"
  by (auto simp: slice_def split: if_splits)

lemma map_opt_total: "\<forall>x \<in> set xs. \<exists>y. f x = Some y \<Longrightarrow> \<exists>ys. map_opt f xs = Some ys"
  by (induction xs) auto

lemma map_opt_upt_total: "(\<And>i. i < n \<Longrightarrow> \<exists>y. f i = Some y) \<Longrightarrow> \<exists>ys. map_opt f [0..<n] = Some ys"
  by (rule map_opt_total) simp

lemma map_opt_Some: "map_opt f xs = Some ys \<Longrightarrow> length ys = length xs \<and> (\<forall>i < length xs. f (xs ! i) = Some (ys ! i))"
proof (induction xs arbitrary: ys)
  case Nil
  then show ?case by simp
next
  case (Cons x xs)
  then obtain y zs where "f x = Some y" "map_opt f xs = Some zs" "ys = y # zs"
    by (auto split: bind_splits)
  with Cons.IH [of zs] show ?case by (auto simp: nth_Cons' less_Suc_eq_0_disj)
qed

lemma centroid_total:
  assumes inv: "pq_inv pq" and "sub < pq_m pq" "k < pq_k"
  shows "\<exists>c. centroid pq sub k = Some c \<and> length c = pq_sub_dim pq"
proof -
  have "sub * pq_k + k + 1 \<le> (sub + 1) * pq_k" using assms(3) by simp
  also have "\<dots> \<le> pq_m pq * pq_k" using assms(2) by (intro mult_le_mono1) simp
  finally have "(sub * pq_k + k + 1) * pq_sub_dim pq \<le> pq_m pq * pq_k * pq_sub_dim pq" by (rule mult_le_mono1)
  then have "(sub * pq_k + k) * pq_sub_dim pq + pq_sub_dim pq \<le> length (pq_centroids pq)"
    using inv by (simp add: pq_inv_def algebra_simps)
  then show ?thesis using slice_Some slice_length by (metis centroid_def)
qed

lemma sub_vector_total:
  assumes inv: "pq_inv pq" and "sub < pq_m pq" "length v = pq_dim pq"
  shows "\<exists>x. sub_vector pq v sub = Some x \<and> length x = pq_sub_dim pq"
proof -
  have "(sub + 1) * pq_sub_dim pq \<le> pq_m pq * pq_sub_dim pq" using assms(2) by (intro mult_le_mono1) simp
  then have "sub * pq_sub_dim pq + pq_sub_dim pq \<le> length v"
    using inv assms(3) by (simp add: pq_inv_def algebra_simps)
  then show ?thesis using slice_Some slice_length by (metis sub_vector_def)
qed

lemma sub_distance_total:
  "pq_inv pq \<Longrightarrow> sub < pq_m pq \<Longrightarrow> k < pq_k \<Longrightarrow> length x = pq_sub_dim pq \<Longrightarrow> \<exists>d. sub_distance pq x sub k = Some d"
  using centroid_total [of pq sub k] by (auto simp: sub_distance_def scalar_l2_squared_def)

section \<open>Encoding picks a nearest centroid\<close>

lemma best_loop_spec:
  "\<forall>k \<in> set ks. \<exists>d. dist k = Some d \<Longrightarrow>
    \<exists>b bd. best_loop dist ks st = Some (b, bd) \<and> ((b, bd) = st \<or> (b \<in> set ks \<and> dist b = Some bd)) \<and>
      (bd = snd st \<or> f32_lt bd (snd st)) \<and> (\<forall>k \<in> set ks. \<forall>d. dist k = Some d \<longrightarrow> \<not> f32_lt d bd)"
proof (induction ks arbitrary: st)
  case Nil
  then show ?case by (cases st) simp
next
  case (Cons k ks)
  obtain d where d: "dist k = Some d" using Cons.prems by auto
  let ?st = "if f32_lt d (snd st) then (k, d) else st"
  obtain b bd where B: "best_loop dist ks ?st = Some (b, bd)" "(b, bd) = ?st \<or> (b \<in> set ks \<and> dist b = Some bd)"
    "bd = snd ?st \<or> f32_lt bd (snd ?st)" "\<forall>k \<in> set ks. \<forall>d. dist k = Some d \<longrightarrow> \<not> f32_lt d bd"
  proof -
    have "\<forall>k \<in> set ks. \<exists>d. dist k = Some d" using Cons.prems by simp
    from Cons.IH [OF this, of ?st] show thesis using that by blast
  qed
  have both: "(bd = snd st \<or> f32_lt bd (snd st)) \<and> \<not> f32_lt d bd"
  proof (cases "f32_lt d (snd st)")
    case True
    then have "bd = d \<or> f32_lt bd d" using B(3) by simp
    then show ?thesis using True f32_lt_trans [of bd d "snd st"] f32_lt_trans [of d bd d] f32_lt_irrefl by auto
  next
    case False
    then have "bd = snd st \<or> f32_lt bd (snd st)" using B(3) by simp
    then show ?thesis using False f32_lt_trans [of d bd "snd st"] by auto
  qed
  then have le: "bd = snd st \<or> f32_lt bd (snd st)" and k: "\<not> f32_lt d bd" by simp_all
  have "best_loop dist (k # ks) st = Some (b, bd)" using B(1) d by simp
  moreover have "(b, bd) = st \<or> (b \<in> set (k # ks) \<and> dist b = Some bd)"
    using B(2) d by (cases "f32_lt d (snd st)") auto
  moreover have "\<forall>k' \<in> set (k # ks). \<forall>d'. dist k' = Some d' \<longrightarrow> \<not> f32_lt d' bd"
    using B(4) k d by simp
  ultimately show ?case using le by blast
qed

lemma encode_sub_spec:
  assumes inv: "pq_inv pq" and sub: "sub < pq_m pq" and v: "length v = pq_dim pq"
  shows "\<exists>x c bd. sub_vector pq v sub = Some x \<and> encode_sub pq v sub = Some c \<and>
     (sub_distance pq x sub (unat c) = Some bd \<or> (c = 0 \<and> bd = f32_inf)) \<and>
     (\<forall>k < pq_k. \<forall>d. sub_distance pq x sub k = Some d \<longrightarrow> \<not> f32_lt d bd)"
proof -
  obtain x where x: "sub_vector pq v sub = Some x" "length x = pq_sub_dim pq"
    using sub_vector_total [OF inv sub v] by blast
  have "\<forall>k \<in> set [0..<pq_k]. \<exists>d. sub_distance pq x sub k = Some d"
    using sub_distance_total [OF inv sub _ x(2)] by auto
  then obtain b bd where B: "best_loop (sub_distance pq x sub) [0..<pq_k] (0, f32_inf) = Some (b, bd)"
    "(b, bd) = (0, f32_inf) \<or> (b < pq_k \<and> sub_distance pq x sub b = Some bd)"
    "\<forall>k < pq_k. \<forall>d. sub_distance pq x sub k = Some d \<longrightarrow> \<not> f32_lt d bd"
    using best_loop_spec [of "[0..<pq_k]" "sub_distance pq x sub" "(0, f32_inf)"] by auto
  have "unat (word_of_nat b :: byte) = b" if "b < pq_k"
    using that by (simp add: unat_of_nat pq_k_def)
  then show ?thesis using x B
    by (intro exI [of _ x] exI [of _ "word_of_nat b"] exI [of _ bd]) (auto simp: encode_sub_def)
qed

lemma pq_encode_spec:
  assumes inv: "pq_inv pq" and v: "length v = pq_dim pq"
  shows "\<exists>code. pq_encode pq v = Some code \<and> length code = pq_m pq \<and>
     (\<forall>sub < pq_m pq. encode_sub pq v sub = Some (code ! sub))"
proof -
  have "\<exists>c. encode_sub pq v sub = Some c" if "sub < pq_m pq" for sub
    using encode_sub_spec [OF inv that v] by blast
  then have "\<forall>sub \<in> set [0..<pq_m pq]. \<exists>c. encode_sub pq v sub = Some c" by simp
  then obtain code where code: "pq_encode pq v = Some code"
    using map_opt_total unfolding pq_encode_def by blast
  then show ?thesis using map_opt_Some [of "encode_sub pq v" "[0..<pq_m pq]" code] by (auto simp: pq_encode_def)
qed

section \<open>The table distance is the distance to the decoded vector\<close>

lemma concat_uniform:
  "\<forall>ys \<in> set yss. length ys = b \<Longrightarrow> i < length yss \<Longrightarrow>
     take b (drop (i * b) (concat yss)) = yss ! i \<and> length (concat yss) = length yss * b"
proof (induction yss arbitrary: i)
  case Nil
  then show ?case by simp
next
  case (Cons ys yss)
  have len: "length (concat yss) = length yss * b" using Cons.prems(1) by (induction yss) auto
  show ?case
  proof (cases i)
    case 0
    then show ?thesis using Cons.prems len by simp
  next
    case (Suc j)
    then show ?thesis using Cons.IH [of j] Cons.prems len by simp
  qed
qed

lemma concat_uniform_nth:
  assumes "\<forall>ys \<in> set yss. length ys = b" "i < length yss" "j < b"
  shows "i * b + j < length (concat yss) \<and> concat yss ! (i * b + j) = yss ! i ! j"
proof -
  note U = concat_uniform [OF assms(1,2)]
  have "(i + 1) * b \<le> length yss * b" using assms(2) by (intro mult_le_mono1) simp
  then have l: "i * b + b \<le> length (concat yss)" using U by simp
  have "yss ! i ! j = take b (drop (i * b) (concat yss)) ! j" using U by simp
  then show ?thesis using l assms(3) by simp
qed

lemma adc_table_spec:
  assumes inv: "pq_inv pq" and q: "length query = pq_dim pq"
  shows "\<exists>table. adc_table pq query = Some table \<and> length table = pq_m pq * pq_k \<and>
     (\<forall>sub < pq_m pq. \<forall>k < pq_k. \<exists>x. sub_vector pq query sub = Some x \<and>
        nth_opt table (sub * pq_k + k) = sub_distance pq x sub k)"
proof -
  let ?row = "\<lambda>sub. do { x \<leftarrow> sub_vector pq query sub; map_opt (sub_distance pq x sub) [0..<pq_k] }"
  have row: "\<exists>x ys. sub_vector pq query sub = Some x \<and> ?row sub = Some ys \<and> length ys = pq_k \<and>
      (\<forall>k < pq_k. sub_distance pq x sub k = Some (ys ! k))" if sub: "sub < pq_m pq" for sub
  proof -
    obtain x where x: "sub_vector pq query sub = Some x" "length x = pq_sub_dim pq"
      using sub_vector_total [OF inv sub q] by blast
    then obtain ys where ys: "map_opt (sub_distance pq x sub) [0..<pq_k] = Some ys"
      using map_opt_total [of "[0..<pq_k]" "sub_distance pq x sub"] sub_distance_total [OF inv sub] by auto
    then show ?thesis using x map_opt_Some [OF ys] by auto
  qed
  then have "\<exists>yss. map_opt ?row [0..<pq_m pq] = Some yss" by (intro map_opt_upt_total) blast
  then obtain yss where yss: "map_opt ?row [0..<pq_m pq] = Some yss" ..
  note Y = map_opt_Some [OF yss]
  have rows: "sub_vector pq query sub \<noteq> None \<and> length (yss ! sub) = pq_k \<and>
      (\<forall>x. sub_vector pq query sub = Some x \<longrightarrow> (\<forall>k < pq_k. sub_distance pq x sub k = Some (yss ! sub ! k)))"
    if "sub < pq_m pq" for sub
    using row [OF that] Y that by fastforce
  have "\<forall>ys \<in> set yss. length ys = pq_k"
    using rows Y by (auto simp: in_set_conv_nth)
  note U = this
  have len: "length (concat yss) = pq_m pq * pq_k"
    using concat_uniform [OF U, of 0] Y inv by (simp add: pq_inv_def)
  have "nth_opt (concat yss) (sub * pq_k + k) = Some (yss ! sub ! k)" if "sub < pq_m pq" "k < pq_k" for sub k
    using concat_uniform_nth [OF U, of sub k] that Y by (simp add: nth_opt_def)
  then show ?thesis
    using yss len rows by (fastforce simp: adc_table_def)
qed

text \<open>The part of a decoded vector in one subspace is the centroid the code names there.\<close>

lemma pq_decode_spec:
  assumes inv: "pq_inv pq" and code: "length code = pq_m pq"
  shows "\<exists>v. pq_decode pq code = Some v \<and> length v = pq_dim pq \<and>
     (\<forall>sub < pq_m pq. sub_vector pq v sub = centroid pq sub (unat (code ! sub)))"
proof -
  let ?c = "\<lambda>sub. do { k \<leftarrow> nth_opt code sub; centroid pq sub (unat k) }"
  have b: "unat (c :: byte) < pq_k" for c using unsigned_less [of c] by (simp add: pq_k_def)
  have c: "?c sub = centroid pq sub (unat (code ! sub)) \<and> (\<exists>ys. ?c sub = Some ys \<and> length ys = pq_sub_dim pq)"
    if "sub < pq_m pq" for sub
    using centroid_total [OF inv that b] code that by (simp add: nth_opt_def)
  then have "\<exists>yss. map_opt ?c [0..<pq_m pq] = Some yss" by (intro map_opt_upt_total) blast
  then obtain yss where yss: "map_opt ?c [0..<pq_m pq] = Some yss" ..
  note Y = map_opt_Some [OF yss]
  have U: "\<forall>ys \<in> set yss. length ys = pq_sub_dim pq"
    using c Y by (fastforce simp: in_set_conv_nth)
  have len: "length (concat yss) = pq_dim pq"
    using concat_uniform [OF U, of 0] Y inv by (simp add: pq_inv_def mult.commute)
  have "sub_vector pq (concat yss) sub = centroid pq sub (unat (code ! sub))" if sub: "sub < pq_m pq" for sub
  proof -
    obtain x where x: "sub_vector pq (concat yss) sub = Some x" using sub_vector_total [OF inv sub len] by blast
    then have "x = take (pq_sub_dim pq) (drop (sub * pq_sub_dim pq) (concat yss))"
      by (simp add: sub_vector_def slice_def split: if_splits)
    also have "\<dots> = yss ! sub" using concat_uniform [OF U, of sub] Y sub by simp
    finally have "Some x = ?c sub" using Y sub by simp
    then show ?thesis using x c [OF sub] by simp
  qed
  then show ?thesis using yss len by (auto simp: pq_decode_def)
qed

lemma adc4_cong:
  "\<forall>i < m. f i = g i \<Longrightarrow> adc4 f m sub acc = adc4 g m sub acc"
proof (induction f m sub acc rule: adc4.induct)
  case (1 tm m sub a0 a1 a2 a3)
  show ?case
  proof (cases "sub + 4 \<le> m")
    case False
    then show ?thesis by (simp add: adc4.simps)
  next
    case True
    have "tm (sub + j) = g (sub + j)" if "j < 4" for j using "1.prems" True that by simp
    from this [of 0] this [of 1] this [of 2] this [of 3]
    have "tm sub = g sub" "tm (sub + 1) = g (sub + 1)" "tm (sub + 2) = g (sub + 2)" "tm (sub + 3) = g (sub + 3)"
      by simp_all
    then show ?thesis
      using True "1.IH" [OF True _ _ _ _ "1.prems"]
      unfolding adc4.simps [of tm m sub a0] adc4.simps [of g m sub a0]
      by (auto intro!: Option.bind_cong [OF refl])
  qed
qed

lemma adc4_total:
  "\<forall>i < m. f i \<noteq> None \<Longrightarrow> \<exists>s acc'. adc4 f m sub acc = Some (s, acc')"
proof (induction f m sub acc rule: adc4.induct)
  case (1 tm m sub a0 a1 a2 a3)
  show ?case
  proof (cases "sub + 4 \<le> m")
    case False
    then show ?thesis by (simp add: adc4.simps)
  next
    case True
    have "tm (sub + j) \<noteq> None" if "j < 4" for j using "1.prems" True that by simp
    from this [of 0] this [of 1] this [of 2] this [of 3]
    obtain t0 t1 t2 t3 where "tm sub = Some t0" "tm (sub + 1) = Some t1" "tm (sub + 2) = Some t2"
      "tm (sub + 3) = Some t3"
      by auto
    then show ?thesis using True "1.IH" "1.prems" by (simp add: adc4.simps [of tm m sub a0])
  qed
qed

lemma adc_tail_cong: "\<forall>i \<in> set subs. f i = g i \<Longrightarrow> adc_tail f subs s = adc_tail g subs s"
  by (induction subs arbitrary: s) auto

lemma adc_tail_total: "\<forall>i \<in> set subs. f i \<noteq> None \<Longrightarrow> \<exists>r. adc_tail f subs s = Some r"
  by (induction subs arbitrary: s) auto

lemma adc_sum_cong:
  assumes "\<forall>i < m. f i = g i"
  shows "adc_sum f m = adc_sum g m"
proof -
  have "adc_tail f [s..<m] r = adc_tail g [s..<m] r" for s r
    using assms by (intro adc_tail_cong) simp
  then show ?thesis unfolding adc_sum_def adc4_cong [OF assms] by simp
qed

lemma adc_sum_total: "\<forall>i < m. f i \<noteq> None \<Longrightarrow> \<exists>r. adc_sum f m = Some r"
  using adc4_total [of m f 0 "(f32_zero, f32_zero, f32_zero, f32_zero)"] adc_tail_total
  by (fastforce simp: adc_sum_def)

section \<open>Bytes round trip\<close>

lemma pages: "x < 2 ^ 32 \<Longrightarrow> 1024 * x < u64_limit" "x < 2 ^ 32 \<Longrightarrow> x < u64_limit" for x :: nat
  by (simp_all add: u64_limit_def)

lemma pq_inv_bounds:
  assumes "pq_inv pq"
  shows "pq_m pq < 2 ^ 32" and "pq_sub_dim pq < 2 ^ 32" and "pq_m pq * pq_k * pq_sub_dim pq * 4 < u64_limit"
proof -
  have "pq_m pq * 1 \<le> pq_m pq * pq_sub_dim pq" "1 * pq_sub_dim pq \<le> pq_m pq * pq_sub_dim pq"
    using assms by (auto intro!: mult_le_mono simp: pq_inv_def)
  moreover have p: "pq_m pq * pq_sub_dim pq < 2 ^ 32" using assms by (simp add: pq_inv_def mult.commute)
  ultimately show "pq_m pq < 2 ^ 32" "pq_sub_dim pq < 2 ^ 32" by linarith+
  have e: "pq_m pq * pq_k * pq_sub_dim pq * 4 = 1024 * (pq_m pq * pq_sub_dim pq)" unfolding pq_k_def by simp
  show "pq_m pq * pq_k * pq_sub_dim pq * 4 < u64_limit" unfolding e by (rule pages(1) [OF p])
qed

lemma pq_bytes_spec:
  assumes inv: "pq_inv pq"
  shows "pq_from_bytes (pq_to_bytes pq) = Some pq"
proof -
  note B = pq_inv_bounds [OF inv]
  let ?m = "pq_m pq" and ?s = "pq_sub_dim pq"
  have pos: "0 < ?m" "0 < ?s" "pq_dim pq = ?s * ?m" "pq_dim pq < 2 ^ 32" using inv by (simp_all add: pq_inv_def)
  have "?m * pq_k * 1 \<le> ?m * pq_k * ?s" using pos by (intro mult_le_mono) simp_all
  then have "?m * pq_k < u64_limit" "?m * pq_k * ?s < u64_limit" using B(3) by linarith+
  moreover have "?s * ?m < u64_limit" using pages(2) pos(4) unfolding pos(3) .
  ultimately have c: "checked_mul ?s ?m = Some (?s * ?m)" "checked_mul ?m pq_k = Some (?m * pq_k)"
    "checked_mul (?m * pq_k) ?s = Some (?m * pq_k * ?s)"
    "checked_mul (?m * pq_k * ?s) 4 = Some (?m * pq_k * ?s * 4)"
    using B(3) unfolding checked_mul_def by (simp_all only: if_True)
  have len: "length (pq_centroids pq) = ?m * pq_k * ?s" using inv by (simp add: pq_inv_def)
  define body where "body = f32s_bytes (pq_centroids pq)"
  have lb: "length body = ?m * pq_k * ?s * 4" and bb: "bytes_f32s body = pq_centroids pq"
    using len by (simp_all add: body_def)
  let ?d = "le_bytes 4 (pq_dim pq) @ le_bytes 4 ?m @ le_bytes 4 ?s"
  have head: "slice (?d @ body) 0 12 = Some ?d" by (simp add: slice_def)
  have v: "le_val (take 4 ?d) = pq_dim pq" "le_val (take 4 (drop 4 ?d)) = ?m" "le_val (take 4 (drop 8 ?d)) = ?s"
    using B pos(4) by simp_all
  have r: "drop 12 (?d @ body) = body" by simp
  have "pq_from_bytes (?d @ body) = Some \<lparr>pq_dim = pq_dim pq, pq_m = ?m, pq_sub_dim = ?s, pq_centroids = bytes_f32s body\<rparr>"
    unfolding pq_from_bytes_def head bind.bind_lunit Let_def v r c lb using pos by (simp add: c lb)
  then show ?thesis unfolding bb by (simp add: pq_to_bytes_def body_def)
qed

lemma pq_from_bytes_inv:
  assumes "pq_from_bytes data = Some pq"
  shows "pq_inv pq \<and> pq_to_bytes pq = data"
proof -
  obtain head where h: "slice data 0 12 = Some head" using assms by (auto simp: pq_from_bytes_def split: bind_splits)
  then have hd: "head = take 12 data" "12 \<le> length data" by (auto simp: slice_def split: if_splits)
  let ?dim = "le_val (take 4 head)" and ?m = "le_val (take 4 (drop 4 head))" and ?s = "le_val (take 4 (drop 8 head))"
  let ?body = "drop 12 data"
  have P: "?dim \<noteq> 0" "?m \<noteq> 0" "?s \<noteq> 0" "?s * ?m = ?dim" "length ?body = ?m * pq_k * ?s * 4"
    "pq = \<lparr>pq_dim = ?dim, pq_m = ?m, pq_sub_dim = ?s, pq_centroids = bytes_f32s ?body\<rparr>"
    using assms h by (auto simp: pq_from_bytes_def Let_def checked_mul_Some split: bind_splits if_splits)
  have "?dim < 2 ^ 32" using le_val_less [of "take 4 head"] hd by simp
  moreover have "length (bytes_f32s ?body) = ?m * pq_k * ?s" using P(5) by (simp only: length_bytes_f32s)
  ultimately have inv: "pq_inv pq" using P(1-4) unfolding P(6) pq_inv_def by simp
  have "f32s_bytes (bytes_f32s ?body) = ?body" by (rule f32s_bytes_of_bytes) (simp only: P(5) dvd_triv_right)
  moreover have "le_bytes 4 ?dim @ le_bytes 4 ?m @ le_bytes 4 ?s = head"
  proof -
    have "length (take 4 head) = 4" "length (take 4 (drop 4 head)) = 4" "length (take 4 (drop 8 head)) = 4"
      using hd by simp_all
    then have "le_bytes 4 ?dim = take 4 head" "le_bytes 4 ?m = take 4 (drop 4 head)" "le_bytes 4 ?s = take 4 (drop 8 head)"
      by (metis le_bytes_le_val)+
    moreover have "head = take 4 head @ take 4 (drop 4 head) @ take 4 (drop 8 head)"
      using append_take_drop_id [of 4 head] append_take_drop_id [of 4 "drop 4 head"] hd by simp
    ultimately show ?thesis by simp
  qed
  ultimately have "pq_to_bytes pq = head @ ?body" unfolding P(6) pq_to_bytes_def by simp
  then show ?thesis using inv hd by simp
qed

lemma load_codebook_bytes:
  assumes "pq_inv pq"
  shows "load_codebook crc (codebook_bytes crc pq) = Inr pq"
proof -
  define buf where "buf = le_bytes 4 pq_magic @ le_bytes 4 pq_version @ pq_to_bytes pq"
  let ?raw = "buf @ le_bytes 4 (unat (crc buf))"
  have "12 \<le> length (pq_to_bytes pq)" by (simp add: pq_to_bytes_def)
  then have l: "16 \<le> length ?raw" by (simp add: buf_def)
  have p: "take (length ?raw - 4) ?raw = buf" "le_val (drop (length ?raw - 4) ?raw) = unat (crc buf)"
    by simp_all
  have f: "le_val (take 4 buf) = pq_magic" "le_val (take 4 (drop 4 buf)) = pq_version" "drop 8 buf = pq_to_bytes pq"
    by (simp_all add: buf_def pq_magic_def pq_version_def)
  have "load_codebook crc ?raw = Inr pq"
    unfolding load_codebook_def Let_def p f using l by (simp add: pq_bytes_spec [OF assms])
  then show ?thesis by (simp add: codebook_bytes_def buf_def Let_def)
qed

section \<open>Properties\<close>

definition example_pq :: quantizer where
  "example_pq = \<lparr>pq_dim = 2, pq_m = 2, pq_sub_dim = 1, pq_centroids = replicate 512 f32_zero\<rparr>"

lemma example_pq_inv: "pq_inv example_pq"
  by (simp add: pq_inv_def example_pq_def pq_k_def)

text \<open>
  Encoding never fails on a vector of the quantizer's dimension and picks, in every subspace, a
  centroid that no other beats: one byte per subspace whose distance is not more than any other
  centroid's, or byte 0 when no distance is below infinity.
\<close>

theorem encode_nearest:
  assumes "pq_inv pq" and "length v = pq_dim pq"
  shows "\<exists>code. pq_encode pq v = Some code \<and> length code = pq_m pq \<and>
     (\<forall>sub < pq_m pq. \<exists>x bd. sub_vector pq v sub = Some x \<and>
        (sub_distance pq x sub (unat (code ! sub)) = Some bd \<or> (code ! sub = 0 \<and> bd = f32_inf)) \<and>
        (\<forall>k < pq_k. \<forall>d. sub_distance pq x sub k = Some d \<longrightarrow> \<not> f32_lt d bd))"
proof -
  obtain code where C: "pq_encode pq v = Some code" "length code = pq_m pq"
    "\<forall>sub < pq_m pq. encode_sub pq v sub = Some (code ! sub)"
    using pq_encode_spec [OF assms] by blast
  have "\<exists>x bd. sub_vector pq v sub = Some x \<and>
        (sub_distance pq x sub (unat (code ! sub)) = Some bd \<or> (code ! sub = 0 \<and> bd = f32_inf)) \<and>
        (\<forall>k < pq_k. \<forall>d. sub_distance pq x sub k = Some d \<longrightarrow> \<not> f32_lt d bd)" if "sub < pq_m pq" for sub
    using encode_sub_spec [OF assms(1) that assms(2)] C(3) that by (metis option.inject)
  then show ?thesis using C(1,2) by blast
qed

theorem encode_nearest_witness: "\<exists>code. pq_encode example_pq [f32_one, f32_zero] = Some code \<and> length code = 2"
  using encode_nearest [OF example_pq_inv, of "[f32_one, f32_zero]"] by (auto simp: example_pq_def)

lemma adc_decoded_spec:
  assumes "pq_inv pq" and "length query = pq_dim pq" and "length code = pq_m pq"
  shows "\<exists>table v r. adc_table pq query = Some table \<and> pq_decode pq code = Some v \<and>
     adc_distance table code = Some r \<and>
     adc_sum (\<lambda>sub. do { q \<leftarrow> sub_vector pq query sub; c \<leftarrow> sub_vector pq v sub; scalar_l2_squared q c }) (pq_m pq) = Some r"
proof -
  obtain table where T: "adc_table pq query = Some table"
    "\<forall>sub < pq_m pq. \<forall>k < pq_k. \<exists>x. sub_vector pq query sub = Some x \<and>
        nth_opt table (sub * pq_k + k) = sub_distance pq x sub k"
    using adc_table_spec [OF assms(1,2)] by blast
  obtain v where V: "pq_decode pq code = Some v"
    "\<forall>sub < pq_m pq. sub_vector pq v sub = centroid pq sub (unat (code ! sub))"
    using pq_decode_spec [OF assms(1,3)] by blast
  let ?g = "\<lambda>sub. do { q \<leftarrow> sub_vector pq query sub; c \<leftarrow> sub_vector pq v sub; scalar_l2_squared q c }"
  have tm: "adc_term table code sub = ?g sub \<and> adc_term table code sub \<noteq> None" if sub: "sub < pq_m pq" for sub
  proof -
    have b: "unat (code ! sub) < pq_k" using unsigned_less [of "code ! sub"] by (simp add: pq_k_def)
    obtain x where x: "sub_vector pq query sub = Some x" "length x = pq_sub_dim pq"
      using sub_vector_total [OF assms(1) sub assms(2)] by blast
    then have "nth_opt table (sub * pq_k + unat (code ! sub)) = sub_distance pq x sub (unat (code ! sub))"
      using T(2) sub b by fastforce
    then show ?thesis
      using x V(2) sub assms(3) sub_distance_total [OF assms(1) sub b x(2)]
      by (simp add: adc_term_def nth_opt_def sub_distance_def)
  qed
  have "adc_sum (adc_term table code) (pq_m pq) = adc_sum ?g (pq_m pq)"
    by (rule adc_sum_cong) (use tm in blast)
  moreover obtain r where "adc_sum (adc_term table code) (pq_m pq) = Some r"
    using adc_sum_total [of "pq_m pq" "adc_term table code"] tm by blast
  ultimately have "adc_distance table code = Some r" "adc_sum ?g (pq_m pq) = Some r"
    using assms(3) by (simp_all add: adc_distance_def)
  then show ?thesis using T(1) V(1) by blast
qed

lemma adc_distance_total:
  assumes "pq_inv pq" and "length query = pq_dim pq" and "adc_table pq query = Some table" and "length code = pq_m pq"
  shows "\<exists>r. adc_distance table code = Some r"
  using adc_decoded_spec [OF assms(1,2,4)] assms(3) by auto



text \<open>
  The codebook survives a checkpoint exactly: the file written for a well-formed quantizer loads
  back to the same quantizer.
\<close>

theorem codebook_roundtrip:
  assumes "pq_inv pq"
  shows "load_codebook crc (codebook_bytes crc pq) = Inr pq"
  by (rule load_codebook_bytes [OF assms])

theorem codebook_roundtrip_witness: "load_codebook (\<lambda>_. 7) (codebook_bytes (\<lambda>_. 7) example_pq) = Inr example_pq"
  by (rule codebook_roundtrip [OF example_pq_inv])

text \<open>
  No malformed codebook is accepted: bytes that parse give a quantizer whose fields are
  consistent and whose centroids are all there, so that encoding and decoding never index out of
  range, and the bytes are exactly that quantizer's encoding.
\<close>

theorem from_bytes_sound:
  assumes "pq_from_bytes data = Some pq"
  shows "pq_inv pq \<and> pq_to_bytes pq = data"
  by (rule pq_from_bytes_inv [OF assms])

theorem from_bytes_sound_witness: "pq_to_bytes example_pq = pq_to_bytes example_pq \<and> pq_inv example_pq"
  using from_bytes_sound [OF pq_bytes_spec [OF example_pq_inv]] by blast

end
