(* ===== verification/Db.thy ===== *)
theory Db
  imports Store Wal Persist Pq Hnsw_Insert
begin

text \<open>
  \<^verbatim>\<open>src/vektordb-core/src/db.rs\<close>: the database.  It owns the vector store, the graph, the
  write-ahead log and the quantizer with its codes; one directory holds four files.  The operations
  run one at a time here, in the order a single thread issues them, and the scratch is that
  thread's.  \<open>None\<close> is a panic, or a use of \<^verbatim>\<open>unsafe\<close> code outside its contract.

  The level \<^verbatim>\<open>level_rng\<close> draws for an id is a function of the id (it seeds a fresh generator with
  it); the generator is a library, so the function is a parameter.  So are the checksum, what
  the processor supports, and the sizes the file system grants.
\<close>

section \<open>State\<close>

record env =
  en_crc :: crc_fun
  en_avx :: bool
  en_limit :: nat
  en_map_limit :: nat
  en_level :: "nat \<Rightarrow> nat"

record disk =
  dk_store :: "vfile option"
  dk_snap :: "byte list option"
  dk_codebook :: "byte list option"
  dk_wal :: "byte list option"

record pq_state =
  ps_pq :: quantizer
  ps_codes :: "byte list"

record db_options =
  opt_config :: hnsw_config
  opt_sync :: sync_policy
  opt_enable_wal :: bool

definition default_options :: db_options where
  "default_options = \<lparr>opt_config = default_config, opt_sync = Always, opt_enable_wal = True\<rparr>"

text \<open>
  The handles, and what the files without a handle hold: the snapshot, the codebook, and the log
  when logging is off.
\<close>

record db =
  db_store :: vstore
  db_index :: hnsw
  db_wal :: "wal option"
  db_pq :: "pq_state option"
  db_scratch :: visited
  db_snap :: "byte list option"
  db_codebook :: "byte list option"
  db_wal_file :: "byte list option"

definition files_of :: "db \<Rightarrow> disk" where
  "files_of db =
     \<lparr>dk_store = Some (vs_file (db_store db)), dk_snap = db_snap db, dk_codebook = db_codebook db,
      dk_wal = (case db_wal db of Some w \<Rightarrow> Some (wal_content w) | None \<Rightarrow> db_wal_file db)\<rparr>"

text \<open>Fallible code that may also panic: the first panic or the first error stops it.\<close>

definition and_then :: "'a result option \<Rightarrow> ('a \<Rightarrow> 'b result option) \<Rightarrow> 'b result option" where
  "and_then r f = (case r of None \<Rightarrow> None | Some (Inl e) \<Rightarrow> Some (Inl e) | Some (Inr x) \<Rightarrow> f x)"

lemma and_then_simps [simp]:
  "and_then None f = None"
  "and_then (Some (Inl e)) f = Some (Inl e)"
  "and_then (Some (Inr x)) f = f x"
  by (simp_all add: and_then_def)

text \<open>What the graph may read of the store: a row below the count (\<^verbatim>\<open>get_unchecked\<close>'s contract).\<close>

definition store_vec :: "vstore \<Rightarrow> vec_fun" where
  "store_vec s i = (if i < vs_count s then Some (vs_get_unchecked s i) else None)"

definition db_len :: "db \<Rightarrow> nat" where
  "db_len db = hnsw_len (db_index db)"

definition db_get :: "db \<Rightarrow> nat \<Rightarrow> f32 list result" where
  "db_get db i = vs_get (db_store db) i"

definition orphan_count :: "db \<Rightarrow> nat option" where
  "orphan_count db = zero_indegree_count (db_index db)"

section \<open>Codes\<close>

text \<open>\<^verbatim>\<open>encode_all\<close>: the chunks are encoded in parallel, each from its own row.\<close>

definition encode_all :: "quantizer \<Rightarrow> vstore \<Rightarrow> byte list option" where
  "encode_all pq s = do {
     codes \<leftarrow> map_opt (\<lambda>i. do { v \<leftarrow> store_vec s i; pq_encode pq v }) [0..<vs_len s];
     Some (concat codes) }"

text \<open>\<^verbatim>\<open>Vec::resize(n, 0)\<close>.\<close>

definition resize :: "byte list \<Rightarrow> nat \<Rightarrow> byte list" where
  "resize codes n = take n codes @ replicate (n - length codes) 0"

definition encode_row :: "db \<Rightarrow> f32 list \<Rightarrow> nat \<Rightarrow> db option" where
  "encode_row db v i =
     (case db_pq db of
        None \<Rightarrow> Some db
      | Some st \<Rightarrow> do {
          let m = pq_m (ps_pq st);
          let need = (i + 1) * m;
          let codes = (if length (ps_codes st) < need then resize (ps_codes st) need else ps_codes st);
          code \<leftarrow> pq_encode (ps_pq st) v;
          Some (db\<lparr>db_pq := Some (st\<lparr>ps_codes :=
            take (i * m) codes @ code @ drop (i * m + m) codes\<rparr>)\<rparr>) })"

section \<open>Opening and recovery\<close>

definition open_store :: "env \<Rightarrow> disk \<Rightarrow> nat \<Rightarrow> vstore result" where
  "open_store e d dim =
     (case dk_store d of
        Some f \<Rightarrow> vs_open f
      | None \<Rightarrow> vs_create (en_limit e) (en_map_limit e) dim)"

definition load_index :: "env \<Rightarrow> disk \<Rightarrow> db_options \<Rightarrow> (hnsw \<times> nat) result option" where
  "load_index e d opts =
     (case dk_snap d of
        Some bs \<Rightarrow> hnsw_load (en_crc e) (en_avx e) bs
      | None \<Rightarrow> Some (rbind (hnsw_new (en_avx e) (opt_config opts)) (\<lambda>h. Inr (h, 0))))"

type_synonym replay_state = "vstore \<times> hnsw \<times> visited"

definition replay_store :: "vstore \<Rightarrow> nat \<Rightarrow> f32 list \<Rightarrow> vstore result" where
  "replay_store s i v =
     (if i = vs_len s then (case vs_append s v of (s', r) \<Rightarrow> rbind r (\<lambda>_. Inr s'))
      else if vs_len s < i then Inl (Corrupt (''WAL skips store id '' @ show_nat (vs_len s)))
      else rbind (vs_get s i) (\<lambda>u.
        rbind (ensure (f32s_eq u v)
          (Corrupt (''WAL vector '' @ show_nat i @ '' disagrees with vector store''))) (\<lambda>_. Inr s)))"

definition replay_index :: "env \<Rightarrow> vstore \<Rightarrow> hnsw \<Rightarrow> visited \<Rightarrow> nat \<Rightarrow> (hnsw \<times> visited) result option" where
  "replay_index e s h vis i =
     (if i = hnsw_len h then map_option Inr (hnsw_insert h (store_vec s) i (en_level e i) vis)
      else if hnsw_len h < i then Some (Inl (Corrupt (''WAL skips index id '' @ show_nat (hnsw_len h))))
      else Some (Inr (h, vis)))"

primrec replay :: "env \<Rightarrow> nat \<Rightarrow> (nat \<times> wal_op) list \<Rightarrow> replay_state \<Rightarrow> replay_state result option" where
  "replay e replay_from [] st = Some (Inr st)"
| "replay e replay_from (r # rs) st =
     (if fst r < replay_from then replay e replay_from rs st
      else
        case st of (s, h, vis) \<Rightarrow>
        case snd r of Insert i v \<Rightarrow>
        case replay_store s i v of
          Inl err \<Rightarrow> Some (Inl err)
        | Inr s' \<Rightarrow> and_then (replay_index e s' h vis i) (\<lambda>(h', vis'). replay e replay_from rs (s', h', vis')))"

definition wal_bytes :: "disk \<Rightarrow> byte list" where
  "wal_bytes d = (case dk_wal d of None \<Rightarrow> [] | Some bs \<Rightarrow> bs)"

definition open_codebook :: "env \<Rightarrow> disk \<Rightarrow> vstore \<Rightarrow> pq_state option result option" where
  "open_codebook e d s =
     (case dk_codebook d of
        None \<Rightarrow> Some (Inr None)
      | Some bs \<Rightarrow>
          and_then (Some (load_codebook (en_crc e) bs)) (\<lambda>q.
            if pq_dim q \<noteq> vs_dim s then
              Some (Inl (Corrupt (''pq.codebook is for dim '' @ show_nat (pq_dim q) @ '', store has '' @
                show_nat (vs_dim s))))
            else do { codes \<leftarrow> encode_all q s; Some (Inr (Some \<lparr>ps_pq = q, ps_codes = codes\<rparr>)) }))"

text \<open>Opening the log, when it is on or has something to recover, and replaying it.\<close>

definition recover :: "env \<Rightarrow> (nat \<Rightarrow> nat \<Rightarrow> bool) \<Rightarrow> io_out \<Rightarrow> disk \<Rightarrow> db_options \<Rightarrow> nat \<Rightarrow> replay_state \<Rightarrow>
    (replay_state \<times> wal option) result option" where
  "recover e rd io d opts replay_from st =
     (if opt_enable_wal opts \<or> wal_bytes d \<noteq> [] then
        and_then (Some (snd (wal_open (en_crc e) rd (wal_bytes d) (opt_sync opts) io))) (\<lambda>(w, records).
        and_then (replay e replay_from records st) (\<lambda>st'.
        Some (Inr (st', Some (ensure_lsn_at_least w replay_from)))))
      else Some (Inr (st, None)))"

definition db_open :: "env \<Rightarrow> (nat \<Rightarrow> nat \<Rightarrow> bool) \<Rightarrow> io_out \<Rightarrow> disk \<Rightarrow> nat \<Rightarrow> db_options \<Rightarrow> db result option" where
  "db_open e rd io d dim opts =
     and_then (Some (open_store e d dim)) (\<lambda>s.
     if vs_dim s \<noteq> dim then Some (Inl (DimensionMismatch (vs_dim s) dim))
     else and_then (load_index e d opts) (\<lambda>(h, replay_from).
     and_then (recover e rd io d opts replay_from (s, h, vis_new)) (\<lambda>((s', h', vis'), w).
     if hnsw_len h' \<noteq> vs_len s' then
       Some (Inl (Corrupt (''index/store length mismatch: index has '' @ show_nat (hnsw_len h') @
         '', store has '' @ show_nat (vs_len s'))))
     else and_then (open_codebook e d s') (\<lambda>pq.
     Some (Inr \<lparr>db_store = s', db_index = h', db_wal = (if opt_enable_wal opts then w else None),
        db_pq = pq, db_scratch = vis', db_snap = dk_snap d, db_codebook = dk_codebook d,
        db_wal_file = (case w of None \<Rightarrow> dk_wal d | Some w' \<Rightarrow> Some (wal_content w'))\<rparr>)))))"

section \<open>Inserting\<close>

text \<open>The log's critical section: \<^verbatim>\<open>insert_row_storage_only\<close>, and the same block in \<^verbatim>\<open>insert\<close>.\<close>

definition insert_row_storage_only :: "env \<Rightarrow> db \<Rightarrow> f32 list \<Rightarrow> io_out \<Rightarrow> db \<times> nat result" where
  "insert_row_storage_only e db v io =
     (case db_wal db of
        Some w \<Rightarrow>
          (case ensure_healthy w of
             Inl err \<Rightarrow> (db, Inl err)
           | Inr _ \<Rightarrow>
               (case vs_append (db_store db) v of
                  (s, Inl err) \<Rightarrow> (db\<lparr>db_store := s\<rparr>, Inl err)
                | (s, Inr i) \<Rightarrow>
                    (case wal_append (en_crc e) w (Insert i v) io of
                       (w', Inr _) \<Rightarrow> (db\<lparr>db_store := s, db_wal := Some w'\<rparr>, Inr i)
                     | (w', Inl write_error) \<Rightarrow>
                         (case vs_rollback_last s i of
                            (s', r) \<Rightarrow> (db\<lparr>db_store := s', db_wal := Some w'\<rparr>,
                              rbind r (\<lambda>_. Inl write_error))))))
      | None \<Rightarrow> (case vs_append (db_store db) v of (s, r) \<Rightarrow> (db\<lparr>db_store := s\<rparr>, r)))"

definition index_row :: "env \<Rightarrow> db \<Rightarrow> nat \<Rightarrow> db option" where
  "index_row e db i = do {
     (h, vis) \<leftarrow> hnsw_insert (db_index db) (store_vec (db_store db)) i (en_level e i) (db_scratch db);
     Some (db\<lparr>db_index := h, db_scratch := vis\<rparr>) }"

definition db_insert :: "env \<Rightarrow> db \<Rightarrow> f32 list \<Rightarrow> io_out \<Rightarrow> (db \<times> nat result) option" where
  "db_insert e db v io =
     (case insert_row_storage_only e db v io of
        (db1, Inl err) \<Rightarrow> Some (db1, Inl err)
      | (db1, Inr i) \<Rightarrow> do {
          db2 \<leftarrow> index_row e db1 i;
          db3 \<leftarrow> encode_row db2 v i;
          Some (db3, Inr i) })"

text \<open>\<^verbatim>\<open>add_batch\<close>: the rows that went in before an error are indexed all the same.\<close>

definition rows_of :: "nat \<Rightarrow> f32 list \<Rightarrow> f32 list list" where
  "rows_of dim batch = map (\<lambda>i. take dim (drop (i * dim) batch)) [0..<length batch div dim]"

primrec batch_rows :: "env \<Rightarrow> (nat \<Rightarrow> io_out) \<Rightarrow> nat \<Rightarrow> f32 list list \<Rightarrow> db \<Rightarrow> db \<times> nat \<times> error option" where
  "batch_rows e io inserted [] db = (db, inserted, None)"
| "batch_rows e io inserted (row # rows) db =
     (case insert_row_storage_only e db row (io inserted) of
        (db', Inr _) \<Rightarrow> batch_rows e io (inserted + 1) rows db'
      | (db', Inl err) \<Rightarrow> (db', inserted, Some err))"

text \<open>
  The rows are linked in parallel; here they are linked in the order of their ids, and \<open>Db_Batch\<close> has
  them linked by threads in any order.
\<close>

primrec index_rows :: "env \<Rightarrow> nat list \<Rightarrow> db \<Rightarrow> db option" where
  "index_rows e [] db = Some db"
| "index_rows e (i # is) db = do { db' \<leftarrow> index_row e db i; index_rows e is db' }"

definition encode_batch :: "db \<Rightarrow> nat \<Rightarrow> nat \<Rightarrow> db option" where
  "encode_batch db base n =
     (case db_pq db of
       None \<Rightarrow> Some db
     | Some st \<Rightarrow> do {
         let m = pq_m (ps_pq st);
         let codes = resize (ps_codes st) ((base + n) * m);
         new \<leftarrow> map_opt (\<lambda>i. do { v \<leftarrow> store_vec (db_store db) i; pq_encode (ps_pq st) v }) [base..<base + n];
         Some (db\<lparr>db_pq := Some (st\<lparr>ps_codes := take (base * m) codes @ concat new\<rparr>)\<rparr>) })"

definition finish_batch :: "env \<Rightarrow> db \<Rightarrow> nat \<Rightarrow> nat \<Rightarrow> db option" where
  "finish_batch e db base n = do {
     db' \<leftarrow> index_rows e [base..<base + n] db;
     encode_batch db' base n }"

definition db_add_batch :: "env \<Rightarrow> db \<Rightarrow> f32 list \<Rightarrow> (nat \<Rightarrow> io_out) \<Rightarrow> (db \<times> nat result) option" where
  "db_add_batch e db batch io =
     (let dim = vs_dim (db_store db)
      in if length batch mod dim \<noteq> 0 then
           Some (db, Inl (InvalidArgument (''batch length '' @ show_nat (length batch) @
             '' is not a multiple of dimension '' @ show_nat dim)))
         else
           let base = vs_len (db_store db)
           in case batch_rows e io 0 (rows_of dim batch) db of
                (db1, inserted, err) \<Rightarrow> do {
                  db2 \<leftarrow> finish_batch e db1 base inserted;
                  Some (db2, case err of None \<Rightarrow> Inr base | Some er \<Rightarrow> Inl er) })"

section \<open>Searching\<close>

definition db_search :: "db \<Rightarrow> f32 list \<Rightarrow> nat \<Rightarrow> nat \<Rightarrow> (db \<times> neighbor list result) option" where
  "db_search db query k ef =
     (if length query \<noteq> vs_dim (db_store db) then
        Some (db, Inl (DimensionMismatch (vs_dim (db_store db)) (length query)))
      else do {
        (out, vis) \<leftarrow> hnsw_search (db_index db) (store_vec (db_store db)) query (db_scratch db) k ef;
        Some (db\<lparr>db_scratch := vis\<rparr>, Inr out) })"

definition adc_dist :: "pq_state \<Rightarrow> f32 list \<Rightarrow> dist_fun" where
  "adc_dist st table i = do {
     code \<leftarrow> slice (ps_codes st) (i * pq_m (ps_pq st)) (pq_m (ps_pq st));
     adc_distance table code }"

definition rerank_hit :: "env \<Rightarrow> db \<Rightarrow> f32 list \<Rightarrow> neighbor \<Rightarrow> neighbor option" where
  "rerank_hit e db query hit = do {
     v \<leftarrow> store_vec (db_store db) (nb_id hit);
     d \<leftarrow> kernel (en_avx e) (cfg_metric (hn_config (db_index db))) query v;
     Some (Neighbor (nb_id hit) d) }"

definition db_search_pq :: "env \<Rightarrow> db \<Rightarrow> f32 list \<Rightarrow> nat \<Rightarrow> nat \<Rightarrow> nat \<Rightarrow> (db \<times> neighbor list result) option" where
  "db_search_pq e db query k ef rerank =
     (if length query \<noteq> vs_dim (db_store db) then
        Some (db, Inl (DimensionMismatch (vs_dim (db_store db)) (length query)))
      else case db_pq db of
        None \<Rightarrow> Some (db, Inl (Corrupt ''PQ not trained; call train_pq first''))
      | Some st \<Rightarrow> do {
          table \<leftarrow> adc_table (ps_pq st) query;
          case (if rerank = 0 then Some k else checked_mul k rerank) of
            None \<Rightarrow> Some (db, Inl (InvalidArgument ''k * rerank overflows''))
          | Some fetch \<Rightarrow> do {
              (hits, vis) \<leftarrow> search_with_oracle (db_index db) (adc_dist st table) (db_scratch db) fetch (max ef fetch);
              let db' = db\<lparr>db_scratch := vis\<rparr>;
              if rerank = 0 then Some (db', Inr hits)
              else do {
                exact \<leftarrow> map_opt (rerank_hit e db query) hits;
                Some (db', Inr (take k (sort exact))) } } })"

section \<open>Checkpoint\<close>

text \<open>How each device step of a checkpoint ends.\<close>

record checkpoint_io =
  ck_msync :: bool
  ck_codebook :: replace_out
  ck_snap :: replace_out
  ck_reset :: io_out

definition save_codebook :: "env \<Rightarrow> db \<Rightarrow> replace_out \<Rightarrow> db \<times> unit result" where
  "save_codebook e db io =
     (case db_pq db of
        None \<Rightarrow> (db, Inr ())
      | Some st \<Rightarrow>
          (case replace_file (db_codebook db) (codebook_bytes (en_crc e) (ps_pq st)) io of
             (bs, r) \<Rightarrow> (db\<lparr>db_codebook := bs\<rparr>, r)))"

definition save_index :: "env \<Rightarrow> db \<Rightarrow> nat \<Rightarrow> replace_out \<Rightarrow> (db \<times> unit result) option" where
  "save_index e db lsn io = do {
     (bs, r) \<leftarrow> hnsw_save (en_crc e) (db_index db) lsn (db_snap db) io;
     Some (db\<lparr>db_snap := bs\<rparr>, r) }"

definition db_checkpoint :: "env \<Rightarrow> db \<Rightarrow> checkpoint_io \<Rightarrow> (db \<times> unit result) option" where
  "db_checkpoint e db io =
     (case vs_flush (db_store db) (ck_msync io) of
        (s, Inl err) \<Rightarrow> Some (db\<lparr>db_store := s\<rparr>, Inl err)
      | (s, Inr _) \<Rightarrow>
          (case save_codebook e (db\<lparr>db_store := s\<rparr>) (ck_codebook io) of
             (db1, Inl err) \<Rightarrow> Some (db1, Inl err)
           | (db1, Inr _) \<Rightarrow>
               (case db_wal db1 of
                  None \<Rightarrow> save_index e db1 0 (ck_snap io)
                | Some w \<Rightarrow>
                    (case ensure_healthy w of
                       Inl err \<Rightarrow> Some (db1, Inl err)
                     | Inr _ \<Rightarrow> do {
                         (db2, r) \<leftarrow> save_index e db1 (wal_next_lsn w) (ck_snap io);
                         case r of
                           Inl err \<Rightarrow> Some (db2, Inl err)
                         | Inr _ \<Rightarrow>
                             (case wal_reset w (ck_reset io) of
                                (w', r') \<Rightarrow> Some (db2\<lparr>db_wal := Some w'\<rparr>, r')) }))))"

end
