(* ===== verification/Db_Inv.thy ===== *)
theory Db_Inv
  imports Db Exact
begin

text \<open>
  What every operation of the database keeps while it runs: a sound store and a sound graph over the
  same ids, and, once a quantizer is trained, codes that are a fresh encoding of every row.  From it:
  inserts act as appends, and searches never panic.
\<close>

section \<open>The invariant\<close>

definition db_vectors :: "db \<Rightarrow> f32 list list" where
  "db_vectors db = vs_vectors (db_store db)"

definition db_dim :: "db \<Rightarrow> nat" where
  "db_dim db = vs_dim (db_store db)"

text \<open>
  A graph the snapshot format can hold: no node on layer 64, which a level drawn from a positive
  double never reaches (\<open>Hnsw_Level\<close>).
\<close>

definition levels_ok :: "env \<Rightarrow> bool" where
  "levels_ok e \<longleftrightarrow> (\<forall>i. en_level e i < 64)"

definition graph_ok :: "env \<Rightarrow> hnsw \<Rightarrow> bool" where
  "graph_ok e h \<longleftrightarrow>
     hn_inv h \<and> on_layer h 64 = {} \<and> cfg_ef_construction (hn_config h) < 2 ^ 32 \<and>
     hn_kernel h = kernel (en_avx e) (cfg_metric (hn_config h))"

definition codes_of :: "quantizer \<Rightarrow> f32 list list \<Rightarrow> byte list option" where
  "codes_of q vs = map_option concat (map_opt (pq_encode q) vs)"

definition pq_ok :: "nat \<Rightarrow> f32 list list \<Rightarrow> pq_state option \<Rightarrow> bool" where
  "pq_ok dim vs pq \<longleftrightarrow>
     (case pq of
        None \<Rightarrow> True
      | Some st \<Rightarrow> pq_inv (ps_pq st) \<and> pq_dim (ps_pq st) = dim \<and> codes_of (ps_pq st) vs = Some (ps_codes st))"

definition db_ok :: "env \<Rightarrow> db \<Rightarrow> bool" where
  "db_ok e db \<longleftrightarrow>
     vs_inv (db_store db) \<and> graph_ok e (db_index db) \<and> hnsw_len (db_index db) = vs_count (db_store db) \<and>
     vis_inv (db_scratch db) \<and> pq_ok (db_dim db) (db_vectors db) (db_pq db)"

section \<open>The graph's view of the store\<close>

lemma row_length [simp]: "length (vs_get_unchecked s i) = vs_dim s"
  using get_length [of s i] by simp

lemma store_capacity: "vs_inv s \<Longrightarrow> vs_count s \<le> sv_capacity"
proof -
  assume inv: "vs_inv s"
  then have "vs_count s \<le> seg_first base_rows (vs_mapped s)" "vs_mapped s \<le> max_segments"
    by (simp_all add: vs_inv_def geometry_ok_def)
  moreover have "seg_first base_rows (vs_mapped s) \<le> seg_first base_rows max_segments"
    if "vs_mapped s \<le> max_segments"
    using that by (simp add: seg_first_def diff_le_mono)
  ultimately show ?thesis by (simp add: sv_capacity_def sv_base_def sv_max_segments_def store_consts)
qed

lemma store_vec_rows: "i < vs_count s \<Longrightarrow> \<exists>v. store_vec s i = Some v \<and> length v = vs_dim s"
  by (simp add: store_vec_def)

lemma store_vecs_ok: "n \<le> vs_count s \<Longrightarrow> vecs_ok (kernel avx m) (store_vec s) n"
  using store_vec_rows by (intro vecs_ok_kernel [where dim = "vs_dim s"]) simp

lemma graph_insert:
  assumes g: "graph_ok e h" and s: "vs_inv s" and i: "i = hnsw_len h" "i < vs_count s"
    and lev: "levels_ok e" and vis: "vis_inv vis"
  shows "\<exists>h' vis'. hnsw_insert h (store_vec s) i (en_level e i) vis = Some (h', vis') \<and> graph_ok e h' \<and>
     hnsw_len h' = Suc i \<and> hn_config h' = hn_config h \<and> vis_inv vis'"
proof -
  have inv: "hn_inv h" and top: "on_layer h 64 = {}" using g by (simp_all add: graph_ok_def)
  have room: "hnsw_len h < sv_capacity" using store_capacity [OF s] i by simp
  have l: "en_level e i < 64" using lev by (simp add: levels_ok_def)
  then have "en_level e i < 256" by simp
  moreover have "vecs_ok (hn_kernel h) (store_vec s) (Suc (hnsw_len h))"
    using store_vecs_ok [of "Suc (hnsw_len h)" s] i g by (simp add: graph_ok_def)
  ultimately obtain h' vis' where H: "hnsw_insert h (store_vec s) (hnsw_len h) (en_level e i) vis = Some (h', vis')"
    "hn_inv h'" "hnsw_len h' = Suc (hnsw_len h)" "hn_config h' = hn_config h" "hn_kernel h' = hn_kernel h"
    "vis_inv vis'" "\<forall>l. on_layer h' l = on_layer h l \<union> (if l \<le> en_level e i then {hnsw_len h} else {})"
    using hnsw_insert_layers [OF inv room _ _ vis] by blast
  then have "on_layer h' 64 = {}" using top l by simp
  then have "graph_ok e h'" using H g by (simp add: graph_ok_def)
  then show ?thesis using H i by blast
qed

section \<open>Codes\<close>

lemma map_opt_append: "map_opt f (xs @ ys) = do { a \<leftarrow> map_opt f xs; b \<leftarrow> map_opt f ys; Some (a @ b) }"
  by (induction xs) (auto split: bind_splits)

lemma map_opt_map: "map_opt f (map g xs) = map_opt (\<lambda>x. f (g x)) xs"
  by (induction xs) auto

lemma map_opt_cong: "(\<And>x. x \<in> set xs \<Longrightarrow> f x = g x) \<Longrightarrow> map_opt f xs = map_opt g xs"
  by (induction xs) auto

lemma encode_rows:
  "a \<le> b \<Longrightarrow> b \<le> vs_count s \<Longrightarrow>
     map_opt (\<lambda>i. do { v \<leftarrow> store_vec s i; pq_encode q v }) [a..<b] =
     map_opt (pq_encode q) (drop a (take b (vs_vectors s)))"
proof -
  assume le: "a \<le> b" "b \<le> vs_count s"
  have "drop a (take b (vs_vectors s)) = map (vs_get_unchecked s) [a..<b]"
    using le by (intro nth_equalityI) simp_all
  then show ?thesis
    using le by (simp add: map_opt_map) (rule map_opt_cong, simp add: store_vec_def)
qed

lemma encode_all_codes: "encode_all q s = codes_of q (vs_vectors s)"
  using encode_rows [of 0 "vs_count s" s q]
  by (cases "map_opt (pq_encode q) (vs_vectors s)") (simp_all add: encode_all_def codes_of_def vs_len_def)

lemma codes_of_total:
  "pq_inv q \<Longrightarrow> \<forall>v \<in> set vs. length v = pq_dim q \<Longrightarrow>
     \<exists>cs. map_opt (pq_encode q) vs = Some cs \<and> length cs = length vs \<and> (\<forall>c \<in> set cs. length c = pq_m q)"
proof (induction vs)
  case Nil
  then show ?case by simp
next
  case (Cons v vs)
  then show ?case using pq_encode_spec [of q v] by fastforce
qed

lemma concat_lengths: "\<forall>c \<in> set cs. length c = m \<Longrightarrow> length (concat cs) = length cs * m"
  by (induction cs) auto

lemma codes_of_length:
  "pq_inv q \<Longrightarrow> \<forall>v \<in> set vs. length v = pq_dim q \<Longrightarrow> codes_of q vs = Some codes \<Longrightarrow>
     length codes = length vs * pq_m q"
  using codes_of_total [of q vs] concat_lengths by (fastforce simp: codes_of_def)

lemma vectors_dim: "v \<in> set (vs_vectors s) \<Longrightarrow> length v = vs_dim s"
  by (auto simp: vs_vectors_def)

section \<open>One row into store and log\<close>

lemma insert_row_spec:
  assumes inv: "vs_inv (db_store db)" and ins: "insert_row_storage_only e db v io = (db', r)"
  shows "vs_inv (db_store db') \<and> db_dim db' = db_dim db \<and>
     header_count (vs_file (db_store db')) = header_count (vs_file (db_store db)) \<and>
     (\<exists>s w. db' = db\<lparr>db_store := s, db_wal := w\<rparr>) \<and>
     (case r of
        Inr i \<Rightarrow> length v = db_dim db \<and> i = length (db_vectors db) \<and> db_vectors db' = db_vectors db @ [v]
      | Inl err \<Rightarrow> db_vectors db' = db_vectors db)"
proof -
  obtain s ra where app: "vs_append (db_store db) v = (s, ra)" by fastforce
  note A = vs_append_spec [OF inv app]
  have same: "db\<lparr>db_store := t\<rparr> = db\<lparr>db_store := t, db_wal := db_wal db\<rparr>" for t by simp
  show ?thesis
  proof (cases "db_wal db")
    case None
    then have r: "r = ra" "db' = db\<lparr>db_store := s\<rparr>"
      using ins app by (simp_all add: insert_row_storage_only_def)
    have "db' = db\<lparr>db_store := s, db_wal := None\<rparr>" unfolding r(2) using None by (cases db) simp
    with r(1) show ?thesis using A by (auto simp: db_dim_def db_vectors_def split: sum.splits)
  next
    case (Some w)
    show ?thesis
    proof (cases "\<exists>err. ensure_healthy w = Inl err")
      case True
      then have "db' = db" "\<exists>err. r = Inl err" using ins Some by (auto simp: insert_row_storage_only_def)
      moreover have "\<exists>s w. db = db\<lparr>db_store := s, db_wal := w\<rparr>"
        by (intro exI [of _ "db_store db"] exI [of _ "db_wal db"]) simp
      ultimately show ?thesis using inv by (auto simp: db_dim_def db_vectors_def)
    next
      case False
      then obtain u where h: "ensure_healthy w = Inr u" by (cases "ensure_healthy w") auto
      show ?thesis
      proof (cases ra)
        case (Inl err)
        then have "db' = db\<lparr>db_store := s, db_wal := Some w\<rparr>" "r = Inl err"
          using ins Some h app same [of s] by (simp_all add: insert_row_storage_only_def)
        then show ?thesis using A Inl by (auto simp: db_dim_def db_vectors_def)
      next
        case (Inr i)
        obtain w' rw where W: "wal_append (en_crc e) w (Insert i v) io = (w', rw)" by fastforce
        note R = vs_rollback_spec [OF inv app [unfolded Inr]]
        show ?thesis
        proof (cases rw)
          case (Inl we)
          then have "db' = db\<lparr>db_store := s\<lparr>vs_count := i\<rparr>, db_wal := Some w'\<rparr>" "r = Inl we"
            using ins Some h app Inr W R by (auto simp: insert_row_storage_only_def)
          then show ?thesis using A R by (auto simp: db_dim_def db_vectors_def)
        next
          case rw: (Inr lsn)
          then have "db' = db\<lparr>db_store := s, db_wal := Some w'\<rparr>" "r = Inr i"
            using ins Some h app Inr W by (auto simp: insert_row_storage_only_def)
          then show ?thesis using A Inr by (auto simp: db_dim_def db_vectors_def)
        qed
      qed
    qed
  qed
qed

section \<open>Indexing and encoding a row\<close>

text \<open>The graph is one row behind the store while an insert is under way.\<close>

lemma index_row_spec:
  assumes "vs_inv (db_store db)" "graph_ok e (db_index db)" "vis_inv (db_scratch db)" "levels_ok e"
    and "i = hnsw_len (db_index db)" "i < vs_count (db_store db)"
  shows "\<exists>h vis. index_row e db i = Some (db\<lparr>db_index := h, db_scratch := vis\<rparr>) \<and> graph_ok e h \<and>
     hnsw_len h = Suc i \<and> hn_config h = hn_config (db_index db) \<and> vis_inv vis"
proof -
  obtain h vis where "hnsw_insert (db_index db) (store_vec (db_store db)) i (en_level e i) (db_scratch db) = Some (h, vis)"
    "graph_ok e h" "hnsw_len h = Suc i" "hn_config h = hn_config (db_index db)" "vis_inv vis"
    using graph_insert [OF assms(2) assms(1) assms(5,6) assms(4) assms(3)] by blast
  then show ?thesis by (intro exI [of _ h] exI [of _ vis]) (simp add: index_row_def)
qed

lemma index_rows_spec:
  "vs_inv (db_store db) \<Longrightarrow> graph_ok e (db_index db) \<Longrightarrow> vis_inv (db_scratch db) \<Longrightarrow> levels_ok e \<Longrightarrow>
   hnsw_len (db_index db) + n \<le> vs_count (db_store db) \<Longrightarrow>
    \<exists>h vis. index_rows e [hnsw_len (db_index db)..<hnsw_len (db_index db) + n] db =
        Some (db\<lparr>db_index := h, db_scratch := vis\<rparr>) \<and> graph_ok e h \<and>
      hnsw_len h = hnsw_len (db_index db) + n \<and> hn_config h = hn_config (db_index db) \<and> vis_inv vis"
proof (induction n arbitrary: db)
  case 0
  then show ?case by (intro exI [of _ "db_index db"] exI [of _ "db_scratch db"]) simp
next
  case (Suc n)
  let ?i = "hnsw_len (db_index db)"
  obtain h vis where H: "index_row e db ?i = Some (db\<lparr>db_index := h, db_scratch := vis\<rparr>)" "graph_ok e h"
    "hnsw_len h = Suc ?i" "hn_config h = hn_config (db_index db)" "vis_inv vis"
    using index_row_spec [OF Suc.prems(1-4), of ?i] Suc.prems(5) by auto
  have up: "[?i..<?i + Suc n] = ?i # [Suc ?i..<Suc ?i + n]" by (simp add: upt_rec)
  show ?case
    using Suc.IH [of "db\<lparr>db_index := h, db_scratch := vis\<rparr>"] H Suc.prems
    unfolding up by (auto simp: H(1))
qed

lemma splice_end:
  "length codes = n * m \<Longrightarrow> length code = m \<Longrightarrow>
     take (n * m) (resize codes ((n + 1) * m)) @ code @ drop (n * m + m) (resize codes ((n + 1) * m)) =
     codes @ code"
  by (simp add: resize_def)

lemma encode_row_spec:
  assumes pq: "pq_ok dim vs (db_pq db)" and i: "i = length vs" and dims: "\<forall>x \<in> set (vs @ [v]). length x = dim"
  shows "\<exists>pq'. encode_row db v i = Some (db\<lparr>db_pq := pq'\<rparr>) \<and> pq_ok dim (vs @ [v]) pq' \<and>
     (pq' = None \<longleftrightarrow> db_pq db = None) \<and> map_option ps_pq pq' = map_option ps_pq (db_pq db)"
proof (cases "db_pq db")
  case None
  then have "db = db\<lparr>db_pq := None\<rparr>" by simp
  then show ?thesis using None by (auto simp: encode_row_def pq_ok_def)
next
  case (Some st)
  let ?q = "ps_pq st" and ?m = "pq_m (ps_pq st)"
  have P: "pq_inv ?q" "pq_dim ?q = dim" "codes_of ?q vs = Some (ps_codes st)"
    using pq Some by (simp_all add: pq_ok_def)
  obtain code where C: "pq_encode ?q v = Some code" "length code = ?m"
    using pq_encode_spec [OF P(1), of v] P(2) dims by auto
  have len: "length (ps_codes st) = length vs * ?m"
    using codes_of_length [OF P(1) _ P(3)] P(2) dims by simp
  have m: "0 < ?m" using P(1) by (simp add: pq_inv_def)
  have "codes_of ?q (vs @ [v]) = Some (ps_codes st @ code)"
    using P(3) C(1) by (auto simp: codes_of_def map_opt_append)
  moreover have "encode_row db v i = Some (db\<lparr>db_pq := Some (st\<lparr>ps_codes := ps_codes st @ code\<rparr>)\<rparr>)"
    using Some C len m splice_end [OF len C(2)] i by (simp add: encode_row_def Let_def)
  ultimately show ?thesis using P Some by (auto simp: pq_ok_def)
qed

section \<open>Insert\<close>

text \<open>
  One insert, with what it does to the files: those of the row insertion, the graph, the scratch and
  the codes being in memory.
\<close>

lemma db_insert_spec:
  assumes ok: "db_ok e db" and lev: "levels_ok e"
  shows "\<exists>db1 r h vis p. insert_row_storage_only e db v io = (db1, r) \<and>
     db_insert e db v io = Some (db1\<lparr>db_index := h, db_scratch := vis, db_pq := p\<rparr>, r) \<and>
     db_ok e (db1\<lparr>db_index := h, db_scratch := vis, db_pq := p\<rparr>) \<and>
     hn_config h = hn_config (db_index db) \<and> map_option ps_pq p = map_option ps_pq (db_pq db)"
proof -
  obtain db1 r where ins: "insert_row_storage_only e db v io = (db1, r)" by fastforce
  have inv: "vs_inv (db_store db)" and g: "graph_ok e (db_index db)"
    and len: "hnsw_len (db_index db) = vs_count (db_store db)" and vis: "vis_inv (db_scratch db)"
    and pq: "pq_ok (db_dim db) (db_vectors db) (db_pq db)"
    using ok by (simp_all add: db_ok_def)
  note I = insert_row_spec [OF inv ins]
  obtain s w where db1: "db1 = db\<lparr>db_store := s, db_wal := w\<rparr>" using I by blast
  show ?thesis
  proof (cases r)
    case (Inl err)
    then have vs: "db_vectors db1 = db_vectors db" "db_dim db1 = db_dim db" "vs_inv (db_store db1)" using I by simp_all
    then have "vs_count (db_store db1) = vs_count (db_store db)"
      by (metis db_vectors_def length_vs_vectors)
    then have "db_ok e db1" using vs g len vis pq db1 by (simp add: db_ok_def)
    moreover have "db1 = db1\<lparr>db_index := db_index db, db_scratch := db_scratch db, db_pq := db_pq db\<rparr>"
      using db1 by simp
    ultimately show ?thesis using ins Inl
      by (intro exI [of _ db1] exI [of _ r] exI [of _ "db_index db"] exI [of _ "db_scratch db"] exI [of _ "db_pq db"])
        (simp add: db_insert_def)
  next
    case (Inr i)
    then have R: "vs_inv (db_store db1)" "db_dim db1 = db_dim db" "length v = db_dim db" "i = length (db_vectors db)"
      "db_vectors db1 = db_vectors db @ [v]" using I by simp_all
    have i: "i = hnsw_len (db_index db1)" "i < vs_count (db_store db1)"
      using R(4,5) len db1 length_vs_vectors [of "db_store db1"] by (simp_all add: db_vectors_def)
    obtain h vis' where H: "index_row e db1 i = Some (db1\<lparr>db_index := h, db_scratch := vis'\<rparr>)" "graph_ok e h"
      "hnsw_len h = Suc i" "hn_config h = hn_config (db_index db1)" "vis_inv vis'"
      using index_row_spec [OF R(1) _ _ lev i] g vis db1 by auto
    let ?db2 = "db1\<lparr>db_index := h, db_scratch := vis'\<rparr>"
    have dims: "\<forall>x \<in> set (db_vectors db @ [v]). length x = db_dim db"
      using vectors_dim [of _ "db_store db"] R(3) by (auto simp: db_vectors_def db_dim_def)
    obtain p where E: "encode_row ?db2 v i = Some (?db2\<lparr>db_pq := p\<rparr>)" "pq_ok (db_dim db) (db_vectors db @ [v]) p"
      "map_option ps_pq p = map_option ps_pq (db_pq db)"
      using encode_row_spec [OF _ R(4) dims, of ?db2] pq db1 by auto
    have "vs_count (db_store db1) = Suc i"
      using R(4,5) length_vs_vectors [of "db_store db1"] by (simp add: db_vectors_def)
    then have "db_ok e (?db2\<lparr>db_pq := p\<rparr>)"
      using R H E by (simp add: db_ok_def db_vectors_def db_dim_def)
    then show ?thesis using ins Inr H E db1 by (auto simp: db_insert_def)
  qed
qed

section \<open>Batch insert\<close>

lemma rows_of_dim: "row \<in> set (rows_of dim batch) \<Longrightarrow> length row = dim"
proof -
  assume "row \<in> set (rows_of dim batch)"
  then obtain i where i: "i < length batch div dim" "row = take dim (drop (i * dim) batch)"
    by (auto simp: rows_of_def)
  have "(i + 1) * dim \<le> length batch div dim * dim" using i(1) by (intro mult_le_mono1) simp
  also have "\<dots> \<le> length batch" by simp
  finally show ?thesis using i(2) by simp
qed

text \<open>What a run of row insertions leaves: the first of the rows, and whether all of them.\<close>

lemma batch_rows_spec:
  "vs_inv (db_store db) \<Longrightarrow> batch_rows e io k rows db = (db', n, err) \<Longrightarrow>
    vs_inv (db_store db') \<and> db_dim db' = db_dim db \<and> (\<exists>s w. db' = db\<lparr>db_store := s, db_wal := w\<rparr>) \<and>
    k \<le> n \<and> n \<le> k + length rows \<and> db_vectors db' = db_vectors db @ take (n - k) rows \<and>
    (err = None \<longleftrightarrow> n = k + length rows)"
proof (induction rows arbitrary: k db)
  case Nil
  then have "db' = db" "n = k" "err = None" by simp_all
  then show ?case using Nil by (auto intro!: exI [of _ "db_store db"] exI [of _ "db_wal db"])
next
  case (Cons row rows)
  obtain db1 r where ins: "insert_row_storage_only e db row (io k) = (db1, r)" by fastforce
  note I = insert_row_spec [OF Cons.prems(1) ins]
  show ?case
  proof (cases r)
    case (Inl er)
    then have "db' = db1" "n = k" "err = Some er" using Cons.prems(2) ins by simp_all
    then show ?thesis using I Inl by auto
  next
    case (Inr i)
    then have b: "batch_rows e io (k + 1) rows db1 = (db', n, err)" using Cons.prems(2) ins by simp
    have inv: "vs_inv (db_store db1)" using I by blast
    note IH = Cons.IH [OF inv b]
    have "k + 1 \<le> n" using IH by blast
    then have "n - k = Suc (n - (k + 1))" by simp
    then have "take (n - k) (row # rows) = row # take (n - (k + 1)) rows" by simp
    moreover obtain s w where "db1 = db\<lparr>db_store := s, db_wal := w\<rparr>" using I by blast
    ultimately show ?thesis using IH I Inr by fastforce
  qed
qed

lemma encode_batch_spec:
  assumes n: "vs_count (db_store db) = base + n" and pq: "pq_ok (db_dim db) (take base (db_vectors db)) (db_pq db)"
  shows "\<exists>p. encode_batch db base n = Some (db\<lparr>db_pq := p\<rparr>) \<and> pq_ok (db_dim db) (db_vectors db) p \<and>
     map_option ps_pq p = map_option ps_pq (db_pq db)"
proof (cases "db_pq db")
  case None
  then have "db = db\<lparr>db_pq := None\<rparr>" by simp
  then show ?thesis using None by (intro exI [of _ None]) (simp add: encode_batch_def pq_ok_def)
next
  case (Some st)
  let ?q = "ps_pq st" and ?m = "pq_m (ps_pq st)" and ?vs = "db_vectors db"
  have P: "pq_inv ?q" "pq_dim ?q = db_dim db" "codes_of ?q (take base ?vs) = Some (ps_codes st)"
    using pq Some by (simp_all add: pq_ok_def)
  have dims: "\<forall>v \<in> set ?vs. length v = pq_dim ?q"
    using vectors_dim [of _ "db_store db"] P(2) by (auto simp: db_vectors_def db_dim_def)
  have lvs: "length ?vs = base + n" using n by (simp add: db_vectors_def)
  have td: "\<forall>v \<in> set (take base ?vs). length v = pq_dim ?q" "\<forall>v \<in> set (drop base ?vs). length v = pq_dim ?q"
    using dims by (auto dest: in_set_takeD in_set_dropD)
  have len: "length (ps_codes st) = base * ?m"
    using codes_of_length [OF P(1) td(1) P(3)] lvs by simp
  obtain cs where cs: "map_opt (pq_encode ?q) (drop base ?vs) = Some cs"
    using codes_of_total [OF P(1) td(2)] by blast
  have new: "map_opt (\<lambda>i. do { v \<leftarrow> store_vec (db_store db) i; pq_encode ?q v }) [base..<base + n] = Some cs"
    using encode_rows [of base "base + n" "db_store db" ?q] n cs lvs by (simp add: db_vectors_def)
  have "take (base * ?m) (resize (ps_codes st) ((base + n) * ?m)) = ps_codes st"
    using len by (simp add: resize_def)
  then have fin: "encode_batch db base n = Some (db\<lparr>db_pq := Some (st\<lparr>ps_codes := ps_codes st @ concat cs\<rparr>)\<rparr>)"
    using Some new by (simp add: encode_batch_def Let_def)
  have "codes_of ?q (take base ?vs @ drop base ?vs) = Some (ps_codes st @ concat cs)"
    using P(3) cs by (auto simp: codes_of_def map_opt_append simp del: append_take_drop_id)
  then have "pq_ok (db_dim db) ?vs (Some (st\<lparr>ps_codes := ps_codes st @ concat cs\<rparr>))"
    using P by (simp add: pq_ok_def)
  then show ?thesis using fin Some by (intro exI [of _ "Some (st\<lparr>ps_codes := ps_codes st @ concat cs\<rparr>)"]) simp
qed

lemma finish_batch_spec:
  assumes inv: "vs_inv (db_store db)" and g: "graph_ok e (db_index db)" and vis: "vis_inv (db_scratch db)"
    and lev: "levels_ok e" and base: "base = hnsw_len (db_index db)" "vs_count (db_store db) = base + n"
    and pq: "pq_ok (db_dim db) (take base (db_vectors db)) (db_pq db)"
  shows "\<exists>h vis' p. finish_batch e db base n = Some (db\<lparr>db_index := h, db_scratch := vis', db_pq := p\<rparr>) \<and>
     db_ok e (db\<lparr>db_index := h, db_scratch := vis', db_pq := p\<rparr>) \<and>
     hn_config h = hn_config (db_index db) \<and> map_option ps_pq p = map_option ps_pq (db_pq db)"
proof -
  obtain h vis' where H: "index_rows e [base..<base + n] db = Some (db\<lparr>db_index := h, db_scratch := vis'\<rparr>)"
    "graph_ok e h" "hnsw_len h = base + n" "hn_config h = hn_config (db_index db)" "vis_inv vis'"
    using index_rows_spec [OF inv g vis lev, of n] base by auto
  let ?db1 = "db\<lparr>db_index := h, db_scratch := vis'\<rparr>"
  have same: "db_vectors ?db1 = db_vectors db" "db_dim ?db1 = db_dim db" by (simp_all add: db_vectors_def db_dim_def)
  obtain p where P: "encode_batch ?db1 base n = Some (?db1\<lparr>db_pq := p\<rparr>)" "pq_ok (db_dim db) (db_vectors db) p"
    "map_option ps_pq p = map_option ps_pq (db_pq db)"
    using encode_batch_spec [of ?db1 base n] base(2) pq same by auto
  then have "db_ok e (?db1\<lparr>db_pq := p\<rparr>)" using inv H base by (simp add: db_ok_def db_vectors_def db_dim_def)
  then show ?thesis using H(1,4) P by (auto simp: finish_batch_def)
qed

lemma db_add_batch_spec:
  assumes ok: "db_ok e db" and lev: "levels_ok e" and rows: "length batch mod db_dim db = 0"
  shows "\<exists>db1 n err h vis p. batch_rows e io 0 (rows_of (db_dim db) batch) db = (db1, n, err) \<and>
     db_add_batch e db batch io = Some (db1\<lparr>db_index := h, db_scratch := vis, db_pq := p\<rparr>,
       case err of None \<Rightarrow> Inr (length (db_vectors db)) | Some er \<Rightarrow> Inl er) \<and>
     db_ok e (db1\<lparr>db_index := h, db_scratch := vis, db_pq := p\<rparr>) \<and>
     hn_config h = hn_config (db_index db) \<and> map_option ps_pq p = map_option ps_pq (db_pq db)"
proof -
  obtain db1 n err where b: "batch_rows e io 0 (rows_of (db_dim db) batch) db = (db1, n, err)"
    by (metis prod_cases3)
  have inv: "vs_inv (db_store db)" and g: "graph_ok e (db_index db)"
    and len: "hnsw_len (db_index db) = vs_count (db_store db)" and vis: "vis_inv (db_scratch db)"
    and pq: "pq_ok (db_dim db) (db_vectors db) (db_pq db)"
    using ok by (simp_all add: db_ok_def)
  note B = batch_rows_spec [OF inv b]
  obtain s w where db1: "db1 = db\<lparr>db_store := s, db_wal := w\<rparr>" using B by blast
  have vs: "db_vectors db1 = db_vectors db @ take n (rows_of (db_dim db) batch)" "n \<le> length (rows_of (db_dim db) batch)"
    using B by simp_all
  have lb: "length (db_vectors db) = hnsw_len (db_index db1)" using len db1 by (simp add: db_vectors_def)
  have cnt: "vs_count (db_store db1) = hnsw_len (db_index db1) + n"
    using vs lb length_vs_vectors [of "db_store db1"] by (simp add: db_vectors_def)
  have "pq_ok (db_dim db1) (take (hnsw_len (db_index db1)) (db_vectors db1)) (db_pq db1)"
    using pq vs lb B db1 by simp
  then obtain h vis' p where F: "finish_batch e db1 (hnsw_len (db_index db1)) n =
      Some (db1\<lparr>db_index := h, db_scratch := vis', db_pq := p\<rparr>)"
    "db_ok e (db1\<lparr>db_index := h, db_scratch := vis', db_pq := p\<rparr>)" "hn_config h = hn_config (db_index db1)"
    "map_option ps_pq p = map_option ps_pq (db_pq db1)"
    using finish_batch_spec [OF _ _ _ lev refl cnt] B g vis db1 by auto
  have "db_add_batch e db batch io = Some (db1\<lparr>db_index := h, db_scratch := vis', db_pq := p\<rparr>,
       case err of None \<Rightarrow> Inr (length (db_vectors db)) | Some er \<Rightarrow> Inl er)"
    using b rows F(1) lb len db1 by (simp add: db_add_batch_def Let_def db_dim_def vs_len_def split: option.split)
  then show ?thesis using b F db1 by auto
qed

section \<open>Searching\<close>

text \<open>A hit as it should be: an id of the database with the exact distance of its row.\<close>

definition exact_hit :: "env \<Rightarrow> db \<Rightarrow> f32 list \<Rightarrow> neighbor \<Rightarrow> bool" where
  "exact_hit e db query hit \<longleftrightarrow>
     nb_id hit < length (db_vectors db) \<and>
     kernel (en_avx e) (cfg_metric (hn_config (db_index db))) query (db_vectors db ! nb_id hit) = Some (nb_dist hit)"

lemma row_distance:
  assumes "length query = db_dim db" and "i < length (db_vectors db)"
  shows "\<exists>d. hnsw_distance (kernel avx m) (store_vec (db_store db)) query i = Some d \<and>
     kernel avx m query (db_vectors db ! i) = Some d"
proof -
  have "i < vs_count (db_store db)" using assms(2) by (simp add: db_vectors_def)
  moreover have "length query = length (vs_get_unchecked (db_store db) i)" using assms(1) by (simp add: db_dim_def)
  then obtain d where "kernel avx m query (vs_get_unchecked (db_store db) i) = Some d" using kernel_total by blast
  ultimately show ?thesis by (simp add: hnsw_distance_def store_vec_def db_vectors_def)
qed

lemma db_ok_scratch: "db_ok e db \<Longrightarrow> vis_inv vis \<Longrightarrow> db_ok e (db\<lparr>db_scratch := vis\<rparr>)"
  by (simp add: db_ok_def db_dim_def db_vectors_def)

lemma db_search_spec:
  assumes ok: "db_ok e db" and q: "length query = db_dim db"
  shows "\<exists>out vis. db_search db query k ef = Some (db\<lparr>db_scratch := vis\<rparr>, Inr out) \<and>
     db_ok e (db\<lparr>db_scratch := vis\<rparr>) \<and> sorted out \<and> distinct (map nb_id out) \<and> length out \<le> k \<and>
     (\<forall>hit \<in> set out. exact_hit e db query hit) \<and> (0 < k \<and> db_vectors db \<noteq> [] \<longrightarrow> out \<noteq> [])"
proof -
  have h: "hn_inv (db_index db)" "vis_inv (db_scratch db)" "hnsw_len (db_index db) = length (db_vectors db)"
    and kern: "hn_kernel (db_index db) = kernel (en_avx e) (cfg_metric (hn_config (db_index db)))"
    using ok by (simp_all add: db_ok_def graph_ok_def db_vectors_def)
  let ?dist = "hnsw_distance (hn_kernel (db_index db)) (store_vec (db_store db)) query"
  have row: "\<exists>d. ?dist i = Some d \<and> kernel (en_avx e) (cfg_metric (hn_config (db_index db))) query (db_vectors db ! i) = Some d"
    if "i < length (db_vectors db)" for i
    unfolding kern by (rule row_distance [OF q that])
  then have "total_on ?dist {..<hnsw_len (db_index db)}" using h(3) by (fastforce simp: total_on_def)
  then obtain out vis where S: "search_with_oracle (db_index db) ?dist (db_scratch db) k ef = Some (out, vis)"
    "vis_inv vis" "sorted out" "distinct (map nb_id out)" "length out \<le> k" "ids out \<subseteq> {..<hnsw_len (db_index db)}"
    "scored ?dist out" "0 < k \<and> 0 < hnsw_len (db_index db) \<longrightarrow> out \<noteq> []"
    using search_with_oracle_sound [OF h(1,2)] by metis
  have "exact_hit e db query hit" if "hit \<in> set out" for hit
  proof -
    have "nb_id hit < length (db_vectors db)" using that S(6) h(3) by (auto simp: ids_def)
    with row [OF this] show ?thesis using that S(7) by (auto simp: exact_hit_def scored_def)
  qed
  moreover have "db_search db query k ef = Some (db\<lparr>db_scratch := vis\<rparr>, Inr out)"
    using S(1) q by (simp add: db_search_def hnsw_search_def db_dim_def)
  ultimately show ?thesis using S h(3) db_ok_scratch [OF ok S(2)] by auto
qed

lemma adc_dist_total:
  assumes pq: "pq_ok dim vs (Some st)" and dims: "\<forall>v \<in> set vs. length v = dim" and q: "length query = dim"
    and t: "adc_table (ps_pq st) query = Some table" and i: "i < length vs"
  shows "adc_dist st table i \<noteq> None"
proof -
  have P: "pq_inv (ps_pq st)" "pq_dim (ps_pq st) = dim" "codes_of (ps_pq st) vs = Some (ps_codes st)"
    using pq by (simp_all add: pq_ok_def)
  let ?m = "pq_m (ps_pq st)"
  have "length (ps_codes st) = length vs * ?m" using codes_of_length [OF P(1) _ P(3)] P(2) dims by simp
  moreover have "(i + 1) * ?m \<le> length vs * ?m" using i by (intro mult_le_mono1) simp
  ultimately have "i * ?m + ?m \<le> length (ps_codes st)" by simp
  then obtain code where c: "slice (ps_codes st) (i * ?m) ?m = Some code" "length code = ?m"
    using slice_Some slice_length by metis
  then show ?thesis using adc_distance_total [OF P(1) _ t c(2)] P(2) q by (auto simp: adc_dist_def)
qed

lemma rerank_spec:
  assumes q: "length query = db_dim db" and hits: "\<forall>hit \<in> set hits. nb_id hit < length (db_vectors db)"
  shows "\<exists>exact. map_opt (rerank_hit e db query) hits = Some exact \<and> map nb_id exact = map nb_id hits \<and>
     (\<forall>hit \<in> set exact. exact_hit e db query hit)"
  using hits
proof (induction hits)
  case Nil
  then show ?case by simp
next
  case (Cons hit hits)
  let ?k = "kernel (en_avx e) (cfg_metric (hn_config (db_index db)))"
  have i: "nb_id hit < length (db_vectors db)" using Cons.prems by simp
  obtain d where "kernel (en_avx e) (cfg_metric (hn_config (db_index db))) query (db_vectors db ! nb_id hit) = Some d"
    using row_distance [OF q i] by blast
  moreover have "store_vec (db_store db) (nb_id hit) = Some (db_vectors db ! nb_id hit)"
    using i by (simp add: store_vec_def db_vectors_def)
  ultimately show ?case using Cons i by (auto simp: rerank_hit_def exact_hit_def)
qed

lemma search_pq_hits:
  assumes ok: "db_ok e db" and q: "length query = db_dim db" and st: "db_pq db = Some st"
    and room: "rerank = 0 \<or> k * rerank < u64_limit"
  shows "\<exists>vis out. db_search_pq e db query k ef rerank = Some (db\<lparr>db_scratch := vis\<rparr>, Inr out) \<and>
     db_ok e (db\<lparr>db_scratch := vis\<rparr>) \<and> sorted out \<and> distinct (map nb_id out) \<and> length out \<le> k \<and>
     (\<forall>hit \<in> set out. nb_id hit < length (db_vectors db)) \<and>
     (rerank \<noteq> 0 \<longrightarrow> (\<forall>hit \<in> set out. exact_hit e db query hit))"
proof -
  have h: "hn_inv (db_index db)" "vis_inv (db_scratch db)" "hnsw_len (db_index db) = length (db_vectors db)"
    and pq: "pq_ok (db_dim db) (db_vectors db) (Some st)"
    using ok st by (simp_all add: db_ok_def graph_ok_def db_vectors_def)
  obtain table where t: "adc_table (ps_pq st) query = Some table"
    using adc_table_spec [of "ps_pq st" query] pq q by (auto simp: pq_ok_def)
  have dims: "\<forall>v \<in> set (db_vectors db). length v = db_dim db"
    using vectors_dim [of _ "db_store db"] by (auto simp: db_vectors_def db_dim_def)
  obtain fetch where f: "(if rerank = 0 then Some k else checked_mul k rerank) = Some fetch" "rerank = 0 \<Longrightarrow> fetch = k"
    using room by (cases "rerank = 0") (auto simp: checked_mul_def)
  have "total_on (adc_dist st table) {..<hnsw_len (db_index db)}"
    using adc_dist_total [OF pq dims q t] h(3) by (simp add: total_on_def)
  then obtain hits vis where S: "search_with_oracle (db_index db) (adc_dist st table) (db_scratch db) fetch (max ef fetch) =
      Some (hits, vis)" "vis_inv vis" "sorted hits" "distinct (map nb_id hits)" "length hits \<le> fetch"
    "ids hits \<subseteq> {..<hnsw_len (db_index db)}"
    using search_with_oracle_sound [OF h(1,2)] by metis
  have in_range: "\<forall>hit \<in> set hits. nb_id hit < length (db_vectors db)" using S(6) h(3) by (auto simp: ids_def)
  obtain exact where R: "map_opt (rerank_hit e db query) hits = Some exact" "map nb_id exact = map nb_id hits"
    "\<forall>hit \<in> set exact. exact_hit e db query hit"
    using rerank_spec [OF q in_range] by blast
  have go: "db_search_pq e db query k ef rerank = Some (db\<lparr>db_scratch := vis\<rparr>,
      Inr (if rerank = 0 then hits else take k (sort exact)))"
    using q st t f(1) S(1) R(1) by (simp add: db_search_pq_def db_dim_def)
  have "mset (map nb_id (sort exact)) = mset (map nb_id exact)" by simp
  then have "distinct (map nb_id (sort exact))" using R(2) S(4) mset_eq_imp_distinct_iff by metis
  then have d: "distinct (map nb_id (take k (sort exact)))" by (metis distinct_take take_map)
  have s: "sorted (take k (sort exact))" by (simp add: sorted_wrt_take)
  have e: "\<forall>hit \<in> set (take k (sort exact)). exact_hit e db query hit"
    using R(3) by (auto dest!: in_set_takeD)
  show ?thesis
    using go s d e S in_range f(2) db_ok_scratch [OF ok S(2)]
    by (intro exI [of _ vis] exI [of _ "if rerank = 0 then hits else take k (sort exact)"])
      (auto simp: exact_hit_def)
qed

section \<open>Searches on every input\<close>

lemma db_search_ok:
  assumes "db_ok e db"
  shows "\<exists>vis r. db_search db query k ef = Some (db\<lparr>db_scratch := vis\<rparr>, r) \<and> db_ok e (db\<lparr>db_scratch := vis\<rparr>) \<and>
     (if length query \<noteq> db_dim db then r = Inl (DimensionMismatch (db_dim db) (length query))
      else \<exists>out. r = Inr out \<and> sorted out \<and> distinct (map nb_id out) \<and> length out \<le> k \<and>
        (\<forall>hit \<in> set out. exact_hit e db query hit) \<and> (0 < k \<and> db_vectors db \<noteq> [] \<longrightarrow> out \<noteq> []))"
proof (cases "length query = db_dim db")
  case True
  obtain out vis where S: "db_search db query k ef = Some (db\<lparr>db_scratch := vis\<rparr>, Inr out)"
    "db_ok e (db\<lparr>db_scratch := vis\<rparr>)" "sorted out" "distinct (map nb_id out)" "length out \<le> k"
    "\<forall>hit \<in> set out. exact_hit e db query hit" "0 < k \<and> db_vectors db \<noteq> [] \<longrightarrow> out \<noteq> []"
    using db_search_spec [OF assms True] by blast
  then show ?thesis using True by (intro exI [of _ vis] exI [of _ "Inr out"]) simp
next
  case False
  have "db_search db query k ef =
      Some (db\<lparr>db_scratch := db_scratch db\<rparr>, Inl (DimensionMismatch (db_dim db) (length query)))"
    using False by (simp add: db_search_def db_dim_def)
  then show ?thesis using False assms by (intro exI [of _ "db_scratch db"]) simp
qed

lemma db_search_pq_ok:
  assumes "db_ok e db"
  shows "\<exists>vis r. db_search_pq e db query k ef rerank = Some (db\<lparr>db_scratch := vis\<rparr>, r) \<and> db_ok e (db\<lparr>db_scratch := vis\<rparr>) \<and>
     (if length query \<noteq> db_dim db then r = Inl (DimensionMismatch (db_dim db) (length query))
      else if db_pq db = None then \<exists>why. r = Inl (Corrupt why)
      else if rerank \<noteq> 0 \<and> u64_limit \<le> k * rerank then \<exists>why. r = Inl (InvalidArgument why)
      else \<exists>out. r = Inr out \<and> sorted out \<and> distinct (map nb_id out) \<and> length out \<le> k \<and>
        (\<forall>hit \<in> set out. nb_id hit < length (db_vectors db)) \<and>
        (rerank \<noteq> 0 \<longrightarrow> (\<forall>hit \<in> set out. exact_hit e db query hit)))"
proof -
  let ?goal = "\<lambda>vis r. db_search_pq e db query k ef rerank = Some (db\<lparr>db_scratch := vis\<rparr>, r)"
  consider (dim) "length query \<noteq> db_dim db"
    | (untrained) "length query = db_dim db" "db_pq db = None"
    | (large) st where "length query = db_dim db" "db_pq db = Some st" "rerank \<noteq> 0" "u64_limit \<le> k * rerank"
    | (ok) st where "length query = db_dim db" "db_pq db = Some st" "rerank = 0 \<or> k * rerank < u64_limit"
    using not_less by (metis option.exhaust)
  then show ?thesis
  proof cases
    case dim
    then have "?goal (db_scratch db) (Inl (DimensionMismatch (db_dim db) (length query)))"
      by (simp add: db_search_pq_def db_dim_def)
    then show ?thesis using dim assms by (intro exI [of _ "db_scratch db"]) simp
  next
    case untrained
    then have "?goal (db_scratch db) (Inl (Corrupt ''PQ not trained; call train_pq first''))"
      by (simp add: db_search_pq_def db_dim_def)
    then show ?thesis using untrained assms by (intro exI [of _ "db_scratch db"]) simp
  next
    case large
    obtain table where "adc_table (ps_pq st) query = Some table"
      using adc_table_spec [of "ps_pq st" query] assms large(1,2) by (auto simp: db_ok_def pq_ok_def)
    then have "?goal (db_scratch db) (Inl (InvalidArgument ''k * rerank overflows''))"
      using large by (simp add: db_search_pq_def db_dim_def checked_mul_def)
    then show ?thesis using large assms by (intro exI [of _ "db_scratch db"]) simp
  next
    case ok
    obtain vis out where S: "?goal vis (Inr out)" "db_ok e (db\<lparr>db_scratch := vis\<rparr>)" "sorted out"
      "distinct (map nb_id out)" "length out \<le> k" "\<forall>hit \<in> set out. nb_id hit < length (db_vectors db)"
      "rerank \<noteq> 0 \<longrightarrow> (\<forall>hit \<in> set out. exact_hit e db query hit)"
      using search_pq_hits [OF assms ok] by blast
    have "\<not> (rerank \<noteq> 0 \<and> u64_limit \<le> k * rerank)" using ok(3) by auto
    then show ?thesis using S ok(1,2) by (intro exI [of _ vis] exI [of _ "Inr out"]) auto
  qed
qed

section \<open>A fresh database\<close>

definition empty_disk :: disk where
  "empty_disk = \<lparr>dk_store = None, dk_snap = None, dk_codebook = None, dk_wal = None\<rparr>"

lemma wal_open_empty: "wal_open crc rd [] policy io = ([], Inr (fresh_wal policy, []))"
  by (simp add: wal_open_def wal_scan.simps read_record_def fresh_wal_def)

lemma graph_ok_new:
  "hnsw_new (en_avx e) config = Inr h \<Longrightarrow> cfg_ef_construction config < 2 ^ 32 \<Longrightarrow>
     graph_ok e h \<and> hnsw_len h = 0"
  using hnsw_new_inv [of "en_avx e" config h] on_layer_len [of h 64] by (auto simp: graph_ok_def)

lemma open_fresh_spec:
  assumes s: "vs_create (en_limit e) (en_map_limit e) dim = Inr s"
    and h: "hnsw_new (en_avx e) (opt_config opts) = Inr h" "cfg_ef_construction (opt_config opts) < 2 ^ 32"
    and wal: "opt_enable_wal opts"
  shows "\<exists>db. db_open e rd io empty_disk dim opts = Some (Inr db) \<and> db_ok e db \<and> db_store db = s \<and> db_index db = h \<and>
     db_wal db = Some (fresh_wal (opt_sync opts)) \<and> db_pq db = None \<and> db_snap db = None \<and> db_codebook db = None"
proof -
  note C = vs_create_sound [OF s]
  have n: "vs_count s = 0" using C length_vs_vectors [of s] by (simp del: length_vs_vectors)
  have hn: "graph_ok e h" "hnsw_len h = 0" using graph_ok_new [OF h] by simp_all
  let ?db = "\<lparr>db_store = s, db_index = h, db_wal = Some (fresh_wal (opt_sync opts)), db_pq = None,
    db_scratch = vis_new, db_snap = None, db_codebook = None, db_wal_file = Some []\<rparr>"
  have "db_open e rd io empty_disk dim opts = Some (Inr ?db)"
    using s h(1) C n hn wal
    by (simp add: db_open_def open_store_def load_index_def recover_def wal_bytes_def wal_open_empty
        open_codebook_def empty_disk_def ensure_lsn_at_least_def fresh_wal_def vs_len_def)
  moreover have "db_ok e ?db" using C n hn vis_new_inv by (simp add: db_ok_def pq_ok_def)
  ultimately show ?thesis by auto
qed

definition example_env :: env where
  "example_env = \<lparr>en_crc = sum_crc, en_avx = False, en_limit = 2 ^ 20, en_map_limit = 2 ^ 20, en_level = (\<lambda>i. i mod 2)\<rparr>"

definition example_fresh :: db where
  "example_fresh = (case db_open example_env reads_ok IoOk empty_disk 2 default_options of
     Some (Inr db) \<Rightarrow> db | _ \<Rightarrow> undefined)"

text \<open>Two dimensions, one row.\<close>

definition example_db :: db where
  "example_db = (case db_insert example_env example_fresh [f32_one, f32_zero] IoOk of
     Some (db, _) \<Rightarrow> db | None \<Rightarrow> undefined)"

lemma example_levels: "levels_ok example_env"
proof -
  have "i mod 2 < 64" for i :: nat using mod_less_divisor [of 2 i] by linarith
  then show ?thesis by (simp add: levels_ok_def example_env_def)
qed

lemma example_fresh_facts:
  "db_open example_env reads_ok IoOk empty_disk 2 default_options = Some (Inr example_fresh)"
  "db_ok example_env example_fresh" "db_wal example_fresh = Some (fresh_wal Always)"
  "db_pq example_fresh = None" "db_snap example_fresh = None" "db_codebook example_fresh = None"
  "db_vectors example_fresh = []" "db_dim example_fresh = 2" "header_count (vs_file (db_store example_fresh)) = 0"
proof -
  obtain s where s: "vs_create (en_limit example_env) (en_map_limit example_env) 2 = Inr s"
    using example_created by (auto simp: example_env_def)
  obtain h where h: "hnsw_new (en_avx example_env) (opt_config default_options) = Inr h"
    by (simp add: hnsw_new_def default_options_def default_config_def)
  obtain db where D: "db_open example_env reads_ok IoOk empty_disk 2 default_options = Some (Inr db)"
    "db_ok example_env db" "db_store db = s" "db_wal db = Some (fresh_wal (opt_sync default_options))"
    "db_pq db = None" "db_snap db = None" "db_codebook db = None"
  proof -
    have "cfg_ef_construction (opt_config default_options) < 2 ^ 32" "opt_enable_wal default_options"
      by (simp_all add: default_options_def default_config_def)
    from open_fresh_spec [OF s h this, of reads_ok IoOk] show thesis using that by blast
  qed
  then have "example_fresh = db" by (simp add: example_fresh_def)
  then show "db_open example_env reads_ok IoOk empty_disk 2 default_options = Some (Inr example_fresh)"
    "db_ok example_env example_fresh" "db_wal example_fresh = Some (fresh_wal Always)"
    "db_pq example_fresh = None" "db_snap example_fresh = None" "db_codebook example_fresh = None"
    "db_vectors example_fresh = []" "db_dim example_fresh = 2" "header_count (vs_file (db_store example_fresh)) = 0"
    using D vs_create_sound [OF s] by (simp_all add: default_options_def db_vectors_def db_dim_def)
qed

lemma example_row_inserted:
  "\<exists>db1. insert_row_storage_only example_env example_fresh [f32_one, f32_zero] IoOk = (db1, Inr 0)"
proof -
  let ?s = "db_store example_fresh" and ?v = "[f32_one, f32_zero]"
  have inv: "vs_inv ?s" using example_fresh_facts(2) by (simp add: db_ok_def)
  have n: "vs_count ?s = 0"
    using example_fresh_facts(7) length_vs_vectors [of ?s] by (simp add: db_vectors_def del: length_vs_vectors)
  have "seg_first base_rows 1 \<le> seg_first base_rows (vs_mapped ?s)"
    using inv by (intro seg_first_mono) (simp add: vs_inv_def)
  then have room: "vs_count ?s < seg_first base_rows (vs_mapped ?s)"
    using n by (simp add: seg_first_def base_rows_def)
  obtain s' where "vs_append ?s ?v = (s', Inr 0)"
    using vs_append_ok [OF inv _ room, of ?v] example_fresh_facts(8) n by (auto simp: db_dim_def)
  then show ?thesis using example_fresh_facts(3)
    by (simp add: insert_row_storage_only_def ensure_healthy_def fresh_wal_def wal_append_def wal_frame_def
        wal_payload_def write_and_sync_def)
qed

lemma example_db_facts:
  "db_ok example_env example_db" "db_vectors example_db = [[f32_one, f32_zero]]" "db_dim example_db = 2"
  "db_pq example_db = None"
proof -
  let ?v = "[f32_one, f32_zero]"
  obtain db1 where ins: "insert_row_storage_only example_env example_fresh ?v IoOk = (db1, Inr 0)"
    using example_row_inserted ..
  obtain h vis p where S: "db_insert example_env example_fresh ?v IoOk =
      Some (db1\<lparr>db_index := h, db_scratch := vis, db_pq := p\<rparr>, Inr 0)"
    "db_ok example_env (db1\<lparr>db_index := h, db_scratch := vis, db_pq := p\<rparr>)"
    "map_option ps_pq p = map_option ps_pq (db_pq example_fresh)"
    using db_insert_spec [OF example_fresh_facts(2) example_levels, of ?v IoOk] ins by auto
  have db: "example_db = db1\<lparr>db_index := h, db_scratch := vis, db_pq := p\<rparr>" by (simp add: example_db_def S(1))
  have inv: "vs_inv (db_store example_fresh)" using example_fresh_facts(2) by (simp add: db_ok_def)
  show "db_ok example_env example_db" "db_vectors example_db = [[f32_one, f32_zero]]" "db_dim example_db = 2"
    "db_pq example_db = None"
    using S insert_row_spec [OF inv ins] example_fresh_facts
    by (simp_all add: db db_vectors_def db_dim_def)
qed

text \<open>The same, with the quantizer whose centroids are all zero.\<close>

definition example_pq_db :: db where
  "example_pq_db = example_db\<lparr>db_pq := Some \<lparr>ps_pq = example_pq,
     ps_codes = (case codes_of example_pq [[f32_one, f32_zero]] of Some codes \<Rightarrow> codes | None \<Rightarrow> [])\<rparr>\<rparr>"

lemma example_pq_db_facts:
  "db_ok example_env example_pq_db" "db_vectors example_pq_db = [[f32_one, f32_zero]]" "db_dim example_pq_db = 2"
  "\<exists>st. db_pq example_pq_db = Some st"
proof -
  have d: "pq_dim example_pq = 2" by (simp add: example_pq_def)
  obtain cs where "map_opt (pq_encode example_pq) [[f32_one, f32_zero]] = Some cs"
    using codes_of_total [OF example_pq_inv, of "[[f32_one, f32_zero]]"] d by auto
  then have c: "codes_of example_pq [[f32_one, f32_zero]] = Some (concat cs)" by (simp add: codes_of_def)
  show v: "db_vectors example_pq_db = [[f32_one, f32_zero]]" "db_dim example_pq_db = 2"
    using example_db_facts(2,3) by (simp_all add: example_pq_db_def db_vectors_def db_dim_def)
  show "db_ok example_env example_pq_db"
    using example_db_facts(1,2) c d v example_pq_inv
    by (simp add: db_ok_def example_pq_db_def pq_ok_def db_vectors_def db_dim_def)
  show "\<exists>st. db_pq example_pq_db = Some st" by (simp add: example_pq_db_def)
qed

section \<open>Properties\<close>

text \<open>
  C4: an insert acts as an append, whatever the devices do.  It never panics and keeps every part of
  the database consistent; when it succeeds the new vector is the last one, under the id returned,
  and reads back; when it fails (wrong dimension, no room, a poisoned or failing log) the vectors are
  those of before.
\<close>

theorem insert_refines_append:
  assumes "db_ok e db" and "levels_ok e"
  shows "\<exists>db' r. db_insert e db v io = Some (db', r) \<and> db_ok e db' \<and> db_dim db' = db_dim db \<and>
     (case r of
        Inr i \<Rightarrow> length v = db_dim db \<and> i = length (db_vectors db) \<and> db_vectors db' = db_vectors db @ [v] \<and>
          db_get db' i = Inr v \<and> db_len db' = i + 1
      | Inl err \<Rightarrow> db_vectors db' = db_vectors db)"
proof -
  obtain db1 r h vis p where ins: "insert_row_storage_only e db v io = (db1, r)"
    and S: "db_insert e db v io = Some (db1\<lparr>db_index := h, db_scratch := vis, db_pq := p\<rparr>, r)"
      "db_ok e (db1\<lparr>db_index := h, db_scratch := vis, db_pq := p\<rparr>)"
    using db_insert_spec [OF assms] by blast
  let ?db' = "db1\<lparr>db_index := h, db_scratch := vis, db_pq := p\<rparr>"
  have inv: "vs_inv (db_store db)" using assms(1) by (simp add: db_ok_def)
  have len: "db_len ?db' = length (db_vectors ?db')" using S(2) by (simp add: db_ok_def db_len_def db_vectors_def)
  have get: "db_get ?db' i = Inr (db_vectors ?db' ! i)" if "i < length (db_vectors ?db')" for i
    using that vs_get_spec [of "db_store ?db'" i] by (simp add: db_get_def db_vectors_def)
  have same: "db_vectors ?db' = db_vectors db1" "db_dim ?db' = db_dim db1" by (simp_all add: db_vectors_def db_dim_def)
  note I = insert_row_spec [OF inv ins]
  have "case r of
        Inr i \<Rightarrow> length v = db_dim db \<and> i = length (db_vectors db) \<and> db_vectors ?db' = db_vectors db @ [v] \<and>
          db_get ?db' i = Inr v \<and> db_len ?db' = i + 1
      | Inl err \<Rightarrow> db_vectors ?db' = db_vectors db"
    using I get len unfolding same by (auto simp: nth_append split: sum.splits)
  then show ?thesis using S I same by (intro exI [of _ ?db'] exI [of _ r]) simp
qed

theorem insert_refines_append_witness:
  "\<exists>db' r. db_insert example_env example_db [f32_zero, f32_one] (IoStop 7) = Some (db', r) \<and> db_ok example_env db'"
  using insert_refines_append [OF example_db_facts(1) example_levels, of "[f32_zero, f32_one]" "IoStop 7"] by blast



text \<open>
  C12: a search of the database never panics: a query of another dimension is refused, and every other
  gets at most \<open>k\<close> distinct hits, nearest first, each an existing id with the exact distance of its
  row under the index's metric, and at least one when there is anything to find.
\<close>

theorem search_returns_exact_hits:
  assumes "db_ok e db"
  shows "\<exists>vis r. db_search db query k ef = Some (db\<lparr>db_scratch := vis\<rparr>, r) \<and> db_ok e (db\<lparr>db_scratch := vis\<rparr>) \<and>
     (if length query \<noteq> db_dim db then r = Inl (DimensionMismatch (db_dim db) (length query))
      else \<exists>out. r = Inr out \<and> sorted out \<and> distinct (map nb_id out) \<and> length out \<le> k \<and>
        (\<forall>hit \<in> set out. exact_hit e db query hit) \<and> (0 < k \<and> db_vectors db \<noteq> [] \<longrightarrow> out \<noteq> []))"
  by (rule db_search_ok [OF assms])

theorem search_returns_exact_hits_witness:
  "\<exists>db' out. db_search example_db [f32_one, f32_one] 3 10 = Some (db', Inr out) \<and> out \<noteq> []"
  using search_returns_exact_hits [OF example_db_facts(1), of "[f32_one, f32_one]" 3 10] example_db_facts(2,3) by auto

text \<open>
  C25: a quantized search never indexes outside the codes or the table: untrained and overflowing
  requests and wrong dimensions are refused, and otherwise there are at most \<open>k\<close> distinct hits with
  existing ids, which after re-ranking are in order and carry the exact distances of their rows.
\<close>

theorem search_pq_sound:
  assumes "db_ok e db"
  shows "\<exists>vis r. db_search_pq e db query k ef rerank = Some (db\<lparr>db_scratch := vis\<rparr>, r) \<and> db_ok e (db\<lparr>db_scratch := vis\<rparr>) \<and>
     (if length query \<noteq> db_dim db then r = Inl (DimensionMismatch (db_dim db) (length query))
      else if db_pq db = None then \<exists>why. r = Inl (Corrupt why)
      else if rerank \<noteq> 0 \<and> u64_limit \<le> k * rerank then \<exists>why. r = Inl (InvalidArgument why)
      else \<exists>out. r = Inr out \<and> sorted out \<and> distinct (map nb_id out) \<and> length out \<le> k \<and>
        (\<forall>hit \<in> set out. nb_id hit < length (db_vectors db)) \<and>
        (rerank \<noteq> 0 \<longrightarrow> (\<forall>hit \<in> set out. exact_hit e db query hit)))"
  by (rule db_search_pq_ok [OF assms])

theorem search_pq_sound_witness:
  "\<exists>db' out. db_search_pq example_env example_pq_db [f32_one, f32_one] 2 8 3 = Some (db', Inr out) \<and> length out \<le> 2"
  using search_pq_sound [OF example_pq_db_facts(1), of "[f32_one, f32_one]" 2 8 3] example_pq_db_facts
  by (auto simp: u64_limit_def)

text \<open>
  C23: the codes are never stale: after any insert or batch, and after any failure of one, the code
  array is byte for byte what encoding every stored row afresh would give, so a quantized search never
  reads the code of another row or of none.
\<close>

theorem codes_cover_the_store:
  assumes "db_ok e db" and "levels_ok e"
    and "db_insert e db v io = Some (db', r) \<or> db_add_batch e db batch ios = Some (db', r)"
  shows "\<forall>st. db_pq db' = Some st \<longrightarrow> encode_all (ps_pq st) (db_store db') = Some (ps_codes st)"
proof -
  have "db_ok e db'"
  proof (cases "db_insert e db v io = Some (db', r)")
    case True
    then show ?thesis using db_insert_spec [OF assms(1,2), of v io] by auto
  next
    case False
    then have b: "db_add_batch e db batch ios = Some (db', r)" using assms(3) by simp
    then show ?thesis
      using db_add_batch_spec [OF assms(1,2), of batch ios] assms(1)
      by (cases "length batch mod db_dim db = 0") (auto simp: db_add_batch_def db_dim_def)
  qed
  then show ?thesis by (auto simp: db_ok_def pq_ok_def encode_all_codes db_vectors_def)
qed

theorem codes_cover_the_store_witness:
  "\<exists>db' r. db_insert example_env example_pq_db [f32_zero, f32_one] IoOk = Some (db', r) \<and>
     (\<forall>st. db_pq db' = Some st \<longrightarrow> encode_all (ps_pq st) (db_store db') = Some (ps_codes st))"
proof -
  obtain db' r where d: "db_insert example_env example_pq_db [f32_zero, f32_one] IoOk = Some (db', r)"
    using db_insert_spec [OF example_pq_db_facts(1) example_levels] by blast
  then show ?thesis
    using codes_cover_the_store [OF example_pq_db_facts(1) example_levels, of "[f32_zero, f32_one]" IoOk] by blast
qed

end
