(* ===== verification/Db_Recovery.thy ===== *)
theory Db_Recovery
  imports Db_Inv "HOL-Library.Sublist"
begin

text \<open>
  Crash and recovery.  The files a killed process leaves determine a list of vectors, the ones the next
  \<^verbatim>\<open>open\<close> brings back; each operation changes that list the way its result says, wherever its
  device calls stop.  A kill keeps what was written (the page cache survives the process); losing rows
  that were never flushed changes nothing, since only the rows under the header's count are read.

  Vectors with a NaN are excluded: recovery compares a logged vector with the flushed row by \<^verbatim>\<open>!=\<close>,
  which a NaN never passes (\<open>nan_record_blocks_recovery\<close> in \<open>Db_Unlogged\<close>).
\<close>

section \<open>What the files determine\<close>

definition no_nan :: "f32 list \<Rightarrow> bool" where
  "no_nan v \<longleftrightarrow> list_all (\<lambda>x. \<not> f32_is_nan x) v"

text \<open>The snapshot holds a sound graph over the first \<open>k\<close> ids and the log position it covers.\<close>

definition snap_ok :: "env \<Rightarrow> byte list option \<Rightarrow> nat \<Rightarrow> nat \<Rightarrow> bool" where
  "snap_ok e snap k watermark \<longleftrightarrow>
     (case snap of
        None \<Rightarrow> k = 0 \<and> watermark = 0
      | Some bs \<Rightarrow> \<exists>h. hnsw_load (en_crc e) (en_avx e) bs = Some (Inr (h, watermark)) \<and> graph_ok e h \<and> hnsw_len h = k)"

definition codebook_ok :: "env \<Rightarrow> nat \<Rightarrow> byte list option \<Rightarrow> bool" where
  "codebook_ok e dim cb \<longleftrightarrow>
     (case cb of None \<Rightarrow> True | Some bs \<Rightarrow> \<exists>q. load_codebook (en_crc e) bs = Inr q \<and> pq_inv q \<and> pq_dim q = dim)"

text \<open>The records the snapshot does not cover are the inserts of the remaining vectors, in order.\<close>

definition inserts :: "f32 list list \<Rightarrow> nat \<Rightarrow> wal_op list" where
  "inserts ws k = map (\<lambda>i. Insert i (ws ! i)) [k..<length ws]"

definition log_covers :: "nat \<Rightarrow> nat \<Rightarrow> f32 list list \<Rightarrow> (nat \<times> wal_op) list \<Rightarrow> bool" where
  "log_covers watermark k ws rs \<longleftrightarrow>
     k \<le> length ws \<and> map snd (filter (\<lambda>r. watermark \<le> fst r) rs) = inserts ws k"

text \<open>
  \<open>ws\<close> is what a recovery brings back: the vectors of the database, and at most one more, whose record
  reached the disk although its append reported an error and was rolled back.
\<close>

definition logged :: "env \<Rightarrow> db \<Rightarrow> f32 list list \<Rightarrow> wal \<Rightarrow> (nat \<times> wal_op) list \<Rightarrow> nat \<Rightarrow> nat \<Rightarrow> bool" where
  "logged e db ws w rs k watermark \<longleftrightarrow>
     wal_holds (en_crc e) w rs \<and> watermark \<le> wal_next_lsn w \<and> snap_ok e (db_snap db) k watermark \<and>
     log_covers watermark k ws rs \<and> k \<le> header_count (vs_file (db_store db))"

definition unacked :: "db \<Rightarrow> wal \<Rightarrow> f32 list list \<Rightarrow> bool" where
  "unacked db w extra \<longleftrightarrow>
     extra = [] \<or> (length extra = 1 \<and> wal_poisoned w \<and>
       vs_count (db_store db) < seg_first base_rows (vs_mapped (db_store db)))"

definition durable :: "env \<Rightarrow> db \<Rightarrow> f32 list list \<Rightarrow> bool" where
  "durable e db ws \<longleftrightarrow>
     vs_inv (db_store db) \<and> header_count (vs_file (db_store db)) \<le> vs_count (db_store db) \<and>
     (\<forall>v \<in> set ws. length v = db_dim db \<and> no_nan v) \<and> codebook_ok e (db_dim db) (db_codebook db) \<and>
     (\<exists>w rs k watermark extra. db_wal db = Some w \<and> logged e db ws w rs k watermark \<and>
        ws = db_vectors db @ extra \<and> unacked db w extra)"

definition db_inv :: "env \<Rightarrow> db \<Rightarrow> f32 list list \<Rightarrow> bool" where
  "db_inv e db ws \<longleftrightarrow> db_ok e db \<and> durable e db ws"

definition next_lsn :: "db \<Rightarrow> nat" where
  "next_lsn db = (case db_wal db of None \<Rightarrow> 0 | Some w \<Rightarrow> wal_next_lsn w)"

lemma durable_memory [simp]:
  "durable e (db\<lparr>db_index := h, db_scratch := vis, db_pq := p\<rparr>) ws = durable e db ws"
  "durable e (db\<lparr>db_scratch := vis\<rparr>) ws = durable e db ws"
  "next_lsn (db\<lparr>db_index := h, db_scratch := vis, db_pq := p\<rparr>) = next_lsn db"
  "next_lsn (db\<lparr>db_scratch := vis\<rparr>) = next_lsn db"
  "db_vectors (db\<lparr>db_index := h, db_scratch := vis, db_pq := p\<rparr>) = db_vectors db"
  "db_vectors (db\<lparr>db_scratch := vis\<rparr>) = db_vectors db"
  "db_dim (db\<lparr>db_index := h, db_scratch := vis, db_pq := p\<rparr>) = db_dim db"
  "db_dim (db\<lparr>db_scratch := vis\<rparr>) = db_dim db"
  by (simp_all add: durable_def logged_def unacked_def next_lsn_def db_vectors_def db_dim_def)

lemma f32s_eq_self: "no_nan v \<Longrightarrow> f32s_eq v v"
  by (simp add: no_nan_def f32s_eq_def list_all2_same list_all_iff f32_eq_refl)

lemma inserts_append: "k \<le> length ws \<Longrightarrow> inserts (ws @ [v]) k = inserts ws k @ [Insert (length ws) v]"
  by (simp add: inserts_def nth_append)

lemma log_covers_append:
  "log_covers watermark k ws rs \<Longrightarrow> watermark \<le> lsn \<Longrightarrow>
     log_covers watermark k (ws @ [v]) (rs @ [(lsn, Insert (length ws) v)])"
  by (simp add: log_covers_def inserts_append)

section \<open>One row\<close>

text \<open>The row insertion is durable when it succeeds, and adds at most its own vector when it fails.\<close>

lemma insert_row_cases:
  assumes "db_wal db = Some w" and "insert_row_storage_only e db v io = (db', r)" and inv: "vs_inv (db_store db)"
  shows "(\<exists>s err. r = Inl err \<and> db' = db\<lparr>db_store := s\<rparr> \<and> vs_vectors s = db_vectors db \<and>
            (wal_poisoned w \<longrightarrow> s = db_store db)) \<or>
         (\<exists>s w' rw. \<not> wal_poisoned w \<and> vs_append (db_store db) v = (s, Inr (length (db_vectors db))) \<and>
            wal_append (en_crc e) w (Insert (length (db_vectors db)) v) io = (w', rw) \<and>
            (case rw of
               Inr lsn \<Rightarrow> r = Inr (length (db_vectors db)) \<and> db' = db\<lparr>db_store := s, db_wal := Some w'\<rparr>
             | Inl err \<Rightarrow> r = Inl err \<and>
                 db' = db\<lparr>db_store := s\<lparr>vs_count := length (db_vectors db)\<rparr>, db_wal := Some w'\<rparr>))"
proof (cases "wal_poisoned w")
  case True
  then show ?thesis
    using assms by (auto simp: insert_row_storage_only_def ensure_healthy_def db_vectors_def intro!: exI [of _ "db_store db"])
next
  case False
  obtain s ra where app: "vs_append (db_store db) v = (s, ra)" by fastforce
  note A = vs_append_spec [OF inv app]
  show ?thesis
  proof (cases ra)
    case (Inl err)
    then show ?thesis
      using assms app A False
      by (auto simp: insert_row_storage_only_def ensure_healthy_def db_vectors_def intro!: exI [of _ s])
  next
    case (Inr i)
    obtain w' rw where W: "wal_append (en_crc e) w (Insert i v) io = (w', rw)" by fastforce
    have i: "i = length (db_vectors db)" using A Inr by (simp add: db_vectors_def)
    note R = vs_rollback_spec [OF inv app [unfolded Inr]]
    have "case rw of
        Inr lsn \<Rightarrow> r = Inr i \<and> db' = db\<lparr>db_store := s, db_wal := Some w'\<rparr>
      | Inl err \<Rightarrow> r = Inl err \<and> db' = db\<lparr>db_store := s\<lparr>vs_count := i\<rparr>, db_wal := Some w'\<rparr>"
      using assms(1,2) app Inr W R False
      by (auto simp: insert_row_storage_only_def ensure_healthy_def split: sum.splits)
    then show ?thesis using app Inr W False unfolding i by blast
  qed
qed

lemma ids_fit: "vs_inv (db_store db) \<Longrightarrow> length (db_vectors db) < 2 ^ 64"
  using store_capacity [of "db_store db"] sv_capacity_less by (simp add: db_vectors_def)

text \<open>Putting \<open>durable\<close> back together from its parts.\<close>

lemma durableI:
  assumes "vs_inv (db_store db)" "header_count (vs_file (db_store db)) \<le> vs_count (db_store db)"
    "\<forall>v \<in> set ws. length v = db_dim db \<and> no_nan v" "codebook_ok e (db_dim db) (db_codebook db)"
    "db_wal db = Some w" "logged e db ws w rs k watermark" "ws = db_vectors db @ extra" "unacked db w extra"
  shows "durable e db ws"
  using assms unfolding durable_def by blast

lemma insert_row_durable:
  assumes D: "durable e db ws" and nan: "no_nan v" and room: "next_lsn db + 1 < u64_limit"
    and ins: "insert_row_storage_only e db v io = (db', r)"
  shows "\<exists>ws'. durable e db' ws' \<and> next_lsn db' \<le> next_lsn db + 1 \<and>
     (case r of
        Inr i \<Rightarrow> ws = db_vectors db \<and> ws' = ws @ [v]
      | Inl err \<Rightarrow> ws' = ws \<or> (ws = db_vectors db \<and> ws' = ws @ [v]))"
proof -
  obtain w rs k watermark extra where wal: "db_wal db = Some w" and L: "logged e db ws w rs k watermark"
    and ws: "ws = db_vectors db @ extra" and un: "unacked db w extra"
    and inv: "vs_inv (db_store db)" and cnt: "header_count (vs_file (db_store db)) \<le> vs_count (db_store db)"
    and vs: "\<forall>v \<in> set ws. length v = db_dim db \<and> no_nan v" and cb: "codebook_ok e (db_dim db) (db_codebook db)"
    using D unfolding durable_def by blast
  let ?n = "length (db_vectors db)"
  note I = insert_row_spec [OF inv ins]
  have next_db: "next_lsn db = wal_next_lsn w" using wal by (simp add: next_lsn_def)
  have n: "?n = vs_count (db_store db)" by (simp add: db_vectors_def)
  have id64: "op_id (Insert ?n v) < 2 ^ 64" using ids_fit [OF inv] by simp
  have lsn: "wal_next_lsn w + 1 < u64_limit" using room next_db by simp
  from insert_row_cases [OF wal ins inv] show ?thesis
  proof (elim disjE exE conjE)
    fix s err
    assume C: "r = Inl err" "db' = db\<lparr>db_store := s\<rparr>" "vs_vectors s = db_vectors db" "wal_poisoned w \<longrightarrow> s = db_store db"
    have c: "vs_count s = vs_count (db_store db)" using C(3) by (metis db_vectors_def length_vs_vectors)
    have dim: "db_dim db' = db_dim db" and hc: "header_count (vs_file s) = header_count (vs_file (db_store db))"
      and inv': "vs_inv s" using I C by simp_all
    have un': "unacked db' w extra" using un C by (auto simp: unacked_def)
    have F: "vs_inv (db_store db')" "header_count (vs_file (db_store db')) \<le> vs_count (db_store db')"
      "codebook_ok e (db_dim db') (db_codebook db')" "db_wal db' = Some w" "db_vectors db' = db_vectors db"
      "logged e db' ws w rs k watermark"
      using inv' hc cnt c cb wal L C(2,3) dim by (simp_all add: logged_def db_vectors_def)
    have "durable e db' ws"
      by (rule durableI [OF F(1,2) _ F(3,4,6) _ un']) (use vs dim ws F(5) in simp_all)
    moreover have "next_lsn db' \<le> next_lsn db + 1" using C(2) by (simp add: next_lsn_def)
    ultimately show ?thesis using C(1) by auto
  next
    fix s w' rw
    assume healthy: "\<not> wal_poisoned w" and app: "vs_append (db_store db) v = (s, Inr ?n)"
      and W: "wal_append (en_crc e) w (Insert ?n v) io = (w', rw)"
      and rw: "case rw of
               Inr lsn \<Rightarrow> r = Inr ?n \<and> db' = db\<lparr>db_store := s, db_wal := Some w'\<rparr>
             | Inl err \<Rightarrow> r = Inl err \<and> db' = db\<lparr>db_store := s\<lparr>vs_count := ?n\<rparr>, db_wal := Some w'\<rparr>"
    have ex: "extra = []" "ws = db_vectors db" using un healthy ws by (auto simp: unacked_def)
    note A = vs_append_spec [OF inv app]
    have len_v: "length v = db_dim db" using A by (simp add: db_dim_def)
    have lenw: "length ws = ?n" using ex by simp
    have mapped: "Suc ?n \<le> seg_first base_rows (vs_mapped s)"
    proof -
      have "vs_count s = Suc ?n" using A length_vs_vectors [of s] by (simp add: db_vectors_def)
      then show ?thesis using A by (simp add: vs_inv_def)
    qed
    have next_w': "wal_next_lsn w' \<le> wal_next_lsn w + 1 \<and> wal_next_lsn w \<le> wal_next_lsn w'"
      using wal_append_next [OF W] wal_append_Inl_frame [of "en_crc e" w "Insert ?n v" io w']
        wal_append_Inr_frame [of "en_crc e" w "Insert ?n v" io w'] W by (cases rw) auto
    have holds: "wal_holds (en_crc e) w rs" and wm: "watermark \<le> wal_next_lsn w" and cov: "log_covers watermark k ws rs"
      using L by (simp_all add: logged_def)
    note step = wal_append_step [OF holds id64 lsn W]
    have cov': "log_covers watermark k (ws @ [v]) (rs @ [(wal_next_lsn w, Insert ?n v)])"
      using log_covers_append [OF cov wm] lenw by simp
    have vs': "\<forall>x \<in> set (ws @ [v]). length x = db_dim db \<and> no_nan x" using vs len_v nan by simp
    have hc: "header_count (vs_file s) = header_count (vs_file (db_store db))" using A by simp
    show ?thesis
    proof (cases rw)
      case (Inr l)
      have R: "r = Inr ?n" "db' = db\<lparr>db_store := s, db_wal := Some w'\<rparr>" using rw Inr by simp_all
      have H: "wal_holds (en_crc e) w' (rs @ [(wal_next_lsn w, Insert ?n v)])" using step Inr by auto
      have "vs_count s = Suc ?n" using A length_vs_vectors [of s] by (simp add: db_vectors_def)
      then have F: "vs_inv (db_store db')" "header_count (vs_file (db_store db')) \<le> vs_count (db_store db')"
        "codebook_ok e (db_dim db') (db_codebook db')" "db_wal db' = Some w'" "db_dim db' = db_dim db"
        "db_vectors db' = db_vectors db @ [v]"
        "logged e db' (ws @ [v]) w' (rs @ [(wal_next_lsn w, Insert ?n v)]) k watermark"
        using R A hc cnt n cb L next_w' wm H cov' by (simp_all add: db_dim_def db_vectors_def logged_def)
      have "durable e db' (ws @ [v])"
        by (rule durableI [OF F(1,2) _ F(3,4,7), where extra = "[]"]) (use vs' ex F(5,6) in \<open>simp_all add: unacked_def\<close>)
      moreover have "next_lsn db' \<le> next_lsn db + 1" using R next_w' next_db by (simp add: next_lsn_def)
      ultimately show ?thesis using R ex by auto
    next
      case (Inl err)
      let ?s = "s\<lparr>vs_count := ?n\<rparr>"
      have R: "r = Inl err" "db' = db\<lparr>db_store := ?s, db_wal := Some w'\<rparr>" using rw Inl by simp_all
      have RB: "vs_inv ?s" "vs_vectors ?s = vs_vectors (db_store db)" using vs_rollback_spec [OF inv app] by simp_all
      have nx: "next_lsn db' \<le> next_lsn db + 1" using R next_w' next_db by (simp add: next_lsn_def)
      have common: "vs_inv (db_store db')" "header_count (vs_file (db_store db')) \<le> vs_count (db_store db')"
        "codebook_ok e (db_dim db') (db_codebook db')" "db_wal db' = Some w'" "db_dim db' = db_dim db"
        "db_vectors db' = db_vectors db" "snap_ok e (db_snap db') k watermark"
        "k \<le> header_count (vs_file (db_store db'))" "watermark \<le> wal_next_lsn w'"
        using R RB A hc cnt n cb L next_w' wm by (simp_all add: db_dim_def db_vectors_def logged_def)
      from step Inl have "wal_holds (en_crc e) w' rs \<or>
          (wal_poisoned w' \<and> wal_holds (en_crc e) w' (rs @ [(wal_next_lsn w, Insert ?n v)]))" by simp
      then show ?thesis
      proof
        assume H: "wal_holds (en_crc e) w' rs"
        have "durable e db' ws"
          by (rule durableI [OF common(1,2) _ common(3,4), where extra = "[]" and rs = rs])
            (use common H cov vs ex in \<open>auto simp: logged_def unacked_def\<close>)
        then show ?thesis using R nx by auto
      next
        assume H: "wal_poisoned w' \<and> wal_holds (en_crc e) w' (rs @ [(wal_next_lsn w, Insert ?n v)])"
        have "durable e db' (ws @ [v])"
          by (rule durableI [OF common(1,2) _ common(3,4), where extra = "[v]"
                and rs = "rs @ [(wal_next_lsn w, Insert ?n v)]"])
            (use common H cov' vs' ex R mapped in \<open>auto simp: logged_def unacked_def\<close>)
        then show ?thesis using R nx ex by auto
      qed
    qed
  qed
qed

section \<open>Inserts and batches\<close>

lemma insert_row_grows:
  assumes "durable e db ws" and "no_nan v" and "next_lsn db + 1 < u64_limit"
    and "insert_row_storage_only e db v io = (db', r)"
  shows "\<exists>ws'. durable e db' ws' \<and> next_lsn db' \<le> next_lsn db + 1 \<and>
     (\<exists>xs. ws' = ws @ xs \<and> subseq xs [v] \<and> (xs = [] \<or> ws = db_vectors db))"
proof -
  obtain ws' where W: "durable e db' ws'" "next_lsn db' \<le> next_lsn db + 1" "ws' = ws \<or> ws = db_vectors db \<and> ws' = ws @ [v]"
    using insert_row_durable [OF assms] by (cases r) auto
  have "\<exists>xs. ws' = ws @ xs \<and> subseq xs [v] \<and> (xs = [] \<or> ws = db_vectors db)"
    using W(3) by (cases "ws' = ws") (auto intro: exI [of _ "[]"])
  then show ?thesis using W(1,2) by blast
qed

lemma db_insert_durable:
  assumes D: "db_inv e db ws" and lev: "levels_ok e" and "no_nan v" and "next_lsn db + 1 < u64_limit"
  shows "\<exists>db' r ws'. db_insert e db v io = Some (db', r) \<and> db_inv e db' ws' \<and> next_lsn db' \<le> next_lsn db + 1 \<and>
     (case r of
        Inr i \<Rightarrow> i = length (db_vectors db) \<and> db_vectors db' = db_vectors db @ [v]
      | Inl err \<Rightarrow> db_vectors db' = db_vectors db) \<and> db_dim db' = db_dim db \<and>
     (\<exists>xs. ws' = ws @ xs \<and> subseq xs [v] \<and> (xs = [] \<or> ws = db_vectors db))"
proof -
  have ok: "db_ok e db" and dur: "durable e db ws" using D by (simp_all add: db_inv_def)
  have inv: "vs_inv (db_store db)" using ok by (simp add: db_ok_def)
  obtain db1 r h vis p where ins: "insert_row_storage_only e db v io = (db1, r)"
    and S: "db_insert e db v io = Some (db1\<lparr>db_index := h, db_scratch := vis, db_pq := p\<rparr>, r)"
      "db_ok e (db1\<lparr>db_index := h, db_scratch := vis, db_pq := p\<rparr>)"
    using db_insert_spec [OF ok lev] by blast
  obtain ws' where W: "durable e db1 ws'" "next_lsn db1 \<le> next_lsn db + 1" 
    "\<exists>xs. ws' = ws @ xs \<and> subseq xs [v] \<and> (xs = [] \<or> ws = db_vectors db)"
    using insert_row_grows [OF dur assms(3,4) ins] by blast
  show ?thesis
    using S W insert_row_spec [OF inv ins]
    by (intro exI [of _ "db1\<lparr>db_index := h, db_scratch := vis, db_pq := p\<rparr>"] exI [of _ r] exI [of _ ws'])
      (auto simp: db_inv_def split: sum.splits)
qed

lemma batch_rows_durable:
  "durable e db ws \<Longrightarrow> \<forall>row \<in> set rows. no_nan row \<Longrightarrow> next_lsn db + length rows < u64_limit \<Longrightarrow>
   batch_rows e io k rows db = (db', n, err) \<Longrightarrow>
     \<exists>ws'. durable e db' ws' \<and> next_lsn db' \<le> next_lsn db + length rows \<and> (\<exists>xs. ws' = ws @ xs \<and> subseq xs rows)"
proof (induction rows arbitrary: k db ws)
  case Nil
  then show ?case by auto
next
  case (Cons row rows)
  obtain db1 r where ins: "insert_row_storage_only e db row (io k) = (db1, r)" by fastforce
  have "no_nan row" "next_lsn db + 1 < u64_limit" using Cons.prems by simp_all
  then obtain ws1 xs where W: "durable e db1 ws1" "next_lsn db1 \<le> next_lsn db + 1" "ws1 = ws @ xs" "subseq xs [row]"
    using insert_row_grows [OF Cons.prems(1) _ _ ins] by blast
  show ?case
  proof (cases r)
    case (Inl er)
    then have "db' = db1" using Cons.prems(4) ins by simp
    moreover have "subseq (xs @ []) ([row] @ rows)" using W(4) by (rule list_emb_append_mono) simp
    then have "subseq xs (row # rows)" by simp
    ultimately show ?thesis using W by auto
  next
    case (Inr i)
    then have "batch_rows e io (k + 1) rows db1 = (db', n, err)" using Cons.prems(4) ins by simp
    moreover have "\<forall>row \<in> set rows. no_nan row" "next_lsn db1 + length rows < u64_limit"
      using Cons.prems W by simp_all
    ultimately obtain ws' ys where "durable e db' ws'" "next_lsn db' \<le> next_lsn db1 + length rows" "ws' = ws1 @ ys" "subseq ys rows"
      using Cons.IH [OF W(1)] by blast
    moreover have "subseq (xs @ ys) ([row] @ rows)" using W(4) \<open>subseq ys rows\<close> by (rule list_emb_append_mono)
    ultimately show ?thesis using W(2,3) by (intro exI [of _ ws'] conjI exI [of _ "xs @ ys"]) simp_all
  qed
qed

lemma db_add_batch_durable:
  assumes D: "db_inv e db ws" and lev: "levels_ok e"
    and "\<forall>row \<in> set (rows_of (db_dim db) batch). no_nan row"
    and "next_lsn db + length (rows_of (db_dim db) batch) < u64_limit"
  shows "\<exists>db' r ws' n. db_add_batch e db batch io = Some (db', r) \<and> db_inv e db' ws' \<and>
     next_lsn db' \<le> next_lsn db + length (rows_of (db_dim db) batch) \<and>
     db_vectors db' = db_vectors db @ take n (rows_of (db_dim db) batch) \<and>
     (case r of
        Inr base \<Rightarrow> base = length (db_vectors db) \<and> n = length (rows_of (db_dim db) batch)
      | Inl err \<Rightarrow> True) \<and> db_dim db' = db_dim db \<and> (\<exists>xs. ws' = ws @ xs \<and> subseq xs (rows_of (db_dim db) batch))"
proof (cases "length batch mod db_dim db = 0")
  case False
  then have "\<exists>err. db_add_batch e db batch io = Some (db, Inl err)" by (simp add: db_add_batch_def db_dim_def)
  then show ?thesis using D by fastforce
next
  case True
  have ok: "db_ok e db" and dur: "durable e db ws" using D by (simp_all add: db_inv_def)
  have inv: "vs_inv (db_store db)" using ok by (simp add: db_ok_def)
  obtain db1 n err h vis p where b: "batch_rows e io 0 (rows_of (db_dim db) batch) db = (db1, n, err)"
    and S: "db_add_batch e db batch io = Some (db1\<lparr>db_index := h, db_scratch := vis, db_pq := p\<rparr>,
       case err of None \<Rightarrow> Inr (length (db_vectors db)) | Some er \<Rightarrow> Inl er)"
      "db_ok e (db1\<lparr>db_index := h, db_scratch := vis, db_pq := p\<rparr>)"
    using db_add_batch_spec [OF ok lev True] by blast
  obtain ws' where W: "durable e db1 ws'" "next_lsn db1 \<le> next_lsn db + length (rows_of (db_dim db) batch)"
    "\<exists>xs. ws' = ws @ xs \<and> subseq xs (rows_of (db_dim db) batch)"
    using batch_rows_durable [OF dur assms(3,4) b] by blast
  let ?db' = "db1\<lparr>db_index := h, db_scratch := vis, db_pq := p\<rparr>"
  let ?r = "case err of None \<Rightarrow> Inr (length (db_vectors db)) | Some er \<Rightarrow> Inl er"
  show ?thesis
  proof (rule exI [of _ ?db'], rule exI [of _ ?r], rule exI [of _ ws'], rule exI [of _ n], intro conjI)
    show "\<exists>xs. ws' = ws @ xs \<and> subseq xs (rows_of (db_dim db) batch)" by (rule W(3))
  qed (use S W(1,2) batch_rows_spec [OF inv b] in \<open>auto simp: db_inv_def split: option.splits\<close>)
qed

section \<open>Checkpoint\<close>

lemma flush_inv:
  assumes D: "db_inv e db ws" and fl: "vs_flush (db_store db) ok = (s, r)"
  shows "db_inv e (db\<lparr>db_store := s\<rparr>) ws \<and> header_count (vs_file s) = vs_count s \<and>
     vs_vectors s = vs_vectors (db_store db) \<and> vs_dim s = vs_dim (db_store db)"
proof -
  have I: "db_ok e db" "durable e db ws" using D by (simp_all add: db_inv_def)
  have inv: "vs_inv (db_store db)" using I(1) by (simp add: db_ok_def)
  note F = vs_flush_spec [OF inv fl]
  have m: "vs_mapped s = vs_mapped (db_store db)" using fl by (auto simp: vs_flush_def)
  have ok: "db_ok e (db\<lparr>db_store := s\<rparr>)" using I(1) F by (simp add: db_ok_def db_dim_def db_vectors_def)
  obtain w rs k watermark extra where P: "db_wal db = Some w" "logged e db ws w rs k watermark"
    "ws = db_vectors db @ extra" "unacked db w extra" "header_count (vs_file (db_store db)) \<le> vs_count (db_store db)"
    "\<forall>v \<in> set ws. length v = db_dim db \<and> no_nan v" "codebook_ok e (db_dim db) (db_codebook db)"
    using I(2) unfolding durable_def by blast
  have "logged e (db\<lparr>db_store := s\<rparr>) ws w rs k watermark" "unacked (db\<lparr>db_store := s\<rparr>) w extra"
    using P(2,4,5) F m by (simp_all add: logged_def unacked_def)
  then have "durable e (db\<lparr>db_store := s\<rparr>) ws"
    using P F unfolding durable_def by (simp add: db_dim_def db_vectors_def) blast
  then show ?thesis using ok F by (simp add: db_inv_def)
qed

lemma codebook_inv:
  assumes D: "db_inv e db ws" and sv: "save_codebook e db io = (db', r)"
  shows "\<exists>cb. db' = db\<lparr>db_codebook := cb\<rparr> \<and> db_inv e db' ws"
proof (cases "db_pq db")
  case None
  then have "db' = db" using sv by (simp add: save_codebook_def)
  then show ?thesis using D by (intro exI [of _ "db_codebook db"]) simp
next
  case (Some st)
  obtain cb r' where R: "replace_file (db_codebook db) (codebook_bytes (en_crc e) (ps_pq st)) io = (cb, r')" by fastforce
  then have cb: "db' = db\<lparr>db_codebook := cb\<rparr>"
    "cb = db_codebook db \<or> cb = Some (codebook_bytes (en_crc e) (ps_pq st))"
    using sv Some by (auto simp: save_codebook_def replace_file_def split: replace_out.splits)
  have q: "pq_inv (ps_pq st)" "pq_dim (ps_pq st) = db_dim db"
    using D Some by (simp_all add: db_inv_def db_ok_def pq_ok_def)
  have "codebook_ok e (db_dim db) (db_codebook db)" using D by (simp add: db_inv_def durable_def)
  then have "codebook_ok e (db_dim db) cb"
    using cb(2) q load_codebook_bytes [OF q(1)] by (auto simp: codebook_ok_def)
  then have "db_inv e (db\<lparr>db_codebook := cb\<rparr>) ws"
    using D by (simp add: db_inv_def db_ok_def durable_def logged_def unacked_def db_dim_def db_vectors_def)
  then show ?thesis using cb(1) by blast
qed

lemma graph_ok_same:
  assumes "graph_ok e h" "same_index h h'" "sv_dense (hn_nodes h')"
  shows "graph_ok e h'"
proof -
  have "hn_inv h'" using same_index_inv [OF assms(2) _ assms(3)] assms(1) by (simp add: graph_ok_def)
  moreover have "on_layer h' 64 = on_layer h 64" by (rule same_index_on_layer [OF assms(2)])
  ultimately show ?thesis using assms(1,2) by (simp add: graph_ok_def same_index_def)
qed

text \<open>
  Saving replaces the snapshot by one that covers everything, or leaves it; either way the files
  still determine the same vectors.
\<close>

lemma save_index_inv:
  assumes D: "db_inv e db ws" and wal: "db_wal db = Some w" "\<not> wal_poisoned w"
    and fl: "header_count (vs_file (db_store db)) = vs_count (db_store db)" and lsn: "wal_next_lsn w < 2 ^ 64"
  shows "\<exists>snap r. save_index e db (wal_next_lsn w) io = Some (db\<lparr>db_snap := snap\<rparr>, r) \<and>
     db_inv e (db\<lparr>db_snap := snap\<rparr>) ws \<and> ws = db_vectors db \<and>
     (r = Inr () \<longrightarrow> snap_ok e snap (length ws) (wal_next_lsn w))"
proof -
  have g: "graph_ok e (db_index db)" "hnsw_len (db_index db) = length (db_vectors db)"
    using D by (simp_all add: db_inv_def db_ok_def db_vectors_def)
  have dur: "durable e db ws" using D by (simp add: db_inv_def)
  then obtain rs k watermark where L: "logged e db ws w rs k watermark" and ws: "ws = db_vectors db"
    using wal unfolding durable_def by (auto simp: unacked_def)
  have fits: "snap_fits (db_index db) (en_avx e) (wal_next_lsn w)" using g(1) lsn by (simp add: snap_fits_def graph_ok_def)
  have hinv: "hn_inv (db_index db)" using g(1) by (simp add: graph_ok_def)
  obtain bs h' where B: "snapshot_bytes (en_crc e) (db_index db) (wal_next_lsn w) = Some bs"
    "hnsw_load (en_crc e) (en_avx e) bs = Some (Inr (h', wal_next_lsn w))" "same_index (db_index db) h'" "sv_dense (hn_nodes h')"
    using snapshot_roundtrip_spec [OF hinv fits, of "en_crc e"] by blast
  have new: "snap_ok e (Some bs) (length ws) (wal_next_lsn w)"
    using B(2,3) graph_ok_same [OF g(1) B(3,4)] g(2) ws by (simp add: snap_ok_def same_index_def)
  obtain snap r where S: "replace_file (db_snap db) bs io = (snap, r)" by fastforce
  then have snap: "snap = db_snap db \<and> r \<noteq> Inr () \<or> snap = Some bs"
    by (auto simp: replace_file_def split: replace_out.splits)
  have covered: "logged e (db\<lparr>db_snap := Some bs\<rparr>) ws w rs (length ws) (wal_next_lsn w)"
  proof -
    have "filter (\<lambda>r. wal_next_lsn w \<le> fst r) rs = []"
      using L wal(2) by (auto simp: logged_def wal_holds_def filter_empty_conv not_le)
    then show ?thesis using L new fl ws by (simp add: logged_def log_covers_def inserts_def db_vectors_def)
  qed
  have "\<exists>k watermark. logged e (db\<lparr>db_snap := snap\<rparr>) ws w rs k watermark"
  proof (cases "snap = Some bs")
    case True
    then show ?thesis using covered by blast
  next
    case False
    then have "db\<lparr>db_snap := snap\<rparr> = db" using snap by simp
    then show ?thesis using L by metis
  qed
  then have "durable e (db\<lparr>db_snap := snap\<rparr>) ws"
    using dur wal(1) ws unfolding durable_def by (auto simp: db_dim_def db_vectors_def unacked_def)
  moreover have "db_ok e (db\<lparr>db_snap := snap\<rparr>)" using D by (simp add: db_inv_def db_ok_def db_dim_def db_vectors_def)
  moreover have "save_index e db (wal_next_lsn w) io = Some (db\<lparr>db_snap := snap\<rparr>, r)"
    using B(1) S by (simp add: save_index_def hnsw_save_def)
  moreover have "r = Inr () \<longrightarrow> snap_ok e snap (length ws) (wal_next_lsn w)" using snap new by auto
  ultimately show ?thesis using ws by (auto simp: db_inv_def)
qed

lemma reset_inv:
  assumes D: "db_inv e db ws" and wal: "db_wal db = Some w" "\<not> wal_poisoned w"
    and snap: "snap_ok e (db_snap db) (length ws) (wal_next_lsn w)" and ws: "ws = db_vectors db"
    and fl: "header_count (vs_file (db_store db)) = vs_count (db_store db)" and rs: "wal_reset w io = (w', r)"
  shows "db_inv e (db\<lparr>db_wal := Some w'\<rparr>) ws \<and> wal_next_lsn w' = wal_next_lsn w \<and>
     (r = Inr () \<longrightarrow> wal_content w' = [])"
proof -
  have I: "db_ok e db" "durable e db ws" using D by (simp_all add: db_inv_def)
  obtain recs k watermark where L: "logged e db ws w recs k watermark"
    using I(2) wal(1) unfolding durable_def by auto
  then have H: "wal_holds (en_crc e) w recs" by (simp add: logged_def)
  have nx: "wal_next_lsn w' = wal_next_lsn w" "r = Inr () \<longrightarrow> wal_content w' = []"
    using rs by (auto simp: wal_reset_def split: sum.splits io_out.splits)
  obtain recs' where R: "wal_holds (en_crc e) w' recs'" "set recs' \<subseteq> set recs"
  proof -
    have "wal_holds (en_crc e) w' recs \<or> wal_holds (en_crc e) w' []"
      using wal_reset_holds [OF H rs] by (auto split: if_splits)
    then show thesis using that [of recs] that [of "[]"] by auto
  qed
  have "filter (\<lambda>r. wal_next_lsn w \<le> fst r) recs' = []"
    using H R(2) wal(2) by (auto simp: wal_holds_def filter_empty_conv not_le)
  then have "logged e (db\<lparr>db_wal := Some w'\<rparr>) ws w' recs' (length ws) (wal_next_lsn w)"
    using R(1) nx(1) snap fl ws by (simp add: logged_def log_covers_def inserts_def db_vectors_def)
  moreover have "unacked (db\<lparr>db_wal := Some w'\<rparr>) w' []" by (simp add: unacked_def)
  ultimately have "durable e (db\<lparr>db_wal := Some w'\<rparr>) ws"
    using I(2) ws by (intro durableI [where w = w' and extra = "[]"])
      (simp_all add: durable_def db_vectors_def db_dim_def)
  then show ?thesis using I(1) nx by (simp add: db_inv_def db_ok_def db_vectors_def db_dim_def)
qed

lemma db_checkpoint_inv:
  assumes D: "db_inv e db ws" and lsn: "next_lsn db < 2 ^ 64"
  shows "\<exists>db' r. db_checkpoint e db io = Some (db', r) \<and> db_inv e db' ws \<and> db_vectors db' = db_vectors db \<and>
     next_lsn db' = next_lsn db \<and> db_dim db' = db_dim db \<and>
     (r = Inr () \<longrightarrow> (\<exists>w'. db_wal db' = Some w' \<and> wal_content w' = []) \<and>
        snap_ok e (db_snap db') (length (db_vectors db)) (next_lsn db))"
proof -
  obtain s r1 where fl: "vs_flush (db_store db) (ck_msync io) = (s, r1)" by fastforce
  let ?db0 = "db\<lparr>db_store := s\<rparr>"
  note F = flush_inv [OF D fl]
  have v0: "db_vectors ?db0 = db_vectors db" "next_lsn ?db0 = next_lsn db" "db_dim ?db0 = db_dim db"
    using F by (simp_all add: db_vectors_def next_lsn_def db_dim_def)
  show ?thesis
  proof (cases r1)
    case (Inl err)
    then show ?thesis using fl F v0 by (auto simp: db_checkpoint_def)
  next
    case r1: (Inr u)
    obtain db1 r2 where cb: "save_codebook e ?db0 (ck_codebook io) = (db1, r2)" by fastforce
    have D0: "db_inv e ?db0 ws" using F by blast
    obtain cb' where db1: "db1 = ?db0\<lparr>db_codebook := cb'\<rparr>" and D1: "db_inv e db1 ws" using codebook_inv [OF D0 cb] by blast
    have v1: "db_vectors db1 = db_vectors db" "next_lsn db1 = next_lsn db" "db_dim db1 = db_dim db"
      using v0 db1 by (simp_all add: db_vectors_def next_lsn_def db_dim_def)
    obtain w where wal: "db_wal db1 = Some w" using D1 unfolding db_inv_def durable_def by blast
    show ?thesis
    proof (cases "(\<exists>err. r2 = Inl err) \<or> wal_poisoned w")
      case True
      then have "\<exists>err. db_checkpoint e db io = Some (db1, Inl err)"
        using fl r1 cb wal by (cases r2) (auto simp: db_checkpoint_def ensure_healthy_def)
      then show ?thesis using D1 v1 by auto
    next
      case False
      then obtain u2 where r2: "r2 = Inr u2" and healthy: "\<not> wal_poisoned w" by (cases r2) auto
      have nx: "wal_next_lsn w = next_lsn db" using wal v1 by (simp add: next_lsn_def)
      have fl1: "header_count (vs_file (db_store db1)) = vs_count (db_store db1)" using F db1 by simp
      have lt: "wal_next_lsn w < 2 ^ 64" using lsn nx by simp
      obtain snap r3 where SI: "save_index e db1 (wal_next_lsn w) (ck_snap io) = Some (db1\<lparr>db_snap := snap\<rparr>, r3)"
        "db_inv e (db1\<lparr>db_snap := snap\<rparr>) ws" "ws = db_vectors db1"
        "r3 = Inr () \<longrightarrow> snap_ok e snap (length ws) (wal_next_lsn w)"
        using save_index_inv [OF D1 wal healthy fl1 lt, of "ck_snap io"] by blast
      let ?db2 = "db1\<lparr>db_snap := snap\<rparr>"
      have v2: "db_vectors ?db2 = db_vectors db" "next_lsn ?db2 = next_lsn db" "db_dim ?db2 = db_dim db"
        using v1 by (simp_all add: db_vectors_def next_lsn_def db_dim_def)
      show ?thesis
      proof (cases r3)
        case (Inl err)
        then have "db_checkpoint e db io = Some (?db2, Inl err)"
          using fl r1 cb r2 wal healthy SI(1) by (simp add: db_checkpoint_def ensure_healthy_def)
        then show ?thesis using SI(2) v2 by auto
      next
        case (Inr u3)
        obtain w' r4 where rst: "wal_reset w (ck_reset io) = (w', r4)" by fastforce
        have go: "db_checkpoint e db io = Some (?db2\<lparr>db_wal := Some w'\<rparr>, r4)"
          using fl r1 cb r2 wal healthy SI(1) Inr rst by (simp add: db_checkpoint_def ensure_healthy_def)
        have sn: "snap_ok e snap (length ws) (wal_next_lsn w)" using SI(4) Inr by simp
        have "db_inv e (?db2\<lparr>db_wal := Some w'\<rparr>) ws \<and> wal_next_lsn w' = wal_next_lsn w \<and>
            (r4 = Inr () \<longrightarrow> wal_content w' = [])"
          by (rule reset_inv [OF SI(2) _ healthy _ _ _ rst]) (use wal sn SI(3) fl1 in \<open>simp_all add: db_vectors_def\<close>)
        moreover have "db_vectors (?db2\<lparr>db_wal := Some w'\<rparr>) = db_vectors db" "db_dim (?db2\<lparr>db_wal := Some w'\<rparr>) = db_dim db"
          using v2 by (simp_all add: db_vectors_def db_dim_def)
        moreover have "snap_ok e snap (length (db_vectors db)) (next_lsn db)" using sn SI(3) v1 nx by simp
        ultimately show ?thesis using go nx
          by (intro exI [of _ "?db2\<lparr>db_wal := Some w'\<rparr>"] exI [of _ r4]) (simp add: next_lsn_def)
      qed
    qed
  qed
qed

section \<open>Recovery\<close>

lemma replay_filter:
  "replay e watermark rs st = replay e watermark (filter (\<lambda>r. watermark \<le> fst r) rs) st"
proof (induction rs arbitrary: st)
  case Nil
  then show ?case by simp
next
  case (Cons r rs)
  show ?case
  proof (cases "watermark \<le> fst r")
    case False
    then show ?thesis using Cons by simp
  next
    case True
    have "(\<lambda>(h', vis'). replay e watermark rs (s', h', vis')) =
        (\<lambda>(h', vis'). replay e watermark (filter (\<lambda>r. watermark \<le> fst r) rs) (s', h', vis'))" for s'
      using Cons by (intro ext) (auto split: prod.splits)
    then show ?thesis using True by (simp split: prod.splits wal_op.splits sum.splits)
  qed
qed

text \<open>
  While the log is replayed: the graph has the first \<open>j\<close> ids, the store the rows it had flushed and
  those already replayed, and there is room for the others.
\<close>

definition replaying :: "env \<Rightarrow> f32 list list \<Rightarrow> nat \<Rightarrow> nat \<Rightarrow> nat \<Rightarrow> replay_state \<Rightarrow> bool" where
  "replaying e ws m c j st \<longleftrightarrow>
     (case st of (s, h, vis) \<Rightarrow>
        vs_inv s \<and> vs_vectors s = take (max c j) ws \<and> graph_ok e h \<and> hnsw_len h = j \<and> vis_inv vis \<and>
        (\<forall>i<m. seg_fits (vs_file s) (vs_stride s) i) \<and> header_count (vs_file s) = c \<and>
        (\<forall>v \<in> set ws. length v = vs_dim s \<and> no_nan v) \<and> length ws \<le> seg_first base_rows m \<and> m \<le> max_segments)"

lemma replay_store_step:
  assumes st: "replaying e ws m c j (s, h, vis)" and j: "j < length ws" and c: "c \<le> length ws"
  shows "\<exists>s'. replay_store s j (ws ! j) = Inr s' \<and> vs_inv s' \<and> vs_dim s' = vs_dim s \<and>
     vs_vectors s' = take (max c (j + 1)) ws \<and> header_count (vs_file s') = c \<and>
     (\<forall>i<m. seg_fits (vs_file s') (vs_stride s') i)"
proof -
  have R: "vs_inv s" "vs_vectors s = take (max c j) ws" "\<forall>i<m. seg_fits (vs_file s) (vs_stride s) i"
    "header_count (vs_file s) = c" "\<forall>v \<in> set ws. length v = vs_dim s \<and> no_nan v"
    "length ws \<le> seg_first base_rows m" "m \<le> max_segments"
    using st by (simp_all add: replaying_def)
  have n: "vs_count s = max c j" using R(2) length_vs_vectors [of s] j c by simp
  have v: "length (ws ! j) = vs_dim s" "no_nan (ws ! j)" using R(5) j by simp_all
  show ?thesis
  proof (cases "c \<le> j")
    case True
    then have cnt: "vs_count s = j" using n by simp
    then obtain s' where A: "vs_append s (ws ! j) = (s', Inr (vs_count s))" "vs_stride s' = vs_stride s"
      "\<forall>i<m. seg_fits (vs_file s') (vs_stride s) i"
      using vs_append_fits [OF R(1) v(1) _ R(7) R(3)] R(6) j by auto
    note S = vs_append_spec [OF R(1) A(1)]
    have "replay_store s j (ws ! j) = Inr s'" using cnt A(1) by (simp add: replay_store_def vs_len_def)
    moreover have "vs_vectors s' = take (max c (j + 1)) ws"
      using S R(2) True j by (simp add: take_Suc_conv_app_nth max_def)
    ultimately show ?thesis using S A R(4) by simp
  next
    case False
    then have lt: "j < vs_count s" using n by simp
    have "vs_get s j = Inr (ws ! j)" using vs_get_spec [of s j] lt R(2) False j by simp
    then have "replay_store s j (ws ! j) = Inr s" using lt f32s_eq_self [OF v(2)] by (simp add: replay_store_def vs_len_def)
    moreover have "max c (j + 1) = max c j" using False by simp
    ultimately show ?thesis using R by simp
  qed
qed

lemma replay_step:
  assumes st: "replaying e ws m c j (s, h, vis)" and j: "j < length ws" and c: "c \<le> length ws" and lev: "levels_ok e"
  shows "\<exists>s' h' vis'. replay_store s j (ws ! j) = Inr s' \<and> replay_index e s' h vis j = Some (Inr (h', vis')) \<and>
     replaying e ws m c (j + 1) (s', h', vis') \<and> vs_dim s' = vs_dim s"
proof -
  have R: "graph_ok e h" "hnsw_len h = j" "vis_inv vis" "\<forall>v \<in> set ws. length v = vs_dim s \<and> no_nan v"
    "length ws \<le> seg_first base_rows m" "m \<le> max_segments"
    using st by (simp_all add: replaying_def)
  obtain s' where S: "replay_store s j (ws ! j) = Inr s'" "vs_inv s'" "vs_dim s' = vs_dim s"
    "vs_vectors s' = take (max c (j + 1)) ws" "header_count (vs_file s') = c"
    "\<forall>i<m. seg_fits (vs_file s') (vs_stride s') i"
    using replay_store_step [OF st j c] by blast
  have "vs_count s' = max c (j + 1)" using S(4) length_vs_vectors [of s'] j c by simp
  then have "j < vs_count s'" by simp
  then obtain h' vis' where H: "hnsw_insert h (store_vec s') j (en_level e j) vis = Some (h', vis')" "graph_ok e h'"
    "hnsw_len h' = Suc j" "vis_inv vis'"
    using graph_insert [OF R(1) S(2) _ _ lev R(3), of j] R(2) by auto
  then have "replaying e ws m c (j + 1) (s', h', vis')" using S R by (simp add: replaying_def)
  moreover have "replay_index e s' h vis j = Some (Inr (h', vis'))" using H(1) R(2) by (simp add: replay_index_def)
  ultimately show ?thesis using S(1,3) by blast
qed

lemma replay_inserts:
  "replaying e ws m c j (s, h, vis) \<Longrightarrow> c \<le> length ws \<Longrightarrow> levels_ok e \<Longrightarrow> j \<le> length ws \<Longrightarrow>
   map snd rs = inserts ws j \<Longrightarrow> \<forall>r \<in> set rs. watermark \<le> fst r \<Longrightarrow>
     \<exists>s' h' vis'. replay e watermark rs (s, h, vis) = Some (Inr (s', h', vis')) \<and>
       replaying e ws m c (length ws) (s', h', vis') \<and> vs_dim s' = vs_dim s"
proof (induction rs arbitrary: j s h vis)
  case Nil
  then have "j = length ws" by (cases "ws = []") (auto simp: inserts_def)
  then show ?case using Nil by auto
next
  case (Cons r rs)
  have j: "j < length ws" using Cons.prems(5) by (cases "j < length ws") (auto simp: inserts_def)
  then have "inserts ws j = Insert j (ws ! j) # inserts ws (j + 1)" by (simp add: inserts_def upt_rec [of j])
  then have r: "snd r = Insert j (ws ! j)" "map snd rs = inserts ws (j + 1)" using Cons.prems(5) by auto
  obtain s' h' vis' where S: "replay_store s j (ws ! j) = Inr s'" "replay_index e s' h vis j = Some (Inr (h', vis'))"
    "replaying e ws m c (j + 1) (s', h', vis')" "vs_dim s' = vs_dim s"
    using replay_step [OF Cons.prems(1) j Cons.prems(2,3)] by blast
  have "replay e watermark (r # rs) (s, h, vis) = replay e watermark rs (s', h', vis')"
    using Cons.prems(6) r(1) S(1,2) by simp
  moreover have "j + 1 \<le> length ws" "\<forall>r \<in> set rs. watermark \<le> fst r" using j Cons.prems(6) by simp_all
  ultimately show ?case using Cons.IH [OF S(3) Cons.prems(2,3) _ r(2)] S(4) by auto
qed

definition opts_ok :: "db_options \<Rightarrow> bool" where
  "opts_ok opts \<longleftrightarrow>
     2 \<le> cfg_m (opt_config opts) \<and> cfg_m (opt_config opts) \<le> 4096 \<and> cfg_ef_construction (opt_config opts) < 2 ^ 32"

lemma load_index_ok:
  assumes "snap_ok e snap k watermark" and "opts_ok opts" and "dk_snap d = snap"
  shows "\<exists>h. load_index e d opts = Some (Inr (h, watermark)) \<and> graph_ok e h \<and> hnsw_len h = k"
proof (cases snap)
  case None
  obtain h where h: "hnsw_new (en_avx e) (opt_config opts) = Inr h" using assms(2) by (simp add: hnsw_new_def opts_ok_def)
  moreover have "graph_ok e h \<and> hnsw_len h = 0" using graph_ok_new [OF h] assms(2) by (simp add: opts_ok_def)
  ultimately show ?thesis using None assms by (simp add: load_index_def snap_ok_def)
next
  case (Some bs)
  then show ?thesis using assms by (auto simp: load_index_def snap_ok_def)
qed

lemma open_codebook_ok:
  assumes "codebook_ok e (vs_dim s) cb" and "dk_codebook d = cb"
  shows "\<exists>pq. open_codebook e d s = Some (Inr pq) \<and> pq_ok (vs_dim s) (vs_vectors s) pq"
proof (cases cb)
  case None
  then show ?thesis using assms by (simp add: open_codebook_def pq_ok_def)
next
  case (Some bs)
  then obtain q where q: "load_codebook (en_crc e) bs = Inr q" "pq_inv q" "pq_dim q = vs_dim s"
    using assms(1) by (auto simp: codebook_ok_def)
  have "\<forall>v \<in> set (vs_vectors s). length v = pq_dim q" using q(3) vectors_dim by auto
  then obtain cs where "map_opt (pq_encode q) (vs_vectors s) = Some cs" using codes_of_total [OF q(2)] by blast
  then have "codes_of q (vs_vectors s) = Some (concat cs)" by (simp add: codes_of_def)
  then show ?thesis using Some assms(2) q by (simp add: open_codebook_def encode_all_codes pq_ok_def)
qed

text \<open>Where a reopened store starts: the flushed rows, and room in the file for all that was there.\<close>

lemma reopened_store:
  assumes D: "durable e db ws"
  shows "\<exists>t. vs_open (vs_file (db_store db)) = Inr t \<and> vs_inv t \<and> vs_dim t = db_dim db \<and>
     header_count (vs_file t) = header_count (vs_file (db_store db)) \<and>
     vs_vectors t = take (header_count (vs_file (db_store db))) ws \<and>
     (\<forall>i < vs_mapped (db_store db). seg_fits (vs_file t) (vs_stride t) i) \<and>
     length ws \<le> seg_first base_rows (vs_mapped (db_store db)) \<and> vs_mapped (db_store db) \<le> max_segments"
proof -
  let ?s = "db_store db"
  have inv: "vs_inv ?s" and c: "header_count (vs_file ?s) \<le> vs_count ?s" using D by (simp_all add: durable_def)
  obtain w extra where ws: "ws = db_vectors db @ extra" "unacked db w extra" using D unfolding durable_def by blast
  obtain t where T: "vs_open (vs_file ?s) = Inr t" "vs_inv t" "vs_dim t = vs_dim ?s"
    "vs_vectors t = map (vs_get_unchecked ?s) [0..<header_count (vs_file ?s)]"
    using vs_open_file [OF inv] by blast
  have f: "vs_file t = vs_file ?s" using vs_open_sound [OF T(1)] by simp
  have "vs_stride t = vs_stride ?s" using inv T(2) f by (simp add: vs_inv_def geometry_ok_def header_ok_def)
  moreover have "\<forall>i < vs_mapped ?s. seg_fits (vs_file ?s) (vs_stride ?s) i" using inv by (simp add: vs_inv_def geometry_ok_def)
  moreover have "vs_vectors t = take (header_count (vs_file ?s)) ws"
    using T(4) c ws(1) by (simp add: db_vectors_def vs_vectors_def take_map)
  moreover have "length ws \<le> seg_first base_rows (vs_mapped ?s)"
    using ws inv by (auto simp: unacked_def db_vectors_def vs_inv_def)
  moreover have "vs_mapped ?s \<le> max_segments" using inv by (simp add: vs_inv_def geometry_ok_def)
  ultimately show ?thesis using T f by (simp add: db_dim_def)
qed

lemma reopen_spec:
  assumes D: "durable e db ws" and lev: "levels_ok e" and opts: "opts_ok opts" "opt_enable_wal opts"
  shows "\<exists>db2. db_open e reads_ok IoOk (files_of db) (db_dim db) opts = Some (Inr db2) \<and> db_inv e db2 ws \<and>
     db_vectors db2 = ws \<and> db_dim db2 = db_dim db \<and> next_lsn db2 \<le> next_lsn db + 1"
proof -
  let ?f = "vs_file (db_store db)" and ?m = "vs_mapped (db_store db)"
  obtain w rs k watermark extra where wal: "db_wal db = Some w" and L: "logged e db ws w rs k watermark"
    and ws: "ws = db_vectors db @ extra" and vs: "\<forall>v \<in> set ws. length v = db_dim db \<and> no_nan v"
    and cb: "codebook_ok e (db_dim db) (db_codebook db)" and hc: "header_count ?f \<le> vs_count (db_store db)"
    using D unfolding durable_def by blast
  have holds: "wal_holds (en_crc e) w rs" and wm: "watermark \<le> wal_next_lsn w" and snap: "snap_ok e (db_snap db) k watermark"
    and cov: "log_covers watermark k ws rs" and kc: "k \<le> header_count ?f"
    using L by (simp_all add: logged_def)
  obtain t where T: "vs_open ?f = Inr t" "vs_inv t" "vs_dim t = db_dim db" "header_count (vs_file t) = header_count ?f"
    "vs_vectors t = take (header_count ?f) ws" "\<forall>i < ?m. seg_fits (vs_file t) (vs_stride t) i"
    "length ws \<le> seg_first base_rows ?m" "?m \<le> max_segments"
    using reopened_store [OF D] by blast
  have cws: "header_count ?f \<le> length ws" using hc ws by (simp add: db_vectors_def)
  obtain h where H: "load_index e (files_of db) opts = Some (Inr (h, watermark))" "graph_ok e h" "hnsw_len h = k"
    using load_index_ok [OF snap opts(1), of "files_of db"] by (auto simp: files_of_def)
  have start: "replaying e ws ?m (header_count ?f) k (t, h, vis_new)"
    using T H kc vs vis_new_inv by (simp add: replaying_def max_absorb1)
  obtain w2 where W: "wal_open (en_crc e) reads_ok (wal_content w) (opt_sync opts) IoOk = (wal_content w2, Inr (w2, rs))"
    "wal_holds (en_crc e) w2 rs" "\<not> wal_poisoned w2" "wal_next_lsn w2 \<le> wal_next_lsn w + 1"
    using wal_reopen_holds [OF holds] by blast
  let ?w = "ensure_lsn_at_least w2 watermark" and ?F = "filter (\<lambda>r. watermark \<le> fst r) rs"
  have F: "map snd ?F = inserts ws k" "k \<le> length ws" "\<forall>r \<in> set ?F. watermark \<le> fst r"
    using cov by (simp_all add: log_covers_def)
  obtain s' h' vis' where R: "replay e watermark rs (t, h, vis_new) = Some (Inr (s', h', vis'))"
    "replaying e ws ?m (header_count ?f) (length ws) (s', h', vis')" "vs_dim s' = vs_dim t"
    using replay_inserts [OF start cws lev F(2,1,3)] replay_filter [of e watermark rs] by auto
  have S: "vs_inv s'" "vs_vectors s' = ws" "graph_ok e h'" "hnsw_len h' = length ws" "vis_inv vis'"
    "header_count (vs_file s') = header_count ?f" "vs_dim s' = db_dim db"
    using R cws T(3) by (simp_all add: replaying_def)
  have cnt: "vs_count s' = length ws" using S(2) length_vs_vectors [of s'] by simp
  have "dk_codebook (files_of db) = db_codebook db" by (simp add: files_of_def)
  then obtain pq where PQ: "open_codebook e (files_of db) s' = Some (Inr pq)" "pq_ok (vs_dim s') (vs_vectors s') pq"
    using open_codebook_ok [of e s' "db_codebook db" "files_of db"] cb S(7) by auto
  let ?db2 = "\<lparr>db_store = s', db_index = h', db_wal = Some ?w, db_pq = pq, db_scratch = vis',
    db_snap = db_snap db, db_codebook = db_codebook db, db_wal_file = Some (wal_content ?w)\<rparr>"
  have "db_open e reads_ok IoOk (files_of db) (db_dim db) opts = Some (Inr ?db2)"
  proof -
    have "wal_bytes (files_of db) = wal_content w" "open_store e (files_of db) (db_dim db) = Inr t"
      using wal T(1) by (simp_all add: wal_bytes_def files_of_def open_store_def)
    then show ?thesis
      using T(3) H(1) W(1) R(1) PQ(1) opts(2) S(4) cnt
      by (simp add: db_open_def recover_def vs_len_def) (simp add: files_of_def)
  qed
  moreover have ok: "db_ok e ?db2" using S PQ(2) cnt by (simp add: db_ok_def db_dim_def db_vectors_def)
  moreover have "durable e ?db2 ws"
  proof (rule durableI [where w = ?w and extra = "[]" and rs = rs and k = k and watermark = watermark])
    show "logged e ?db2 ws ?w rs k watermark"
      using ensure_lsn_holds [OF W(2)] snap cov kc S(6) by (simp add: logged_def ensure_lsn_at_least_def)
  qed (use S cws cnt vs cb in \<open>simp_all add: db_dim_def db_vectors_def unacked_def\<close>)
  moreover have "next_lsn ?db2 \<le> next_lsn db + 1"
    using W(4) wm wal by (simp add: next_lsn_def ensure_lsn_at_least_def)
  ultimately show ?thesis using S(2,7) by (intro exI [of _ ?db2]) (simp add: db_inv_def db_vectors_def db_dim_def)
qed

end
