(* ===== verification/Float64.thy ===== *)
theory Float64
  imports Float32
begin

text \<open>
  The double format \<^verbatim>\<open>f64\<close>, the conversions between it, \<^verbatim>\<open>f32\<close> and integers (\<^verbatim>\<open>as\<close>), and how large
  the results of single-precision operations can get: rounding is monotone, so an operation on values
  under a bound stays under any representable bound of the exact result.
\<close>

section \<open>Doubles and conversions\<close>

datatype f64 = F64 (f64_bits: "64 word")

definition f64_pat :: "f64 \<Rightarrow> nat" where
  "f64_pat x = unat (f64_bits x)"

definition f64_of_pat :: "nat \<Rightarrow> f64" where
  "f64_of_pat n = F64 (word_of_nat n)"

definition f64_zero :: f64 where
  "f64_zero = F64 0"

definition f64_add :: "f64 \<Rightarrow> f64 \<Rightarrow> f64" where
  "f64_add x y = f64_of_pat (fp_add 52 11 (f64_pat x) (f64_pat y))"

definition f64_div :: "f64 \<Rightarrow> f64 \<Rightarrow> f64" where
  "f64_div x y = f64_of_pat (fp_div 52 11 (f64_pat x) (f64_pat y))"

definition f64_lt :: "f64 \<Rightarrow> f64 \<Rightarrow> bool" where
  "f64_lt x y \<longleftrightarrow> \<not> fp_is_nan 52 11 (f64_pat x) \<and> \<not> fp_is_nan 52 11 (f64_pat y) \<and>
     fp_ord 52 11 (f64_pat x) < fp_ord 52 11 (f64_pat y)"

text \<open>A value in one format to the nearest in another, and an integer to the nearest value.\<close>

definition fp_convert :: "nat \<Rightarrow> nat \<Rightarrow> nat \<Rightarrow> nat \<Rightarrow> nat \<Rightarrow> nat" where
  "fp_convert p w p' w' n =
     (if fp_is_nan p w n then nan_mag p' w'
      else if fp_is_inf p w n then fp_make p' w' (fp_sign p w n) (inf_mag p' w')
      else fp_make p' w' (fp_sign p w n)
        (fp_round p' w' (fp_units p (fp_mag p w n) * 2 ^ fp_scale p' w') (2 ^ fp_scale p w)))"

definition fp_of_nat :: "nat \<Rightarrow> nat \<Rightarrow> nat \<Rightarrow> nat" where
  "fp_of_nat p w n = fp_round p w (n * 2 ^ fp_scale p w) 1"

definition f64_of_f32 :: "f32 \<Rightarrow> f64" where
  "f64_of_f32 x = f64_of_pat (fp_convert 23 8 52 11 (f32_pat x))"

definition f32_of_f64 :: "f64 \<Rightarrow> f32" where
  "f32_of_f64 x = f32_of_pat (fp_convert 52 11 23 8 (f64_pat x))"

definition f32_of_nat :: "nat \<Rightarrow> f32" where
  "f32_of_nat n = f32_of_pat (fp_of_nat 23 8 n)"

definition f64_of_nat :: "nat \<Rightarrow> f64" where
  "f64_of_nat n = f64_of_pat (fp_of_nat 52 11 n)"

text \<open>The language's \<^verbatim>\<open><=\<close>.\<close>

definition f32_le :: "f32 \<Rightarrow> f32 \<Rightarrow> bool" where
  "f32_le x y \<longleftrightarrow> f32_lt x y \<or> f32_eq x y"

lemma f32_le_nan: "f32_is_nan x \<Longrightarrow> \<not> f32_le x y"
  by (simp add: f32_le_def f32_lt_def f32_eq_def)

lemma f32_not_le: "\<not> f32_is_nan x \<Longrightarrow> \<not> f32_is_nan y \<Longrightarrow> \<not> f32_le x y \<Longrightarrow> f32_lt y x"
  using f32_total_cases [of x y] by (simp add: f32_le_def)

section \<open>Units and magnitudes\<close>

lemma fp_units_small: "m < 2 ^ (p + 1) \<Longrightarrow> fp_units p m = m"
proof -
  assume m: "m < 2 ^ (p + 1)"
  show ?thesis
  proof (cases "m < 2 ^ p")
    case True
    then show ?thesis by (simp add: fp_units_def)
  next
    case False
    then have "m div 2 ^ p = 1" using m by (intro div_nat_eqI) simp_all
    moreover have "m mod 2 ^ p = m - 2 ^ p" using \<open>m div 2 ^ p = 1\<close> by (simp add: modulo_nat_def)
    ultimately show ?thesis using False by (simp add: fp_units_def)
  qed
qed

lemma fp_units_shift: "2 ^ p \<le> m \<Longrightarrow> fp_units p (m + 2 ^ p) = 2 * fp_units p m"
proof -
  assume m: "2 ^ p \<le> m"
  then have e: "m div 2 ^ p \<noteq> 0" by (simp add: div_eq_0_iff)
  then have "(2::nat) ^ (m div 2 ^ p) = 2 * 2 ^ (m div 2 ^ p - 1)" by (cases "m div 2 ^ p") simp_all
  then show ?thesis using e by (simp add: fp_units_def Let_def div_add_self2)
qed

text \<open>The least and the next-to-last units of a binade.\<close>

lemma fp_units_bounds:
  assumes "2 ^ p \<le> m"
  shows "2 ^ (p + (m div 2 ^ p - 1)) \<le> fp_units p m" and "fp_units p m < 2 ^ (p + 1 + (m div 2 ^ p - 1))"
proof -
  have e: "m div 2 ^ p \<noteq> 0" using assms by (simp add: div_eq_0_iff)
  have f: "m mod 2 ^ p < 2 ^ p" by simp
  have "2 ^ p * 2 ^ (m div 2 ^ p - 1) \<le> (2 ^ p + m mod 2 ^ p) * 2 ^ (m div 2 ^ p - 1)" by (rule mult_le_mono1) simp
  then show "2 ^ (p + (m div 2 ^ p - 1)) \<le> fp_units p m" using e by (simp only: fp_units_def power_add Let_def if_False)
  have "(2 ^ p + m mod 2 ^ p) * 2 ^ (m div 2 ^ p - 1) < (2 ^ p * 2 ^ 1) * 2 ^ (m div 2 ^ p - 1)" using f by simp
  then show "fp_units p m < 2 ^ (p + 1 + (m div 2 ^ p - 1))"
    using e by (simp only: fp_units_def power_add Let_def if_False)
qed

lemma fp_units_Suc: "fp_units p m < fp_units p (Suc m)"
proof (cases "Suc m < 2 ^ (p + 1)")
  case True
  then show ?thesis by (simp add: fp_units_small)
next
  case False
  then have m: "2 ^ p \<le> m" by simp
  then have e: "m div 2 ^ p \<noteq> 0" by (simp add: div_eq_0_iff)
  show ?thesis
  proof (cases "Suc (m mod 2 ^ p) = 2 ^ p")
    case True
    then have d: "Suc m div 2 ^ p = Suc (m div 2 ^ p)" "Suc m mod 2 ^ p = 0"
      by (simp_all add: div_Suc mod_Suc)
    have "2 ^ p \<le> Suc m" using m by simp
    from fp_units_bounds(1) [OF this] have "2 ^ (p + m div 2 ^ p) \<le> fp_units p (Suc m)" using d by simp
    moreover have "fp_units p m < 2 ^ (p + m div 2 ^ p)" using fp_units_bounds(2) [OF m] e by simp
    ultimately show ?thesis by simp
  next
    case False
    then have "Suc m div 2 ^ p = m div 2 ^ p" "Suc m mod 2 ^ p = Suc (m mod 2 ^ p)"
      by (simp_all add: div_Suc mod_Suc)
    then show ?thesis using e by (simp add: fp_units_def Let_def)
  qed
qed

lemma fp_units_less: "fp_units p m < fp_units p n \<longleftrightarrow> m < n"
  by (rule lift_Suc_mono_less_iff) (rule fp_units_Suc)

lemma fp_units_mono: "m \<le> n \<Longrightarrow> fp_units p m \<le> fp_units p n"
  using fp_units_less [of p n m] by linarith

section \<open>Rounding is monotone\<close>

lemma rne_le: "0 < d \<Longrightarrow> n \<le> q * d \<Longrightarrow> rne n d \<le> q"
proof -
  assume d: "0 < d" and n: "n \<le> q * d"
  have "n div d \<le> q" using n d by (metis div_le_mono div_mult_self_is_m)
  show ?thesis
  proof (cases "n div d = q")
    case True
    then have "n mod d = 0" using n div_mult_mod_eq [of n d] by simp
    then show ?thesis using True d by (simp add: rne_def rne_adjust_def)
  next
    case False
    then show ?thesis using \<open>n div d \<le> q\<close> by (simp add: rne_def rne_adjust_def)
  qed
qed

lemma fp_binade_bounds:
  assumes "2 ^ (p + 1) \<le> q"
  shows "2 ^ (p + fp_binade p q) \<le> q" and "q < 2 ^ (p + 1 + fp_binade p q)"
proof -
  have "(0::nat) < 2 ^ (p + 1)" by simp
  then have q: "0 < q" using assms by (rule less_le_trans)
  note B = ilog2_bounds [OF q]
  have "(2::nat) ^ p < 2 ^ Suc (ilog2 q)" using B assms by simp
  then have "p < Suc (ilog2 q)" by (rule power_less_imp_less_exp [rotated]) simp
  then have p: "p \<le> ilog2 q" by simp
  have "fp_binade p q = ilog2 q - p" using assms by (simp add: fp_binade_def)
  then have "p + fp_binade p q = ilog2 q" using p by simp
  then show "2 ^ (p + fp_binade p q) \<le> q" and "q < 2 ^ (p + 1 + fp_binade p q)" using B by simp_all
qed

lemma fp_round_le_mag:
  assumes d: "0 < d" and n: "n \<le> fp_units p m * d"
  shows "fp_round p w n d \<le> m"
proof -
  let ?q = "n div d" and ?e = "fp_binade p (n div d)"
  have q: "?q \<le> fp_units p m" using d n by (metis div_le_mono div_mult_self_is_m)
  have nq: "n < (?q + 1) * d" using d by (metis Suc_eq_plus1 dividend_less_div_times mult.commute mult_Suc_right)
  have "?e * 2 ^ p + rne n (d * 2 ^ ?e) \<le> m"
  proof (cases "?q < 2 ^ (p + 1)")
    case True
    then have e: "?e = 0" by (simp add: fp_binade_def)
    have "rne n d \<le> m"
    proof (cases "m < 2 ^ (p + 1)")
      case True
      then show ?thesis using rne_le [OF d] n fp_units_small [OF True] by simp
    next
      case False
      have "(?q + 1) * d \<le> 2 ^ (p + 1) * d" using True by (intro mult_le_mono1) simp
      then have "rne n d \<le> 2 ^ (p + 1)" using nq by (intro rne_le [OF d]) simp
      then show ?thesis using False by simp
    qed
    then show ?thesis using e by simp
  next
    case False
    then have big: "2 ^ (p + 1) \<le> ?q" by simp
    have m: "2 ^ p \<le> m"
    proof (rule ccontr)
      assume "\<not> 2 ^ p \<le> m"
      then have "m < 2 ^ (p + 1)" by simp
      then have "fp_units p m < 2 ^ (p + 1)" by (simp add: fp_units_small)
      then show False using q big by simp
    qed
    let ?E = "m div 2 ^ p - 1"
    have mE: "m = (?E + 1) * 2 ^ p + m mod 2 ^ p"
    proof -
      have "m div 2 ^ p \<noteq> 0" using m by (simp add: div_eq_0_iff)
      then have "?E + 1 = m div 2 ^ p" by simp
      then show ?thesis by (metis div_mult_mod_eq)
    qed
    have "2 ^ (p + ?e) < (2::nat) ^ (p + 1 + ?E)"
      using fp_binade_bounds(1) [OF big] q fp_units_bounds(2) [OF m] by simp
    then have "p + ?e < p + 1 + ?E" by (rule power_less_imp_less_exp [rotated]) simp
    then have le: "?e \<le> ?E" by simp
    have dE: "0 < d * 2 ^ ?e" using d by simp
    show ?thesis
    proof (cases "?e = ?E")
      case True
      have "fp_units p m = (2 ^ p + m mod 2 ^ p) * 2 ^ ?E" using m by (simp add: fp_units_def div_eq_0_iff)
      then have "n \<le> (2 ^ p + m mod 2 ^ p) * (d * 2 ^ ?e)" using n True by (simp add: mult_ac)
      then have "rne n (d * 2 ^ ?e) \<le> 2 ^ p + m mod 2 ^ p" by (rule rne_le [OF dE])
      then show ?thesis using mE True by simp
    next
      case False
      have "(?q + 1) * d \<le> 2 ^ (p + 1 + ?e) * d"
        using fp_binade_bounds(2) [OF big] by (intro mult_le_mono1) simp
      then have "n \<le> 2 ^ (p + 1) * (d * 2 ^ ?e)" using nq by (simp add: power_add mult_ac)
      then have r: "rne n (d * 2 ^ ?e) \<le> 2 ^ (p + 1)" by (rule rne_le [OF dE])
      have "(?e + 2) * 2 ^ p \<le> (?E + 1) * 2 ^ p" using False le by (intro mult_le_mono1) simp
      then show ?thesis using r mE by simp
    qed
  qed
  then show ?thesis by (simp add: fp_round_def fp_pack_def)
qed

section \<open>Bounds through single-precision operations\<close>

text \<open>A finite value of at most \<open>u\<close> units, and the bounds that are themselves values.\<close>

definition f32_units :: "f32 \<Rightarrow> nat" where
  "f32_units x = fp_units 23 (fp_mag 23 8 (f32_pat x))"

definition f32_below :: "f32 \<Rightarrow> nat \<Rightarrow> bool" where
  "f32_below x u \<longleftrightarrow> f32_is_finite x \<and> f32_units x \<le> u"

definition f32_value :: "nat \<Rightarrow> bool" where
  "f32_value u \<longleftrightarrow> (\<exists>m < inf_mag 23 8. fp_units 23 m = u)"

lemma f32_finite_class: "f32_is_finite x \<longleftrightarrow> \<not> fp_is_nan 23 8 (f32_pat x) \<and> \<not> fp_is_inf 23 8 (f32_pat x)"
  by (auto simp: f32_is_finite_def fp_is_nan_def fp_is_inf_def)

lemma f32_below_mono: "f32_below x u \<Longrightarrow> u \<le> v \<Longrightarrow> f32_below x v"
  by (simp add: f32_below_def)

lemma f32_below_zero [simp]: "f32_below f32_zero u"
  by (simp add: f32_below_def f32_units_def f32_is_finite_def fp_mag_def fp_units_def inf_mag_def)

text \<open>A rounded result under a value: its magnitude is under that of the bound.\<close>

lemma f32_belowI:
  assumes "f32_value u" and "0 < d" and "n \<le> u * d"
    and "fp_mag 23 8 (f32_pat x) = fp_round 23 8 n d \<or> fp_mag 23 8 (f32_pat x) = 0"
  shows "f32_below x u"
proof -
  obtain m where m: "m < inf_mag 23 8" "fp_units 23 m = u" using assms(1) by (auto simp: f32_value_def)
  have "fp_round 23 8 n d \<le> m" using assms(2,3) m(2) by (intro fp_round_le_mag) simp_all
  then have "fp_mag 23 8 (f32_pat x) \<le> m" using assms(4) by auto
  then show ?thesis using m fp_units_mono [of _ m 23] by (auto simp: f32_below_def f32_units_def f32_is_finite_def)
qed

lemma fp_int_units: "nat \<bar>fp_int p w a\<bar> = fp_units p (fp_mag p w a)"
  by (simp add: fp_int_def)

lemma f32_below_add:
  assumes "f32_below x u" "f32_below y v" "f32_value (u + v)"
  shows "f32_below (f32_add x y) (u + v)"
proof (rule f32_belowI [OF assms(3), of 1 "nat \<bar>fp_int 23 8 (f32_pat x) + fp_int 23 8 (f32_pat y)\<bar>"])
  have "nat \<bar>fp_int 23 8 (f32_pat x) + fp_int 23 8 (f32_pat y)\<bar> \<le>
      nat \<bar>fp_int 23 8 (f32_pat x)\<bar> + nat \<bar>fp_int 23 8 (f32_pat y)\<bar>" by linarith
  also have "\<dots> \<le> u + v" using assms(1,2) by (simp add: fp_int_units f32_below_def f32_units_def)
  finally show "nat \<bar>fp_int 23 8 (f32_pat x) + fp_int 23 8 (f32_pat y)\<bar> \<le> (u + v) * 1" by simp
  show "fp_mag 23 8 (f32_pat (f32_add x y)) = fp_round 23 8 (nat \<bar>fp_int 23 8 (f32_pat x) + fp_int 23 8 (f32_pat y)\<bar>) 1 \<or>
      fp_mag 23 8 (f32_pat (f32_add x y)) = 0"
    using assms(1,2) by (simp add: f32_below_def f32_finite_class f32_pat_ops fp_add_def fp_of_int_mag)
qed simp

lemma f32_below_sub:
  assumes "f32_below x u" "f32_below y v" "f32_value (u + v)"
  shows "f32_below (f32_sub x y) (u + v)"
proof (rule f32_belowI [OF assms(3), of 1 "nat \<bar>fp_int 23 8 (f32_pat x) - fp_int 23 8 (f32_pat y)\<bar>"])
  have "nat \<bar>fp_int 23 8 (f32_pat x) - fp_int 23 8 (f32_pat y)\<bar> \<le>
      nat \<bar>fp_int 23 8 (f32_pat x)\<bar> + nat \<bar>fp_int 23 8 (f32_pat y)\<bar>" by linarith
  also have "\<dots> \<le> u + v" using assms(1,2) by (simp add: fp_int_units f32_below_def f32_units_def)
  finally show "nat \<bar>fp_int 23 8 (f32_pat x) - fp_int 23 8 (f32_pat y)\<bar> \<le> (u + v) * 1" by simp
  show "fp_mag 23 8 (f32_pat (f32_sub x y)) = fp_round 23 8 (nat \<bar>fp_int 23 8 (f32_pat x) - fp_int 23 8 (f32_pat y)\<bar>) 1 \<or>
      fp_mag 23 8 (f32_pat (f32_sub x y)) = 0"
    using assms(1,2) by (simp add: f32_below_def f32_finite_class f32_pat_ops fp_sub_def fp_add_def fp_of_int_mag)
qed simp

lemma f32_below_mul:
  assumes "f32_below x u" "f32_below y v" "f32_value t" "u * v \<le> t * 2 ^ 149"
  shows "f32_below (f32_mul x y) t"
proof (rule f32_belowI [OF assms(3), of "2 ^ 149" "f32_units x * f32_units y"])
  have "f32_units x * f32_units y \<le> u * v" using assms(1,2) by (intro mult_le_mono) (simp_all add: f32_below_def)
  then show "f32_units x * f32_units y \<le> t * 2 ^ 149" using assms(4) by simp
  have "fp_scale 23 8 = 149" by (simp add: fp_scale_def)
  then show "fp_mag 23 8 (f32_pat (f32_mul x y)) = fp_round 23 8 (f32_units x * f32_units y) (2 ^ 149) \<or>
      fp_mag 23 8 (f32_pat (f32_mul x y)) = 0"
    using assms(1,2) fp_round_less [of 23 8 "f32_units x * f32_units y" "2 ^ 149"]
    by (simp add: f32_below_def f32_finite_class f32_pat_ops fp_mul_def f32_units_def Let_def del: power_numeral)
qed simp

text \<open>Small multiples of powers of two are values.\<close>

lemma fp_grid_units: "i \<le> 2 ^ (p + 1) \<Longrightarrow> \<exists>m. fp_units p m = i * 2 ^ j"
proof (induction j)
  case 0
  show ?case
  proof (cases "i = 2 ^ (p + 1)")
    case True
    have "fp_units p (2 ^ (p + 1)) = 2 ^ (p + 1)" by (simp add: fp_units_def)
    then show ?thesis using True by (intro exI [of _ "2 ^ (p + 1)"]) simp
  next
    case False
    then have "fp_units p i = i" using 0 by (intro fp_units_small) simp
    then show ?thesis by auto
  qed
next
  case (Suc j)
  then obtain m where m: "fp_units p m = i * 2 ^ j" by auto
  show ?case
  proof (cases "2 ^ p \<le> m")
    case True
    then show ?thesis using fp_units_shift [OF True] m by (intro exI [of _ "m + 2 ^ p"]) simp
  next
    case False
    then have "fp_units p m = m" "fp_units p (2 * m) = 2 * m" by (simp_all add: fp_units_small)
    then show ?thesis using m by (intro exI [of _ "2 * m"]) simp
  qed
qed

lemma f32_grid_units: "i \<le> 2 ^ 24 \<Longrightarrow> \<exists>m. fp_units 23 m = i * 2 ^ j"
  using fp_grid_units [of i 23 j] by simp

lemma f32_value_grid: "i \<le> 2 ^ 24 \<Longrightarrow> i * 2 ^ j < 2 ^ 277 \<Longrightarrow> f32_value (i * 2 ^ j)"
proof -
  assume i: "i \<le> 2 ^ 24" "i * 2 ^ j < 2 ^ 277"
  obtain m where m: "fp_units 23 m = i * 2 ^ j" using f32_grid_units [OF i(1)] by blast
  have "fp_units 23 (inf_mag 23 8) = 2 ^ 277" by (simp add: fp_units_def inf_mag_def)
  then have "m < inf_mag 23 8" using i(2) m fp_units_less [of 23 m "inf_mag 23 8"] by simp
  then show ?thesis using m by (auto simp: f32_value_def)
qed

end
