(* ===== verification/Pq_Train.thy ===== *)
theory Pq_Train
  imports Pq Float64
begin

text \<open>
  Training a quantizer (\<^verbatim>\<open>train\<close> and \<^verbatim>\<open>kmeans\<close> of \<^verbatim>\<open>src/vektordb-core/src/pq/mod.rs\<close>): k-means++
  seeding and Lloyd iterations, one subspace at a time.  The random generator is a library; its draws
  are the record \<open>rng\<close>, and \<open>None\<close> of a draw is its panic on a range it cannot sample.  Every subspace
  seeds its own generator, so running them in parallel changes nothing.
\<close>

section \<open>The generator\<close>

record 'g rng =
  rg_seed :: "nat \<Rightarrow> 'g"
  rg_u64 :: "'g \<Rightarrow> nat \<times> 'g"
  rg_below :: "nat \<Rightarrow> 'g \<Rightarrow> (nat \<times> 'g) option"
  rg_float :: "f32 \<Rightarrow> 'g \<Rightarrow> (f32 \<times> 'g) option"

text \<open>
  What \<^verbatim>\<open>gen_range(0..n)\<close> and \<^verbatim>\<open>gen_range(0.0..total)\<close> document: a draw inside the range, and a panic
  when the range is empty or its width is not finite.
\<close>

definition rng_ok :: "'g rng \<Rightarrow> bool" where
  "rng_ok r \<longleftrightarrow>
     (\<forall>n g. if n = 0 then rg_below r n g = None else \<exists>i g'. rg_below r n g = Some (i, g') \<and> i < n) \<and>
     (\<forall>t g. if f32_is_finite t \<and> f32_lt f32_zero t then \<exists>x g'. rg_float r t g = Some (x, g') \<and> f32_le f32_zero x \<and> f32_lt x t
            else rg_float r t g = None)"

section \<open>Loops\<close>

primrec fold_opt :: "('a \<Rightarrow> 's \<Rightarrow> 's option) \<Rightarrow> 'a list \<Rightarrow> 's \<Rightarrow> 's option" where
  "fold_opt f [] s = Some s"
| "fold_opt f (x # xs) s = do { s' \<leftarrow> f x s; fold_opt f xs s' }"

text \<open>\<^verbatim>\<open>xs[i] = f(xs[i])\<close> and \<^verbatim>\<open>xs[off..][..n].copy_from_slice(ys)\<close>, which panic out of range.\<close>

definition modify_opt :: "'a list \<Rightarrow> nat \<Rightarrow> ('a \<Rightarrow> 'a) \<Rightarrow> 'a list option" where
  "modify_opt xs i f = (if i < length xs then Some (xs[i := f (xs ! i)]) else None)"

definition copy_slice :: "'a list \<Rightarrow> nat \<Rightarrow> nat \<Rightarrow> 'a list \<Rightarrow> 'a list option" where
  "copy_slice xs off n ys =
     (if off + n \<le> length xs \<and> length ys = n then Some (take off xs @ ys @ drop (off + n) xs) else None)"

section \<open>Seeding\<close>

definition point_row :: "f32 list \<Rightarrow> nat \<Rightarrow> nat \<Rightarrow> f32 list option" where
  "point_row points d i = slice points (i * d) d"

definition row_distance_to :: "f32 list \<Rightarrow> nat \<Rightarrow> f32 list \<Rightarrow> nat \<Rightarrow> f32 option" where
  "row_distance_to points d c i = do { x \<leftarrow> point_row points d i; scalar_l2_squared x c }"

text \<open>The first row at which the target is used up.\<close>

primrec pick_loop :: "(nat \<times> f32) list \<Rightarrow> f32 \<Rightarrow> nat \<Rightarrow> nat" where
  "pick_loop [] target chosen = chosen"
| "pick_loop (iw # ws) target chosen =
     (let target' = f32_sub target (snd iw)
      in if f32_le target' f32_zero then fst iw else pick_loop ws target' chosen)"

definition sum_f32 :: "f32 list \<Rightarrow> f32" where
  "sum_f32 xs = foldl f32_add (f32_neg f32_zero) xs"

definition pick_row :: "'g rng \<Rightarrow> nat \<Rightarrow> f32 list \<Rightarrow> 'g \<Rightarrow> (nat \<times> 'g) option" where
  "pick_row r n d2 g =
     (let total = sum_f32 d2
      in if f32_le total f32_zero then rg_below r n g
         else do {
           (target, g') \<leftarrow> rg_float r total g;
           Some (pick_loop (enumerate 0 d2) target (n - 1), g') })"

type_synonym 'g seeding = "f32 list \<times> f32 list \<times> 'g"

definition seed_step :: "'g rng \<Rightarrow> f32 list \<Rightarrow> nat \<Rightarrow> nat \<Rightarrow> nat \<Rightarrow> 'g seeding \<Rightarrow> 'g seeding option" where
  "seed_step r points n d k st =
     (case st of (centroids, d2, g) \<Rightarrow> do {
        (pick, g') \<leftarrow> pick_row r n d2 g;
        new_c \<leftarrow> point_row points d pick;
        dds \<leftarrow> map_opt (row_distance_to points d new_c) [0..<n];
        Some (centroids @ new_c, map2 (\<lambda>nearest dd. if f32_lt dd nearest then dd else nearest) d2 dds, g') })"

definition seed_centroids :: "'g rng \<Rightarrow> f32 list \<Rightarrow> nat \<Rightarrow> nat \<Rightarrow> 'g \<Rightarrow> (f32 list \<times> 'g) option" where
  "seed_centroids r points n d g = do {
     (first, g1) \<leftarrow> rg_below r n g;
     c \<leftarrow> point_row points d first;
     d2 \<leftarrow> map_opt (row_distance_to points d c) [0..<n];
     (centroids, _, g2) \<leftarrow> fold_opt (seed_step r points n d) [1..<pq_k] (c, d2, g1);
     Some (centroids, g2) }"

section \<open>Lloyd iterations\<close>

definition nearest_centroid :: "f32 list \<Rightarrow> nat \<Rightarrow> f32 list \<Rightarrow> nat \<Rightarrow> nat option" where
  "nearest_centroid points d centroids i = map_option fst
     (best_loop (\<lambda>k. do { c \<leftarrow> slice centroids (k * d) d; row_distance_to points d c i }) [0..<pq_k] (0, f32_inf))"

type_synonym sums = "f64 list \<times> u32 list"

definition add_coordinate :: "f32 list \<Rightarrow> nat \<Rightarrow> nat \<Rightarrow> nat \<Rightarrow> nat \<Rightarrow> f64 list \<Rightarrow> f64 list option" where
  "add_coordinate points d i k j s = do {
     x \<leftarrow> nth_opt points (i * d + j);
     modify_opt s (k * d + j) (\<lambda>y. f64_add y (f64_of_f32 x)) }"

definition add_point :: "f32 list \<Rightarrow> nat \<Rightarrow> nat list \<Rightarrow> nat \<Rightarrow> sums \<Rightarrow> sums option" where
  "add_point points d assign i st =
     (case st of (s, counts) \<Rightarrow> do {
        k \<leftarrow> nth_opt assign i;
        counts' \<leftarrow> modify_opt counts k (\<lambda>c. c + 1);
        s' \<leftarrow> fold_opt (add_coordinate points d i k) [0..<d] s;
        Some (s', counts') })"

definition mean_coordinate :: "sums \<Rightarrow> nat \<Rightarrow> nat \<Rightarrow> nat \<Rightarrow> f32 list \<Rightarrow> f32 list option" where
  "mean_coordinate st d k j centroids = do {
     x \<leftarrow> nth_opt (fst st) (k * d + j);
     n \<leftarrow> nth_opt (snd st) k;
     modify_opt centroids (k * d + j) (\<lambda>_. f32_of_f64 (f64_div x (f64_of_nat (unat n)))) }"

definition move_centroid :: "'g rng \<Rightarrow> f32 list \<Rightarrow> nat \<Rightarrow> nat \<Rightarrow> sums \<Rightarrow> nat \<Rightarrow> f32 list \<times> 'g \<Rightarrow> (f32 list \<times> 'g) option" where
  "move_centroid r points n d sc k st =
     (case st of (centroids, g) \<Rightarrow> do {
        c \<leftarrow> nth_opt (snd sc) k;
        if c = 0 then do {
          (i, g') \<leftarrow> rg_below r n g;
          p \<leftarrow> point_row points d i;
          centroids' \<leftarrow> copy_slice centroids (k * d) d p;
          Some (centroids', g') }
        else do {
          centroids' \<leftarrow> fold_opt (mean_coordinate sc d k) [0..<d] centroids;
          Some (centroids', g) } })"

definition lloyd_step :: "'g rng \<Rightarrow> f32 list \<Rightarrow> nat \<Rightarrow> nat \<Rightarrow> nat \<Rightarrow> f32 list \<times> 'g \<Rightarrow> (f32 list \<times> 'g) option" where
  "lloyd_step r points n d it st = do {
     assign \<leftarrow> map_opt (nearest_centroid points d (fst st)) [0..<n];
     sc \<leftarrow> fold_opt (add_point points d assign) [0..<n] (replicate (pq_k * d) f64_zero, replicate pq_k 0);
     fold_opt (move_centroid r points n d sc) [0..<pq_k] st }"

definition kmeans :: "'g rng \<Rightarrow> f32 list \<Rightarrow> nat \<Rightarrow> nat \<Rightarrow> nat \<Rightarrow> 'g \<Rightarrow> f32 list option" where
  "kmeans r points n d iters g = do {
     seeded \<leftarrow> seed_centroids r points n d g;
     (centroids, _) \<leftarrow> fold_opt (lloyd_step r points n d) [0..<iters] seeded;
     Some centroids }"

section \<open>Training\<close>

primrec draw_seeds :: "'g rng \<Rightarrow> nat \<Rightarrow> 'g \<Rightarrow> nat list" where
  "draw_seeds r 0 g = []"
| "draw_seeds r (Suc m) g = (case rg_u64 r g of (seed, g') \<Rightarrow> seed # draw_seeds r m g')"

definition sub_points :: "f32 list \<Rightarrow> nat \<Rightarrow> nat \<Rightarrow> nat \<Rightarrow> nat \<Rightarrow> f32 list option" where
  "sub_points samples dim sub_dim n sub =
     map_option concat (map_opt (\<lambda>i. slice samples (i * dim + sub * sub_dim) sub_dim) [0..<n])"

definition train_sub :: "'g rng \<Rightarrow> f32 list \<Rightarrow> nat \<Rightarrow> nat \<Rightarrow> nat \<Rightarrow> nat \<Rightarrow> nat \<times> nat \<Rightarrow> f32 list option" where
  "train_sub r samples dim sub_dim n iters ss = do {
     points \<leftarrow> sub_points samples dim sub_dim n (fst ss);
     kmeans r points n sub_dim iters (rg_seed r (snd ss)) }"

definition pq_train :: "'g rng \<Rightarrow> f32 list \<Rightarrow> nat \<Rightarrow> nat \<Rightarrow> nat \<Rightarrow> 'g \<Rightarrow> quantizer result option" where
  "pq_train r samples dim m iters g =
     (if dim = 0 \<or> m = 0 \<or> dim mod m \<noteq> 0 then
        Some (Inl (InvalidArgument (''PQ m must be a non-zero divisor of dimension '' @ show_nat dim)))
      else if samples = [] \<or> length samples mod dim \<noteq> 0 then
        Some (Inl (InvalidArgument ''PQ samples must contain complete, non-empty rows''))
      else
        let n = length samples div dim
        in if n < pq_k then
             Some (Inl (InvalidArgument (''need at least '' @ show_nat pq_k @ '' training vectors, got '' @ show_nat n)))
           else
             let sub_dim = dim div m
             in do {
               books \<leftarrow> map_opt (train_sub r samples dim sub_dim n iters) (enumerate 0 (draw_seeds r m g));
               Some (Inr \<lparr>pq_dim = dim, pq_m = m, pq_sub_dim = sub_dim, pq_centroids = concat books\<rparr>) })"

section \<open>What the loops keep\<close>

lemma fold_opt_inv:
  "P s \<Longrightarrow> (\<And>x s. x \<in> set xs \<Longrightarrow> P s \<Longrightarrow> \<exists>s'. f x s = Some s' \<and> P s') \<Longrightarrow> \<exists>s'. fold_opt f xs s = Some s' \<and> P s'"
proof (induction xs arbitrary: s)
  case Nil
  then show ?case by simp
next
  case (Cons x xs)
  obtain s' where s': "f x s = Some s'" "P s'" using Cons.prems(1) Cons.prems(2) [of x s] by auto
  have "\<exists>s''. fold_opt f xs s' = Some s'' \<and> P s''" using s'(2) Cons.prems(2) by (intro Cons.IH) simp_all
  then show ?case using s'(1) by simp
qed

lemma fold_opt_inv_Some:
  "fold_opt f xs s = Some t \<Longrightarrow> P s \<Longrightarrow> (\<And>x s s'. x \<in> set xs \<Longrightarrow> P s \<Longrightarrow> f x s = Some s' \<Longrightarrow> P s') \<Longrightarrow> P t"
proof (induction xs arbitrary: s)
  case Nil
  then show ?case by simp
next
  case (Cons x xs)
  then obtain s' where s': "f x s = Some s'" "fold_opt f xs s' = Some t" by (auto split: bind_splits)
  have "P s'" by (rule Cons.prems(3) [OF _ Cons.prems(2) s'(1)]) simp
  moreover have "P u'" if "x \<in> set xs" "P u" "f x u = Some u'" for x u u'
    by (rule Cons.prems(3) [OF _ that(2,3)]) (use that(1) in simp)
  ultimately show ?case by (rule Cons.IH [OF s'(2)])
qed

lemma modify_opt_length: "modify_opt xs i f = Some ys \<Longrightarrow> length ys = length xs"
  by (auto simp: modify_opt_def split: if_splits)

lemma copy_slice_length: "copy_slice xs off n ys = Some zs \<Longrightarrow> length zs = length xs"
  by (auto simp: copy_slice_def split: if_splits)

lemma add_coordinate_length: "add_coordinate points d i k j s = Some s' \<Longrightarrow> length s' = length s"
  by (auto simp: add_coordinate_def modify_opt_length split: bind_splits)

lemma mean_coordinate_length: "mean_coordinate sc d k j c = Some c' \<Longrightarrow> length c' = length c"
  by (auto simp: mean_coordinate_def modify_opt_length split: bind_splits)

lemma fold_opt_length:
  "fold_opt f xs s = Some s' \<Longrightarrow> (\<And>x s s'. f x s = Some s' \<Longrightarrow> length s' = length s) \<Longrightarrow> length s' = length (s :: 'a list)"
  using fold_opt_inv_Some [of f xs s s' "\<lambda>t. length t = length s"] by metis

lemma move_centroid_length:
  "move_centroid r points n d sc k (c, g) = Some (c', g') \<Longrightarrow> length c' = length c"
  using fold_opt_length [OF _ mean_coordinate_length]
  by (auto simp: move_centroid_def copy_slice_length split: bind_splits if_splits)

lemma lloyd_step_length:
  assumes "lloyd_step r points n d it st = Some st'"
  shows "length (fst st') = length (fst st)"
proof -
  obtain sc where "fold_opt (move_centroid r points n d sc) [0..<pq_k] st = Some st'"
    using assms by (auto simp: lloyd_step_def split: bind_splits)
  then show ?thesis
    by (rule fold_opt_inv_Some) (auto dest: move_centroid_length)
qed

text \<open>The seeds are rows of the points.\<close>

lemma seed_fold_rows:
  "fold_opt (seed_step r points n d) ks (cs, d2, g) = Some (cs', d2', g') \<Longrightarrow>
     \<exists>rows. cs' = cs @ concat rows \<and> length rows = length ks \<and> (\<forall>c \<in> set rows. \<exists>i. point_row points d i = Some c)"
proof (induction ks arbitrary: cs d2 g)
  case Nil
  then show ?case by simp
next
  case (Cons k ks)
  obtain cs1 e h where S0: "seed_step r points n d k (cs, d2, g) = Some (cs1, e, h)"
      "fold_opt (seed_step r points n d) ks (cs1, e, h) = Some (cs', d2', g')"
    using Cons.prems by (auto split: bind_splits)
  obtain c i where c: "cs1 = cs @ c" "point_row points d i = Some c"
    using S0(1) by (auto simp: seed_step_def split: bind_splits)
  note S = S0(1) c(2) S0(2) [unfolded c(1)]
  obtain rows where "cs' = (cs @ c) @ concat rows" "length rows = length ks"
      "\<forall>c \<in> set rows. \<exists>i. point_row points d i = Some c"
    using Cons.IH [OF S(3)] by blast
  then show ?case using S(2) by (intro exI [of _ "c # rows"]) auto
qed

lemma seed_centroids_rows:
  assumes "seed_centroids r points n d g = Some (cs, g')"
  shows "\<exists>rows. cs = concat rows \<and> length rows = pq_k \<and> (\<forall>c \<in> set rows. \<exists>i. point_row points d i = Some c)"
proof -
  obtain c i d2 g1 d2' where S: "point_row points d i = Some c"
      "fold_opt (seed_step r points n d) [1..<pq_k] (c, d2, g1) = Some (cs, d2', g')"
    using assms by (auto simp: seed_centroids_def split: bind_splits prod.splits)
  obtain rows where "cs = c @ concat rows" "length rows = length [1..<pq_k]"
      "\<forall>c \<in> set rows. \<exists>i. point_row points d i = Some c"
    using seed_fold_rows [OF S(2)] by blast
  then show ?thesis using S(1) by (intro exI [of _ "c # rows"]) (auto simp: pq_k_def)
qed

lemma point_row_length: "point_row points d i = Some c \<Longrightarrow> length c = d"
  by (simp add: point_row_def slice_length)

lemma concat_rows_length:
  "\<forall>c \<in> set rows. \<exists>i. point_row points d i = Some c \<Longrightarrow> length (concat rows) = length rows * d"
  using point_row_length by (induction rows) fastforce+

lemma kmeans_length:
  assumes "kmeans r points n d iters g = Some cs"
  shows "length cs = pq_k * d"
proof -
  obtain c g1 g2 where S: "seed_centroids r points n d g = Some (c, g1)"
      "fold_opt (lloyd_step r points n d) [0..<iters] (c, g1) = Some (cs, g2)"
    using assms by (auto simp: kmeans_def split: bind_splits)
  have "length c = pq_k * d" using seed_centroids_rows [OF S(1)] concat_rows_length by metis
  moreover have "length (fst (cs, g2)) = length c"
    using S(2) by (rule fold_opt_inv_Some) (simp_all add: lloyd_step_length)
  ultimately show ?thesis by simp
qed

lemma map_opt_set: "map_opt f xs = Some ys \<Longrightarrow> y \<in> set ys \<Longrightarrow> \<exists>x \<in> set xs. f x = Some y"
  by (induction xs arbitrary: ys) (auto split: bind_splits)

lemma draw_seeds_length [simp]: "length (draw_seeds r m g) = m"
  by (induction m arbitrary: g) (auto split: prod.splits)

lemma pq_train_inv:
  assumes "pq_train r samples dim m iters g = Some (Inr q)" and "dim < 2 ^ 32"
  shows "pq_inv q \<and> pq_dim q = dim \<and> pq_m q = m"
proof -
  let ?sub = "dim div m" and ?n = "length samples div dim"
  obtain books where B: "map_opt (train_sub r samples dim ?sub ?n iters) (enumerate 0 (draw_seeds r m g)) = Some books"
    and q: "q = \<lparr>pq_dim = dim, pq_m = m, pq_sub_dim = ?sub, pq_centroids = concat books\<rparr>"
    and a: "dim \<noteq> 0" "m \<noteq> 0" "dim mod m = 0"
    using assms(1) by (auto simp: pq_train_def Let_def split: bind_splits if_splits)
  have "length c = pq_k * ?sub" if "c \<in> set books" for c
    using map_opt_set [OF B that] kmeans_length by (auto simp: train_sub_def split: bind_splits)
  then have "length (concat books) = length books * (pq_k * ?sub)" by (induction books) auto
  moreover have "length books = m" using map_opt_Some [OF B] by simp
  moreover have "dim = ?sub * m" using a(3) by (metis div_mult_mod_eq add.right_neutral)
  moreover have "0 < ?sub" using a \<open>dim = ?sub * m\<close> by (metis gr0I mult_0)
  ultimately show ?thesis using q a assms(2) by (simp add: pq_inv_def mult.assoc)
qed

end
