(* ===== verification/Pq_Train_Spec.thy ===== *)
theory Pq_Train_Spec
  imports Pq_Train
begin

text \<open>
  When training returns.  The only draw that can panic is the weighted one, on a total of squared
  distances that is not finite: coordinates of bounded size keep every total finite, and one NaN
  among the samples makes it a NaN.
\<close>

section \<open>Bounded coordinates\<close>

text \<open>
  A coordinate of magnitude at most \<open>2 ^ 40\<close> (a unit is \<open>2 ^ -149\<close>); a squared difference is then under
  \<open>2 ^ 82\<close>, a distance over \<open>2 ^ 20\<close> coordinates under \<open>2 ^ 102\<close>, and \<open>2 ^ 24\<close> distances sum to less
  than \<open>2 ^ 126\<close>.
\<close>

definition coord_ok :: "f32 \<Rightarrow> bool" where
  "coord_ok x \<longleftrightarrow> f32_below x (2 ^ 189)"

lemma f32_value_pow: "j < 277 \<Longrightarrow> f32_value (2 ^ j)"
proof -
  assume "j < 277"
  then have "(2::nat) ^ j < 2 ^ 277" by (intro power_strict_increasing) simp_all
  then show ?thesis using f32_value_grid [of 1 j] by simp
qed

lemma square_below:
  assumes "coord_ok x" "coord_ok y"
  shows "f32_below (f32_mul (f32_sub x y) (f32_sub x y)) (2 ^ 231)"
proof -
  have v: "2 ^ 189 + 2 ^ 189 = (2::nat) ^ 190" by simp
  have "f32_value (2 ^ 190)" by (rule f32_value_pow) simp
  then have "f32_below (f32_sub x y) (2 ^ 190)"
    using f32_below_sub [of x "2 ^ 189" y "2 ^ 189"] assms v by (simp only: coord_ok_def)
  moreover have "f32_value (2 ^ 231)" by (rule f32_value_pow) simp
  ultimately show ?thesis by (intro f32_below_mul [where u = "2 ^ 190" and v = "2 ^ 190"]) simp_all
qed

lemma f32_below_add_grid:
  assumes "f32_below x (i * 2 ^ j)" "f32_below y (2 ^ j)" "i + 1 \<le> 2 ^ 24" "j \<le> 252"
  shows "f32_below (f32_add x y) ((i + 1) * 2 ^ j)"
proof -
  have "(2::nat) ^ j \<le> 2 ^ 252" using assms(4) by (intro power_increasing) simp_all
  then have "(i + 1) * 2 ^ j \<le> 2 ^ 24 * 2 ^ 252" using assms(3) by (intro mult_le_mono)
  then have "f32_value ((i + 1) * 2 ^ j)" using assms(3) by (intro f32_value_grid) simp_all
  moreover have "i * 2 ^ j + 2 ^ j = (i + 1) * 2 ^ j" by simp
  ultimately show ?thesis using f32_below_add [OF assms(1,2)] by metis
qed

lemma l2_loop_below:
  "list_all coord_ok xs \<Longrightarrow> list_all coord_ok ys \<Longrightarrow> f32_below acc (i * 2 ^ 231) \<Longrightarrow> i + length xs \<le> 2 ^ 24 \<Longrightarrow>
     f32_below (l2_loop acc xs ys) ((i + length xs) * 2 ^ 231)"
proof (induction acc xs ys arbitrary: i rule: l2_loop.induct)
  case (1 acc x xs y ys)
  have "f32_below (f32_add acc (f32_mul (f32_sub x y) (f32_sub x y))) ((i + 1) * 2 ^ 231)"
    using 1 square_below [of x y] by (intro f32_below_add_grid) simp_all
  moreover have "list_all coord_ok xs" "list_all coord_ok ys" "(i + 1) + length xs \<le> 2 ^ 24" using "1.prems" by simp_all
  ultimately have "f32_below (l2_loop (f32_add acc (f32_mul (f32_sub x y) (f32_sub x y))) xs ys) ((i + 1 + length xs) * 2 ^ 231)"
    using "1.IH" [OF refl, of "i + 1"] by blast
  moreover have "i + 1 + length xs = i + length (x # xs)" by simp
  ultimately show ?case by (simp only: l2_loop.simps Let_def)
qed (auto elim: f32_below_mono)

lemma distance_below:
  assumes "list_all coord_ok x" "list_all coord_ok y" "length x \<le> 2 ^ 20" "scalar_l2_squared x y = Some z"
  shows "f32_below z (2 ^ 251)"
proof -
  have z: "z = l2_loop f32_zero x y" using assms(4) by (auto simp: scalar_l2_squared_def split: if_splits)
  have "f32_below z ((0 + length x) * 2 ^ 231)"
    unfolding z using assms by (intro l2_loop_below) simp_all
  moreover have "(0 + length x) * 2 ^ 231 \<le> 2 ^ 20 * (2::nat) ^ 231" using assms(3) by (intro mult_le_mono1) simp
  ultimately show ?thesis by (elim f32_below_mono) simp
qed

lemma foldl_below:
  "\<forall>x \<in> set xs. f32_below x (2 ^ 251) \<Longrightarrow> f32_below acc (i * 2 ^ 251) \<Longrightarrow> i + length xs \<le> 2 ^ 24 \<Longrightarrow>
     f32_below (foldl f32_add acc xs) ((i + length xs) * 2 ^ 251)"
proof (induction xs arbitrary: acc i)
  case Nil
  then show ?case by simp
next
  case (Cons x xs)
  have "f32_below (f32_add acc x) ((i + 1) * 2 ^ 251)" using Cons.prems by (intro f32_below_add_grid) simp_all
  then have "f32_below (foldl f32_add (f32_add acc x) xs) ((i + 1 + length xs) * 2 ^ 251)"
    using Cons.prems by (intro Cons.IH) simp_all
  moreover have "i + 1 + length xs = i + length (x # xs)" by simp
  ultimately show ?case by (simp only: foldl_Cons)
qed

lemma sum_below:
  assumes "\<forall>x \<in> set xs. f32_below x (2 ^ 251)" "length xs \<le> 2 ^ 24"
  shows "f32_is_finite (sum_f32 xs)"
proof -
  have "f32_below (f32_neg f32_zero) (0 * 2 ^ 251)"
    by (simp add: f32_below_def f32_units_def f32_is_finite_def f32_neg_def fp_neg_def fp_make_def fp_sign_def
        f32_pat_zero fp_mag_def inf_mag_def fp_units_def)
  then have "f32_below (sum_f32 xs) ((0 + length xs) * 2 ^ 251)"
    unfolding sum_f32_def using assms by (intro foldl_below) simp_all
  then show ?thesis by (simp add: f32_below_def)
qed

section \<open>Seeding returns\<close>

lemma rng_below_total: "rng_ok r \<Longrightarrow> 0 < n \<Longrightarrow> \<exists>i g'. rg_below r n g = Some (i, g') \<and> i < n"
  unfolding rng_ok_def by (metis less_numeral_extra(3))

lemma rng_float_total: "rng_ok r \<Longrightarrow> f32_is_finite t \<Longrightarrow> f32_lt f32_zero t \<Longrightarrow> \<exists>x g'. rg_float r t g = Some (x, g')"
  unfolding rng_ok_def by metis

lemma rng_float_panic: "rng_ok r \<Longrightarrow> \<not> f32_is_finite t \<Longrightarrow> rg_float r t g = None"
  unfolding rng_ok_def by metis

lemma point_row_total: "length points = n * d \<Longrightarrow> i < n \<Longrightarrow> \<exists>c. point_row points d i = Some c"
proof -
  assume p: "length points = n * d" "i < n"
  then have "(i + 1) * d \<le> n * d" by (intro mult_le_mono1) simp
  then have "i * d + d \<le> length points" using p by simp
  then show ?thesis by (simp add: point_row_def slice_def)
qed

lemma point_row_set: "point_row points d i = Some c \<Longrightarrow> set c \<subseteq> set points"
  by (auto simp: point_row_def slice_def split: if_splits dest: in_set_takeD in_set_dropD)

lemma row_distance_total:
  "length points = n * d \<Longrightarrow> i < n \<Longrightarrow> length c = d \<Longrightarrow> \<exists>z. row_distance_to points d c i = Some z"
  using point_row_total [of points n d i] by (auto simp: row_distance_to_def scalar_l2_squared_def point_row_length)

lemma row_distances_total:
  "length points = n * d \<Longrightarrow> length c = d \<Longrightarrow> \<exists>ds. map_opt (row_distance_to points d c) [0..<n] = Some ds \<and> length ds = n"
  using map_opt_upt_total [of n "row_distance_to points d c"] row_distance_total [of points n d _ c]
    map_opt_Some [of "row_distance_to points d c" "[0..<n]"] by fastforce

lemma row_distances_below:
  assumes "map_opt (row_distance_to points d c) [0..<n] = Some ds" and "list_all coord_ok points" "list_all coord_ok c"
    and "d \<le> 2 ^ 20"
  shows "\<forall>z \<in> set ds. f32_below z (2 ^ 251)"
proof
  fix z
  assume "z \<in> set ds"
  then obtain i where "row_distance_to points d c i = Some z" using map_opt_set [OF assms(1)] by blast
  then obtain x where x: "point_row points d i = Some x" "scalar_l2_squared x c = Some z"
    by (auto simp: row_distance_to_def split: bind_splits)
  have "list_all coord_ok x" using point_row_set [OF x(1)] assms(2) by (auto simp: list_all_iff)
  then show "f32_below z (2 ^ 251)"
    using distance_below [OF _ assms(3) _ x(2)] point_row_length [OF x(1)] assms(4) by simp
qed

lemma pick_loop_in: "pick_loop ws t c = c \<or> pick_loop ws t c \<in> fst ` set ws"
  by (induction ws arbitrary: t) (auto simp: Let_def)

lemma f32_finite_not_nan: "f32_is_finite x \<Longrightarrow> \<not> f32_is_nan x"
  by (simp add: f32_is_finite_def f32_is_nan_def fp_is_nan_def)

lemma pick_row_total:
  assumes rng: "rng_ok r" and n: "0 < n" "length d2 = n" and fin: "f32_is_finite (sum_f32 d2)"
  shows "\<exists>i g'. pick_row r n d2 g = Some (i, g') \<and> i < n"
proof (cases "f32_le (sum_f32 d2) f32_zero")
  case True
  then show ?thesis using rng_below_total [OF rng n(1)] by (simp add: pick_row_def)
next
  case False
  have "f32_is_finite f32_zero" by (simp add: f32_is_finite_def inf_mag_def fp_mag_def)
  then have "f32_lt f32_zero (sum_f32 d2)"
    using False fin f32_finite_not_nan by (intro f32_not_le) simp_all
  then obtain t g' where t: "rg_float r (sum_f32 d2) g = Some (t, g')" using rng_float_total [OF rng fin] by blast
  let ?i = "pick_loop (enumerate 0 d2) t (n - 1)"
  have "?i < n" using pick_loop_in [of "enumerate 0 d2" t "n - 1"] n by (auto simp: in_set_enumerate_eq)
  then show ?thesis using False t by (simp add: pick_row_def)
qed

definition seeding_ok :: "nat \<Rightarrow> 'g seeding \<Rightarrow> bool" where
  "seeding_ok n st \<longleftrightarrow> (case st of (cs, d2, g) \<Rightarrow> length d2 = n \<and> (\<forall>z \<in> set d2. f32_below z (2 ^ 251)))"

definition training_set :: "f32 list \<Rightarrow> nat \<Rightarrow> nat \<Rightarrow> bool" where
  "training_set points n d \<longleftrightarrow>
     length points = n * d \<and> 0 < n \<and> n \<le> 2 ^ 24 \<and> d \<le> 2 ^ 20 \<and> list_all coord_ok points"

lemma seed_step_total:
  assumes rng: "rng_ok r" and P: "training_set points n d" and st: "seeding_ok n st"
  shows "\<exists>st'. seed_step r points n d k st = Some st' \<and> seeding_ok n st'"
proof -
  obtain cs d2 g where S: "st = (cs, d2, g)" "length d2 = n" "\<forall>z \<in> set d2. f32_below z (2 ^ 251)"
    using st by (cases st) (auto simp: seeding_ok_def)
  have n: "0 < n" "n \<le> 2 ^ 24" "length points = n * d" "d \<le> 2 ^ 20" "list_all coord_ok points"
    using P by (simp_all add: training_set_def)
  obtain i g' where i: "pick_row r n d2 g = Some (i, g')" "i < n"
    using pick_row_total [OF rng n(1) S(2) sum_below [OF S(3)]] S(2) n(2) by blast
  obtain c where c: "point_row points d i = Some c" using point_row_total [OF n(3) i(2)] by blast
  obtain ds where ds: "map_opt (row_distance_to points d c) [0..<n] = Some ds" "length ds = n"
    using row_distances_total [OF n(3)] point_row_length [OF c] by blast
  have "list_all coord_ok c" using point_row_set [OF c] n(5) by (auto simp: list_all_iff)
  then have "\<forall>z \<in> set ds. f32_below z (2 ^ 251)" using row_distances_below [OF ds(1) n(5) _ n(4)] by simp
  then have "\<forall>z \<in> set (map2 (\<lambda>nearest dd. if f32_lt dd nearest then dd else nearest) d2 ds). f32_below z (2 ^ 251)"
    using S(3) set_zip_leftD [of _ _ d2 ds] set_zip_rightD [of _ _ d2 ds] by fastforce
  then show ?thesis using S i c ds by (simp add: seed_step_def seeding_ok_def)
qed

lemma seed_centroids_total:
  assumes rng: "rng_ok r" and P: "training_set points n d"
  shows "\<exists>cs g'. seed_centroids r points n d g = Some (cs, g') \<and> length cs = pq_k * d"
proof -
  have n: "0 < n" "length points = n * d" "d \<le> 2 ^ 20" "list_all coord_ok points"
    using P by (simp_all add: training_set_def)
  obtain i g1 where i: "rg_below r n g = Some (i, g1)" "i < n" using rng_below_total [OF rng n(1)] by blast
  obtain c where c: "point_row points d i = Some c" using point_row_total [OF n(2) i(2)] by blast
  obtain ds where ds: "map_opt (row_distance_to points d c) [0..<n] = Some ds" "length ds = n"
    using row_distances_total [OF n(2)] point_row_length [OF c] by blast
  have "list_all coord_ok c" using point_row_set [OF c] n(4) by (auto simp: list_all_iff)
  then have ok: "seeding_ok n (c, ds, g1)"
    using row_distances_below [OF ds(1) n(4) _ n(3)] ds(2) by (simp add: seeding_ok_def)
  have "\<exists>st. fold_opt (seed_step r points n d) [1..<pq_k] (c, ds, g1) = Some st \<and> seeding_ok n st"
    by (rule fold_opt_inv [where P = "seeding_ok n", OF ok]) (rule seed_step_total [OF rng P])
  then obtain st where st: "fold_opt (seed_step r points n d) [1..<pq_k] (c, ds, g1) = Some st" by blast
  obtain cs e g2 where "st = (cs, e, g2)" by (cases st)
  then have S: "seed_centroids r points n d g = Some (cs, g2)" using i(1) c ds(1) st by (simp add: seed_centroids_def)
  then have "length cs = pq_k * d" using seed_centroids_rows [OF S] concat_rows_length by metis
  then show ?thesis using S by blast
qed

section \<open>Lloyd iterations return\<close>

lemma sub_index: "k < a \<Longrightarrow> j < d \<Longrightarrow> k * d + j < a * (d :: nat)"
proof -
  assume "k < a" "j < d"
  then have "k * d + j < (k + 1) * d" "(k + 1) * d \<le> a * d" by (simp, intro mult_le_mono1, simp)
  then show ?thesis by (rule less_le_trans)
qed

lemma modify_opt_total: "i < length xs \<Longrightarrow> \<exists>ys. modify_opt xs i f = Some ys \<and> length ys = length xs"
  by (simp add: modify_opt_def)

lemma nearest_centroid_total:
  assumes "length points = n * d" "i < n" "length cs = pq_k * d"
  shows "\<exists>k. nearest_centroid points d cs i = Some k \<and> k < pq_k"
proof -
  let ?dist = "\<lambda>k. do { c \<leftarrow> slice cs (k * d) d; row_distance_to points d c i }"
  have "\<exists>z. ?dist k = Some z" if "k < pq_k" for k
  proof -
    have "(k + 1) * d \<le> pq_k * d" using that by (intro mult_le_mono1) simp
    then have "slice cs (k * d) d = Some (take d (drop (k * d) cs))" using assms(3) by (intro slice_Some) simp
    then show ?thesis using row_distance_total [OF assms(1,2)] slice_length by fastforce
  qed
  then obtain b bd where "best_loop ?dist [0..<pq_k] (0, f32_inf) = Some (b, bd)" "(b, bd) = (0, f32_inf) \<or> b \<in> set [0..<pq_k]"
    using best_loop_spec [of "[0..<pq_k]" ?dist "(0, f32_inf)"] by auto
  then show ?thesis by (auto simp: nearest_centroid_def pq_k_def)
qed

lemma add_point_total:
  assumes "length points = n * d" "length assign = n" "\<forall>k \<in> set assign. k < pq_k" "i < n"
    and "length (fst st) = pq_k * d \<and> length (snd st) = pq_k"
  shows "\<exists>st'. add_point points d assign i st = Some st' \<and> length (fst st') = pq_k * d \<and> length (snd st') = pq_k"
proof -
  obtain s counts where st: "st = (s, counts)" "length s = pq_k * d" "length counts = pq_k"
    using assms(5) by (cases st) simp
  have k: "assign ! i < pq_k" "nth_opt assign i = Some (assign ! i)" using assms(2-4) by (simp_all add: nth_opt_def)
  have "\<exists>s'. fold_opt (add_coordinate points d i (assign ! i)) [0..<d] s = Some s' \<and> length s' = pq_k * d"
  proof (rule fold_opt_inv [where P = "\<lambda>s. length s = pq_k * d"])
    fix j s
    assume j: "j \<in> set [0..<d]" and s: "length (s :: f64 list) = pq_k * d"
    have "nth_opt points (i * d + j) = Some (points ! (i * d + j))" "assign ! i * d + j < length s"
      using sub_index [of i n j d] sub_index [OF k(1), of j d] assms(1,4) j s by (simp_all add: nth_opt_def)
    then show "\<exists>s'. add_coordinate points d i (assign ! i) j s = Some s' \<and> length s' = pq_k * d"
      using s by (simp add: add_coordinate_def modify_opt_def)
  qed (rule st(2))
  moreover have "\<exists>c. modify_opt counts (assign ! i) (\<lambda>c. c + 1) = Some c \<and> length c = pq_k"
    using modify_opt_total [of "assign ! i" counts] st(3) k(1) by simp
  ultimately show ?thesis using st(1) k(2) by (auto simp: add_point_def)
qed

lemma move_centroid_total:
  assumes "rng_ok r" "length points = n * d" "0 < n" "k < pq_k" "length (fst sc) = pq_k * d" "length (snd sc) = pq_k"
    and "length (fst st) = pq_k * d"
  shows "\<exists>st'. move_centroid r points n d sc k st = Some st' \<and> length (fst st') = pq_k * d"
proof -
  obtain cs g where st: "st = (cs, g)" "length cs = pq_k * d" using assms(7) by (cases st) simp
  have c: "nth_opt (snd sc) k = Some (snd sc ! k)" using assms(4,6) by (simp add: nth_opt_def)
  show ?thesis
  proof (cases "snd sc ! k = 0")
    case True
    obtain i g' where i: "rg_below r n g = Some (i, g')" "i < n" using rng_below_total [OF assms(1,3)] by blast
    obtain p where p: "point_row points d i = Some p" using point_row_total [OF assms(2) i(2)] by blast
    have "(k + 1) * d \<le> pq_k * d" using assms(4) by (intro mult_le_mono1) simp
    then have "copy_slice cs (k * d) d p = Some (take (k * d) cs @ p @ drop (k * d + d) cs)"
      using st(2) point_row_length [OF p] by (simp add: copy_slice_def)
    moreover from this have "length (take (k * d) cs @ p @ drop (k * d + d) cs) = pq_k * d"
      using copy_slice_length st(2) by fastforce
    ultimately show ?thesis using st(1) c True i(1) p by (simp add: move_centroid_def)
  next
    case False
    have "\<exists>cs'. fold_opt (mean_coordinate sc d k) [0..<d] cs = Some cs' \<and> length cs' = pq_k * d"
    proof (rule fold_opt_inv [where P = "\<lambda>cs. length cs = pq_k * d"])
      fix j cs
      assume j: "j \<in> set [0..<d]" and cs: "length (cs :: f32 list) = pq_k * d"
      have "k * d + j < pq_k * d" using sub_index [OF assms(4)] j by simp
      then show "\<exists>cs'. mean_coordinate sc d k j cs = Some cs' \<and> length cs' = pq_k * d"
        using cs assms(5) c by (simp add: mean_coordinate_def modify_opt_def nth_opt_def)
    qed (rule st(2))
    then show ?thesis using st(1) c False by (auto simp: move_centroid_def)
  qed
qed

lemma lloyd_step_total:
  assumes rng: "rng_ok r" and p: "length points = n * d" "0 < n" and st: "length (fst st) = pq_k * d"
  shows "\<exists>st'. lloyd_step r points n d it st = Some st' \<and> length (fst st') = pq_k * d"
proof -
  obtain assign where A: "map_opt (nearest_centroid points d (fst st)) [0..<n] = Some assign"
    using map_opt_upt_total [of n "nearest_centroid points d (fst st)"] nearest_centroid_total [OF p(1) _ st] by blast
  have a: "length assign = n" using map_opt_Some [OF A] by simp
  have b: "\<forall>k \<in> set assign. k < pq_k"
  proof
    fix k
    assume "k \<in> set assign"
    then obtain i where i: "i \<in> set [0..<n]" "nearest_centroid points d (fst st) i = Some k"
      using map_opt_set [OF A] by blast
    then show "k < pq_k" using nearest_centroid_total [OF p(1) _ st, of i] by simp
  qed
  have "\<exists>sc. fold_opt (add_point points d assign) [0..<n] (replicate (pq_k * d) f64_zero, replicate pq_k 0) = Some sc \<and>
      length (fst sc) = pq_k * d \<and> length (snd sc) = pq_k"
    using add_point_total [OF p(1) a b] by (intro fold_opt_inv) simp_all
  then obtain sc where sc: "fold_opt (add_point points d assign) [0..<n] (replicate (pq_k * d) f64_zero, replicate pq_k 0) = Some sc"
      "length (fst sc) = pq_k * d" "length (snd sc) = pq_k" by blast
  have "\<exists>st'. fold_opt (move_centroid r points n d sc) [0..<pq_k] st = Some st' \<and> length (fst st') = pq_k * d"
    using move_centroid_total [OF rng p _ sc(2,3)] st by (intro fold_opt_inv) simp_all
  then show ?thesis using A sc(1) by (simp add: lloyd_step_def)
qed

lemma kmeans_total:
  assumes rng: "rng_ok r" and P: "training_set points n d"
  shows "\<exists>cs. kmeans r points n d iters g = Some cs"
proof -
  have p: "length points = n * d" "0 < n" using P by (simp_all add: training_set_def)
  obtain cs g1 where S: "seed_centroids r points n d g = Some (cs, g1)" "length cs = pq_k * d"
    using seed_centroids_total [OF rng P] by blast
  have "\<exists>st. fold_opt (lloyd_step r points n d) [0..<iters] (cs, g1) = Some st \<and> length (fst st) = pq_k * d"
    using lloyd_step_total [OF rng p] S(2) by (intro fold_opt_inv) simp_all
  then show ?thesis using S(1) by (auto simp: kmeans_def)
qed

section \<open>Whole training\<close>

lemma sub_points_length:
  assumes "sub_points samples dim sub_dim n sub = Some points"
  shows "length points = n * sub_dim" and "set points \<subseteq> set samples"
proof -
  obtain rows where rows: "map_opt (\<lambda>i. slice samples (i * dim + sub * sub_dim) sub_dim) [0..<n] = Some rows" "points = concat rows"
    using assms by (auto simp: sub_points_def)
  have "length row = sub_dim \<and> set row \<subseteq> set samples" if row: "row \<in> set rows" for row
  proof -
    obtain i where i: "slice samples (i * dim + sub * sub_dim) sub_dim = Some row" using map_opt_set [OF rows(1) row] by blast
    then have "row = take sub_dim (drop (i * dim + sub * sub_dim) samples)" by (simp add: slice_def split: if_splits)
    then show ?thesis using slice_length [OF i] by (auto dest: in_set_takeD in_set_dropD)
  qed
  then have r: "\<forall>row \<in> set rows. length row = sub_dim" "\<forall>row \<in> set rows. set row \<subseteq> set samples" by blast+
  have "length rows = n" using map_opt_Some [OF rows(1)] by simp
  moreover have "length (concat rows) = length rows * sub_dim" using r(1) by (induction rows) simp_all
  ultimately show "length points = n * sub_dim" using rows(2) by simp
  show "set points \<subseteq> set samples" using r(2) rows(2) by auto
qed

lemma sub_points_total:
  assumes "sub < m" "dim = sub_dim * m" "length samples = n * dim"
  shows "\<exists>points. sub_points samples dim sub_dim n sub = Some points"
proof -
  have "\<exists>row. slice samples (i * dim + sub * sub_dim) sub_dim = Some row" if "i < n" for i
  proof -
    have "(sub + 1) * sub_dim \<le> m * sub_dim" using assms(1) by (intro mult_le_mono1) simp
    moreover have "(i + 1) * dim \<le> n * dim" using that by (intro mult_le_mono1) simp
    ultimately have "i * dim + sub * sub_dim + sub_dim \<le> length samples" using assms(2,3) by (simp add: mult.commute)
    then show ?thesis by (simp add: slice_def)
  qed
  then show ?thesis using map_opt_upt_total [of n "\<lambda>i. slice samples (i * dim + sub * sub_dim) sub_dim"] by (auto simp: sub_points_def)
qed

text \<open>Arguments that training accepts.\<close>

definition train_args :: "f32 list \<Rightarrow> nat \<Rightarrow> nat \<Rightarrow> bool" where
  "train_args samples dim m \<longleftrightarrow>
     dim \<noteq> 0 \<and> m \<noteq> 0 \<and> dim mod m = 0 \<and> samples \<noteq> [] \<and> length samples mod dim = 0 \<and> pq_k \<le> length samples div dim"

lemma train_args_shape:
  assumes "train_args samples dim m"
  shows "dim = dim div m * m" and "length samples = length samples div dim * dim" and "0 < dim div m"
    and "0 < length samples div dim"
proof -
  have a: "dim \<noteq> 0" "m \<noteq> 0" "dim mod m = 0" "length samples mod dim = 0" "pq_k \<le> length samples div dim"
    using assms by (simp_all add: train_args_def)
  show d: "dim = dim div m * m" using a(3) by (metis add.right_neutral div_mult_mod_eq)
  show "length samples = length samples div dim * dim" using a(4) by (metis add.right_neutral div_mult_mod_eq)
  show "0 < dim div m" using a(1) d by (metis gr0I mult_0)
  show "0 < length samples div dim" using a(5) by (simp add: pq_k_def)
qed

lemma pq_train_refused: "\<not> train_args samples dim m \<Longrightarrow> \<exists>why. pq_train r samples dim m iters g = Some (Inl (InvalidArgument why))"
  by (auto simp: train_args_def pq_train_def Let_def)

lemma pq_train_accepted:
  "train_args samples dim m \<Longrightarrow>
     pq_train r samples dim m iters g =
       do {
         books \<leftarrow> map_opt (train_sub r samples dim (dim div m) (length samples div dim) iters) (enumerate 0 (draw_seeds r m g));
         Some (Inr \<lparr>pq_dim = dim, pq_m = m, pq_sub_dim = dim div m, pq_centroids = concat books\<rparr>) }"
  by (simp add: train_args_def pq_train_def Let_def)

lemma pq_train_total:
  assumes rng: "rng_ok r" and fits: "length samples div dim \<le> 2 ^ 24" "dim div m \<le> 2 ^ 20" and ok: "list_all coord_ok samples"
  shows "\<exists>res. pq_train r samples dim m iters g = Some res"
proof (cases "train_args samples dim m")
  case False
  then show ?thesis using pq_train_refused [OF False, of r iters g] by blast
next
  case True
  let ?n = "length samples div dim" and ?sub = "dim div m"
  note A = train_args_shape [OF True]
  have "\<exists>book. train_sub r samples dim ?sub ?n iters ss = Some book" if ss: "ss \<in> set (enumerate 0 (draw_seeds r m g))" for ss
  proof -
    have "fst ss < m" using ss by (auto simp: in_set_enumerate_eq)
    then obtain points where p: "sub_points samples dim ?sub ?n (fst ss) = Some points"
      using sub_points_total [OF _ A(1,2)] by blast
    have "training_set points ?n ?sub"
      using sub_points_length [OF p] fits A(4) ok by (auto simp: training_set_def list_all_iff)
    then show ?thesis using kmeans_total [OF rng] p by (simp add: train_sub_def)
  qed
  then obtain books where "map_opt (train_sub r samples dim ?sub ?n iters) (enumerate 0 (draw_seeds r m g)) = Some books"
    using map_opt_total [of "enumerate 0 (draw_seeds r m g)" "train_sub r samples dim ?sub ?n iters"] by blast
  then show ?thesis by (simp add: pq_train_accepted [OF True])
qed

section \<open>A NaN among the samples\<close>

lemma f32_nan_ops:
  "f32_is_nan x \<or> f32_is_nan y \<Longrightarrow> f32_is_nan (f32_add x y)"
  "f32_is_nan x \<or> f32_is_nan y \<Longrightarrow> f32_is_nan (f32_sub x y)"
  "f32_is_nan x \<or> f32_is_nan y \<Longrightarrow> f32_is_nan (f32_mul x y)"
  by (auto simp: f32_is_nan_def f32_pat_ops fp_add_def fp_sub_def fp_mul_def Let_def)

lemma l2_loop_nan:
  "f32_is_nan acc \<or> (\<exists>x \<in> set xs. f32_is_nan x) \<Longrightarrow> length xs = length ys \<Longrightarrow> f32_is_nan (l2_loop acc xs ys)"
proof (induction acc xs ys rule: l2_loop.induct)
  case (1 acc x xs y ys)
  then have "f32_is_nan (f32_add acc (f32_mul (f32_sub x y) (f32_sub x y))) \<or> (\<exists>x \<in> set xs. f32_is_nan x)"
    by (auto intro: f32_nan_ops)
  then show ?case using "1.IH" [OF refl] "1.prems" by (simp add: Let_def)
qed auto

lemma foldl_nan: "f32_is_nan acc \<or> (\<exists>x \<in> set xs. f32_is_nan x) \<Longrightarrow> f32_is_nan (foldl f32_add acc xs)"
  by (induction xs arbitrary: acc) (auto intro: f32_nan_ops)

lemma pick_row_nan:
  assumes "rng_ok r" "z \<in> set d2" "f32_is_nan z"
  shows "pick_row r n d2 g = None"
proof -
  have nan: "f32_is_nan (sum_f32 d2)" using assms(2,3) by (auto simp: sum_f32_def intro: foldl_nan)
  then have "\<not> f32_is_finite (sum_f32 d2)" using f32_finite_not_nan by blast
  then show ?thesis using rng_float_panic [OF assms(1)] f32_le_nan [OF nan] by (simp add: pick_row_def)
qed

lemma kmeans_nan:
  assumes rng: "rng_ok r" and p: "length points = n * d" and x: "x \<in> set points" "f32_is_nan x"
  shows "kmeans r points n d iters g = None"
proof (cases "rg_below r n g")
  case None
  then show ?thesis by (simp add: kmeans_def seed_centroids_def)
next
  case (Some ig)
  obtain i g1 where i: "rg_below r n g = Some (i, g1)" using Some by (cases ig) simp
  show ?thesis
  proof (cases "point_row points d i")
    case None
    then show ?thesis using i by (simp add: kmeans_def seed_centroids_def)
  next
    case (Some c)
    obtain ds where ds: "map_opt (row_distance_to points d c) [0..<n] = Some ds" "length ds = n"
      using row_distances_total [OF p point_row_length [OF Some]] by blast
    obtain t where t: "t < n * d" "points ! t = x" using x(1) p by (auto simp: in_set_conv_nth)
    have d: "0 < d" using t(1) by (cases d) simp_all
    have k: "t div d < n" using t(1) by (simp add: less_mult_imp_div_less)
    obtain row where row: "point_row points d (t div d) = Some row" using point_row_total [OF p k] by blast
    then have "row = take d (drop (t div d * d) points)" by (auto simp: point_row_def slice_def split: if_splits)
    moreover have "t div d * d \<le> length points" using k p by simp
    ultimately have "row ! (t mod d) = points ! (t div d * d + t mod d)" using d by simp
    then have "row ! (t mod d) = x" "length row = d" using t(2) point_row_length [OF row] by simp_all
    then have "\<exists>y \<in> set row. f32_is_nan y" using d x(2) by (metis mod_less_divisor nth_mem)
    then have "f32_is_nan (l2_loop f32_zero row c)" using point_row_length [OF row] point_row_length [OF Some] by (intro l2_loop_nan) simp_all
    moreover have "row_distance_to points d c (t div d) = Some (l2_loop f32_zero row c)"
      using row point_row_length [OF row] point_row_length [OF Some] by (simp add: row_distance_to_def scalar_l2_squared_def)
    moreover have "row_distance_to points d c (t div d) = Some (ds ! (t div d))" using map_opt_Some [OF ds(1)] k by simp
    ultimately have "f32_is_nan (ds ! (t div d))" "t div d < length ds" using k ds(2) by simp_all
    then have "pick_row r n ds g1 = None" using pick_row_nan [OF rng] nth_mem by blast
    then have "seed_step r points n d 1 (c, ds, g1) = None" by (simp add: seed_step_def)
    moreover have "[1..<pq_k] = 1 # [Suc 1..<pq_k]" by (rule upt_conv_Cons) (simp add: pq_k_def)
    ultimately show ?thesis using i Some ds(1) by (simp add: kmeans_def seed_centroids_def)
  qed
qed

lemma sub_points_coordinate:
  assumes sp: "sub_points samples dim sub_dim n sub = Some points" and "i < n" "j < sub_dim"
  shows "samples ! (i * dim + sub * sub_dim + j) \<in> set points"
proof -
  obtain rows where rows: "map_opt (\<lambda>i. slice samples (i * dim + sub * sub_dim) sub_dim) [0..<n] = Some rows" "points = concat rows"
    using sp by (auto simp: sub_points_def)
  have "length rows = n" "slice samples (i * dim + sub * sub_dim) sub_dim = Some (rows ! i)"
    using map_opt_Some [OF rows(1)] assms(2) by simp_all
  then have r: "rows ! i \<in> set rows" "rows ! i = take sub_dim (drop (i * dim + sub * sub_dim) samples)"
      "i * dim + sub * sub_dim + sub_dim \<le> length samples"
    using assms(2) by (auto simp: slice_def split: if_splits)
  then have "rows ! i ! j = samples ! (i * dim + sub * sub_dim + j)" "j < length (rows ! i)" using assms(3) by simp_all
  then have "samples ! (i * dim + sub * sub_dim + j) \<in> set (rows ! i)" by (metis nth_mem)
  then show ?thesis using r(1) rows(2) by auto
qed

lemma map_opt_None: "x \<in> set xs \<Longrightarrow> f x = None \<Longrightarrow> map_opt f xs = None"
  by (induction xs) (auto split: bind_splits)

lemma pq_train_nan:
  assumes rng: "rng_ok r" and args: "train_args samples dim m" and x: "x \<in> set samples" "f32_is_nan x"
  shows "pq_train r samples dim m iters g = None"
proof -
  let ?n = "length samples div dim" and ?sub = "dim div m"
  note A = train_args_shape [OF args]
  obtain t where t: "t < length samples" "samples ! t = x" using x(1) by (auto simp: in_set_conv_nth)
  have dim: "0 < dim" using args by (simp add: train_args_def)
  let ?i = "t div dim" and ?c = "t mod dim"
  let ?s = "?c div ?sub" and ?j = "?c mod ?sub"
  have i: "?i < ?n" using t(1) A(2) dim by (metis less_mult_imp_div_less)
  have "?c < m * ?sub" using dim A(1) by (metis mod_less_divisor mult.commute)
  then have s: "?s < m" by (rule less_mult_imp_div_less)
  have tj: "?i * dim + ?s * ?sub + ?j = t" by (simp only: add.assoc div_mult_mod_eq)
  obtain points where p: "sub_points samples dim ?sub ?n ?s = Some points" using sub_points_total [OF s A(1,2)] by blast
  have "x \<in> set points" using sub_points_coordinate [OF p i, of ?j] A(3) tj t(2) by simp
  then have k: "kmeans r points ?n ?sub iters g' = None" for g' using kmeans_nan [OF rng sub_points_length(1) [OF p] _ x(2)] by simp
  let ?ss = "(?s, draw_seeds r m g ! ?s)"
  have "?ss \<in> set (enumerate 0 (draw_seeds r m g))" using s by (simp add: in_set_enumerate_eq)
  moreover have "train_sub r samples dim ?sub ?n iters ?ss = None" using p k by (simp add: train_sub_def)
  ultimately show ?thesis by (simp add: pq_train_accepted [OF args] map_opt_None)
qed

section \<open>Properties\<close>

text \<open>A generator that always draws the least value.\<close>

definition least_rng :: "unit rng" where
  "least_rng =
     \<lparr>rg_seed = (\<lambda>_. ()), rg_u64 = (\<lambda>g. (0, g)),
      rg_below = (\<lambda>n g. if n = 0 then None else Some (0, g)),
      rg_float = (\<lambda>t g. if f32_is_finite t \<and> f32_lt f32_zero t then Some (f32_zero, g) else None)\<rparr>"

lemma least_rng_ok: "rng_ok least_rng"
proof -
  have "f32_le f32_zero f32_zero"
    by (simp add: f32_le_def f32_eq_refl f32_is_nan_def fp_is_nan_def inf_mag_def fp_mag_def)
  then show ?thesis by (simp add: rng_ok_def least_rng_def)
qed

definition example_samples :: "f32 list" where
  "example_samples = concat (replicate 128 [f32_zero, f32_one, f32_one, f32_one])"

lemma example_coords: "coord_ok f32_zero" "coord_ok f32_one"
  by (simp add: coord_ok_def)
    (simp add: coord_ok_def f32_below_def f32_units_def f32_is_finite_def fp_mag_def fp_units_def inf_mag_def
      f32_pat_def f32_one_def)

lemma example_samples_ok: "length example_samples = 512" "list_all coord_ok example_samples" "train_args example_samples 2 2"
proof -
  show l: "length example_samples = 512" by (simp add: example_samples_def length_concat sum_list_replicate)
  show "list_all coord_ok example_samples" using example_coords by (simp add: example_samples_def list_all_iff)
  show "train_args example_samples 2 2" using l by (auto simp: train_args_def pq_k_def)
qed

text \<open>
  Training on ordinary data always returns.  With at most \<open>2 ^ 24\<close> samples, subspaces of at most
  \<open>2 ^ 20\<close> coordinates and coordinates of magnitude at most \<open>2 ^ 40\<close>, for every number of iterations
  and every behaviour of the generator, no index is out of range, every draw has a proper range, and
  the result is a well-formed quantizer of the requested shape, or the error for arguments that are
  not accepted.
\<close>

theorem training_returns:
  assumes "rng_ok r" and "length samples div dim \<le> 2 ^ 24" and "dim div m \<le> 2 ^ 20" and "list_all coord_ok samples"
    and "dim < 2 ^ 32"
  shows "if train_args samples dim m
     then \<exists>q. pq_train r samples dim m iters g = Some (Inr q) \<and> pq_inv q \<and> pq_dim q = dim \<and> pq_m q = m
     else \<exists>why. pq_train r samples dim m iters g = Some (Inl (InvalidArgument why))"
proof (cases "train_args samples dim m")
  case True
  obtain res where "pq_train r samples dim m iters g = Some res" using pq_train_total [OF assms(1-4)] by blast
  then obtain q where q: "pq_train r samples dim m iters g = Some (Inr q)"
    by (auto simp: pq_train_accepted [OF True] split: bind_splits)
  then show ?thesis using True pq_train_inv [OF q assms(5)] by simp
next
  case False
  then show ?thesis using pq_train_refused [OF False] by simp
qed

theorem training_returns_witness:
  "\<exists>q. pq_train least_rng example_samples 2 2 25 () = Some (Inr q) \<and> pq_inv q"
  using training_returns [OF least_rng_ok, of example_samples 2 2 25 "()"] example_samples_ok by auto

text \<open>
  One NaN coordinate anywhere among the samples makes training panic, whatever the generator
  draws: the weights sum to a NaN, which \<^verbatim>\<open>total <= 0.0\<close> lets through to \<^verbatim>\<open>gen_range\<close>.
\<close>

theorem nan_sample_panics:
  assumes "rng_ok r" and "train_args samples dim m" and "x \<in> set samples" and "f32_is_nan x"
  shows "pq_train r samples dim m iters g = None"
  by (rule pq_train_nan [OF assms])

theorem nan_sample_panics_witness:
  "pq_train least_rng (f32_nan # tl example_samples) 2 2 25 () = None"
proof (rule nan_sample_panics [OF least_rng_ok])
  show "train_args (f32_nan # tl example_samples) 2 2"
    using example_samples_ok(1) by (simp add: train_args_def pq_k_def)
  show "f32_nan \<in> set (f32_nan # tl example_samples)" by simp
  show "f32_is_nan f32_nan"
    by (simp add: f32_is_nan_def f32_nan_def f32_pat_def fp_is_nan_def inf_mag_def fp_mag_def)
qed

text \<open>
  The seeds are rows of the data: without iterations, every centroid of a codebook is one of the
  training points of its subspace.
\<close>

lemma seeds_are_training_points:
  assumes "kmeans r points n d 0 g = Some cs"
  shows "\<exists>rows. cs = concat rows \<and> length rows = pq_k \<and> (\<forall>c \<in> set rows. \<exists>i. point_row points d i = Some c)"
  using assms seed_centroids_rows [of r points n d g] by (auto simp: kmeans_def split: bind_splits)

end
