(* ===== verification/Db_Train.thy ===== *)
theory Db_Train
  imports Db_Inv Pq_Train_Spec
begin

text \<open>
  \<^verbatim>\<open>Db::train_pq\<close>: sampling the store, training, and encoding every row; with it, when an insert and
  a batch succeed.
\<close>

section \<open>Training on the store\<close>

text \<open>The ids \<^verbatim>\<open>(0..n).step_by(step)\<close>.\<close>

definition sample_ids :: "nat \<Rightarrow> nat \<Rightarrow> nat list" where
  "sample_ids n step = map (\<lambda>i. i * step) [0..<(n + step - 1) div step]"

definition sample_step :: "nat \<Rightarrow> nat \<Rightarrow> nat" where
  "sample_step n max_samples = max (n div max max_samples 1) 1"

definition sample_rows :: "vstore \<Rightarrow> nat \<Rightarrow> nat \<Rightarrow> f32 list option" where
  "sample_rows s n max_samples = map_option concat (map_opt (store_vec s) (sample_ids n (sample_step n max_samples)))"

definition train_samples :: "vstore \<Rightarrow> nat \<Rightarrow> f32 list option" where
  "train_samples s max_samples = sample_rows s (vs_len s) max_samples"

definition db_train_pq :: "'g rng \<Rightarrow> db \<Rightarrow> nat \<Rightarrow> nat \<Rightarrow> nat \<Rightarrow> 'g \<Rightarrow> (db \<times> unit result) option" where
  "db_train_pq rng db m iters max_samples g =
     (let n = vs_len (db_store db); dim = vs_dim (db_store db)
      in if cfg_metric (hn_config (db_index db)) \<noteq> L2 then Some (db, Inl (Corrupt ''PQ supports L2 only in v1''))
         else if m = 0 \<or> dim mod m \<noteq> 0 then
           Some (db, Inl (InvalidArgument (''PQ m must be a non-zero divisor of dimension '' @ show_nat dim)))
         else if max_samples < pq_k then
           Some (db, Inl (InvalidArgument (''max_samples must be at least '' @ show_nat pq_k)))
         else if n < pq_k then
           Some (db, Inl (Corrupt (''need >= '' @ show_nat pq_k @ '' vectors to train PQ'')))
         else do {
           samples \<leftarrow> train_samples (db_store db) max_samples;
           r \<leftarrow> pq_train rng samples dim m iters g;
           case r of
             Inl err \<Rightarrow> Some (db, Inl err)
           | Inr q \<Rightarrow> do {
               codes \<leftarrow> encode_all q (db_store db);
               Some (db\<lparr>db_pq := Some \<lparr>ps_pq = q, ps_codes = codes\<rparr>\<rparr>, Inr ()) } })"

text \<open>The requests that are refused.\<close>

definition train_refused :: "db \<Rightarrow> nat \<Rightarrow> nat \<Rightarrow> bool" where
  "train_refused db m max_samples \<longleftrightarrow>
     cfg_metric (hn_config (db_index db)) \<noteq> L2 \<or> m = 0 \<or> db_dim db mod m \<noteq> 0 \<or> max_samples < pq_k \<or>
     length (db_vectors db) < pq_k"

lemma sample_ids_bounds:
  assumes step: "0 < step" and i: "i \<in> set (sample_ids n step)"
  shows "i < n"
proof -
  have "i \<in> (\<lambda>k. k * step) ` {..<(n + step - 1) div step}" using i by (simp add: sample_ids_def atLeast0LessThan)
  then obtain k where k: "i = k * step" "k < (n + step - 1) div step" by blast
  have "(k + 1) * step \<le> (n + step - 1) div step * step" using k(2) by (intro mult_le_mono1) simp
  also have "\<dots> \<le> n + step - 1" by simp
  finally show ?thesis using k(1) step by simp
qed

text \<open>Enough samples, and at most twice as many as asked for.\<close>

lemma sample_ids_length:
  assumes n: "b \<le> n" "b \<le> M" and b: "0 < b"
  shows "b \<le> length (sample_ids n (sample_step n M))" and "length (sample_ids n (sample_step n M)) \<le> 2 * M"
proof -
  let ?s = "sample_step n M"
  have len: "length (sample_ids n ?s) = (n + ?s - 1) div ?s" by (simp add: sample_ids_def)
  have s: "0 < ?s" by (simp add: sample_step_def)
  have M: "max M 1 = M" using n(2) b by simp
  have "b * ?s \<le> n + ?s - 1"
  proof (cases "n < M")
    case True
    then have "?s = 1" by (simp add: sample_step_def M)
    then show ?thesis using n(1) by simp
  next
    case False
    then have "1 \<le> n div M" using n(2) b by (simp add: Suc_le_eq div_greater_zero_iff)
    then have "?s = n div M" unfolding sample_step_def M by (rule max_absorb1)
    then have "b * ?s \<le> M * (n div M)" using n(2) by simp
    also have "\<dots> \<le> n" by simp
    finally show ?thesis using s by linarith
  qed
  then have "b * ?s div ?s \<le> (n + ?s - 1) div ?s" by (rule div_le_mono)
  then show "b \<le> length (sample_ids n ?s)" using s len by simp
  have "n + ?s - 1 < (2 * M + 1) * ?s"
  proof (cases "n < M")
    case True
    then have "?s = 1" by (simp add: sample_step_def M)
    then show ?thesis using True by simp
  next
    case False
    then have "1 \<le> n div M" using n(2) b by (simp add: Suc_le_eq div_greater_zero_iff)
    then have st: "?s = n div M" unfolding sample_step_def M by (rule max_absorb1)
    have "n < (n div M + 1) * M" using n(2) b dividend_less_div_times [of M n] by simp
    also have "\<dots> \<le> (2 * ?s) * M" using st \<open>1 \<le> n div M\<close> by (intro mult_le_mono1) simp
    finally show ?thesis using s by (simp add: algebra_simps)
  qed
  then have "(n + ?s - 1) div ?s < 2 * M + 1" by (rule less_mult_imp_div_less)
  then show "length (sample_ids n ?s) \<le> 2 * M" using len by simp
qed

lemma map_opt_known: "\<forall>x \<in> set xs. f x = Some (g x) \<Longrightarrow> map_opt f xs = Some (map g xs)"
  by (induction xs) simp_all

lemma sample_rows_spec:
  assumes inv: "vs_inv s" and n: "pq_k \<le> n" "pq_k \<le> M" "n \<le> vs_count s"
  shows "\<exists>samples. sample_rows s n M = Some samples \<and> set samples \<subseteq> \<Union> (set ` set (vs_vectors s)) \<and>
     length samples mod vs_dim s = 0 \<and> pq_k \<le> length samples div vs_dim s \<and> length samples div vs_dim s \<le> 2 * M"
proof -
  let ?ids = "sample_ids n (sample_step n M)"
  let ?samples = "concat (map (vs_get_unchecked s) ?ids)"
  have dim: "0 < vs_dim s" using inv by (simp add: vs_inv_def geometry_ok_def)
  have ids: "i < vs_count s" if "i \<in> set ?ids" for i
  proof -
    have "i < n" by (rule sample_ids_bounds [OF _ that]) (simp add: sample_step_def)
    then show ?thesis using n(3) by simp
  qed
  have "sample_rows s n M = Some ?samples"
    using ids map_opt_known [of ?ids "store_vec s" "vs_get_unchecked s"] by (simp add: sample_rows_def store_vec_def)
  moreover have "set ?samples \<subseteq> \<Union> (set ` set (vs_vectors s))" using ids by (fastforce simp: vs_vectors_def)
  moreover have "length ?samples = length ?ids * vs_dim s" by (simp add: length_concat comp_def sum_list_triv)
  moreover have "pq_k \<le> length ?ids" "length ?ids \<le> 2 * M"
    using sample_ids_length [OF n(1,2)] by (simp_all add: pq_k_def)
  ultimately show ?thesis using dim by (intro exI [of _ ?samples]) simp
qed

lemma train_samples_spec:
  "vs_inv s \<Longrightarrow> pq_k \<le> vs_count s \<Longrightarrow> pq_k \<le> M \<Longrightarrow>
     \<exists>samples. train_samples s M = Some samples \<and> set samples \<subseteq> \<Union> (set ` set (vs_vectors s)) \<and>
       length samples mod vs_dim s = 0 \<and> pq_k \<le> length samples div vs_dim s \<and> length samples div vs_dim s \<le> 2 * M"
  using sample_rows_spec [of s "vs_count s" M] by (simp add: train_samples_def vs_len_def)

lemma db_train_pq_accepted:
  assumes ok: "db_ok e db" and acc: "\<not> train_refused db m M"
  shows "\<exists>samples. train_args samples (db_dim db) m \<and> set samples \<subseteq> \<Union> (set ` set (db_vectors db)) \<and>
     length samples div db_dim db \<le> 2 * M \<and>
     db_train_pq rng db m iters M g = do {
       r \<leftarrow> pq_train rng samples (db_dim db) m iters g;
       case r of
         Inl err \<Rightarrow> Some (db, Inl err)
       | Inr q \<Rightarrow> do {
           codes \<leftarrow> encode_all q (db_store db);
           Some (db\<lparr>db_pq := Some \<lparr>ps_pq = q, ps_codes = codes\<rparr>\<rparr>, Inr ()) } }"
proof -
  have inv: "vs_inv (db_store db)" using ok by (simp add: db_ok_def)
  have a: "cfg_metric (hn_config (db_index db)) = L2" "m \<noteq> 0" "db_dim db mod m = 0" "pq_k \<le> M" "pq_k \<le> vs_count (db_store db)"
    using acc by (simp_all add: train_refused_def db_vectors_def)
  obtain samples where S: "train_samples (db_store db) M = Some samples" "set samples \<subseteq> \<Union> (set ` set (db_vectors db))"
    "length samples mod db_dim db = 0" "pq_k \<le> length samples div db_dim db" "length samples div db_dim db \<le> 2 * M"
    using train_samples_spec [OF inv a(5,4)] by (auto simp: db_vectors_def db_dim_def)
  have "0 < db_dim db" using inv by (simp add: vs_inv_def geometry_ok_def db_dim_def)
  moreover have "samples \<noteq> []" using S(4) by (auto simp: pq_k_def)
  ultimately have "train_args samples (db_dim db) m" using a S by (simp add: train_args_def)
  then show ?thesis using S a by (intro exI [of _ samples]) (simp add: db_train_pq_def Let_def vs_len_def db_dim_def)
qed

lemma db_train_pq_refused:
  "train_refused db m M \<Longrightarrow> \<exists>err. db_train_pq rng db m iters M g = Some (db, Inl err)"
  by (auto simp: db_train_pq_def train_refused_def Let_def vs_len_def db_dim_def db_vectors_def)

text \<open>A quantizer with the codes of every row is what the invariant asks for.\<close>

lemma db_ok_trained:
  assumes ok: "db_ok e db" and q: "pq_inv q" "pq_dim q = db_dim db"
  shows "\<exists>codes. encode_all q (db_store db) = Some codes \<and> db_ok e (db\<lparr>db_pq := Some \<lparr>ps_pq = q, ps_codes = codes\<rparr>\<rparr>)"
proof -
  have "\<forall>v \<in> set (db_vectors db). length v = pq_dim q" using q(2) vectors_dim by (auto simp: db_vectors_def db_dim_def)
  then obtain cs where "map_opt (pq_encode q) (db_vectors db) = Some cs" using codes_of_total [OF q(1)] by blast
  then have c: "codes_of q (db_vectors db) = Some (concat cs)" by (simp add: codes_of_def)
  then have "encode_all q (db_store db) = Some (concat cs)" by (simp add: encode_all_codes db_vectors_def)
  moreover have "db_ok e (db\<lparr>db_pq := Some \<lparr>ps_pq = q, ps_codes = concat cs\<rparr>\<rparr>)"
    using ok q c by (simp add: db_ok_def pq_ok_def db_dim_def db_vectors_def)
  ultimately show ?thesis by blast
qed

lemma db_train_pq_ok:
  assumes ok: "db_ok e db" and res: "db_train_pq rng db m iters M g = Some (db', r)"
  shows "db_ok e db' \<and> (\<exists>p. db' = db\<lparr>db_pq := p\<rparr>)"
proof (cases "train_refused db m M")
  case True
  then have "db' = db" using db_train_pq_refused [OF True, of rng iters g] res by auto
  then show ?thesis using ok by (intro conjI exI [of _ "db_pq db"]) simp_all
next
  case False
  have "vs_inv (db_store db)" using ok by (simp add: db_ok_def)
  then have dim: "db_dim db < 2 ^ 32" by (simp add: vs_inv_def geometry_ok_def db_dim_def)
  obtain samples where S: "db_train_pq rng db m iters M g = do {
       r \<leftarrow> pq_train rng samples (db_dim db) m iters g;
       case r of
         Inl err \<Rightarrow> Some (db, Inl err)
       | Inr q \<Rightarrow> do {
           codes \<leftarrow> encode_all q (db_store db);
           Some (db\<lparr>db_pq := Some \<lparr>ps_pq = q, ps_codes = codes\<rparr>\<rparr>, Inr ()) } }"
    using db_train_pq_accepted [OF ok False, of rng iters g] by blast
  obtain t where t: "pq_train rng samples (db_dim db) m iters g = Some t" using res S by (cases "pq_train rng samples (db_dim db) m iters g") simp_all
  show ?thesis
  proof (cases t)
    case (Inl err)
    then have "db' = db" using res S t by simp
    then show ?thesis using ok by (intro conjI exI [of _ "db_pq db"]) simp_all
  next
    case (Inr q)
    have "pq_inv q" "pq_dim q = db_dim db" using pq_train_inv [OF t [unfolded Inr] dim] by simp_all
    then obtain codes where "encode_all q (db_store db) = Some codes" "db_ok e (db\<lparr>db_pq := Some \<lparr>ps_pq = q, ps_codes = codes\<rparr>\<rparr>)"
      using db_ok_trained [OF ok] by blast
    then show ?thesis using res S t Inr by auto
  qed
qed

section \<open>When rows go in\<close>

lemma insert_row_stored:
  assumes s: "vs_append (db_store db) v = (s, Inr i)" and wal: "db_wal db = Some w" "\<not> wal_poisoned w"
    and v: "length v = db_dim db" "db_dim db < 2 ^ 29"
  shows "\<exists>w'. insert_row_storage_only e db v IoOk = (db\<lparr>db_store := s, db_wal := Some w'\<rparr>, Inr i) \<and> \<not> wal_poisoned w'"
proof -
  obtain fr where fr: "wal_frame (en_crc e) (wal_next_lsn w) (Insert i v) = Inr fr" using v by (simp add: wal_frame_def wal_payload_def)
  let ?w = "w\<lparr>wal_content := wal_content w @ fr, wal_next_lsn := wal_next_lsn w + 1\<rparr>"
  have "insert_row_storage_only e db v IoOk = (db\<lparr>db_store := s, db_wal := Some ?w\<rparr>, Inr i)"
    using s wal fr by (simp add: insert_row_storage_only_def ensure_healthy_def wal_append_def write_and_sync_def)
  then show ?thesis using wal(2) by (intro exI [of _ ?w]) simp
qed

lemma insert_row_ok:
  assumes inv: "vs_inv (db_store db)" and wal: "db_wal db = Some w" "\<not> wal_poisoned w"
    and v: "length v = db_dim db" "db_dim db < 2 ^ 29" and room: "vs_count (db_store db) < seg_first base_rows (vs_mapped (db_store db))"
  shows "\<exists>s w'. insert_row_storage_only e db v IoOk = (db\<lparr>db_store := s, db_wal := Some w'\<rparr>, Inr (vs_count (db_store db))) \<and>
     \<not> wal_poisoned w' \<and> vs_mapped s = vs_mapped (db_store db)"
proof -
  obtain s where s: "vs_append (db_store db) v = (s, Inr (vs_count (db_store db)))" "vs_mapped s = vs_mapped (db_store db)"
    using vs_append_ok [OF inv _ room, of v] v(1) by (auto simp: db_dim_def)
  then show ?thesis using insert_row_stored [OF s(1) wal v] by blast
qed

lemma batch_rows_ok:
  "vs_inv (db_store db) \<Longrightarrow> db_wal db = Some w \<Longrightarrow> \<not> wal_poisoned w \<Longrightarrow> \<forall>v \<in> set rows. length v = db_dim db \<Longrightarrow>
   db_dim db < 2 ^ 29 \<Longrightarrow> vs_count (db_store db) + length rows \<le> seg_first base_rows (vs_mapped (db_store db)) \<Longrightarrow>
     \<exists>db'. batch_rows e (\<lambda>_. IoOk) k rows db = (db', k + length rows, None)"
proof (induction rows arbitrary: k db w)
  case Nil
  then show ?case by simp
next
  case (Cons row rows)
  obtain s w' where I: "insert_row_storage_only e db row IoOk = (db\<lparr>db_store := s, db_wal := Some w'\<rparr>, Inr (vs_count (db_store db)))"
    "\<not> wal_poisoned w'" "vs_mapped s = vs_mapped (db_store db)"
    using insert_row_ok [OF Cons.prems(1-3), of row e] Cons.prems(4-6) by auto
  let ?db1 = "db\<lparr>db_store := s, db_wal := Some w'\<rparr>"
  note S = insert_row_spec [OF Cons.prems(1) I(1)]
  have "length (db_vectors ?db1) = Suc (length (db_vectors db))" using S by simp
  then have c: "vs_count s = Suc (vs_count (db_store db))" by (simp add: db_vectors_def)
  have "db_dim ?db1 = db_dim db" using S by simp
  then obtain db' where "batch_rows e (\<lambda>_. IoOk) (k + 1) rows ?db1 = (db', k + 1 + length rows, None)"
    using Cons.IH [of ?db1 w' "k + 1"] S I(2,3) c Cons.prems(4-6) by auto
  then show ?case using I(1) by simp
qed

section \<open>A database with 256 rows\<close>

definition many_rows :: "f32 list" where
  "many_rows = concat (replicate 256 [f32_one, f32_zero])"

definition example_many :: db where
  "example_many = (case db_add_batch example_env example_fresh many_rows (\<lambda>_. IoOk) of
     Some (db, _) \<Rightarrow> db | None \<Rightarrow> undefined)"

lemma many_rows_length: "length many_rows = 512"
  by (simp add: many_rows_def length_concat sum_list_replicate)

lemma rows_of_subset: "row \<in> set (rows_of dim batch) \<Longrightarrow> set row \<subseteq> set batch"
  by (auto simp: rows_of_def dest: in_set_takeD in_set_dropD)

lemma rows_of_length: "length (rows_of dim batch) = length batch div dim"
  by (simp add: rows_of_def)

lemma example_many_facts:
  "db_ok example_env example_many" "db_dim example_many = 2" "length (db_vectors example_many) = 256"
  "\<forall>v \<in> set (db_vectors example_many). list_all coord_ok v" "cfg_metric (hn_config (db_index example_many)) = L2"
  "db_pq example_many = None"
proof -
  let ?rows = "rows_of 2 many_rows" and ?s = "db_store example_fresh"
  have ok: "db_ok example_env example_fresh" by (rule example_fresh_facts(2))
  have inv: "vs_inv ?s" using ok by (simp add: db_ok_def)
  have n: "vs_count ?s = 0" using example_fresh_facts(7) length_vs_vectors [of ?s] by (simp add: db_vectors_def del: length_vs_vectors)
  have "seg_first base_rows 1 \<le> seg_first base_rows (vs_mapped ?s)" using inv by (intro seg_first_mono) (simp add: vs_inv_def)
  then have room: "vs_count ?s + length ?rows \<le> seg_first base_rows (vs_mapped ?s)"
    using n many_rows_length by (simp add: seg_first_def base_rows_def rows_of_length)
  have len: "\<forall>v \<in> set ?rows. length v = db_dim example_fresh" using rows_of_dim example_fresh_facts(8) by auto
  have mod: "length many_rows mod db_dim example_fresh = 0" using many_rows_length example_fresh_facts(8) by simp
  obtain db1 where b: "batch_rows example_env (\<lambda>_. IoOk) 0 ?rows example_fresh = (db1, 256, None)"
    using batch_rows_ok [OF inv example_fresh_facts(3) _ len _ room, of example_env 0] example_fresh_facts(8) many_rows_length
    by (auto simp: fresh_wal_def rows_of_length)
  then obtain h vis p where S: "db_add_batch example_env example_fresh many_rows (\<lambda>_. IoOk) =
      Some (db1\<lparr>db_index := h, db_scratch := vis, db_pq := p\<rparr>, Inr 0)"
    "db_ok example_env (db1\<lparr>db_index := h, db_scratch := vis, db_pq := p\<rparr>)" "hn_config h = hn_config (db_index example_fresh)"
    "map_option ps_pq p = map_option ps_pq (db_pq example_fresh)"
    using db_add_batch_spec [OF ok example_levels mod, of "\<lambda>_. IoOk"] example_fresh_facts(7,8) by auto
  have db: "example_many = db1\<lparr>db_index := h, db_scratch := vis, db_pq := p\<rparr>" by (simp add: example_many_def S(1))
  note B = batch_rows_spec [OF inv b]
  have vs: "db_vectors example_many = ?rows"
    using B example_fresh_facts(7) many_rows_length by (simp add: db db_vectors_def rows_of_length)
  show "db_ok example_env example_many" using S(2) db by simp
  show "db_dim example_many = 2" using B example_fresh_facts(8) by (simp add: db db_dim_def)
  show "length (db_vectors example_many) = 256" using vs many_rows_length by (simp add: rows_of_length)
  have "list_all coord_ok many_rows" using example_coords by (simp add: many_rows_def list_all_iff)
  then show "\<forall>v \<in> set (db_vectors example_many). list_all coord_ok v"
    using vs rows_of_subset [of _ 2 many_rows] by (fastforce simp: list_all_iff)
  obtain s0 where s0: "vs_create (en_limit example_env) (en_map_limit example_env) 2 = Inr s0"
    using example_created by (auto simp: example_env_def)
  have "hn_config (db_index example_fresh) = default_config"
    using example_fresh_facts(1) s0
    by (auto simp: db_open_def open_store_def empty_disk_def load_index_def hnsw_new_def default_options_def default_config_def
        recover_def wal_bytes_def wal_open_empty open_codebook_def split: if_splits) (erule subst, simp)
  then show "cfg_metric (hn_config (db_index example_many)) = L2" using S(3) by (simp add: db default_config_def)
  show "db_pq example_many = None" using S(4) example_fresh_facts(4) by (simp add: db)
qed

section \<open>Properties\<close>

text \<open>
  C24: training never leaves a row without its code.  On a sound database of ordinary coordinates, for
  every behaviour of the generator and every number of iterations, training does not panic; a request
  that is not acceptable is refused and changes nothing; any other succeeds, and then the quantizer has
  the requested shape and the codes are the encoding of every stored row.
\<close>

theorem training_covers_store:
  assumes "db_ok e db" and "rng_ok rng" and "\<forall>v \<in> set (db_vectors db). list_all coord_ok v"
    and "max_samples \<le> 2 ^ 23" and "db_dim db div m \<le> 2 ^ 20"
  shows "if train_refused db m max_samples then \<exists>err. db_train_pq rng db m iters max_samples g = Some (db, Inl err)
     else \<exists>q codes. db_train_pq rng db m iters max_samples g = Some (db\<lparr>db_pq := Some \<lparr>ps_pq = q, ps_codes = codes\<rparr>\<rparr>, Inr ()) \<and>
       pq_m q = m \<and> encode_all q (db_store db) = Some codes \<and> db_ok e (db\<lparr>db_pq := Some \<lparr>ps_pq = q, ps_codes = codes\<rparr>\<rparr>)"
proof (cases "train_refused db m max_samples")
  case True
  then show ?thesis using db_train_pq_refused [OF True] by simp
next
  case False
  have "vs_inv (db_store db)" using assms(1) by (simp add: db_ok_def)
  then have dim: "db_dim db < 2 ^ 32" by (simp add: vs_inv_def geometry_ok_def db_dim_def)
  obtain samples where A: "train_args samples (db_dim db) m" "set samples \<subseteq> \<Union> (set ` set (db_vectors db))"
    "length samples div db_dim db \<le> 2 * max_samples"
    and S: "db_train_pq rng db m iters max_samples g = do {
       r \<leftarrow> pq_train rng samples (db_dim db) m iters g;
       case r of
         Inl err \<Rightarrow> Some (db, Inl err)
       | Inr q \<Rightarrow> do {
           codes \<leftarrow> encode_all q (db_store db);
           Some (db\<lparr>db_pq := Some \<lparr>ps_pq = q, ps_codes = codes\<rparr>\<rparr>, Inr ()) } }"
    using db_train_pq_accepted [OF assms(1) False, of rng iters g] by blast
  have c: "list_all coord_ok samples" using A(2) assms(3) by (fastforce simp: list_all_iff)
  have n: "length samples div db_dim db \<le> 2 ^ 24" using A(3) assms(4) by simp
  obtain t where t: "pq_train rng samples (db_dim db) m iters g = Some t"
    using pq_train_total [OF assms(2) n assms(5) c] by blast
  then obtain q where q: "t = Inr q" using A(1) by (auto simp: pq_train_accepted split: bind_splits)
  have Q: "pq_inv q" "pq_dim q = db_dim db" "pq_m q = m" using pq_train_inv [OF t [unfolded q] dim] by simp_all
  obtain codes where "encode_all q (db_store db) = Some codes" "db_ok e (db\<lparr>db_pq := Some \<lparr>ps_pq = q, ps_codes = codes\<rparr>\<rparr>)"
    using db_ok_trained [OF assms(1) Q(1,2)] by blast
  then show ?thesis using False S t q Q(3) by auto
qed

theorem training_covers_store_witness:
  "\<exists>db'. db_train_pq least_rng example_many 2 25 100000 () = Some (db', Inr ()) \<and> db_ok example_env db'"
proof -
  have "\<not> train_refused example_many 2 100000" using example_many_facts by (simp add: train_refused_def pq_k_def)
  then show ?thesis
    using training_covers_store [OF example_many_facts(1) least_rng_ok example_many_facts(4), of 100000 2 25 "()"]
      example_many_facts(2) by auto
qed

section \<open>An insert with every device answering\<close>

lemma db_insert_ok:
  assumes "db_ok e db" and "levels_ok e" and "db_wal db = Some w" and "\<not> wal_poisoned w" and "length v = db_dim db"
    and "db_dim db < 2 ^ 29" and "length (db_vectors db) < seg_first base_rows (vs_mapped (db_store db))"
  shows "\<exists>db'. db_insert e db v IoOk = Some (db', Inr (length (db_vectors db))) \<and> db_vectors db' = db_vectors db @ [v]"
proof -
  have inv: "vs_inv (db_store db)" using assms(1) by (simp add: db_ok_def)
  obtain s w' where I: "insert_row_storage_only e db v IoOk = (db\<lparr>db_store := s, db_wal := Some w'\<rparr>, Inr (vs_count (db_store db)))"
    using insert_row_ok [OF inv assms(3-6), of e] assms(7) by (auto simp: db_vectors_def)
  obtain h vis p where "db_insert e db v IoOk =
      Some (db\<lparr>db_store := s, db_wal := Some w'\<rparr>\<lparr>db_index := h, db_scratch := vis, db_pq := p\<rparr>, Inr (vs_count (db_store db)))"
    using db_insert_spec [OF assms(1,2), of v IoOk] I by auto
  then show ?thesis using insert_row_spec [OF inv I] by (auto simp: db_vectors_def)
qed

lemma example_room: "length (db_vectors example_fresh) < seg_first base_rows (vs_mapped (db_store example_fresh))"
proof -
  let ?s = "db_store example_fresh"
  have "vs_inv ?s" using example_fresh_facts(2) by (simp add: db_ok_def)
  then have "seg_first base_rows 1 \<le> seg_first base_rows (vs_mapped ?s)" by (intro seg_first_mono) (simp add: vs_inv_def)
  then show ?thesis using example_fresh_facts(7) by (simp add: seg_first_def base_rows_def)
qed

lemma example_fresh_insert:
  "length v = 2 \<Longrightarrow> \<exists>db'. db_insert example_env example_fresh v IoOk = Some (db', Inr 0)"
  using db_insert_ok [OF example_fresh_facts(2) example_levels example_fresh_facts(3) _ _ _ example_room, of v]
    example_fresh_facts(7,8) by (auto simp: fresh_wal_def)

text \<open>
  An insert does succeed: with a healthy log, devices that answer, a vector of the right length
  and room in the mapped segments, it returns the next id.
\<close>

theorem insert_succeeds:
  assumes "db_ok e db" and "levels_ok e" and "db_wal db = Some w" and "\<not> wal_poisoned w" and "length v = db_dim db"
    and "db_dim db < 2 ^ 29" and "length (db_vectors db) < seg_first base_rows (vs_mapped (db_store db))"
  shows "\<exists>db'. db_insert e db v IoOk = Some (db', Inr (length (db_vectors db))) \<and> db_vectors db' = db_vectors db @ [v]"
  by (rule db_insert_ok [OF assms])

theorem insert_succeeds_witness:
  "\<exists>db'. db_insert example_env example_fresh [f32_one, f32_one] IoOk = Some (db', Inr 0)"
  using insert_succeeds [OF example_fresh_facts(2) example_levels example_fresh_facts(3) _ _ _ example_room, of "[f32_one, f32_one]"]
    example_fresh_facts(7,8) by (auto simp: fresh_wal_def)

end
