(* ===== verification/Db_Unlogged.thy ===== *)
theory Db_Unlogged
  imports Db_Recovery Db_Train
begin

text \<open>
  The limits of recovery: sessions without a log, where a checkpoint is the only way anything survives,
  and vectors with a NaN.
\<close>

section \<open>Without a log\<close>

definition unlogged :: "env \<Rightarrow> db \<Rightarrow> bool" where
  "unlogged e db \<longleftrightarrow>
     db_wal db = None \<and> (db_wal_file db = None \<or> db_wal_file db = Some []) \<and> codebook_ok e (db_dim db) (db_codebook db)"

text \<open>Opening then succeeds exactly when the snapshot covers the rows the store had flushed.\<close>

lemma unlogged_open:
  assumes inv: "vs_inv s" and snap: "snap_ok e (dk_snap d) k watermark" and cb: "codebook_ok e (vs_dim s) (dk_codebook d)"
    and opts: "opts_ok opts" "\<not> opt_enable_wal opts" and d: "dk_store d = Some (vs_file s)" "wal_bytes d = []"
  shows "if k = header_count (vs_file s)
     then \<exists>db. db_open e rd io d (vs_dim s) opts = Some (Inr db) \<and> db_ok e db \<and> db_dim db = vs_dim s \<and>
       db_vectors db = map (vs_get_unchecked s) [0..<header_count (vs_file s)]
     else \<exists>why. db_open e rd io d (vs_dim s) opts = Some (Inl (Corrupt why))"
proof -
  obtain t where T: "vs_open (vs_file s) = Inr t" "vs_inv t" "vs_dim t = vs_dim s"
    "vs_vectors t = map (vs_get_unchecked s) [0..<header_count (vs_file s)]"
    using vs_open_file [OF inv] by blast
  have n: "vs_count t = header_count (vs_file s)" using T(4) length_vs_vectors [of t] by simp
  obtain h where H: "load_index e d opts = Some (Inr (h, watermark))" "graph_ok e h" "hnsw_len h = k"
    using load_index_ok [OF snap opts(1), of d] by auto
  have R: "recover e rd io d opts watermark (t, h, vis_new) = Some (Inr ((t, h, vis_new), None))"
    using opts(2) d(2) by (simp add: recover_def)
  have O: "open_store e d (vs_dim s) = Inr t" using d(1) T(1) by (simp add: open_store_def)
  obtain pq where P: "open_codebook e d t = Some (Inr pq)" "pq_ok (vs_dim t) (vs_vectors t) pq"
    using open_codebook_ok [of e t "dk_codebook d" d] cb T(3) by auto
  show ?thesis
  proof (cases "k = header_count (vs_file s)")
    case True
    let ?db = "\<lparr>db_store = t, db_index = h, db_wal = None, db_pq = pq, db_scratch = vis_new, db_snap = dk_snap d,
      db_codebook = dk_codebook d, db_wal_file = dk_wal d\<rparr>"
    have "db_open e rd io d (vs_dim s) opts = Some (Inr ?db)"
      using O T(3) H R P(1) True n opts(2) by (simp add: db_open_def vs_len_def)
    moreover have "db_ok e ?db" using T H P(2) True n vis_new_inv by (simp add: db_ok_def db_dim_def db_vectors_def)
    ultimately show ?thesis using True T(3,4) by (simp add: db_dim_def db_vectors_def)
  next
    case False
    then show ?thesis using O T(3) H R n by (simp add: db_open_def vs_len_def)
  qed
qed

text \<open>A checkpoint flushes the store, writes the codebook, and then the snapshot at watermark 0.\<close>

lemma unlogged_checkpoint:
  assumes ok: "db_ok e db" and un: "unlogged e db" and fl: "ck_msync io" and cbio: "ck_codebook io = Replaced"
  shows "\<exists>s cb snap r. db_checkpoint e db io = Some (db\<lparr>db_store := s, db_codebook := cb, db_snap := snap\<rparr>, r) \<and>
     vs_inv s \<and> vs_dim s = db_dim db \<and> vs_vectors s = db_vectors db \<and> header_count (vs_file s) = length (db_vectors db) \<and>
     codebook_ok e (db_dim db) cb \<and>
     (if ck_snap io = FailedBefore then snap = db_snap db else snap_ok e snap (length (db_vectors db)) 0) \<and>
     (r = Inr () \<longleftrightarrow> ck_snap io = Replaced)"
proof -
  have inv: "vs_inv (db_store db)" and g: "graph_ok e (db_index db)" "hnsw_len (db_index db) = length (db_vectors db)"
    and pq: "pq_ok (db_dim db) (db_vectors db) (db_pq db)"
    using ok by (simp_all add: db_ok_def db_vectors_def)
  obtain s where s: "vs_flush (db_store db) True = (s, Inr ())" by (simp add: vs_flush_def)
  note F = vs_flush_spec [OF inv s]
  let ?cb = "case db_pq db of None \<Rightarrow> db_codebook db | Some st \<Rightarrow> Some (codebook_bytes (en_crc e) (ps_pq st))"
  have cb: "save_codebook e (db\<lparr>db_store := s\<rparr>) Replaced = (db\<lparr>db_store := s, db_codebook := ?cb\<rparr>, Inr ())"
    by (cases "db_pq db") (simp_all add: save_codebook_def replace_file_def)
  have cb_ok: "codebook_ok e (db_dim db) ?cb"
  proof (cases "db_pq db")
    case None
    then show ?thesis using un by (simp add: unlogged_def)
  next
    case (Some st)
    then have "pq_inv (ps_pq st)" "pq_dim (ps_pq st) = db_dim db" using pq by (simp_all add: pq_ok_def)
    then show ?thesis using Some load_codebook_bytes by (simp add: codebook_ok_def)
  qed
  have fits: "snap_fits (db_index db) (en_avx e) 0" using g(1) by (simp add: snap_fits_def graph_ok_def)
  have hinv: "hn_inv (db_index db)" using g(1) by (simp add: graph_ok_def)
  obtain bs h' where B: "snapshot_bytes (en_crc e) (db_index db) 0 = Some bs" "hnsw_load (en_crc e) (en_avx e) bs = Some (Inr (h', 0))"
    "same_index (db_index db) h'" "sv_dense (hn_nodes h')"
    using snapshot_roundtrip_spec [OF hinv fits, of "en_crc e"] by blast
  have new: "snap_ok e (Some bs) (length (db_vectors db)) 0"
    using B(2,3) graph_ok_same [OF g(1) B(3,4)] g(2) by (simp add: snap_ok_def same_index_def)
  obtain snap r where S: "replace_file (db_snap db) bs (ck_snap io) = (snap, r)" by fastforce
  have "db_checkpoint e db io = Some (db\<lparr>db_store := s, db_codebook := ?cb, db_snap := snap\<rparr>, r)"
    using s cb fl cbio un B(1) S by (simp add: db_checkpoint_def unlogged_def save_index_def hnsw_save_def)
  moreover have "if ck_snap io = FailedBefore then snap = db_snap db else snap_ok e snap (length (db_vectors db)) 0"
    "r = Inr () \<longleftrightarrow> ck_snap io = Replaced"
    using S new by (cases "ck_snap io"; auto simp: replace_file_def)+
  moreover have "header_count (vs_file s) = length (db_vectors db)" using F by (simp add: db_vectors_def)
  ultimately show ?thesis using F cb_ok by (intro exI [of _ s] exI [of _ ?cb] exI [of _ snap] exI [of _ r])
      (simp add: db_dim_def db_vectors_def)
qed

lemma unlogged_reopen:
  assumes ok: "db_ok e db" and un: "unlogged e db" and opts: "opts_ok opts" "\<not> opt_enable_wal opts"
    and io: "ck_msync io" "ck_codebook io = Replaced" and cp: "db_checkpoint e db io = Some (db', r)"
    and snap: "snap_ok e (db_snap db') k watermark"
  shows "if k = length (db_vectors db)
     then \<exists>db2. db_open e rd oio (files_of db') (db_dim db) opts = Some (Inr db2) \<and> db_ok e db2 \<and> db_vectors db2 = db_vectors db
     else \<exists>why. db_open e rd oio (files_of db') (db_dim db) opts = Some (Inl (Corrupt why))"
proof -
  obtain s cb sn where C: "db' = db\<lparr>db_store := s, db_codebook := cb, db_snap := sn\<rparr>" "vs_inv s" "vs_dim s = db_dim db"
    "vs_vectors s = db_vectors db" "header_count (vs_file s) = length (db_vectors db)" "codebook_ok e (db_dim db) cb"
    using unlogged_checkpoint [OF ok un io] cp by auto
  have f: "dk_store (files_of db') = Some (vs_file s)" "dk_snap (files_of db') = db_snap db'" "dk_codebook (files_of db') = cb"
    "wal_bytes (files_of db') = []"
    using C(1) un by (auto simp: files_of_def wal_bytes_def unlogged_def)
  have n: "length (db_vectors db) = vs_count s" using C(4) length_vs_vectors [of s] by simp
  then have vs: "map (vs_get_unchecked s) [0..<header_count (vs_file s)] = db_vectors db"
    using C(4,5) by (simp add: vs_vectors_def)
  show ?thesis
    using unlogged_open [OF C(2) _ _ opts f(1,4), of e k watermark rd oio] snap f C(3,5,6) vs by auto
qed

section \<open>A NaN is not equal to itself\<close>

lemma f32s_eq_self_iff: "f32s_eq v v \<longleftrightarrow> no_nan v"
  by (simp add: no_nan_def f32s_eq_refl list_all_iff)

text \<open>
  A vector with a NaN that is in the log and already flushed stops every later opening: recovery
  compares the row with its record by \<^verbatim>\<open>!=\<close>.
\<close>

lemma nan_record_blocks_recovery:
  assumes "snd r = Insert i v" "watermark \<le> fst r" "i < vs_count s" "vs_vectors s ! i = v" "\<not> no_nan v"
  shows "\<exists>why. replay e watermark (r # rs) (s, h, vis) = Some (Inl (Corrupt why))"
proof -
  have "vs_get s i = Inr v" using vs_get_spec [of s i] assms(3,4) by simp
  then show ?thesis using assms f32s_eq_self_iff [of v] by (simp add: replay_store_def vs_len_def)
qed

lemma nan_blocks_open:
  assumes s: "vs_open (vs_file s0) = Inr s" "vs_dim s = dim" "dk_store d = Some (vs_file s0)"
    and h: "load_index e d opts = Some (Inr (h, watermark))" and wal: "opt_enable_wal opts"
    and log: "wal_open (en_crc e) rd (wal_bytes d) (opt_sync opts) io = (bs, Inr (w, r # rs))"
    and r: "snd r = Insert i v" "watermark \<le> fst r" "i < vs_count s" "vs_vectors s ! i = v" "\<not> no_nan v"
  shows "\<exists>why. db_open e rd io d dim opts = Some (Inl (Corrupt why))"
proof -
  obtain why where "replay e watermark (r # rs) (s, h, vis_new) = Some (Inl (Corrupt why))"
    using nan_record_blocks_recovery [OF r] by blast
  then have "recover e rd io d opts watermark (s, h, vis_new) = Some (Inl (Corrupt why))"
    using wal log by (simp add: recover_def del: replay.simps)
  then show ?thesis using s h by (simp add: db_open_def open_store_def)
qed

section \<open>Properties\<close>

text \<open>
  Without a log, a checkpoint that succeeds is enough: opening again, with the log still off, gives
  a sound database with exactly the vectors, the graph from the snapshot and the codes from the
  codebook.
\<close>

theorem unlogged_checkpoint_reopens:
  assumes "db_ok e db" and "unlogged e db" and "opts_ok opts" and "\<not> opt_enable_wal opts"
    and "ck_msync io" and "ck_codebook io = Replaced" and "ck_snap io = Replaced"
  shows "\<exists>db' db2. db_checkpoint e db io = Some (db', Inr ()) \<and>
     db_open e rd oio (files_of db') (db_dim db) opts = Some (Inr db2) \<and> db_ok e db2 \<and> db_vectors db2 = db_vectors db"
proof -
  obtain s cb snap r where C: "db_checkpoint e db io = Some (db\<lparr>db_store := s, db_codebook := cb, db_snap := snap\<rparr>, r)"
    "snap_ok e snap (length (db_vectors db)) 0" "r = Inr ()"
    using unlogged_checkpoint [OF assms(1,2,5,6)] assms(7) by auto
  have sn: "snap_ok e (db_snap (db\<lparr>db_store := s, db_codebook := cb, db_snap := snap\<rparr>)) (length (db_vectors db)) 0" using C(2) by simp
  show ?thesis using unlogged_reopen [OF assms(1-6) C(1) sn, of rd oio] C(1,3) by auto
qed


text \<open>A database of one row, its log switched off.\<close>

definition example_unlogged :: db where
  "example_unlogged = example_db\<lparr>db_wal := None, db_wal_file := None, db_snap := None, db_codebook := None\<rparr>"

definition unlogged_options :: db_options where
  "unlogged_options = default_options\<lparr>opt_enable_wal := False\<rparr>"

lemma example_unlogged_facts:
  "db_ok example_env example_unlogged" "unlogged example_env example_unlogged" "length (db_vectors example_unlogged) = 1"
  "opts_ok unlogged_options" "\<not> opt_enable_wal unlogged_options" "snap_ok example_env (db_snap example_unlogged) 0 0"
  using example_db_facts
  by (simp_all add: example_unlogged_def unlogged_options_def db_ok_def unlogged_def codebook_ok_def snap_ok_def
      db_vectors_def db_dim_def opts_ok_def default_options_def default_config_def)

theorem unlogged_checkpoint_reopens_witness:
  "\<exists>db' db2. db_checkpoint example_env example_unlogged
       \<lparr>ck_msync = True, ck_codebook = Replaced, ck_snap = Replaced, ck_reset = IoOk\<rparr> = Some (db', Inr ()) \<and>
     db_open example_env reads_ok IoOk (files_of db') (db_dim example_unlogged) unlogged_options = Some (Inr db2) \<and>
     length (db_vectors db2) = 1"
proof -
  let ?io = "\<lparr>ck_msync = True, ck_codebook = Replaced, ck_snap = Replaced, ck_reset = IoOk\<rparr>"
  have "ck_msync ?io" "ck_codebook ?io = Replaced" "ck_snap ?io = Replaced" by simp_all
  from unlogged_checkpoint_reopens [OF example_unlogged_facts(1,2,4,5) this, of reads_ok IoOk]
  show ?thesis using example_unlogged_facts(3) by fastforce
qed


end
