(* ===== verification/Db_Run.thy ===== *)
theory Db_Run
  imports Db_Recovery Db_Train "HOL-Library.Sublist"
begin

text \<open>
  Whole sessions: any sequence of inserts, batches, searches, trainings, checkpoints and kills followed
  by a reopen, each device call ending as it may.  The properties of the database as its users see them.
\<close>

section \<open>Sessions\<close>

datatype 'g event =
    Ins "f32 list" io_out
  | Batch "f32 list" "nat \<Rightarrow> io_out"
  | Srch "f32 list" nat nat
  | SrchPq "f32 list" nat nat nat
  | Train nat nat nat 'g
  | Checkpoint checkpoint_io
  | Kill

text \<open>
  What was acknowledged: the ids returned, with their vectors.  A kill ends the process between two
  device calls, what an operation that was under way had done by then being the same operation with
  an \<open>IoStop\<close> or a \<open>Failed\<close>; then the directory is opened again.  A training that panics (on weights
  that are not finite) unwinds before it has changed anything; no other operation may panic.
\<close>

fun db_step :: "'g rng \<Rightarrow> env \<Rightarrow> db_options \<Rightarrow> 'g event \<Rightarrow> db \<Rightarrow> (db \<times> (nat \<times> f32 list) list) option" where
  "db_step rng e opts (Ins v io) db =
     (case db_insert e db v io of
        None \<Rightarrow> None
      | Some (db', Inl err) \<Rightarrow> Some (db', [])
      | Some (db', Inr i) \<Rightarrow> Some (db', [(i, v)]))"
| "db_step rng e opts (Batch batch io) db =
     (case db_add_batch e db batch io of
        None \<Rightarrow> None
      | Some (db', Inl err) \<Rightarrow> Some (db', [])
      | Some (db', Inr base) \<Rightarrow> Some (db', enumerate base (rows_of (vs_dim (db_store db)) batch)))"
| "db_step rng e opts (Srch query k ef) db =
     (case db_search db query k ef of None \<Rightarrow> None | Some (db', _) \<Rightarrow> Some (db', []))"
| "db_step rng e opts (SrchPq query k ef rerank) db =
     (case db_search_pq e db query k ef rerank of None \<Rightarrow> None | Some (db', _) \<Rightarrow> Some (db', []))"
| "db_step rng e opts (Train m iters max_samples g) db =
     (case db_train_pq rng db m iters max_samples g of None \<Rightarrow> Some (db, []) | Some (db', _) \<Rightarrow> Some (db', []))"
| "db_step rng e opts (Checkpoint io) db =
     (case db_checkpoint e db io of None \<Rightarrow> None | Some (db', _) \<Rightarrow> Some (db', []))"
| "db_step rng e opts Kill db =
     (case db_open e reads_ok IoOk (files_of db) (vs_dim (db_store db)) opts of
        Some (Inr db') \<Rightarrow> Some (db', [])
      | _ \<Rightarrow> None)"

primrec db_run :: "'g rng \<Rightarrow> env \<Rightarrow> db_options \<Rightarrow> 'g event list \<Rightarrow> db \<Rightarrow> (db \<times> (nat \<times> f32 list) list) option" where
  "db_run rng e opts [] db = Some (db, [])"
| "db_run rng e opts (ev # evs) db = do {
     (db1, acked) \<leftarrow> db_step rng e opts ev db;
     (db2, more) \<leftarrow> db_run rng e opts evs db1;
     Some (db2, acked @ more) }"

fun event_ok :: "nat \<Rightarrow> 'g event \<Rightarrow> bool" where
  "event_ok dim (Ins v io) = no_nan v"
| "event_ok dim (Batch batch io) = list_all no_nan (rows_of dim batch)"
| "event_ok dim _ = True"

text \<open>How far an event can advance the log's sequence number.\<close>

fun event_cost :: "nat \<Rightarrow> 'g event \<Rightarrow> nat" where
  "event_cost dim (Ins v io) = 1"
| "event_cost dim (Batch batch io) = length (rows_of dim batch)"
| "event_cost dim Kill = 1"
| "event_cost dim _ = 0"

definition run_cost :: "nat \<Rightarrow> 'g event list \<Rightarrow> nat" where
  "run_cost dim evs = sum_list (map (event_cost dim) evs)"

text \<open>The vectors an event tries to insert.\<close>

fun attempted :: "nat \<Rightarrow> 'g event \<Rightarrow> f32 list list" where
  "attempted dim (Ins v io) = [v]"
| "attempted dim (Batch batch io) = rows_of dim batch"
| "attempted dim _ = []"

definition holds_row :: "db \<Rightarrow> nat \<times> f32 list \<Rightarrow> bool" where
  "holds_row db a \<longleftrightarrow> fst a < length (db_vectors db) \<and> db_vectors db ! fst a = snd a"

lemma holds_row_prefix: "holds_row db a \<Longrightarrow> prefix (db_vectors db) (db_vectors db') \<Longrightarrow> holds_row db' a"
  by (auto simp: holds_row_def prefix_def nth_append)

lemma holds_row_get: "holds_row db (i, v) \<Longrightarrow> db_get db i = Inr v"
  using vs_get_spec [of "db_store db" i] by (simp add: holds_row_def db_get_def db_vectors_def)

lemma holds_enumerate:
  assumes "db_vectors db = xs @ rows"
  shows "list_all (holds_row db) (enumerate (length xs) rows)"
  unfolding list_all_iff
proof
  fix a
  assume "a \<in> set (enumerate (length xs) rows)"
  then have "length xs \<le> fst a" "fst a < length xs + length rows" "snd a = rows ! (fst a - length xs)"
    by (simp_all add: in_set_enumerate_eq)
  then show "holds_row db a" using assms by (simp add: holds_row_def nth_append)
qed

section \<open>Every step keeps what was acknowledged\<close>

lemma durable_pq [simp]:
  "durable e (db\<lparr>db_pq := p\<rparr>) ws = durable e db ws"
  "next_lsn (db\<lparr>db_pq := p\<rparr>) = next_lsn db"
  "db_vectors (db\<lparr>db_pq := p\<rparr>) = db_vectors db"
  "db_dim (db\<lparr>db_pq := p\<rparr>) = db_dim db"
  by (simp_all add: durable_def logged_def unacked_def next_lsn_def db_vectors_def db_dim_def)

lemma db_step_inv:
  assumes D: "db_inv e db ws" and lev: "levels_ok e" and opts: "opts_ok opts" "opt_enable_wal opts"
    and ev: "event_ok (db_dim db) ev" and room: "next_lsn db + event_cost (db_dim db) ev < u64_limit"
  shows "\<exists>db' acked ws'. db_step rng e opts ev db = Some (db', acked) \<and> db_inv e db' ws' \<and> db_dim db' = db_dim db \<and>
     next_lsn db' \<le> next_lsn db + event_cost (db_dim db) ev \<and>
     prefix (db_vectors db) (db_vectors db') \<and> list_all (holds_row db') acked \<and>
     (\<exists>xs. ws' = ws @ xs \<and> subseq xs (attempted (db_dim db) ev))"
proof -
  have ok: "db_ok e db" using D by (simp add: db_inv_def)
  have scratch: "db_inv e (db\<lparr>db_scratch := vis\<rparr>) ws" if "db_ok e (db\<lparr>db_scratch := vis\<rparr>)" for vis
    using that D by (simp add: db_inv_def)
  show ?thesis
  proof (cases ev)
    case (Ins v io)
    obtain db' r ws' where S: "db_insert e db v io = Some (db', r)" "db_inv e db' ws'" "next_lsn db' \<le> next_lsn db + 1"
      "case r of Inr i \<Rightarrow> i = length (db_vectors db) \<and> db_vectors db' = db_vectors db @ [v]
               | Inl err \<Rightarrow> db_vectors db' = db_vectors db"
      "db_dim db' = db_dim db" "\<exists>xs. ws' = ws @ xs \<and> subseq xs [v]"
    proof -
      have "no_nan v" "next_lsn db + 1 < u64_limit" using ev room Ins by simp_all
      from db_insert_durable [OF D lev this, of io] show thesis using that by blast
    qed
    show ?thesis
    proof (cases r)
      case (Inl err)
      then show ?thesis using Ins S by (intro exI [of _ db'] exI [of _ "[]"] exI [of _ ws']) simp
    next
      case (Inr i)
      then have "holds_row db' (i, v)" using S(4) by (simp add: holds_row_def)
      then show ?thesis using Ins S Inr by (intro exI [of _ db'] exI [of _ "[(i, v)]"] exI [of _ ws']) simp
    qed
  next
    case (Batch batch io)
    let ?rows = "rows_of (db_dim db) batch"
    obtain db' r ws' n where S: "db_add_batch e db batch io = Some (db', r)" "db_inv e db' ws'"
      "next_lsn db' \<le> next_lsn db + length ?rows" "db_vectors db' = db_vectors db @ take n ?rows"
      "case r of Inr base \<Rightarrow> base = length (db_vectors db) \<and> n = length ?rows | Inl err \<Rightarrow> True"
      "db_dim db' = db_dim db" "\<exists>xs. ws' = ws @ xs \<and> subseq xs ?rows"
    proof -
      have "\<forall>row \<in> set ?rows. no_nan row" "next_lsn db + length ?rows < u64_limit"
        using ev room Batch by (simp_all add: list_all_iff)
      from db_add_batch_durable [OF D lev this, of io] show thesis using that by blast
    qed
    show ?thesis
    proof (cases r)
      case (Inl err)
      then show ?thesis using Batch S by (intro exI [of _ db'] exI [of _ "[]"] exI [of _ ws']) simp
    next
      case (Inr base)
      have "list_all (holds_row db') (enumerate base ?rows)"
        using S(4,5) Inr holds_enumerate [of db' "db_vectors db" ?rows] by simp
      moreover have "db_step rng e opts ev db = Some (db', enumerate base ?rows)"
        using Batch S(1) Inr by (simp add: db_dim_def)
      ultimately show ?thesis
        using Batch S by (intro exI [of _ db'] exI [of _ "enumerate base ?rows"] exI [of _ ws']) simp
    qed
  next
    case (Srch query k ef)
    obtain vis r where "db_search db query k ef = Some (db\<lparr>db_scratch := vis\<rparr>, r)" "db_ok e (db\<lparr>db_scratch := vis\<rparr>)"
      using db_search_ok [OF ok] by blast
    then show ?thesis using Srch scratch by (intro exI [of _ "db\<lparr>db_scratch := vis\<rparr>"] exI [of _ "[]"] exI [of _ ws]) simp
  next
    case (SrchPq query k ef rerank)
    obtain vis r where "db_search_pq e db query k ef rerank = Some (db\<lparr>db_scratch := vis\<rparr>, r)" "db_ok e (db\<lparr>db_scratch := vis\<rparr>)"
      using db_search_pq_ok [OF ok] by blast
    then show ?thesis using SrchPq scratch by (intro exI [of _ "db\<lparr>db_scratch := vis\<rparr>"] exI [of _ "[]"] exI [of _ ws]) simp
  next
    case (Train m iters max_samples g)
    show ?thesis
    proof (cases "db_train_pq rng db m iters max_samples g")
      case None
      then show ?thesis using Train D by (intro exI [of _ db] exI [of _ "[]"] exI [of _ ws]) simp
    next
      case (Some tr)
      obtain db' r where T: "db_train_pq rng db m iters max_samples g = Some (db', r)" using Some by (cases tr) simp
      obtain p where p: "db_ok e db'" "db' = db\<lparr>db_pq := p\<rparr>" using db_train_pq_ok [OF ok T] by blast
      then have "db_inv e db' ws" using D by (simp add: db_inv_def)
      then show ?thesis using Train T p(2) by (intro exI [of _ db'] exI [of _ "[]"] exI [of _ ws]) simp
    qed
  next
    case (Checkpoint io)
    have "next_lsn db < 2 ^ 64" using room by (simp add: u64_limit_def)
    then obtain db' r where S: "db_checkpoint e db io = Some (db', r)" "db_inv e db' ws" "db_vectors db' = db_vectors db"
      "next_lsn db' = next_lsn db" "db_dim db' = db_dim db"
      using db_checkpoint_inv [OF D, of io] by blast
    then show ?thesis using Checkpoint by (intro exI [of _ db'] exI [of _ "[]"] exI [of _ ws]) simp
  next
    case Kill
    have "durable e db ws" using D by (simp add: db_inv_def)
    then obtain db2 where S: "db_open e reads_ok IoOk (files_of db) (db_dim db) opts = Some (Inr db2)" "db_inv e db2 ws"
      "db_vectors db2 = ws" "db_dim db2 = db_dim db" "next_lsn db2 \<le> next_lsn db + 1"
      using reopen_spec [OF _ lev opts] by blast
    have "prefix (db_vectors db) ws" using D by (auto simp: db_inv_def durable_def prefix_def)
    then show ?thesis using Kill S by (intro exI [of _ db2] exI [of _ "[]"] exI [of _ ws]) (simp add: db_dim_def)
  qed
qed

lemma db_run_inv:
  "db_inv e db ws \<Longrightarrow> levels_ok e \<Longrightarrow> opts_ok opts \<Longrightarrow> opt_enable_wal opts \<Longrightarrow>
   list_all (event_ok (db_dim db)) evs \<Longrightarrow> next_lsn db + run_cost (db_dim db) evs < u64_limit \<Longrightarrow>
     \<exists>db' acked ws'. db_run rng e opts evs db = Some (db', acked) \<and> db_inv e db' ws' \<and>
       prefix (db_vectors db) (db_vectors db') \<and> list_all (holds_row db') acked \<and>
       (\<exists>xs. ws' = ws @ xs \<and> subseq xs (concat (map (attempted (db_dim db)) evs)))"
proof (induction evs arbitrary: db ws)
  case Nil
  then show ?case by auto
next
  case (Cons ev evs)
  have "event_ok (db_dim db) ev" "next_lsn db + event_cost (db_dim db) ev < u64_limit"
    using Cons.prems by (simp_all add: run_cost_def)
  then obtain db1 a1 ws1 xs where S: "db_step rng e opts ev db = Some (db1, a1)" "db_inv e db1 ws1" "db_dim db1 = db_dim db"
    "next_lsn db1 \<le> next_lsn db + event_cost (db_dim db) ev"
    "prefix (db_vectors db) (db_vectors db1)" "list_all (holds_row db1) a1"
    "ws1 = ws @ xs" "subseq xs (attempted (db_dim db) ev)"
    using db_step_inv [OF Cons.prems(1-4)] by blast
  have "list_all (event_ok (db_dim db1)) evs" "next_lsn db1 + run_cost (db_dim db1) evs < u64_limit"
    using Cons.prems(5,6) S(3,4) by (simp_all add: run_cost_def)
  then obtain db2 a2 ws2 ys where R: "db_run rng e opts evs db1 = Some (db2, a2)" "db_inv e db2 ws2"
    "prefix (db_vectors db1) (db_vectors db2)" "list_all (holds_row db2) a2"
    "ws2 = ws1 @ ys" "subseq ys (concat (map (attempted (db_dim db1)) evs))"
    using Cons.IH [OF S(2) Cons.prems(2-4)] by blast
  have "subseq (xs @ ys) (attempted (db_dim db) ev @ concat (map (attempted (db_dim db)) evs))"
    using S(8) R(6) unfolding S(3) by (rule list_emb_append_mono)
  moreover have "list_all (holds_row db2) (a1 @ a2)" using S(6) R(4) holds_row_prefix [OF _ R(3)] by (auto simp: list_all_iff)
  moreover have "prefix (db_vectors db) (db_vectors db2)" using S(5) R(3) by (rule prefix_order.trans)
  moreover have "db_run rng e opts (ev # evs) db = Some (db2, a1 @ a2)" using S(1) R(1) by simp
  ultimately show ?case using R(2) S(7) R(5)
    by (intro exI [of _ db2] exI [of _ "a1 @ a2"] exI [of _ ws2] conjI exI [of _ "xs @ ys"]) simp_all
qed

section \<open>A fresh database\<close>

lemma fresh_inv:
  assumes "vs_create (en_limit e) (en_map_limit e) dim = Inr s" and "opts_ok opts" and "opt_enable_wal opts"
  shows "\<exists>db. db_open e rd io empty_disk dim opts = Some (Inr db) \<and> db_inv e db [] \<and> db_vectors db = [] \<and>
     db_dim db = dim \<and> next_lsn db = 0"
proof -
  obtain h where h: "hnsw_new (en_avx e) (opt_config opts) = Inr h" using assms(2) by (simp add: hnsw_new_def opts_ok_def)
  have ef: "cfg_ef_construction (opt_config opts) < 2 ^ 32" using assms(2) by (simp add: opts_ok_def)
  obtain db where D: "db_open e rd io empty_disk dim opts = Some (Inr db)" "db_ok e db" "db_store db = s"
    "db_wal db = Some (fresh_wal (opt_sync opts))" "db_snap db = None" "db_codebook db = None"
    using open_fresh_spec [OF assms(1) h ef assms(3)] by blast
  note C = vs_create_sound [OF assms(1)]
  have L: "logged e db [] (fresh_wal (opt_sync opts)) [] 0 0"
    using D fresh_wal_holds by (simp add: logged_def snap_ok_def log_covers_def inserts_def)
  have "durable e db []"
    by (rule durableI [OF _ _ _ _ D(4) L, where extra = "[]"])
      (use C D in \<open>simp_all add: codebook_ok_def db_vectors_def unacked_def\<close>)
  then show ?thesis using D C
    by (auto simp: db_inv_def db_vectors_def db_dim_def next_lsn_def fresh_wal_def)
qed

lemma example_opts: "opts_ok default_options" "opt_enable_wal default_options"
  by (simp_all add: opts_ok_def default_options_def default_config_def)

lemma example_fresh_inv: "db_inv example_env example_fresh []" "next_lsn example_fresh = 0"
proof -
  obtain s where s: "vs_create (en_limit example_env) (en_map_limit example_env) 2 = Inr s"
    using example_created by (auto simp: example_env_def)
  then show "db_inv example_env example_fresh []" "next_lsn example_fresh = 0"
    using fresh_inv [OF s example_opts, of reads_ok IoOk] example_fresh_facts(1) by auto
qed

lemma example_no_nan: "no_nan [f32_one, f32_zero]" "no_nan [f32_zero, f32_one]"
  by (simp_all add: no_nan_def f32_is_nan_def fp_is_nan_def inf_mag_def fp_mag_def f32_pat_def f32_one_def f32_zero_def f32_of_pat_def)

section \<open>Properties\<close>


definition example_events :: "unit event list" where
  "example_events =
     [Ins [f32_one, f32_zero] IoOk, Ins [f32_zero, f32_one] (IoStop 9), Kill, Ins [f32_zero, f32_one] IoOk,
      Train 1 25 1000 (),
      Checkpoint \<lparr>ck_msync = True, ck_codebook = Replaced, ck_snap = FailedAfter, ck_reset = IoOk\<rparr>, Kill,
      Srch [f32_one, f32_one] 2 10]"




text \<open>
  A new database is sound: on an empty directory \<^verbatim>\<open>open\<close> makes the files, finds nothing to
  recover and gives an empty database of the requested dimension from which every session is safe.
\<close>

theorem fresh_database:
  assumes "vs_create (en_limit e) (en_map_limit e) dim = Inr s" and "opts_ok opts" and "opt_enable_wal opts"
  shows "\<exists>db. db_open e rd io empty_disk dim opts = Some (Inr db) \<and> db_inv e db [] \<and> db_vectors db = [] \<and>
     db_dim db = dim \<and> next_lsn db = 0"
  by (rule fresh_inv [OF assms])

theorem fresh_database_witness:
  "\<exists>db. db_open example_env reads_ok IoOk empty_disk 2 default_options = Some (Inr db) \<and> db_vectors db = []"
proof -
  obtain s where s: "vs_create (en_limit example_env) (en_map_limit example_env) 2 = Inr s"
    using example_created by (auto simp: example_env_def)
  then show ?thesis using fresh_database [OF s example_opts, of reads_ok IoOk] by blast
qed





end
