(* ===== verification/Db_Room.thy ===== *)
theory Db_Room
  imports Db_Run
begin

text \<open>
  When inserts cannot fail: what the file system and the address space must grant for a store to grow
  to a number of segments, and that with it, a healthy log and answering devices every row of a batch
  goes in.
\<close>

section \<open>Room for a number of segments\<close>

definition granted :: "nat \<Rightarrow> vstore \<Rightarrow> bool" where
  "granted segs s \<longleftrightarrow>
     segs \<le> max_segments \<and> header_size + seg_first base_rows segs * vs_stride s < u64_limit \<and>
     header_size + seg_first base_rows segs * vs_stride s \<le> vf_limit (vs_file s) \<and>
     seg_first base_rows segs * vs_stride s \<le> vf_map_limit (vs_file s)"

lemma granted_grows:
  assumes "granted segs s" and "vs_mapped s < segs"
  shows "can_grow s"
proof -
  let ?m = "vs_mapped s"
  have a: "seg_first base_rows (Suc ?m) * vs_stride s \<le> seg_first base_rows segs * vs_stride s"
    using assms(2) by (intro mult_le_mono1 seg_first_mono) simp
  have "seg_rows ?m * vs_stride s \<le> seg_first base_rows (Suc ?m) * vs_stride s"
    by (intro mult_le_mono1) (simp add: seg_first_Suc seg_rows_def)
  then show ?thesis using assms a unfolding granted_def can_grow_def by linarith
qed

text \<open>An append changes neither the row size nor the limits.\<close>

lemma map_segment_limits:
  "map_segment f off rows stride grow = (f', r) \<Longrightarrow> vf_limit f' = vf_limit f \<and> vf_map_limit f' = vf_map_limit f"
  by (auto simp: map_segment_def vf_set_len_def split: sum.splits prod.splits if_splits)

lemma ensure_loop_limits:
  "ensure_loop s want grow = (s', r) \<Longrightarrow>
     vs_stride s' = vs_stride s \<and> vf_limit (vs_file s') = vf_limit (vs_file s) \<and> vf_map_limit (vs_file s') = vf_map_limit (vs_file s)"
proof (induction s want grow rule: ensure_loop.induct)
  case (1 s want grow)
  show ?case
  proof (cases "vs_mapped s < want")
    case True
    show ?thesis
    proof (cases "seg_byte_offset (vs_stride s) (vs_mapped s)")
      case (Inl e)
      then show ?thesis using 1(2) True by (simp add: ensure_loop.simps)
    next
      case (Inr off)
      obtain f q where f: "map_segment (vs_file s) off (seg_rows (vs_mapped s)) (vs_stride s) grow = (f, q)" by fastforce
      note L = map_segment_limits [OF f]
      show ?thesis
      proof (cases q)
        case (Inl e)
        then show ?thesis using 1(2) True Inr f L by (subst (asm) ensure_loop.simps) auto
      next
        case q: (Inr u)
        then have "ensure_loop (s\<lparr>vs_file := f, vs_mapped := vs_mapped s + 1\<rparr>) want grow = (s', r)"
          using 1(2) True Inr f by (subst (asm) ensure_loop.simps) simp
        from 1(1) [OF True Inr f [symmetric] q this] show ?thesis using L by simp
      qed
    qed
  qed (use 1(2) in \<open>simp add: ensure_loop.simps\<close>)
qed

lemma vs_append_granted:
  assumes "vs_append s v = (s', r)" and "granted segs s"
  shows "granted segs s'"
proof -
  obtain t q where t: "ensure_mapped_locked s (fst (store_locate (vs_count s)) + 1) True = (t, q)" by fastforce
  then have "vs_stride t = vs_stride s \<and> vf_limit (vs_file t) = vf_limit (vs_file s) \<and> vf_map_limit (vs_file t) = vf_map_limit (vs_file s)"
    using ensure_loop_limits by (auto simp: ensure_mapped_locked_def split: if_splits)
  then show ?thesis using assms t
    by (auto simp: vs_append_def granted_def vf_write_def Let_def split: if_splits sum.splits)
qed

lemma granted_append:
  assumes "vs_inv s" and "granted segs s" and "length v = vs_dim s" and "vs_count s < seg_first base_rows segs"
  shows "\<exists>s'. vs_append s v = (s', Inr (vs_count s)) \<and> granted segs s'"
proof -
  have "\<exists>s'. vs_append s v = (s', Inr (vs_count s))"
  proof (cases "vs_count s < seg_first base_rows (vs_mapped s)")
    case True
    then show ?thesis using vs_append_ok [OF assms(1,3)] by blast
  next
    case False
    then have "vs_count s = seg_first base_rows (vs_mapped s)" using assms(1) by (simp add: vs_inv_def)
    moreover have "vs_mapped s < segs"
    proof (rule ccontr)
      assume "\<not> vs_mapped s < segs"
      then have "seg_first base_rows segs \<le> seg_first base_rows (vs_mapped s)" by (intro seg_first_mono) simp
      then show False using assms(4) False by linarith
    qed
    ultimately show ?thesis using vs_append_grows [OF assms(1,3)] granted_grows [OF assms(2)] by blast
  qed
  then show ?thesis using vs_append_granted assms(2) by blast
qed

text \<open>What a new store is granted, from what the devices have.\<close>

lemma created_limits:
  assumes "vs_create limit map_limit dim = Inr s"
  shows "vf_limit (vs_file s) = limit" "vf_map_limit (vs_file s) = map_limit" "vs_stride s \<le> 4 * dim + 64"
proof -
  obtain row_bytes stride f where
    dim: "1 \<le> dim" "dim < 2 ^ 32" and rb: "checked_mul dim 4 = Some row_bytes"
    and st: "checked_next_multiple row_bytes row_align = Some stride"
    and f: "vf_set_len (empty_file limit map_limit) header_size = Inr f"
    and e: "ensure_mapped_locked \<lparr>vs_file = write_header f dim stride, vs_mapped = 0, vs_dim = dim,
              vs_stride = stride, vs_count = 0\<rparr> 1 True = (s, Inr ())"
    using assms by (auto simp: vs_create_def Let_def result_simps ensure_eq_Inr vf_mmap_def mapped_Inr)
  have "vf_limit f = limit" "vf_map_limit f = map_limit"
    using f by (auto simp: vf_set_len_def empty_file_def split: if_splits)
  moreover have "vs_stride s = stride" "vf_limit (vs_file s) = vf_limit f" "vf_map_limit (vs_file s) = vf_map_limit f"
    using e ensure_loop_limits by (auto simp: ensure_mapped_locked_def write_header_def vf_write_def Let_def split: if_splits)
  ultimately show "vf_limit (vs_file s) = limit" "vf_map_limit (vs_file s) = map_limit" "vs_stride s \<le> 4 * dim + 64"
    using stride_bounds [OF st rb dim] by simp_all
qed

definition env_grants :: "env \<Rightarrow> nat \<Rightarrow> nat \<Rightarrow> bool" where
  "env_grants e dim segs \<longleftrightarrow>
     1 \<le> dim \<and> dim < 2 ^ 29 \<and> 1 \<le> segs \<and> segs \<le> max_segments \<and>
     header_size + seg_first base_rows segs * (4 * dim + 64) < u64_limit \<and>
     header_size + seg_first base_rows segs * (4 * dim + 64) \<le> en_limit e \<and>
     header_size + seg_first base_rows segs * (4 * dim + 64) \<le> en_map_limit e"

lemma env_grants_store:
  assumes "env_grants e dim segs"
  shows "\<exists>s. vs_create (en_limit e) (en_map_limit e) dim = Inr s \<and> granted segs s"
proof -
  let ?r = "4 * dim + 64"
  have g: "1 \<le> dim" "dim < 2 ^ 32" "1 \<le> segs" "segs \<le> max_segments" "header_size + seg_first base_rows segs * ?r < u64_limit"
    "header_size + seg_first base_rows segs * ?r \<le> en_limit e" "header_size + seg_first base_rows segs * ?r \<le> en_map_limit e"
    using assms unfolding env_grants_def by auto
  have "seg_first base_rows 1 \<le> seg_first base_rows segs" using g(3) by (rule seg_first_mono)
  then have "base_rows * ?r \<le> seg_first base_rows segs * ?r" by (intro mult_le_mono1) (simp add: seg_first_def)
  then have "header_size + base_rows * ?r \<le> en_limit e" "header_size + base_rows * ?r \<le> en_map_limit e"
    using g(6,7) by linarith+
  from vs_create_ok [OF g(1,2) this] obtain s where s: "vs_create (en_limit e) (en_map_limit e) dim = Inr s" by blast
  have "seg_first base_rows segs * vs_stride s \<le> seg_first base_rows segs * ?r"
    by (rule mult_le_mono2 [OF created_limits(3) [OF s]])
  then have "granted segs s" using g(4-7) created_limits(1,2) [OF s] unfolding granted_def by linarith
  then show ?thesis using s by blast
qed

section \<open>Rows and batches\<close>

lemma granted_row:
  assumes inv: "vs_inv (db_store db)" and wal: "db_wal db = Some w" "\<not> wal_poisoned w" and g: "granted segs (db_store db)"
    and v: "length v = db_dim db" "db_dim db < 2 ^ 29" and room: "length (db_vectors db) < seg_first base_rows segs"
  shows "\<exists>s w'. insert_row_storage_only e db v IoOk = (db\<lparr>db_store := s, db_wal := Some w'\<rparr>, Inr (length (db_vectors db))) \<and>
     \<not> wal_poisoned w' \<and> granted segs s"
proof -
  obtain s where s: "vs_append (db_store db) v = (s, Inr (vs_count (db_store db)))" "granted segs s"
    using granted_append [OF inv g] v(1) room by (auto simp: db_dim_def db_vectors_def)
  show ?thesis using insert_row_stored [OF s(1) wal v, of e] s(2) by (auto simp: db_vectors_def)
qed

lemma granted_batch:
  "vs_inv (db_store db) \<Longrightarrow> db_wal db = Some w \<Longrightarrow> \<not> wal_poisoned w \<Longrightarrow> granted segs (db_store db) \<Longrightarrow>
   \<forall>v \<in> set rows. length v = db_dim db \<Longrightarrow> db_dim db < 2 ^ 29 \<Longrightarrow> length (db_vectors db) + length rows \<le> seg_first base_rows segs \<Longrightarrow>
     \<exists>db' w'. batch_rows e (\<lambda>_. IoOk) k rows db = (db', k + length rows, None) \<and> db_wal db' = Some w' \<and>
       \<not> wal_poisoned w' \<and> granted segs (db_store db')"
proof (induction rows arbitrary: k db w)
  case Nil
  then show ?case by simp
next
  case (Cons row rows)
  obtain s w1 where I: "insert_row_storage_only e db row IoOk = (db\<lparr>db_store := s, db_wal := Some w1\<rparr>, Inr (length (db_vectors db)))"
    "\<not> wal_poisoned w1" "granted segs s"
    using granted_row [OF Cons.prems(1-4), of row e] Cons.prems(5-7) by auto
  let ?db1 = "db\<lparr>db_store := s, db_wal := Some w1\<rparr>"
  note S = insert_row_spec [OF Cons.prems(1) I(1)]
  have 1: "db_dim ?db1 = db_dim db" "length (db_vectors ?db1) = Suc (length (db_vectors db))" using S by simp_all
  obtain db2 w2 where "batch_rows e (\<lambda>_. IoOk) (k + 1) rows ?db1 = (db2, k + 1 + length rows, None)" "db_wal db2 = Some w2"
    "\<not> wal_poisoned w2" "granted segs (db_store db2)"
    using Cons.IH [of ?db1 w1 "k + 1"] S I(2,3) 1 Cons.prems(5-7) by auto
  then show ?case using I(1) by simp
qed

lemma granted_add_batch:
  assumes ok: "db_ok e db" "levels_ok e" and wal: "db_wal db = Some w" "\<not> wal_poisoned w" and g: "granted segs (db_store db)"
    and rows: "length batch mod db_dim db = 0" "db_dim db < 2 ^ 29"
    and room: "length (db_vectors db) + length (rows_of (db_dim db) batch) \<le> seg_first base_rows segs"
  shows "\<exists>db' w'. db_add_batch e db batch (\<lambda>_. IoOk) = Some (db', Inr (length (db_vectors db))) \<and> db_wal db' = Some w' \<and>
     \<not> wal_poisoned w' \<and> granted segs (db_store db')"
proof -
  have inv: "vs_inv (db_store db)" using ok(1) by (simp add: db_ok_def)
  have len: "\<forall>v \<in> set (rows_of (db_dim db) batch). length v = db_dim db" using rows_of_dim by blast
  obtain db1 w' where B: "batch_rows e (\<lambda>_. IoOk) 0 (rows_of (db_dim db) batch) db = (db1, length (rows_of (db_dim db) batch), None)"
    "db_wal db1 = Some w'" "\<not> wal_poisoned w'" "granted segs (db_store db1)"
    using granted_batch [OF inv wal g len rows(2) room, of e 0] by auto
  then show ?thesis using db_add_batch_spec [OF ok rows(1), of "\<lambda>_. IoOk"] by auto
qed

end
