(* ===== verification/Cli.thy ===== *)
theory Cli
  imports Db_Run
begin

text \<open>
  \<^verbatim>\<open>src/vektordb-cli/src/main.rs\<close>: the command line, and the ingest and verify commands between which
  the crash harness kills the process.  What the process prints is a list of lines; \<open>None\<close> is a panic.
\<close>

section \<open>Arguments\<close>

text \<open>\<^verbatim>\<open>str::parse\<close> for \<^verbatim>\<open>u64\<close> and \<^verbatim>\<open>usize\<close>.\<close>

definition is_digit :: "char \<Rightarrow> bool" where
  "is_digit c \<longleftrightarrow> 48 \<le> (of_char c :: nat) \<and> (of_char c :: nat) \<le> 57"

definition digits_value :: "string \<Rightarrow> nat" where
  "digits_value s = foldl (\<lambda>n c. n * 10 + (of_char c - 48)) 0 s"

definition parse_unsigned :: "string \<Rightarrow> nat option" where
  "parse_unsigned s =
     (let t = (case s of [] \<Rightarrow> [] | c # cs \<Rightarrow> if c = CHR ''+'' then cs else s)
      in if t = [] \<or> \<not> list_all is_digit t then None
         else if digits_value t < u64_limit then Some (digits_value t) else None)"

datatype command =
    Ingest string nat nat "nat option"
  | Verify string nat nat
  | Orphans string nat
  | Search string nat nat nat
  | Usage

definition parse_command :: "string list \<Rightarrow> command" where
  "parse_command args =
     (if length args < 2 then Usage
      else let cmd = args ! 1
           in if cmd = ''ingest'' \<and> 5 \<le> length args then
                (case (parse_unsigned (args ! 3), parse_unsigned (args ! 4)) of
                   (Some dim, Some n) \<Rightarrow>
                     if length args \<le> 5 then Ingest (args ! 2) dim n None
                     else (case parse_unsigned (args ! 5) of
                             Some every \<Rightarrow> Ingest (args ! 2) dim n (Some every)
                           | None \<Rightarrow> Usage)
                 | _ \<Rightarrow> Usage)
              else if cmd = ''verify'' \<and> length args = 5 then
                (case (parse_unsigned (args ! 3), parse_unsigned (args ! 4)) of
                   (Some dim, Some acked) \<Rightarrow> Verify (args ! 2) dim acked | _ \<Rightarrow> Usage)
              else if cmd = ''orphans'' \<and> length args = 4 then
                (case parse_unsigned (args ! 3) of Some dim \<Rightarrow> Orphans (args ! 2) dim | None \<Rightarrow> Usage)
              else if cmd = ''search'' \<and> length args = 6 then
                (case (parse_unsigned (args ! 3), parse_unsigned (args ! 4), parse_unsigned (args ! 5)) of
                   (Some dim, Some i, Some k) \<Rightarrow> Search (args ! 2) dim i k | _ \<Rightarrow> Usage)
              else Usage)"

section \<open>The vector of an id\<close>

definition f32_half :: f32 where
  "f32_half = F32 0x3F000000"

definition vec_for_id :: "nat \<Rightarrow> nat \<Rightarrow> f32 list" where
  "vec_for_id i dim =
     map (\<lambda>j. let x = (word_of_nat i :: u64) * 6364136223846793005 + word_of_nat j * 1442695040888963407
              in f32_sub (f32_div (f32_of_nat (unat (ucast (drop_bit 33 x) :: u32))) (f32_of_nat (2 ^ 32 - 1))) f32_half)
       [0..<dim]"

section \<open>Ingest\<close>

datatype out_line = Ack nat | Done nat | OkLine nat nat | OrphansLine nat nat | HitLine nat f32

text \<open>How the calls of the run end: the insert of each id, its line on the terminal, its checkpoint.\<close>

record ingest_io =
  in_insert :: "nat \<Rightarrow> io_out"
  in_print :: "nat \<Rightarrow> bool"
  in_checkpoint :: "nat \<Rightarrow> checkpoint_io"
  in_last :: checkpoint_io

definition due :: "nat option \<Rightarrow> nat \<Rightarrow> bool" where
  "due every i \<longleftrightarrow> (case every of None \<Rightarrow> False | Some n \<Rightarrow> (i + 1) mod n = 0)"

primrec ingest_loop :: "env \<Rightarrow> ingest_io \<Rightarrow> nat \<Rightarrow> nat option \<Rightarrow> nat list \<Rightarrow> db \<Rightarrow>
    (db \<times> out_line list \<times> unit result) option" where
  "ingest_loop e io dim every [] db = Some (db, [], Inr ())"
| "ingest_loop e io dim every (i # is) db =
     (case db_insert e db (vec_for_id i dim) (in_insert io i) of
        None \<Rightarrow> None
      | Some (db1, Inl err) \<Rightarrow> Some (db1, [], Inl err)
      | Some (db1, Inr k) \<Rightarrow>
          if \<not> in_print io i then Some (db1, [], Inl (Io DeviceError))
          else do {
            (db2, r) \<leftarrow> (if due every i then db_checkpoint e db1 (in_checkpoint io i) else Some (db1, Inr ()));
            case r of
              Inl err \<Rightarrow> Some (db2, [Ack k], Inl err)
            | Inr _ \<Rightarrow> do {
                (db3, lines, r') \<leftarrow> ingest_loop e io dim every is db2;
                Some (db3, Ack k # lines, r') } })"

definition ingest_opened :: "env \<Rightarrow> ingest_io \<Rightarrow> nat \<Rightarrow> nat \<Rightarrow> nat option \<Rightarrow> db \<Rightarrow>
    (db \<times> out_line list \<times> unit result) option" where
  "ingest_opened e io dim n every db = do {
     (db1, lines, r) \<leftarrow> ingest_loop e io dim every [db_len db..<n] db;
     case r of
       Inl err \<Rightarrow> Some (db1, lines, Inl err)
     | Inr _ \<Rightarrow> do {
         (db2, r') \<leftarrow> db_checkpoint e db1 (in_last io);
         Some (db2, lines @ (if is_ok r' then [Done n] else []), r') } }"

text \<open>\<^verbatim>\<open>ingest\<close>; the database is \<open>None\<close> when there is none to leave behind.\<close>

definition ingest :: "env \<Rightarrow> (nat \<Rightarrow> nat \<Rightarrow> bool) \<Rightarrow> io_out \<Rightarrow> ingest_io \<Rightarrow> disk \<Rightarrow> nat \<Rightarrow> nat \<Rightarrow> nat option \<Rightarrow>
    (db option \<times> out_line list \<times> unit result) option" where
  "ingest e rd oio io d dim n every =
     (if every = Some 0 then
        Some (None, [], Inl (InvalidArgument ''checkpoint_every must be greater than zero''))
      else do {
        r \<leftarrow> db_open e rd oio d dim default_options;
        case r of
          Inl err \<Rightarrow> Some (None, [], Inl err)
        | Inr db \<Rightarrow> do {
            (db', lines, r') \<leftarrow> ingest_opened e io dim n every db;
            Some (Some db', lines, r') } })"

section \<open>Verify, orphans and search\<close>

text \<open>The double nearest to \<^verbatim>\<open>0.001\<close>.\<close>

definition f64_milli :: f64 where
  "f64_milli = f64_of_pat (fp_round 52 11 (2 ^ fp_scale 52 11) 1000)"

datatype verdict = Passed nat nat | MissingVectors nat | CorruptVector nat | Unreachable nat

text \<open>The first id whose vector is not the expected one, or an error.\<close>

primrec check_vectors :: "db \<Rightarrow> nat \<Rightarrow> nat list \<Rightarrow> nat option result" where
  "check_vectors db dim [] = Inr None"
| "check_vectors db dim (i # is) =
     rbind (db_get db i) (\<lambda>v. if \<not> f32s_eq v (vec_for_id i dim) then Inr (Some i) else check_vectors db dim is)"

definition verify_opened :: "db \<Rightarrow> nat \<Rightarrow> nat \<Rightarrow> verdict result option" where
  "verify_opened db dim acked =
     (if db_len db < acked then Some (Inr (MissingVectors (db_len db)))
      else case check_vectors db dim [0..<acked] of
        Inl err \<Rightarrow> Some (Inl err)
      | Inr (Some i) \<Rightarrow> Some (Inr (CorruptVector i))
      | Inr None \<Rightarrow> do {
          orphans \<leftarrow> orphan_count db;
          let rate = f64_div (f64_of_nat orphans) (f64_of_nat (max (db_len db) 1));
          Some (Inr (if f64_lt f64_milli rate then Unreachable orphans else Passed (db_len db) orphans)) })"

definition verify :: "env \<Rightarrow> (nat \<Rightarrow> nat \<Rightarrow> bool) \<Rightarrow> io_out \<Rightarrow> disk \<Rightarrow> nat \<Rightarrow> nat \<Rightarrow> verdict result option" where
  "verify e rd oio d dim acked =
     and_then (db_open e rd oio d dim default_options) (\<lambda>db. verify_opened db dim acked)"

definition orphans :: "env \<Rightarrow> (nat \<Rightarrow> nat \<Rightarrow> bool) \<Rightarrow> io_out \<Rightarrow> disk \<Rightarrow> nat \<Rightarrow> out_line list result option" where
  "orphans e rd oio d dim =
     and_then (db_open e rd oio d dim default_options) (\<lambda>db. do {
       n \<leftarrow> orphan_count db;
       Some (Inr [OrphansLine (db_len db) n]) })"

definition search_command :: "env \<Rightarrow> (nat \<Rightarrow> nat \<Rightarrow> bool) \<Rightarrow> io_out \<Rightarrow> disk \<Rightarrow> nat \<Rightarrow> nat \<Rightarrow> nat \<Rightarrow> out_line list result option" where
  "search_command e rd oio d dim i k =
     and_then (db_open e rd oio d dim default_options) (\<lambda>db. do {
       (_, r) \<leftarrow> db_search db (vec_for_id i dim) k 128;
       Some (rbind r (\<lambda>hits. Inr (map (\<lambda>h. HitLine (nb_id h) (nb_dist h)) hits))) })"

section \<open>The vectors are ordinary\<close>

lemma vec_for_id_length [simp]: "length (vec_for_id i dim) = dim"
  by (simp add: vec_for_id_def)

lemma f32_of_nat_not_nan: "\<not> f32_is_nan (f32_of_nat n)"
proof -
  have "fp_of_nat 23 8 n \<le> inf_mag 23 8" by (simp add: fp_of_nat_def fp_round_le)
  then show ?thesis
    using fp_round_less [of 23 8 "n * 2 ^ fp_scale 23 8" 1]
    by (simp add: f32_of_nat_def f32_is_nan_def fp_is_nan_def fp_mag_def fp_of_nat_def)
qed

lemma f32_div_not_nan:
  assumes "\<not> f32_is_nan x" "f32_is_finite y" "f32_units y \<noteq> 0"
  shows "\<not> f32_is_nan (f32_div x y)"
proof -
  let ?r = "fp_div 23 8 (f32_pat x) (f32_pat y)"
  have make: "m < 2147483648 \<Longrightarrow> fp_make 23 8 s m < 4294967296" for s m using fp_make_less [of m 23 8 s] by simp
  have r: "?r < 2 * 2 ^ (23 + 8) \<and> fp_mag 23 8 ?r \<le> inf_mag 23 8"
    using assms fp_round_le inf_mag_less [of 23 8] fp_round_less [of 23 8]
    by (auto simp: fp_div_def Let_def f32_is_nan_def f32_finite_class f32_units_def intro: make)
  then show ?thesis by (simp add: f32_div_def f32_is_nan_def fp_is_nan_def)
qed

lemma f32_sub_not_nan: "\<not> f32_is_nan x \<Longrightarrow> f32_is_finite y \<Longrightarrow> \<not> f32_is_nan (f32_sub x y)"
  using fp_round_le fp_round_less [of 23 8]
  by (auto simp: f32_is_nan_def f32_pat_ops f32_finite_class fp_sub_def fp_add_def fp_is_nan_def fp_of_int_mag not_less)

lemma divisor_finite: "f32_is_finite (f32_of_nat (2 ^ 32 - 1))" "f32_units (f32_of_nat (2 ^ 32 - 1)) \<noteq> 0"
proof -
  have "fp_of_nat 23 8 4294967295 = 159 * 2 ^ 23"
    by (simp add: fp_of_nat_def fp_round_def fp_pack_def fp_binade_def rne_def rne_adjust_def inf_mag_def fp_scale_def
        ilog2_numeral ilog2_one)
  then have "f32_pat (f32_of_nat (2 ^ 32 - 1)) = 159 * 2 ^ 23" by (simp add: f32_of_nat_def)
  then show "f32_is_finite (f32_of_nat (2 ^ 32 - 1))" "f32_units (f32_of_nat (2 ^ 32 - 1)) \<noteq> 0"
    by (simp_all add: f32_is_finite_def f32_units_def fp_mag_def inf_mag_def fp_units_def)
qed

lemma half_finite: "f32_is_finite f32_half"
  by (simp add: f32_half_def f32_is_finite_def f32_pat_def fp_mag_def inf_mag_def)

lemma vec_for_id_no_nan: "no_nan (vec_for_id i dim)"
  using f32_sub_not_nan [OF f32_div_not_nan [OF f32_of_nat_not_nan divisor_finite] half_finite]
  by (simp add: no_nan_def vec_for_id_def list_all_iff Let_def)

section \<open>Ingest keeps the pattern\<close>

definition pattern :: "nat \<Rightarrow> f32 list list \<Rightarrow> bool" where
  "pattern dim ws \<longleftrightarrow> (\<forall>i < length ws. ws ! i = vec_for_id i dim)"

lemma pattern_snoc: "pattern dim ws \<Longrightarrow> pattern dim (ws @ [vec_for_id (length ws) dim])"
  by (simp add: pattern_def nth_append less_Suc_eq)

lemma subseq_single: "subseq xs [v] \<Longrightarrow> xs = [] \<or> xs = [v]"
  by (cases xs) (auto split: if_splits)

lemma db_len_vectors: "db_ok e db \<Longrightarrow> db_len db = length (db_vectors db)"
  by (simp add: db_ok_def db_len_def db_vectors_def)

lemma db_inv_prefix: "db_inv e db ws \<Longrightarrow> prefix (db_vectors db) ws"
  by (auto simp: db_inv_def durable_def prefix_def)

lemma ingest_insert:
  assumes D: "db_inv e db ws" and lev: "levels_ok e" and p: "pattern (db_dim db) ws" and room: "next_lsn db + 1 < u64_limit"
  shows "\<exists>db' r ws'. db_insert e db (vec_for_id (length (db_vectors db)) (db_dim db)) io = Some (db', r) \<and> db_inv e db' ws' \<and>
     pattern (db_dim db) ws' \<and> db_dim db' = db_dim db \<and> next_lsn db' \<le> next_lsn db + 1 \<and>
     (case r of
        Inr i \<Rightarrow> i = length (db_vectors db) \<and> length (db_vectors db') = length (db_vectors db) + 1
      | Inl err \<Rightarrow> length (db_vectors db') = length (db_vectors db))"
proof -
  let ?v = "vec_for_id (length (db_vectors db)) (db_dim db)"
  obtain db' r ws' xs where S: "db_insert e db ?v io = Some (db', r)" "db_inv e db' ws'" "next_lsn db' \<le> next_lsn db + 1"
    "case r of
        Inr i \<Rightarrow> i = length (db_vectors db) \<and> db_vectors db' = db_vectors db @ [?v]
      | Inl err \<Rightarrow> db_vectors db' = db_vectors db"
    "db_dim db' = db_dim db" "ws' = ws @ xs" "subseq xs [?v]" "xs = [] \<or> ws = db_vectors db"
    using db_insert_durable [OF D lev vec_for_id_no_nan room] by blast
  have "xs = [] \<or> (ws = db_vectors db \<and> xs = [?v])" using subseq_single [OF S(7)] S(8) by blast
  then have "pattern (db_dim db) ws'" using p S(6) pattern_snoc [OF p] by auto
  then show ?thesis using S(1-5) by (intro exI [of _ db'] exI [of _ r] exI [of _ ws']) (cases r; simp)
qed

lemma ingest_loop_inv:
  "db_inv e db ws \<Longrightarrow> levels_ok e \<Longrightarrow> pattern (db_dim db) ws \<Longrightarrow> length (db_vectors db) = i \<Longrightarrow> next_lsn db + k < u64_limit \<Longrightarrow>
     \<exists>db' c r ws'. ingest_loop e io (db_dim db) every [i..<i + k] db = Some (db', map Ack [i..<i + c], r) \<and> db_inv e db' ws' \<and>
       pattern (db_dim db) ws' \<and> db_dim db' = db_dim db \<and> next_lsn db' \<le> next_lsn db + k \<and>
       i + c \<le> length (db_vectors db') \<and> (r = Inr () \<longrightarrow> c = k)"
proof (induction k arbitrary: db ws i)
  case 0
  then show ?case by (intro exI [of _ db] exI [of _ 0] exI [of _ "Inr ()"] exI [of _ ws]) simp
next
  case (Suc k)
  let ?dim = "db_dim db"
  have upt: "[i..<i + Suc k] = i # [Suc i..<Suc i + k]" by (simp add: upt_conv_Cons del: upt_Suc)
  have room: "next_lsn db + 1 < u64_limit" using Suc.prems(5) by simp
  obtain db1 r1 ws1 where I: "db_insert e db (vec_for_id i ?dim) (in_insert io i) = Some (db1, r1)" "db_inv e db1 ws1"
    "pattern ?dim ws1" "db_dim db1 = ?dim" "next_lsn db1 \<le> next_lsn db + 1"
    "case r1 of Inr j \<Rightarrow> j = i \<and> length (db_vectors db1) = i + 1 | Inl err \<Rightarrow> length (db_vectors db1) = i"
    using ingest_insert [OF Suc.prems(1-3) room, of "in_insert io i", unfolded Suc.prems(4)] by blast
  show ?case
  proof (cases "(\<exists>err. r1 = Inl err) \<or> \<not> in_print io i")
    case True
    then obtain err where "ingest_loop e io ?dim every [i..<i + Suc k] db = Some (db1, [], Inl err)"
      using I(1) unfolding upt by (cases r1) auto
    moreover have "i \<le> length (db_vectors db1)" using I(6) by (cases r1) simp_all
    ultimately show ?thesis using I(2-5)
      by (intro exI [of _ db1] exI [of _ 0] exI [of _ "Inl err"] exI [of _ ws1]) simp
  next
    case False
    then have r1: "r1 = Inr i" "in_print io i" and n1: "length (db_vectors db1) = Suc i" using I(6) by (cases r1; simp)+
    have "next_lsn db1 < 2 ^ 64" using I(5) Suc.prems(5) by (simp add: u64_limit_def)
    then obtain db2 r2 where C: "(if due every i then db_checkpoint e db1 (in_checkpoint io i) else Some (db1, Inr ())) = Some (db2, r2)"
      "db_inv e db2 ws1" "db_vectors db2 = db_vectors db1" "next_lsn db2 = next_lsn db1" "db_dim db2 = ?dim"
      using db_checkpoint_inv [OF I(2), of "in_checkpoint io i"] I(2,4) by (cases "due every i") auto
    show ?thesis
    proof (cases r2)
      case (Inl err)
      then have "ingest_loop e io ?dim every [i..<i + Suc k] db = Some (db2, map Ack [i..<i + 1], Inl err)"
        using I(1) r1 C(1) unfolding upt by simp
      then show ?thesis using C I(3,5) n1
        by (intro exI [of _ db2] exI [of _ 1] exI [of _ "Inl err"] exI [of _ ws1]) simp
    next
      case (Inr u)
      have "pattern (db_dim db2) ws1" "length (db_vectors db2) = Suc i" "next_lsn db2 + k < u64_limit"
        using I(3,5) C n1 Suc.prems(5) by simp_all
      then obtain db3 c r3 ws3 where R: "ingest_loop e io (db_dim db2) every [Suc i..<Suc i + k] db2 = Some (db3, map Ack [Suc i..<Suc i + c], r3)"
        "db_inv e db3 ws3" "pattern (db_dim db2) ws3" "db_dim db3 = db_dim db2" "next_lsn db3 \<le> next_lsn db2 + k"
        "Suc i + c \<le> length (db_vectors db3)" "r3 = Inr () \<longrightarrow> c = k"
        using Suc.IH [OF C(2) Suc.prems(2)] by blast
      have "map Ack [i..<i + Suc c] = Ack i # map Ack [Suc i..<Suc i + c]" by (simp add: upt_conv_Cons del: upt_Suc)
      then have "ingest_loop e io ?dim every [i..<i + Suc k] db = Some (db3, map Ack [i..<i + Suc c], r3)"
        using I(1) r1 C(1,5) R(1) Inr unfolding upt by simp
      then show ?thesis using R(2-7) C(4,5) I(5)
        by (intro exI [of _ db3] exI [of _ "Suc c"] exI [of _ r3] exI [of _ ws3]) simp
    qed
  qed
qed

section \<open>Verify accepts what was acknowledged\<close>

fun acked_ids :: "out_line list \<Rightarrow> nat list" where
  "acked_ids [] = []"
| "acked_ids (Ack i # lines) = i # acked_ids lines"
| "acked_ids (_ # lines) = acked_ids lines"

lemma acked_ids_append [simp]: "acked_ids (xs @ ys) = acked_ids xs @ acked_ids ys"
  by (induction xs rule: acked_ids.induct) simp_all

lemma acked_ids_acks [simp]: "acked_ids (map Ack is) = is"
  by (induction "is") simp_all

lemma ingest_opened_inv:
  assumes D: "db_inv e db ws" and lev: "levels_ok e" and p: "pattern (db_dim db) ws"
    and room: "next_lsn db + (n - db_len db) < u64_limit"
  shows "\<exists>db' lines r ws' c. ingest_opened e io (db_dim db) n every db = Some (db', lines, r) \<and> db_inv e db' ws' \<and>
     pattern (db_dim db) ws' \<and> db_dim db' = db_dim db \<and> acked_ids lines = [db_len db..<db_len db + c] \<and>
     db_len db + c \<le> length (db_vectors db') \<and> (r = Inr () \<longrightarrow> c = n - db_len db)"
proof -
  let ?s = "db_len db" and ?k = "n - db_len db"
  have len: "length (db_vectors db) = ?s" using D db_len_vectors [of e db] by (simp add: db_inv_def)
  have upt: "[?s..<n] = [?s..<?s + ?k]" by (cases "?s \<le> n") simp_all
  obtain db1 c r1 ws1 where L: "ingest_loop e io (db_dim db) every [?s..<n] db = Some (db1, map Ack [?s..<?s + c], r1)"
    "db_inv e db1 ws1" "pattern (db_dim db) ws1" "db_dim db1 = db_dim db" "next_lsn db1 \<le> next_lsn db + ?k"
    "?s + c \<le> length (db_vectors db1)" "r1 = Inr () \<longrightarrow> c = ?k"
    using ingest_loop_inv [OF D lev p len room] unfolding upt by blast
  show ?thesis
  proof (cases r1)
    case (Inl err)
    then have "ingest_opened e io (db_dim db) n every db = Some (db1, map Ack [?s..<?s + c], Inl err)"
      using L(1) by (simp add: ingest_opened_def)
    then show ?thesis using L
      by (intro exI [of _ db1] exI [of _ "map Ack [?s..<?s + c]"] exI [of _ "Inl err"] exI [of _ ws1] exI [of _ c]) simp
  next
    case (Inr u)
    have "next_lsn db1 < 2 ^ 64" using L(5) room by (simp add: u64_limit_def)
    then obtain db2 r2 where C: "db_checkpoint e db1 (in_last io) = Some (db2, r2)" "db_inv e db2 ws1" "db_vectors db2 = db_vectors db1"
      "db_dim db2 = db_dim db1"
      using db_checkpoint_inv [OF L(2), of "in_last io"] by blast
    then have "ingest_opened e io (db_dim db) n every db =
        Some (db2, map Ack [?s..<?s + c] @ (if is_ok r2 then [Done n] else []), r2)"
      using L(1) Inr by (simp add: ingest_opened_def)
    then show ?thesis using L C Inr
      by (intro exI [of _ db2] exI [of _ "map Ack [?s..<?s + c] @ (if is_ok r2 then [Done n] else [])"] exI [of _ r2]
          exI [of _ ws1] exI [of _ c]) simp
  qed
qed

lemma check_vectors_ok:
  "pattern dim (db_vectors db) \<Longrightarrow> \<forall>v \<in> set (db_vectors db). no_nan v \<Longrightarrow> set is \<subseteq> {..<length (db_vectors db)} \<Longrightarrow>
     check_vectors db dim is = Inr None"
proof (induction "is")
  case Nil
  then show ?case by simp
next
  case (Cons i js)
  then have i: "i < length (db_vectors db)" by simp
  have "db_get db i = Inr (db_vectors db ! i)" using i vs_get_spec [of "db_store db" i] by (simp add: db_get_def db_vectors_def)
  moreover have "db_vectors db ! i = vec_for_id i dim" using Cons.prems(1) i by (simp add: pattern_def)
  ultimately show ?case using Cons f32s_eq_self [OF vec_for_id_no_nan] by simp
qed

lemma orphan_count_total: "db_ok e db \<Longrightarrow> \<exists>n. orphan_count db = Some n"
  using collect_links_total [of "db_index db" "[0..<hnsw_len (db_index db)]"]
  by (fastforce simp: orphan_count_def zero_indegree_count_def zero_indegree_nodes_def db_ok_def graph_ok_def)

definition sound_verdict :: "verdict \<Rightarrow> bool" where
  "sound_verdict v \<longleftrightarrow> (case v of Passed len n \<Rightarrow> True | Unreachable n \<Rightarrow> True | _ \<Rightarrow> False)"

lemma verify_opened_ok:
  assumes "db_ok e db" and "pattern dim (db_vectors db)" and "\<forall>v \<in> set (db_vectors db). no_nan v"
    and "acked \<le> length (db_vectors db)"
  shows "\<exists>v. verify_opened db dim acked = Some (Inr v) \<and> sound_verdict v"
proof -
  obtain n where n: "orphan_count db = Some n" using orphan_count_total [OF assms(1)] by blast
  have "check_vectors db dim [0..<acked] = Inr None" using assms(4) by (intro check_vectors_ok [OF assms(2,3)]) auto
  then show ?thesis using n assms(4) db_len_vectors [OF assms(1)] by (simp add: verify_opened_def sound_verdict_def)
qed

section \<open>Properties\<close>

text \<open>
  C13: what ingest acknowledges, verify finds.  From any sound database that holds the generated
  vectors, an ingest that is cut short at any call of any insert, print or checkpoint, or runs to its
  end, has printed consecutive ids from the length on; and verify, run afterwards on the files it left
  with any number of them acknowledged, reports neither a missing nor a wrong vector nor an error.  The
  rate of nodes without incoming links is all it can still complain about.
\<close>

theorem ingest_then_verify:
  assumes "db_inv e db ws" and "levels_ok e" and "pattern (db_dim db) ws" and "next_lsn db + (n - db_len db) < u64_limit"
  shows "\<exists>db' lines r c. ingest_opened e io (db_dim db) n every db = Some (db', lines, r) \<and>
     acked_ids lines = [db_len db..<db_len db + c] \<and> (r = Inr () \<longrightarrow> c = n - db_len db) \<and>
     (\<forall>acked. acked \<le> db_len db + c \<longrightarrow>
        (\<exists>v. verify e reads_ok IoOk (files_of db') (db_dim db) acked = Some (Inr v) \<and> sound_verdict v))"
proof -
  obtain db' lines r ws' c where I: "ingest_opened e io (db_dim db) n every db = Some (db', lines, r)" "db_inv e db' ws'"
    "pattern (db_dim db) ws'" "db_dim db' = db_dim db" "acked_ids lines = [db_len db..<db_len db + c]"
    "db_len db + c \<le> length (db_vectors db')" "r = Inr () \<longrightarrow> c = n - db_len db"
    using ingest_opened_inv [OF assms] by blast
  have dur: "durable e db' ws'" using I(2) by (simp add: db_inv_def)
  obtain db2 where O: "db_open e reads_ok IoOk (files_of db') (db_dim db') default_options = Some (Inr db2)" "db_inv e db2 ws'"
    "db_vectors db2 = ws'"
    using reopen_spec [OF dur assms(2) example_opts] by blast
  have ok: "db_ok e db2" using O(2) by (simp add: db_inv_def)
  have pat: "pattern (db_dim db) (db_vectors db2)" using I(3) O(3) by simp
  have nan: "\<forall>v \<in> set (db_vectors db2). no_nan v" using dur O(3) by (simp add: durable_def)
  have "length (db_vectors db') \<le> length (db_vectors db2)" using db_inv_prefix [OF I(2)] O(3) by (simp add: prefix_length_le)
  then have "\<exists>v. verify e reads_ok IoOk (files_of db') (db_dim db) acked = Some (Inr v) \<and> sound_verdict v"
    if "acked \<le> db_len db + c" for acked
    using verify_opened_ok [OF ok pat nan, of acked] that I(4,6) O(1) by (simp add: verify_def)
  then show ?thesis using I(1,5,7) by blast
qed

theorem ingest_then_verify_witness:
  "\<exists>db' lines r c. ingest_opened example_env
       \<lparr>in_insert = (\<lambda>i. if i = 5 then IoStop 9 else IoOk), in_print = (\<lambda>_. True),
        in_checkpoint = (\<lambda>_. \<lparr>ck_msync = True, ck_codebook = Replaced, ck_snap = FailedAfter, ck_reset = IoOk\<rparr>),
        in_last = \<lparr>ck_msync = True, ck_codebook = Replaced, ck_snap = Replaced, ck_reset = IoOk\<rparr>\<rparr>
       2 8 (Some 3) example_fresh = Some (db', lines, r) \<and> acked_ids lines = [0..<c] \<and>
     (\<exists>v. verify example_env reads_ok IoOk (files_of db') 2 c = Some (Inr v) \<and> sound_verdict v)"
proof -
  have len: "db_len example_fresh = 0" using db_len_vectors [OF example_fresh_facts(2)] example_fresh_facts(7) by simp
  have "pattern (db_dim example_fresh) []" by (simp add: pattern_def)
  moreover have "next_lsn example_fresh + (8 - db_len example_fresh) < u64_limit"
    using example_fresh_inv(2) len by (simp add: u64_limit_def)
  ultimately show ?thesis
    using ingest_then_verify [OF example_fresh_inv(1) example_levels, of 8] example_fresh_facts(8) len by fastforce
qed

text \<open>Every number of a command that gets past the arguments fits 64 bits.\<close>

fun command_numbers :: "command \<Rightarrow> nat list" where
  "command_numbers (Ingest dir dim n every) = dim # n # (case every of None \<Rightarrow> [] | Some k \<Rightarrow> [k])"
| "command_numbers (Verify dir dim acked) = [dim, acked]"
| "command_numbers (Orphans dir dim) = [dim]"
| "command_numbers (Search dir dim i k) = [dim, i, k]"
| "command_numbers Usage = []"

lemma parse_unsigned_less: "parse_unsigned s = Some n \<Longrightarrow> n < u64_limit"
  by (auto simp: parse_unsigned_def Let_def split: if_splits)

lemma command_numbers_fit: "\<forall>n \<in> set (command_numbers (parse_command args)). n < u64_limit"
  by (auto simp: parse_command_def Let_def split: option.splits dest: parse_unsigned_less)

end
