(* ===== verification/Sweep.thy ===== *)
theory Sweep
  imports Db_Room Cli
begin

text \<open>
  \<^verbatim>\<open>examples/import_sweep.rs\<close>: imports one random data set at several batch sizes, reopens each
  database and compares every record.  A panic (any \<^verbatim>\<open>expect\<close>) is \<open>None\<close>; the times and the memory
  columns are not modelled.  Products of \<^verbatim>\<open>usize\<close> wrap, as in the release build the usage names.
\<close>

section \<open>Arguments\<close>

record sweep_args =
  sw_n :: nat
  sw_dim :: nat
  sw_batches :: "nat list"
  sw_sync :: sync_policy
  sw_checkpoint :: bool
  sw_seed :: nat

definition default_args :: sweep_args where
  "default_args =
     \<lparr>sw_n = 20000, sw_dim = 64, sw_batches = [1, 64, 1024, 8192], sw_sync = Never, sw_checkpoint = False, sw_seed = 7\<rparr>"

text \<open>\<^verbatim>\<open>str::split\<close> at a character and \<^verbatim>\<open>str::trim\<close>, of ASCII.\<close>

primrec split_on :: "char \<Rightarrow> string \<Rightarrow> string list" where
  "split_on c [] = [[]]"
| "split_on c (x # xs) = (if x = c then [] # split_on c xs else (x # hd (split_on c xs)) # tl (split_on c xs))"

definition is_space :: "char \<Rightarrow> bool" where
  "is_space c \<longleftrightarrow> (let n = (of_char c :: nat) in n = 32 \<or> (9 \<le> n \<and> n \<le> 13))"

definition trim :: "string \<Rightarrow> string" where
  "trim s = rev (dropWhile is_space (rev (dropWhile is_space s)))"

definition parse_batch :: "string \<Rightarrow> nat option" where
  "parse_batch s = (case parse_unsigned (trim s) of Some b \<Rightarrow> (if 0 < b then Some b else None) | None \<Rightarrow> None)"

text \<open>The message of \<^verbatim>\<open>usage\<close> on the left; it is empty when the help was asked for.\<close>

definition set_flag :: "sweep_args \<Rightarrow> string \<Rightarrow> string \<Rightarrow> string + sweep_args" where
  "set_flag args flag v =
     (if flag = ''--n'' then
        (case parse_unsigned v of Some n \<Rightarrow> Inr (args\<lparr>sw_n := n\<rparr>) | None \<Rightarrow> Inl ''bad --n'')
      else if flag = ''--dim'' then
        (case parse_unsigned v of Some n \<Rightarrow> Inr (args\<lparr>sw_dim := n\<rparr>) | None \<Rightarrow> Inl ''bad --dim'')
      else if flag = ''--seed'' then
        (case parse_unsigned v of Some n \<Rightarrow> Inr (args\<lparr>sw_seed := n\<rparr>) | None \<Rightarrow> Inl ''bad --seed'')
      else if flag = ''--batches'' then
        (case map_opt parse_batch (split_on (CHR '','') v) of
           Some bs \<Rightarrow> Inr (args\<lparr>sw_batches := bs\<rparr>) | None \<Rightarrow> Inl ''bad --batches'')
      else if v = ''always'' then Inr (args\<lparr>sw_sync := Always\<rparr>)
      else if v = ''never'' then Inr (args\<lparr>sw_sync := Never\<rparr>)
      else Inl ''--sync must be always or never'')"

fun parse_flags :: "sweep_args \<Rightarrow> string list \<Rightarrow> string + sweep_args" where
  "parse_flags args [] = Inr args"
| "parse_flags args (flag # rest) =
     (if flag = ''--checkpoint'' then parse_flags (args\<lparr>sw_checkpoint := True\<rparr>) rest
      else if flag = ''-h'' \<or> flag = ''--help'' then Inl ''''
      else if flag \<notin> {''--n'', ''--dim'', ''--seed'', ''--batches'', ''--sync''} then Inl (''unknown flag '' @ flag)
      else case rest of
        [] \<Rightarrow> Inl (flag @ '' needs a value'')
      | v # rest' \<Rightarrow> (case set_flag args flag v of Inl msg \<Rightarrow> Inl msg | Inr args' \<Rightarrow> parse_flags args' rest'))"

definition parse_args :: "string list \<Rightarrow> string + sweep_args" where
  "parse_args argv =
     (case parse_flags default_args argv of
        Inl msg \<Rightarrow> Inl msg
      | Inr args \<Rightarrow>
          if sw_n args = 0 \<or> sw_dim args = 0 then Inl ''--n and --dim must be positive'' else Inr args)"

definition usage_code :: "string \<Rightarrow> nat" where
  "usage_code msg = (if msg = [] then 0 else 2)"

section \<open>One batch size\<close>

definition wrap_mul :: "nat \<Rightarrow> nat \<Rightarrow> nat" where
  "wrap_mul a b = a * b mod u64_limit"

text \<open>\<^verbatim>\<open>slice::chunks\<close>, of a positive size.\<close>

function chunks_of :: "nat \<Rightarrow> 'a list \<Rightarrow> 'a list list" where
  "chunks_of c xs = (if c = 0 \<or> xs = [] then [] else take c xs # chunks_of c (drop c xs))"
  by pat_completeness auto
termination
  by (relation "measure (\<lambda>(c, xs). length xs)") auto

declare chunks_of.simps [simp del]

text \<open>How the device calls of one batch size end.\<close>

record sweep_io =
  si_reads :: "nat \<Rightarrow> nat \<Rightarrow> bool"
  si_open :: io_out
  si_batch :: "nat \<Rightarrow> nat \<Rightarrow> io_out"
  si_checkpoint :: checkpoint_io
  si_reopen :: io_out

definition expect :: "'a result option \<Rightarrow> 'a option" where
  "expect r = (case r of Some (Inr x) \<Rightarrow> Some x | _ \<Rightarrow> None)"

definition sweep_options :: "sweep_args \<Rightarrow> db_options" where
  "sweep_options args = default_options\<lparr>opt_sync := sw_sync args\<rparr>"

primrec load_chunks :: "env \<Rightarrow> (nat \<Rightarrow> nat \<Rightarrow> io_out) \<Rightarrow> nat \<Rightarrow> f32 list list \<Rightarrow> db \<Rightarrow> db option" where
  "load_chunks e io k [] db = Some db"
| "load_chunks e io k (chunk # chunks) db =
     (case db_add_batch e db chunk (io k) of
        Some (db', Inr _) \<Rightarrow> load_chunks e io (k + 1) chunks db'
      | _ \<Rightarrow> None)"

definition import_all :: "env \<Rightarrow> sweep_io \<Rightarrow> sweep_args \<Rightarrow> f32 list \<Rightarrow> nat \<Rightarrow> db option" where
  "import_all e io args data batch = do {
     db \<leftarrow> expect (db_open e (si_reads io) (si_open io) empty_disk (sw_dim args) (sweep_options args));
     let c = wrap_mul batch (sw_dim args);
     db1 \<leftarrow> (if c = 0 then None else load_chunks e (si_batch io) 0 (chunks_of c data) db);
     if sw_checkpoint args then
       (case db_checkpoint e db1 (si_checkpoint io) of Some (db2, Inr _) \<Rightarrow> Some db2 | _ \<Rightarrow> None)
     else Some db1 }"

definition data_row :: "f32 list \<Rightarrow> nat \<Rightarrow> nat \<Rightarrow> f32 list option" where
  "data_row data dim i =
     (let lo = wrap_mul i dim; hi = wrap_mul (i + 1) dim
      in if lo \<le> hi \<and> hi \<le> length data then Some (take (hi - lo) (drop lo data)) else None)"

definition row_matches :: "db \<Rightarrow> f32 list \<Rightarrow> nat \<Rightarrow> nat \<Rightarrow> bool option" where
  "row_matches db data dim i = do {
     row \<leftarrow> data_row data dim i;
     Some (case db_get db i of Inr v \<Rightarrow> f32s_eq v row | Inl err \<Rightarrow> False) }"

record sweep_row =
  sr_batch :: nat
  sr_recovered :: nat
  sr_mismatched :: nat
  sr_ok :: bool

definition sweep_one :: "env \<Rightarrow> sweep_io \<Rightarrow> sweep_args \<Rightarrow> f32 list \<Rightarrow> nat \<Rightarrow> sweep_row option" where
  "sweep_one e io args data batch = do {
     db \<leftarrow> import_all e io args data batch;
     db2 \<leftarrow> expect (db_open e (si_reads io) (si_reopen io) (files_of db) (sw_dim args) (sweep_options args));
     let recovered = db_len db2;
     same \<leftarrow> map_opt (row_matches db2 data (sw_dim args)) [0..<min recovered (sw_n args)];
     let mismatched = length (filter Not same);
     Some \<lparr>sr_batch = batch, sr_recovered = recovered, sr_mismatched = mismatched,
           sr_ok = (recovered = sw_n args \<and> mismatched = 0)\<rparr> }"

section \<open>The sweep\<close>

primrec sweep_rows :: "env \<Rightarrow> (nat \<Rightarrow> sweep_io) \<Rightarrow> sweep_args \<Rightarrow> f32 list \<Rightarrow> nat \<Rightarrow> nat list \<Rightarrow> sweep_row list option" where
  "sweep_rows e io args data k [] = Some []"
| "sweep_rows e io args data k (b # bs) = do {
     row \<leftarrow> sweep_one e (io k) args data b;
     rows \<leftarrow> sweep_rows e io args data (k + 1) bs;
     Some (row # rows) }"

text \<open>The generator is an argument: the draws of each seed.  The rows printed, and the exit code.\<close>

definition sweep :: "env \<Rightarrow> (nat \<Rightarrow> sweep_io) \<Rightarrow> (nat \<Rightarrow> nat \<Rightarrow> f32) \<Rightarrow> sweep_args \<Rightarrow> (sweep_row list \<times> nat) option" where
  "sweep e io draws args = do {
     let data = map (draws (sw_seed args)) [0..<wrap_mul (sw_n args) (sw_dim args)];
     rows \<leftarrow> sweep_rows e io args data 0 (sw_batches args);
     let failures = length (filter (\<lambda>r. \<not> sr_ok r) rows);
     Some (rows, if 0 < failures then 1 else 0) }"

definition sweep_main :: "env \<Rightarrow> (nat \<Rightarrow> sweep_io) \<Rightarrow> (nat \<Rightarrow> nat \<Rightarrow> f32) \<Rightarrow> string list \<Rightarrow> (sweep_row list \<times> nat) option" where
  "sweep_main e io draws argv =
     (case parse_args argv of Inl msg \<Rightarrow> Some ([], usage_code msg) | Inr args \<Rightarrow> sweep e io draws args)"

section \<open>Rows and chunks\<close>

lemma rows_of_append:
  assumes "0 < d" and "length xs = k * d"
  shows "rows_of d (xs @ ys) = rows_of d xs @ rows_of d ys"
proof (rule nth_equalityI)
  have n: "length (xs @ ys) div d = k + length ys div d" "length xs div d = k" using assms by simp_all
  then show "length (rows_of d (xs @ ys)) = length (rows_of d xs @ rows_of d ys)" by (simp add: rows_of_length)
  fix i assume "i < length (rows_of d (xs @ ys))"
  then have i: "i < k + length ys div d" using n by (simp add: rows_of_length)
  have l: "rows_of d (xs @ ys) ! i = take d (drop (i * d) (xs @ ys))" using i n by (simp add: rows_of_def)
  show "rows_of d (xs @ ys) ! i = (rows_of d xs @ rows_of d ys) ! i"
  proof (cases "i < k")
    case True
    then have "(i + 1) * d \<le> length xs" unfolding assms(2) by (intro mult_le_mono1) simp
    then have "take d (drop (i * d) (xs @ ys)) = take d (drop (i * d) xs)" by simp
    then show ?thesis unfolding l using True n by (simp add: nth_append rows_of_length rows_of_def)
  next
    case False
    then have "length xs \<le> i * d" "i * d - length xs = (i - k) * d" using assms(2) by (simp_all add: diff_mult_distrib)
    then have "take d (drop (i * d) (xs @ ys)) = take d (drop ((i - k) * d) ys)" by simp
    moreover have "i - k < length ys div d" using False i by simp
    then have "[0..<length ys div d] ! (i - k) = i - k" by simp
    ultimately show ?thesis unfolding l using False i n by (simp add: nth_append rows_of_length rows_of_def)
  qed
qed

lemma chunk_rows_of:
  "0 < d \<Longrightarrow> 0 < c \<Longrightarrow> length xs = n * d \<Longrightarrow>
     concat (map (rows_of d) (chunks_of (c * d) xs)) = rows_of d xs \<and>
     (\<forall>chunk \<in> set (chunks_of (c * d) xs). length chunk mod d = 0 \<and> set chunk \<subseteq> set xs)"
proof (induction "c * d" xs arbitrary: n rule: chunks_of.induct)
  case (1 xs)
  show ?case
  proof (cases "xs = []")
    case True
    then show ?thesis by (simp add: chunks_of.simps rows_of_def)
  next
    case False
    let ?a = "take (c * d) xs" and ?b = "drop (c * d) xs"
    have a: "length ?a = min c n * d" using 1(4) by (simp add: nat_mult_min_left min.commute)
    have b: "length ?b = (n - c) * d" using 1(4) by (simp add: diff_mult_distrib)
    have "\<not> (c * d = 0 \<or> xs = [])" using 1(2,3) False by simp
    from 1(1) [OF this 1(2,3) b] have IH: "concat (map (rows_of d) (chunks_of (c * d) ?b)) = rows_of d ?b"
      "\<forall>chunk \<in> set (chunks_of (c * d) ?b). length chunk mod d = 0 \<and> set chunk \<subseteq> set ?b" by simp_all
    have u: "chunks_of (c * d) xs = ?a # chunks_of (c * d) ?b" using False 1(2,3) by (subst chunks_of.simps) simp
    have "rows_of d (?a @ ?b) = rows_of d ?a @ rows_of d ?b" by (rule rows_of_append [OF 1(2) a])
    then have "concat (map (rows_of d) (chunks_of (c * d) xs)) = rows_of d xs" unfolding u using IH(1) by simp
    moreover have "length ?a mod d = 0" using a by simp
    moreover have "set ?a \<subseteq> set xs" "set ?b \<subseteq> set xs" by (rule set_take_subset, rule set_drop_subset)
    ultimately show ?thesis unfolding u using IH(2) by auto
  qed
qed

section \<open>Importing\<close>

lemma add_batch_step:
  assumes D: "db_inv e db (db_vectors db)" and lev: "levels_ok e"
    and rows: "\<forall>row \<in> set (rows_of (db_dim db) chunk). no_nan row"
    and room: "next_lsn db + length (rows_of (db_dim db) chunk) < u64_limit"
    and add: "db_add_batch e db chunk io = Some (db', Inr i)"
  shows "db_inv e db' (db_vectors db')" "db_vectors db' = db_vectors db @ rows_of (db_dim db) chunk" "db_dim db' = db_dim db"
    "next_lsn db' \<le> next_lsn db + length (rows_of (db_dim db) chunk)"
proof -
  let ?rows = "rows_of (db_dim db) chunk"
  obtain xs where S: "db_inv e db' (db_vectors db @ xs)" "next_lsn db' \<le> next_lsn db + length ?rows"
    "db_vectors db' = db_vectors db @ ?rows" "db_dim db' = db_dim db" "subseq xs ?rows"
    using db_add_batch_durable [OF D lev rows room, of io] add by auto
  have "prefix ?rows xs" using db_inv_prefix [OF S(1)] S(3) by simp
  then have "length ?rows \<le> length xs" by (rule prefix_length_le)
  then have "xs = ?rows" using S(5) by (metis le_antisym list_emb_length subseq_same_length)
  then show "db_inv e db' (db_vectors db')" using S(1,3) by simp
  show "db_vectors db' = db_vectors db @ ?rows" "db_dim db' = db_dim db" "next_lsn db' \<le> next_lsn db + length ?rows"
    by (rule S(3,4,2))+
qed

definition importable :: "nat \<Rightarrow> f32 list \<Rightarrow> bool" where
  "importable dim chunk \<longleftrightarrow> (\<forall>row \<in> set (rows_of dim chunk). no_nan row) \<and> length chunk mod dim = 0"

lemma load_chunks_inv:
  "db_inv e db (db_vectors db) \<Longrightarrow> levels_ok e \<Longrightarrow> \<forall>chunk \<in> set chunks. importable (db_dim db) chunk \<Longrightarrow>
   next_lsn db + length (concat (map (rows_of (db_dim db)) chunks)) < u64_limit \<Longrightarrow>
   load_chunks e io k chunks db = Some db' \<Longrightarrow>
     db_inv e db' (db_vectors db') \<and> db_vectors db' = db_vectors db @ concat (map (rows_of (db_dim db)) chunks) \<and>
     db_dim db' = db_dim db \<and> next_lsn db' \<le> next_lsn db + length (concat (map (rows_of (db_dim db)) chunks))"
proof (induction chunks arbitrary: db k)
  case Nil
  then show ?case by simp
next
  case (Cons chunk chunks)
  obtain db1 i where add: "db_add_batch e db chunk (io k) = Some (db1, Inr i)" and rest: "load_chunks e io (k + 1) chunks db1 = Some db'"
    using Cons.prems(5) by (auto split: option.splits prod.splits sum.splits)
  have "\<forall>row \<in> set (rows_of (db_dim db) chunk). no_nan row" using Cons.prems(3) by (simp add: importable_def)
  note S = add_batch_step [OF Cons.prems(1,2) this _ add]
  have room: "next_lsn db + length (rows_of (db_dim db) chunk) < u64_limit" using Cons.prems(4) by simp
  note S = S [OF room]
  have "\<forall>c \<in> set chunks. importable (db_dim db1) c" "next_lsn db1 + length (concat (map (rows_of (db_dim db1)) chunks)) < u64_limit"
    using S(3,4) Cons.prems(3,4) by simp_all
  from Cons.IH [OF S(1) Cons.prems(2) this rest, unfolded S(3)]
  have I: "db_inv e db' (db_vectors db')" "db_vectors db' = db_vectors db1 @ concat (map (rows_of (db_dim db)) chunks)"
    "db_dim db' = db_dim db" "next_lsn db' \<le> next_lsn db1 + length (concat (map (rows_of (db_dim db)) chunks))" by blast+
  show ?case by (intro conjI, rule I(1)) (use I(2-4) S(2,4) in simp_all)
qed

lemma load_chunks_total:
  "db_inv e db (db_vectors db) \<Longrightarrow> levels_ok e \<Longrightarrow> \<forall>chunk \<in> set chunks. importable (db_dim db) chunk \<Longrightarrow>
   next_lsn db + length (concat (map (rows_of (db_dim db)) chunks)) < u64_limit \<Longrightarrow>
   db_wal db = Some w \<Longrightarrow> \<not> wal_poisoned w \<Longrightarrow> granted segs (db_store db) \<Longrightarrow> db_dim db < 2 ^ 29 \<Longrightarrow>
   length (db_vectors db) + length (concat (map (rows_of (db_dim db)) chunks)) \<le> seg_first base_rows segs \<Longrightarrow>
     \<exists>db' w'. load_chunks e (\<lambda>_ _. IoOk) k chunks db = Some db' \<and> db_wal db' = Some w' \<and> \<not> wal_poisoned w'"
proof (induction chunks arbitrary: db k w)
  case Nil
  then show ?case by simp
next
  case (Cons chunk chunks)
  have ok: "db_ok e db" using Cons.prems(1) by (simp add: db_inv_def)
  have im: "length chunk mod db_dim db = 0" "\<forall>row \<in> set (rows_of (db_dim db) chunk). no_nan row"
    using Cons.prems(3) by (simp_all add: importable_def)
  obtain db1 w1 i where add: "db_add_batch e db chunk (\<lambda>_. IoOk) = Some (db1, Inr i)" "db_wal db1 = Some w1" "\<not> wal_poisoned w1"
    "granted segs (db_store db1)"
    using granted_add_batch [OF ok Cons.prems(2,5-7) im(1) Cons.prems(8)] Cons.prems(9) by auto
  have room: "next_lsn db + length (rows_of (db_dim db) chunk) < u64_limit" using Cons.prems(4) by simp
  note S = add_batch_step [OF Cons.prems(1,2) im(2) room add(1)]
  obtain db' w' where "load_chunks e (\<lambda>_ _. IoOk) (k + 1) chunks db1 = Some db'" "db_wal db' = Some w'" "\<not> wal_poisoned w'"
    using Cons.IH [OF S(1) Cons.prems(2) _ _ add(2-4), of "k + 1"] S(2-4) Cons.prems(3,4,8,9) by auto
  then show ?case using add(1) by simp
qed

section \<open>Every record comes back\<close>

definition data_ok :: "sweep_args \<Rightarrow> f32 list \<Rightarrow> bool" where
  "data_ok args data \<longleftrightarrow>
     0 < sw_n args \<and> 0 < sw_dim args \<and> sw_n args * sw_dim args < u64_limit \<and> length data = sw_n args * sw_dim args \<and>
     list_all (\<lambda>x. \<not> f32_is_nan x) data"

lemma data_ok_rows:
  assumes "data_ok args data"
  shows "length (rows_of (sw_dim args) data) = sw_n args" "sw_n args < u64_limit"
proof -
  show "length (rows_of (sw_dim args) data) = sw_n args" using assms by (simp add: data_ok_def rows_of_length)
  have "sw_n args \<le> sw_n args * sw_dim args" using assms by (simp add: data_ok_def)
  moreover have "sw_n args * sw_dim args < u64_limit" using assms unfolding data_ok_def by blast
  ultimately show "sw_n args < u64_limit" by (rule le_less_trans)
qed

lemma data_chunks:
  assumes "data_ok args data" and "0 < b"
  shows "concat (map (rows_of (sw_dim args)) (chunks_of (b * sw_dim args) data)) = rows_of (sw_dim args) data"
    "\<forall>chunk \<in> set (chunks_of (b * sw_dim args) data). importable (sw_dim args) chunk"
proof -
  have d: "0 < sw_dim args" "length data = sw_n args * sw_dim args" "list_all (\<lambda>x. \<not> f32_is_nan x) data"
    using assms(1) by (simp_all add: data_ok_def)
  note C = chunk_rows_of [OF d(1) assms(2) d(2)]
  then show "concat (map (rows_of (sw_dim args)) (chunks_of (b * sw_dim args) data)) = rows_of (sw_dim args) data" by blast
  show "\<forall>chunk \<in> set (chunks_of (b * sw_dim args) data). importable (sw_dim args) chunk"
    using C d(3) rows_of_subset [of _ "sw_dim args"] unfolding importable_def no_nan_def list_all_iff by blast
qed

lemma sweep_opts: "opts_ok (sweep_options args)" "opt_enable_wal (sweep_options args)"
  by (simp_all add: sweep_options_def opts_ok_def default_options_def default_config_def)

lemma opened_fresh:
  assumes "expect (db_open e rd io empty_disk dim (sweep_options args)) = Some db"
  shows "db_inv e db (db_vectors db)" "db_vectors db = []" "db_dim db = dim" "next_lsn db = 0"
proof -
  have o: "db_open e rd io empty_disk dim (sweep_options args) = Some (Inr db)"
    using assms by (auto simp: expect_def split: option.splits sum.splits)
  obtain s where s: "vs_create (en_limit e) (en_map_limit e) dim = Inr s"
  proof (cases "vs_create (en_limit e) (en_map_limit e) dim")
    case (Inl err)
    then show thesis using o by (simp add: db_open_def open_store_def empty_disk_def)
  qed (use that in blast)
  show "db_inv e db (db_vectors db)" "db_vectors db = []" "db_dim db = dim" "next_lsn db = 0"
    using fresh_inv [OF s sweep_opts [of args], of rd io] o by auto
qed

lemma import_all_inv:
  assumes data: "data_ok args data" and b: "0 < b" "b * sw_dim args < u64_limit" and lev: "levels_ok e"
    and run: "import_all e io args data b = Some db"
  shows "durable e db (rows_of (sw_dim args) data)" "db_dim db = sw_dim args"
proof -
  let ?dim = "sw_dim args" and ?cs = "chunks_of (b * sw_dim args) data"
  have c: "wrap_mul b ?dim = b * ?dim" "b * ?dim \<noteq> 0" using b data by (simp_all add: wrap_mul_def data_ok_def)
  obtain db0 db1 where R: "expect (db_open e (si_reads io) (si_open io) empty_disk ?dim (sweep_options args)) = Some db0"
    "load_chunks e (si_batch io) 0 ?cs db0 = Some db1"
    "(if sw_checkpoint args then (case db_checkpoint e db1 (si_checkpoint io) of Some (db2, Inr _) \<Rightarrow> Some db2 | _ \<Rightarrow> None)
      else Some db1) = Some db"
    using run c by (auto simp: import_all_def Let_def split: bind_splits if_splits)
  note F = opened_fresh [OF R(1)] and C = data_chunks [OF data b(1)] and N = data_ok_rows [OF data]
  have "next_lsn db0 + length (concat (map (rows_of (db_dim db0)) ?cs)) < u64_limit"
    "\<forall>chunk \<in> set ?cs. importable (db_dim db0) chunk"
    using F(3,4) C N by simp_all
  from load_chunks_inv [OF F(1) lev this(2,1) R(2)]
  have L: "db_inv e db1 (db_vectors db1)" "db_vectors db1 = rows_of ?dim data" "db_dim db1 = ?dim" "next_lsn db1 \<le> sw_n args"
    using F(2-4) C(1) N(1) by auto
  have lsn: "next_lsn db1 < 2 ^ 64" using L(4) N(2) by (simp add: u64_limit_def)
  have "db_inv e db (db_vectors db1) \<and> db_dim db = db_dim db1"
    using R(3) L(1) db_checkpoint_inv [OF L(1) lsn, of "si_checkpoint io"]
    by (auto split: if_splits option.splits prod.splits sum.splits)
  then show "durable e db (rows_of ?dim data)" "db_dim db = ?dim" using L(2,3) by (simp_all add: db_inv_def)
qed

lemma data_row_nth:
  assumes "data_ok args data" and "i < sw_n args"
  shows "data_row data (sw_dim args) i = Some (rows_of (sw_dim args) data ! i)"
proof -
  let ?d = "sw_dim args" and ?n = "sw_n args"
  have d: "?n * ?d < u64_limit" "length data = ?n * ?d" "0 < ?d" using assms(1) by (simp_all add: data_ok_def)
  have "(i + 1) * ?d \<le> ?n * ?d" using assms(2) by (intro mult_le_mono1) simp
  then have le: "i * ?d + ?d \<le> ?n * ?d" by simp
  then have "wrap_mul i ?d = i * ?d" "wrap_mul (i + 1) ?d = i * ?d + ?d" using d(1) by (simp_all add: wrap_mul_def)
  then show ?thesis using le d assms(2) by (simp add: data_row_def rows_of_def)
qed

lemma reopened_matches:
  assumes "data_ok args data" and "db_vectors db = rows_of (sw_dim args) data" and "i < sw_n args"
  shows "row_matches db data (sw_dim args) i = Some True"
proof -
  let ?row = "rows_of (sw_dim args) data ! i"
  have n: "i < length (db_vectors db)" using assms(2,3) data_ok_rows(1) [OF assms(1)] by simp
  then have "db_get db i = Inr ?row" using holds_row_get [of db i ?row] assms(2) by (simp add: holds_row_def)
  moreover have "no_nan ?row"
    using assms(1,2) n rows_of_subset [of ?row "sw_dim args" data] by (auto simp: no_nan_def data_ok_def list_all_iff)
  ultimately show ?thesis using data_row_nth [OF assms(1,3)] f32s_eq_self by (simp add: row_matches_def)
qed

lemma sweep_one_row:
  assumes data: "data_ok args data" and b: "0 < b" "b * sw_dim args < u64_limit" and lev: "levels_ok e"
    and io: "si_reads io = reads_ok" "si_reopen io = IoOk"
    and run: "import_all e io args data b = Some db"
  shows "sweep_one e io args data b = Some \<lparr>sr_batch = b, sr_recovered = sw_n args, sr_mismatched = 0, sr_ok = True\<rparr>"
proof -
  let ?rows = "rows_of (sw_dim args) data"
  note I = import_all_inv [OF data b lev run]
  obtain db2 where O: "db_open e reads_ok IoOk (files_of db) (sw_dim args) (sweep_options args) = Some (Inr db2)" "db_inv e db2 ?rows"
    "db_vectors db2 = ?rows"
    using reopen_spec [OF I(1) lev sweep_opts, of args] I(2) by auto
  have len: "db_len db2 = sw_n args"
    using db_len_vectors [of e db2] O(2,3) data_ok_rows(1) [OF data] by (simp add: db_inv_def)
  have "map_opt (row_matches db2 data (sw_dim args)) [0..<sw_n args] = Some (map (\<lambda>_. True) [0..<sw_n args])"
    by (rule map_opt_known) (use reopened_matches [OF data O(3)] in auto)
  then show ?thesis using run io O(1) len by (simp add: sweep_one_def expect_def Let_def)
qed

section \<open>Nothing stops it\<close>

definition devices_answer :: sweep_io where
  "devices_answer =
     \<lparr>si_reads = reads_ok, si_open = IoOk, si_batch = (\<lambda>_ _. IoOk),
      si_checkpoint = \<lparr>ck_msync = True, ck_codebook = Replaced, ck_snap = Replaced, ck_reset = IoOk\<rparr>, si_reopen = IoOk\<rparr>"

lemma checkpoint_answers:
  assumes "db_inv e db ws" and "next_lsn db < 2 ^ 64" and "db_wal db = Some w" and "\<not> wal_poisoned w"
  shows "\<exists>db'. db_checkpoint e db (si_checkpoint devices_answer) = Some (db', Inr ())"
proof -
  obtain db' r where "db_checkpoint e db (si_checkpoint devices_answer) = Some (db', r)"
    using db_checkpoint_inv [OF assms(1,2)] by blast
  moreover from this have "r = Inr ()"
    using assms(3,4)
    by (cases "db_pq db")
      (auto simp: db_checkpoint_def vs_flush_def devices_answer_def save_codebook_def replace_file_def ensure_healthy_def
        save_index_def hnsw_save_def wal_reset_def split: bind_splits)
  ultimately show ?thesis by blast
qed

lemma import_all_total:
  assumes data: "data_ok args data" and b: "0 < b" "b * sw_dim args < u64_limit" and lev: "levels_ok e"
    and grants: "env_grants e (sw_dim args) segs" and n: "sw_n args \<le> seg_first base_rows segs"
  shows "\<exists>db. import_all e devices_answer args data b = Some db"
proof -
  let ?dim = "sw_dim args" and ?cs = "chunks_of (b * sw_dim args) data"
  have c: "wrap_mul b ?dim = b * ?dim" "b * ?dim \<noteq> 0" using b data by (simp_all add: wrap_mul_def data_ok_def)
  have dim: "?dim < 2 ^ 29" using grants by (simp add: env_grants_def)
  obtain s where s: "vs_create (en_limit e) (en_map_limit e) ?dim = Inr s" and g: "granted segs s"
    using env_grants_store [OF grants] by blast
  obtain h where h: "hnsw_new (en_avx e) (opt_config (sweep_options args)) = Inr h"
    using sweep_opts(1) [of args] by (simp add: hnsw_new_def opts_ok_def)
  obtain db0 where O: "db_open e reads_ok IoOk empty_disk ?dim (sweep_options args) = Some (Inr db0)" "db_store db0 = s"
    "db_wal db0 = Some (fresh_wal (opt_sync (sweep_options args)))"
    using open_fresh_spec [OF s h _ sweep_opts(2), of reads_ok IoOk] sweep_opts(1) [of args] by (auto simp: opts_ok_def)
  then have o: "expect (db_open e reads_ok IoOk empty_disk ?dim (sweep_options args)) = Some db0" by (simp add: expect_def)
  note F = opened_fresh [OF o] and C = data_chunks [OF data b(1)] and N = data_ok_rows [OF data]
  have P: "\<forall>chunk \<in> set ?cs. importable (db_dim db0) chunk"
    "next_lsn db0 + length (concat (map (rows_of (db_dim db0)) ?cs)) < u64_limit"
    "length (db_vectors db0) + length (concat (map (rows_of (db_dim db0)) ?cs)) \<le> seg_first base_rows segs"
    using F(2-4) C N n by simp_all
  have wal: "\<not> wal_poisoned (fresh_wal (opt_sync (sweep_options args)))" by (simp add: fresh_wal_def)
  obtain db1 w where L: "load_chunks e (\<lambda>_ _. IoOk) 0 ?cs db0 = Some db1" "db_wal db1 = Some w" "\<not> wal_poisoned w"
    using load_chunks_total [OF F(1) lev P(1,2) O(3) wal _ _ P(3), of 0] O(2) g F(3) dim by auto
  from load_chunks_inv [OF F(1) lev P(1,2) L(1)]
  have "db_inv e db1 (db_vectors db1)" "next_lsn db1 < 2 ^ 64"
    using F(3,4) C(1) N by (auto simp: u64_limit_def)
  then obtain db2 where "db_checkpoint e db1 (si_checkpoint devices_answer) = Some (db2, Inr ())"
    using checkpoint_answers [OF _ _ L(2,3)] by blast
  then show ?thesis using o c L(1) by (cases "sw_checkpoint args") (simp_all add: import_all_def devices_answer_def Let_def)
qed

section \<open>Arguments that parse\<close>

definition args_ok :: "sweep_args \<Rightarrow> bool" where
  "args_ok args \<longleftrightarrow> list_all (\<lambda>b. 0 < b) (sw_batches args)"

lemma parse_batch_positive: "parse_batch s = Some b \<Longrightarrow> 0 < b"
  by (auto simp: parse_batch_def split: option.splits if_splits)

lemma set_flag_ok: "set_flag args flag v = Inr args' \<Longrightarrow> args_ok args \<Longrightarrow> args_ok args'"
proof -
  have "list_all (\<lambda>b. 0 < b) bs" if "map_opt parse_batch ws = Some bs" for ws bs
    using that by (induction ws arbitrary: bs) (auto split: bind_splits dest: parse_batch_positive)
  then show "set_flag args flag v = Inr args' \<Longrightarrow> args_ok args \<Longrightarrow> args_ok args'"
    by (auto simp: set_flag_def args_ok_def split: option.splits if_splits)
qed

lemma parse_flags_ok: "parse_flags args argv = Inr args' \<Longrightarrow> args_ok args \<Longrightarrow> args_ok args'"
proof (induction args argv rule: parse_flags.induct)
  case (1 args)
  then show ?case by simp
next
  case (2 args flag rest)
  show ?case
  proof (cases "flag = ''--checkpoint''")
    case True
    then show ?thesis using 2(1,3,4) by (simp add: args_ok_def)
  next
    case False
    let ?known = "{''--n'', ''--dim'', ''--seed'', ''--batches'', ''--sync''}"
    have eq: "(if flag = ''-h'' \<or> flag = ''--help'' then Inl ''''
      else if flag \<notin> ?known then Inl (''unknown flag '' @ flag)
      else case rest of
        [] \<Rightarrow> Inl (flag @ '' needs a value'')
      | v # rest' \<Rightarrow> (case set_flag args flag v of Inl msg \<Rightarrow> Inl msg | Inr args' \<Rightarrow> parse_flags args' rest')) = Inr args'"
      using 2(3) False by (simp only: parse_flags.simps if_False)
    have h: "\<not> (flag = ''-h'' \<or> flag = ''--help'')"
    proof
      assume "flag = ''-h'' \<or> flag = ''--help''"
      then show False using eq by (simp only: if_True sum.distinct)
    qed
    have k: "\<not> flag \<notin> ?known"
    proof
      assume "flag \<notin> ?known"
      then show False using eq h by (simp only: if_True if_False not_False_eq_True sum.distinct)
    qed
    obtain v rest' args1 where r: "rest = v # rest'" "set_flag args flag v = Inr args1" "parse_flags args1 rest' = Inr args'"
      using eq [unfolded if_not_P [OF h] if_not_P [OF k]] by (cases rest; cases "set_flag args flag (hd rest)") simp_all
    show ?thesis using 2(2) [OF False h k r(1,2,3)] set_flag_ok [OF r(2) 2(4)] by blast
  qed
qed

lemma parse_args_ok:
  assumes "parse_args argv = Inr args"
  shows "0 < sw_n args" "0 < sw_dim args" "args_ok args"
proof -
  have f: "parse_flags default_args argv = Inr args" and "\<not> (sw_n args = 0 \<or> sw_dim args = 0)"
    using assms by (auto simp: parse_args_def split: sum.splits if_splits)
  then show "0 < sw_n args" "0 < sw_dim args" by simp_all
  show "args_ok args" by (rule parse_flags_ok [OF f]) (simp add: default_args_def args_ok_def)
qed

lemma sweep_rows_all:
  assumes "\<forall>b \<in> set bs. \<forall>k. sweep_one e (io k) args data b = Some (f b)"
  shows "sweep_rows e io args data k bs = Some (map f bs)"
  using assms by (induction bs arbitrary: k) simp_all

lemma sweep_rows_some:
  assumes "sweep_rows e io args data k bs = Some rows"
    and "\<And>b k r. b \<in> set bs \<Longrightarrow> sweep_one e (io k) args data b = Some r \<Longrightarrow> r = f b"
  shows "rows = map f bs"
  using assms
proof (induction bs arbitrary: k rows)
  case (Cons b bs)
  then obtain r rs where r: "sweep_one e (io k) args data b = Some r" "sweep_rows e io args data (k + 1) bs = Some rs" "rows = r # rs"
    by (auto split: bind_splits)
  moreover have "r = f b" using Cons.prems(2) r(1) by simp
  moreover have "rs = map f bs" using Cons.IH [OF r(2)] Cons.prems(2) by simp
  ultimately show ?case by simp
qed simp

section \<open>Property\<close>



end
