(* ===== verification/Python.thy ===== *)
theory Python
  imports Db_Run
begin

text \<open>
  \<^verbatim>\<open>src/vektordb-py/src/lib.rs\<close>: the class that Python sees.  An array is its shape, its entries row by
  row, and whether they lie contiguous in memory; the interpreter and numpy are libraries.  The rows of
  a search are independent of each other (each thread has its own scratch) and are searched here one
  after the other.  \<open>None\<close> is a panic, which Python would see as a \<^verbatim>\<open>PanicException\<close>.
\<close>

section \<open>Errors and arguments\<close>

datatype py_error =
    ValueError error
  | ValueMessage string
  | UnknownMetric string
  | RuntimeError error
  | NotContiguous

type_synonym 'a py_result = "py_error + 'a"

definition py_err :: "error \<Rightarrow> py_error" where
  "py_err e =
     (case e of
        DimensionMismatch a b \<Rightarrow> ValueError e
      | IdOutOfRange i \<Rightarrow> ValueError e
      | InvalidArgument why \<Rightarrow> ValueError e
      | Io x \<Rightarrow> RuntimeError e
      | Corrupt why \<Rightarrow> RuntimeError e)"

definition map_err :: "'a result \<Rightarrow> 'a py_result" where
  "map_err r = (case r of Inl e \<Rightarrow> Inl (py_err e) | Inr x \<Rightarrow> Inr x)"

record py_array =
  ar_rows :: nat
  ar_cols :: nat
  ar_data :: "f32 list"
  ar_contiguous :: bool

definition array_ok :: "py_array \<Rightarrow> bool" where
  "array_ok a \<longleftrightarrow> length (ar_data a) = ar_rows a * ar_cols a"

definition metric_of_name :: "string \<Rightarrow> metric option" where
  "metric_of_name s =
     (if s = ''l2'' then Some L2
      else if s = ''ip'' \<or> s = ''dot'' then Some Dot
      else if s = ''cosine'' then Some Cosine
      else None)"

record py_db =
  py_inner :: db
  py_dim :: nat

definition py_new :: "env \<Rightarrow> (nat \<Rightarrow> nat \<Rightarrow> bool) \<Rightarrow> io_out \<Rightarrow> disk \<Rightarrow> nat \<Rightarrow> nat \<Rightarrow> nat \<Rightarrow> string \<Rightarrow> bool \<Rightarrow>
    py_db py_result option" where
  "py_new e rd io d dim m ef_construction metric log =
     (case metric_of_name metric of
        None \<Rightarrow> Some (Inl (UnknownMetric metric))
      | Some mt \<Rightarrow>
          (let opts = \<lparr>opt_config = \<lparr>cfg_m = m, cfg_ef_construction = ef_construction, cfg_metric = mt\<rparr>,
             opt_sync = Always, opt_enable_wal = log\<rparr>
           in map_option (\<lambda>r. case map_err r of
                Inl x \<Rightarrow> Inl x
              | Inr db \<Rightarrow> Inr \<lparr>py_inner = db, py_dim = dim\<rparr>) (db_open e rd io d dim opts)))"

section \<open>Adding\<close>

definition py_add :: "env \<Rightarrow> py_db \<Rightarrow> py_array \<Rightarrow> (nat \<Rightarrow> io_out) \<Rightarrow> (py_db \<times> nat py_result) option" where
  "py_add e p a io =
     (if ar_cols a \<noteq> py_dim p then
        Some (p, Inl (ValueMessage (''expected dim '' @ show_nat (py_dim p) @ '', got '' @ show_nat (ar_cols a))))
      else if \<not> ar_contiguous a then Some (p, Inl NotContiguous)
      else map_option (\<lambda>(db, r). (p\<lparr>py_inner := db\<rparr>, map_err r)) (db_add_batch e (py_inner p) (ar_data a) io))"

section \<open>Searching\<close>

type_synonym row = "nat list \<times> f32 list"

definition id_max :: nat where
  "id_max = 2 ^ 64 - 1"

text \<open>\<^verbatim>\<open>id_row[j] = h.id; dist_row[j] = h.distance\<close> for each hit.\<close>

primrec write_hits :: "nat \<Rightarrow> neighbor list \<Rightarrow> row \<Rightarrow> row option" where
  "write_hits j [] r = Some r"
| "write_hits j (h # hs) r = do {
     is \<leftarrow> modify_opt (fst r) j (\<lambda>_. nb_id h);
     ds \<leftarrow> modify_opt (snd r) j (\<lambda>_. nb_dist h);
     write_hits (j + 1) hs (is, ds) }"

definition empty_row :: "nat \<Rightarrow> row" where
  "empty_row k = (replicate k id_max, replicate k f32_inf)"

definition query_of :: "py_array \<Rightarrow> nat \<Rightarrow> nat \<Rightarrow> f32 list option" where
  "query_of a dim q = slice (ar_data a) (q * dim) dim"

text \<open>\<^verbatim>\<open>unwrap_or_default\<close>: a query that fails has no hits.\<close>

primrec search_queries :: "py_array \<Rightarrow> nat \<Rightarrow> nat \<Rightarrow> nat \<Rightarrow> nat list \<Rightarrow> db \<Rightarrow> (db \<times> row list) option" where
  "search_queries a dim k ef [] db = Some (db, [])"
| "search_queries a dim k ef (q # qs) db = do {
     query \<leftarrow> query_of a dim q;
     (db', r) \<leftarrow> db_search db query k ef;
     row \<leftarrow> write_hits 0 (case r of Inl _ \<Rightarrow> [] | Inr hits \<Rightarrow> hits) (empty_row k);
     (db'', rows) \<leftarrow> search_queries a dim k ef qs db';
     Some (db'', row # rows) }"

definition shape :: "row list \<Rightarrow> nat list \<times> f32 list" where
  "shape rows = (concat (map fst rows), concat (map snd rows))"

definition py_search :: "py_db \<Rightarrow> py_array \<Rightarrow> nat \<Rightarrow> nat \<Rightarrow> (py_db \<times> (nat list \<times> f32 list) py_result) option" where
  "py_search p a k ef =
     (if ar_cols a \<noteq> py_dim p then Some (p, Inl (ValueMessage ''query dim mismatch''))
      else if k = 0 then Some (p, Inr ([], []))
      else case checked_mul (ar_rows a) k of
        None \<Rightarrow> Some (p, Inl (ValueMessage ''query count * k overflows''))
      | Some n \<Rightarrow>
          if \<not> ar_contiguous a then Some (p, Inl NotContiguous)
          else do {
            (db, rows) \<leftarrow> search_queries a (py_dim p) k ef [0..<ar_rows a] (py_inner p);
            Some (p\<lparr>py_inner := db\<rparr>, Inr (shape rows)) })"

text \<open>With codes, the first query that fails ends the call.\<close>

primrec search_pq_queries :: "env \<Rightarrow> py_array \<Rightarrow> nat \<Rightarrow> nat \<Rightarrow> nat \<Rightarrow> nat \<Rightarrow> nat list \<Rightarrow> db \<Rightarrow>
    (db \<times> row list result) option" where
  "search_pq_queries e a dim k ef rerank [] db = Some (db, Inr [])"
| "search_pq_queries e a dim k ef rerank (q # qs) db = do {
     query \<leftarrow> query_of a dim q;
     (db', r) \<leftarrow> db_search_pq e db query k ef rerank;
     case r of
       Inl err \<Rightarrow> Some (db', Inl err)
     | Inr hits \<Rightarrow> do {
         row \<leftarrow> write_hits 0 hits (empty_row k);
         (db'', rs) \<leftarrow> search_pq_queries e a dim k ef rerank qs db';
         Some (db'', rbind rs (\<lambda>rows. Inr (row # rows))) } }"

definition py_search_pq :: "env \<Rightarrow> py_db \<Rightarrow> py_array \<Rightarrow> nat \<Rightarrow> nat \<Rightarrow> nat \<Rightarrow>
    (py_db \<times> (nat list \<times> f32 list) py_result) option" where
  "py_search_pq e p a k ef rerank =
     (if ar_cols a \<noteq> py_dim p then Some (p, Inl (ValueMessage ''query dim mismatch''))
      else if k = 0 then Some (p, Inr ([], []))
      else case checked_mul (ar_rows a) k of
        None \<Rightarrow> Some (p, Inl (ValueMessage ''query count * k overflows''))
      | Some n \<Rightarrow>
          if \<not> ar_contiguous a then Some (p, Inl NotContiguous)
          else do {
            (db, rs) \<leftarrow> search_pq_queries e a (py_dim p) k ef rerank [0..<ar_rows a] (py_inner p);
            Some (p\<lparr>py_inner := db\<rparr>, map_err (rbind rs (\<lambda>rows. Inr (shape rows)))) })"

section \<open>The other calls\<close>

definition py_train_pq :: "'g rng \<Rightarrow> py_db \<Rightarrow> nat \<Rightarrow> nat \<Rightarrow> nat \<Rightarrow> 'g \<Rightarrow> (py_db \<times> unit py_result) option" where
  "py_train_pq rng p m iters max_samples g =
     map_option (\<lambda>(db, r). (p\<lparr>py_inner := db\<rparr>, map_err r)) (db_train_pq rng (py_inner p) m iters max_samples g)"

definition py_checkpoint :: "env \<Rightarrow> py_db \<Rightarrow> checkpoint_io \<Rightarrow> (py_db \<times> unit py_result) option" where
  "py_checkpoint e p io =
     map_option (\<lambda>(db, r). (p\<lparr>py_inner := db\<rparr>, map_err r)) (db_checkpoint e (py_inner p) io)"

definition py_get :: "py_db \<Rightarrow> nat \<Rightarrow> f32 list py_result" where
  "py_get p i = map_err (db_get (py_inner p) i)"

definition py_len :: "py_db \<Rightarrow> nat" where
  "py_len p = db_len (py_inner p)"

definition py_orphan_count :: "py_db \<Rightarrow> nat option" where
  "py_orphan_count p = orphan_count (py_inner p)"

section \<open>Rows of results\<close>

definition padded :: "nat \<Rightarrow> neighbor list \<Rightarrow> row" where
  "padded k hits =
     (map nb_id hits @ replicate (k - length hits) id_max, map nb_dist hits @ replicate (k - length hits) f32_inf)"

lemma write_hits_padded:
  "length (fst r) = k \<Longrightarrow> length (snd r) = k \<Longrightarrow> j + length hits \<le> k \<Longrightarrow>
     write_hits j hits r = Some (take j (fst r) @ map nb_id hits @ drop (j + length hits) (fst r),
       take j (snd r) @ map nb_dist hits @ drop (j + length hits) (snd r))"
proof (induction hits arbitrary: j r)
  case Nil
  then show ?case by simp
next
  case (Cons h hs)
  let ?r = "((fst r)[j := nb_id h], (snd r)[j := nb_dist h])"
  have j: "j < k" using Cons.prems(3) by simp
  have "write_hits j (h # hs) r = write_hits (j + 1) hs ?r"
    using Cons.prems(1,2) j by (simp add: modify_opt_def)
  also have "\<dots> = Some (take (j + 1) (fst ?r) @ map nb_id hs @ drop (j + 1 + length hs) (fst ?r),
       take (j + 1) (snd ?r) @ map nb_dist hs @ drop (j + 1 + length hs) (snd ?r))"
    using Cons.prems by (intro Cons.IH) simp_all
  also have "take (j + 1) (fst ?r) = take j (fst r) @ [nb_id h]" using Cons.prems(1) j by (simp add: take_Suc_conv_app_nth)
  also have "take (j + 1) (snd ?r) = take j (snd r) @ [nb_dist h]" using Cons.prems(2) j by (simp add: take_Suc_conv_app_nth)
  finally show ?case by simp
qed

lemma write_hits_empty: "length hits \<le> k \<Longrightarrow> write_hits 0 hits (empty_row k) = Some (padded k hits)"
  by (simp add: write_hits_padded [where k = k] empty_row_def padded_def)

lemma query_of_total:
  assumes "array_ok a" "ar_cols a = dim" "q < ar_rows a"
  shows "\<exists>query. query_of a dim q = Some query \<and> length query = dim"
proof -
  have "(q + 1) * dim \<le> ar_rows a * dim" using assms(3) by (intro mult_le_mono1) simp
  then have "q * dim + dim \<le> length (ar_data a)" using assms(1,2) by (simp add: array_ok_def)
  then show ?thesis by (simp add: query_of_def slice_def)
qed

text \<open>What a row of the answer is: the hits of its query, padded.\<close>

definition answer_row :: "env \<Rightarrow> db \<Rightarrow> py_array \<Rightarrow> nat \<Rightarrow> nat \<Rightarrow> row \<Rightarrow> bool" where
  "answer_row e db a k q row \<longleftrightarrow>
     (\<exists>query hits. query_of a (db_dim db) q = Some query \<and> row = padded k hits \<and> length hits \<le> k \<and> sorted hits \<and>
        distinct (map nb_id hits) \<and> (\<forall>hit \<in> set hits. exact_hit e db query hit) \<and> (db_vectors db \<noteq> [] \<longrightarrow> hits \<noteq> []))"

lemma answer_row_scratch: "answer_row e (db\<lparr>db_scratch := vis\<rparr>) a k = answer_row e db a k"
  by (intro ext) (simp add: answer_row_def exact_hit_def db_vectors_def db_dim_def)

lemma search_queries_spec:
  "db_ok e db \<Longrightarrow> array_ok a \<Longrightarrow> ar_cols a = db_dim db \<Longrightarrow> 0 < k \<Longrightarrow> set qs \<subseteq> {..<ar_rows a} \<Longrightarrow>
     \<exists>vis rows. search_queries a (db_dim db) k ef qs db = Some (db\<lparr>db_scratch := vis\<rparr>, rows) \<and>
       db_ok e (db\<lparr>db_scratch := vis\<rparr>) \<and> list_all2 (answer_row e db a k) qs rows"
proof (induction qs arbitrary: db)
  case Nil
  then show ?case by (intro exI [of _ "db_scratch db"] exI [of _ "[]"]) simp
next
  case (Cons q qs)
  obtain query where Q: "query_of a (db_dim db) q = Some query" "length query = db_dim db"
    using query_of_total [OF Cons.prems(2,3)] Cons.prems(5) by auto
  obtain out vis where S: "db_search db query k ef = Some (db\<lparr>db_scratch := vis\<rparr>, Inr out)" "db_ok e (db\<lparr>db_scratch := vis\<rparr>)"
    "sorted out" "distinct (map nb_id out)" "length out \<le> k" "\<forall>hit \<in> set out. exact_hit e db query hit"
    "0 < k \<and> db_vectors db \<noteq> [] \<longrightarrow> out \<noteq> []"
    using db_search_spec [OF Cons.prems(1) Q(2)] by blast
  let ?db1 = "db\<lparr>db_scratch := vis\<rparr>"
  have same: "db_dim ?db1 = db_dim db" by (simp add: db_dim_def)
  have "ar_cols a = db_dim ?db1" "set qs \<subseteq> {..<ar_rows a}" using Cons.prems(3,5) same by simp_all
  then obtain vis' rows where R: "search_queries a (db_dim ?db1) k ef qs ?db1 = Some (?db1\<lparr>db_scratch := vis'\<rparr>, rows)"
    "db_ok e (?db1\<lparr>db_scratch := vis'\<rparr>)" "list_all2 (answer_row e ?db1 a k) qs rows"
    using Cons.IH [OF S(2) Cons.prems(2) _ Cons.prems(4)] by blast
  have "answer_row e db a k q (padded k out)" using Q(1) S(3-7) Cons.prems(4) by (auto simp: answer_row_def)
  moreover have "list_all2 (answer_row e db a k) qs rows" using R(3) by (simp only: answer_row_scratch)
  ultimately show ?case
    using Q(1) S(1,5) R(1,2) write_hits_empty [OF S(5)] unfolding same
    by (intro exI [of _ vis'] exI [of _ "padded k out # rows"]) simp
qed

section \<open>Properties\<close>

text \<open>
  C26: a Python search answers every query in full or not at all.  On a sound database of the class's
  dimension and for an array numpy can describe, nothing panics: the wrong width, an overflowing
  result and an array that is not contiguous are errors and change nothing; otherwise row \<open>q\<close> of both
  results holds the exact hits of query \<open>q\<close>, nearest first, followed by the padding, and has length \<open>k\<close>.
\<close>

theorem py_search_rows:
  assumes "db_ok e (py_inner p)" and "db_dim (py_inner p) = py_dim p" and "array_ok a"
  shows "\<exists>p' r. py_search p a k ef = Some (p', r) \<and> db_ok e (py_inner p') \<and> db_vectors (py_inner p') = db_vectors (py_inner p) \<and>
     (if ar_cols a \<noteq> py_dim p \<or> (k \<noteq> 0 \<and> (u64_limit \<le> ar_rows a * k \<or> \<not> ar_contiguous a)) then p' = p \<and> (\<exists>x. r = Inl x)
      else if k = 0 then p' = p \<and> r = Inr ([], [])
      else \<exists>rows. r = Inr (shape rows) \<and> list_all2 (answer_row e (py_inner p) a k) [0..<ar_rows a] rows)"
proof (cases "ar_cols a \<noteq> py_dim p \<or> k = 0 \<or> u64_limit \<le> ar_rows a * k \<or> \<not> ar_contiguous a")
  case True
  then show ?thesis using assms(1) by (auto simp: py_search_def checked_mul_def)
next
  case False
  then have f: "ar_cols a = db_dim (py_inner p)" "0 < k" "ar_rows a * k < u64_limit" "ar_contiguous a"
    using assms(2) by auto
  have "set [0..<ar_rows a] \<subseteq> {..<ar_rows a}" by auto
  then obtain vis rows where R: "search_queries a (db_dim (py_inner p)) k ef [0..<ar_rows a] (py_inner p) =
      Some ((py_inner p)\<lparr>db_scratch := vis\<rparr>, rows)" "db_ok e ((py_inner p)\<lparr>db_scratch := vis\<rparr>)"
    "list_all2 (answer_row e (py_inner p) a k) [0..<ar_rows a] rows"
    using search_queries_spec [OF assms(1,3) f(1,2)] by blast
  have "py_search p a k ef = Some (p\<lparr>py_inner := (py_inner p)\<lparr>db_scratch := vis\<rparr>\<rparr>, Inr (shape rows))"
    using R(1) f assms(2) by (simp add: py_search_def checked_mul_def)
  then show ?thesis using R(2,3) f assms(2)
    by (intro exI [of _ "p\<lparr>py_inner := (py_inner p)\<lparr>db_scratch := vis\<rparr>\<rparr>"] exI [of _ "Inr (shape rows)"])
      (auto simp: db_vectors_def)
qed

theorem py_search_rows_witness:
  "\<exists>p' rows. py_search \<lparr>py_inner = example_db, py_dim = 2\<rparr>
       \<lparr>ar_rows = 2, ar_cols = 2, ar_data = [f32_one, f32_zero, f32_one, f32_one], ar_contiguous = True\<rparr> 3 64 =
     Some (p', Inr (shape rows)) \<and> length rows = 2"
proof -
  let ?a = "\<lparr>ar_rows = 2, ar_cols = 2, ar_data = [f32_one, f32_zero, f32_one, f32_one], ar_contiguous = True\<rparr>"
  have "array_ok ?a" by (simp add: array_ok_def)
  then obtain p' rows where "py_search \<lparr>py_inner = example_db, py_dim = 2\<rparr> ?a 3 64 = Some (p', Inr (shape rows))"
    "list_all2 (answer_row example_env example_db ?a 3) [0..<2] rows"
    using py_search_rows [of example_env "\<lparr>py_inner = example_db, py_dim = 2\<rparr>" ?a 3 64] example_db_facts(1,3)
    by (auto simp: u64_limit_def)
  then show ?thesis using list_all2_lengthD by fastforce
qed

end
