(* ===== verification/Interleaving.thy ===== *)
theory Interleaving
  imports Main "HOL-Library.Multiset"
begin

text \<open>
  Threads over a shared state, as the code's concurrent paths need them: a step of the system is one
  atomic step of one thread, and any thread may be next.  A thread is a value that says where it is
  and what it holds; its step is a partial function, undefined where the code would panic and where
  the thread has ended.  What the threads of one kind promise each other is a locale, from which
  follow the invariant of every interleaving, the absence of panics and deadlocks, and the end of
  every run.
\<close>

inductive interleave :: "('s \<Rightarrow> 't \<Rightarrow> ('s \<times> 't) option) \<Rightarrow> 's \<times> 't list \<Rightarrow> 's \<times> 't list \<Rightarrow> bool" for step where
  Step: "i < length ts \<Longrightarrow> step s (ts ! i) = Some (s', t') \<Longrightarrow> interleave step (s, ts) (s', ts[i := t'])"

inductive_cases interleaveE: "interleave step (s, ts) c'"

inductive_simps interleave_iff: "interleave step (s, ts) (s', ts')"

text \<open>Which thread runs when is a list of indices.\<close>

fun run_schedule :: "('s \<Rightarrow> 't \<Rightarrow> ('s \<times> 't) option) \<Rightarrow> nat list \<Rightarrow> 's \<times> 't list \<Rightarrow> ('s \<times> 't list) option" where
  "run_schedule step [] c = Some c"
| "run_schedule step (i # is) (s, ts) =
     (if i < length ts
      then case step s (ts ! i) of None \<Rightarrow> None | Some (s', t') \<Rightarrow> run_schedule step is (s', ts[i := t'])
      else None)"

lemma run_schedule_interleave:
  "run_schedule step is c = Some c' \<Longrightarrow> (interleave step)\<^sup>*\<^sup>* c c'"
proof (induction step "is" c rule: run_schedule.induct)
  case (1 step c)
  then show ?case by simp
next
  case (2 step i "is" s ts)
  then obtain s' t' where st: "i < length ts" "step s (ts ! i) = Some (s', t')"
    "run_schedule step is (s', ts[i := t']) = Some c'"
    by (auto split: if_splits option.splits)
  then have "(interleave step)\<^sup>*\<^sup>* (s', ts[i := t']) c'" using 2 by blast
  moreover have "interleave step (s, ts) (s', ts[i := t'])" using st(1,2) by (rule interleave.Step)
  ultimately show ?case by (rule converse_rtranclp_into_rtranclp [rotated])
qed

lemma run_schedule_append:
  "run_schedule step (is @ js) c = Option.bind (run_schedule step is c) (run_schedule step js)"
  by (induction step "is" c rule: run_schedule.induct) (auto split: option.splits)

text \<open>A thread taking a number of steps in a row.\<close>

primrec step_times :: "('s \<Rightarrow> 't \<Rightarrow> ('s \<times> 't) option) \<Rightarrow> nat \<Rightarrow> 's \<times> 't \<Rightarrow> ('s \<times> 't) option" where
  "step_times step 0 c = Some c"
| "step_times step (Suc n) c =
     (case step (fst c) (snd c) of None \<Rightarrow> None | Some c' \<Rightarrow> step_times step n c')"

lemma step_times_schedule:
  "step_times step n (s, ts ! i) = Some (s', t') \<Longrightarrow> i < length ts \<Longrightarrow>
     run_schedule step (replicate n i) (s, ts) = Some (s', ts[i := t'])"
proof (induction n arbitrary: s ts)
  case (Suc n)
  then obtain s1 t1 where st: "step s (ts ! i) = Some (s1, t1)" "step_times step n (s1, t1) = Some (s', t')"
    by (auto split: option.splits)
  then show ?case using Suc.IH [of s1 "ts[i := t1]"] Suc.prems(2) by simp
qed auto

text \<open>One thread running while the others wait.\<close>

inductive alone :: "('s \<Rightarrow> 't \<Rightarrow> ('s \<times> 't) option) \<Rightarrow> 's \<times> 't \<Rightarrow> 's \<times> 't \<Rightarrow> bool" for step where
  Stay: "alone step c c"
| Move: "step s t = Some c \<Longrightarrow> alone step c c' \<Longrightarrow> alone step (s, t) c'"

lemma alone_trans: "alone step a b \<Longrightarrow> alone step b c \<Longrightarrow> alone step a c"
  by (induction rule: alone.induct) (auto intro: alone.Move)

lemma alone_one: "step s t = Some c \<Longrightarrow> alone step (s, t) c"
  by (blast intro: alone.intros)

lemma alone_deterministic:
  "alone step a c \<Longrightarrow> alone step a d \<Longrightarrow> step (fst c) (snd c) = None \<Longrightarrow> step (fst d) (snd d) = None \<Longrightarrow> c = d"
proof (induction arbitrary: d rule: alone.induct)
  case (Stay c)
  from Stay(1) show ?case
  proof (cases rule: alone.cases)
    case (Move s t c1)
    then show ?thesis using Stay(2) by simp
  qed simp
next
  case (Move s t c c')
  from Move.prems(1) show ?case
  proof (cases rule: alone.cases)
    case Stay
    then show ?thesis using Move.hyps(1) Move.prems(3) by simp
  next
    case onward: (Move c1)
    then have "alone step c d" using Move.hyps(1) by simp
    then show ?thesis using Move.IH Move.prems(2,3) by blast
  qed
qed

lemma alone_interleave:
  assumes "alone step (s, t) (s', t')" "i < length ts" "ts ! i = t"
  shows "(interleave step)\<^sup>*\<^sup>* (s, ts) (s', ts[i := t'])"
  using assms
proof (induction "(s, t)" "(s', t')" arbitrary: s t ts rule: alone.induct)
  case Stay
  then show ?case by auto
next
  case (Move s t c)
  obtain s1 t1 where c: "c = (s1, t1)" by fastforce
  have "interleave step (s, ts) (s1, ts[i := t1])" using Move c by (intro interleave.Step) simp_all
  moreover have "(interleave step)\<^sup>*\<^sup>* (s1, ts[i := t1]) (s', ts[i := t1, i := t'])"
    using Move(3) [of s1 t1 "ts[i := t1]"] Move(4) c by simp
  ultimately show ?case by simp
qed

section \<open>Systems of threads\<close>

definition system_ok :: "('s \<Rightarrow> bool) \<Rightarrow> ('s \<Rightarrow> 't \<Rightarrow> bool) \<Rightarrow> ('t \<Rightarrow> 't \<Rightarrow> bool) \<Rightarrow> 's \<times> 't list \<Rightarrow> bool" where
  "system_ok shared own apart c \<longleftrightarrow>
     (case c of (s, ts) \<Rightarrow>
        shared s \<and> (\<forall>t \<in> set ts. own s t) \<and>
        (\<forall>i < length ts. \<forall>j < length ts. i \<noteq> j \<longrightarrow> apart (ts ! i) (ts ! j)))"

locale thread_system =
  fixes step :: "'s \<Rightarrow> 't \<Rightarrow> ('s \<times> 't) option"
    and ended :: "'t \<Rightarrow> bool"
    and shared :: "'s \<Rightarrow> bool"
    and own :: "'s \<Rightarrow> 't \<Rightarrow> bool"
    and apart :: "'t \<Rightarrow> 't \<Rightarrow> bool"
  assumes own_kept: "shared s \<Longrightarrow> own s t \<Longrightarrow> step s t = Some (s', t') \<Longrightarrow> shared s' \<and> own s' t'"
    and others_kept: "shared s \<Longrightarrow> own s t \<Longrightarrow> own s u \<Longrightarrow> apart t u \<Longrightarrow> step s t = Some (s', t') \<Longrightarrow> own s' u"
    and apart_kept: "shared s \<Longrightarrow> own s t \<Longrightarrow> own s u \<Longrightarrow> step s t = Some (s', t') \<Longrightarrow> apart t u \<Longrightarrow> apart t' u"
    and apart_sym: "apart t u \<Longrightarrow> apart u t"
begin

lemma step_ok:
  assumes "system_ok shared own apart c" "interleave step c c'"
  shows "system_ok shared own apart c'"
  using assms(2,1)
proof cases
  case (Step i ts s s' t')
  have ok: "shared s" "\<forall>t \<in> set ts. own s t"
    "\<And>i j. i < length ts \<Longrightarrow> j < length ts \<Longrightarrow> i \<noteq> j \<Longrightarrow> apart (ts ! i) (ts ! j)"
    using assms(1) Step(1) by (auto simp: system_ok_def)
  have "ts ! i \<in> set ts" using Step(3) by simp
  then have i: "shared s'" "own s' t'" using own_kept [OF ok(1) _ Step(4)] ok(2) by blast+
  have others: "own s' (ts ! j)" if "j < length ts" "j \<noteq> i" for j
    using others_kept [OF ok(1) _ _ _ Step(4)] ok(2,3) Step(3) that by auto
  have kept: "apart t' (ts ! j)" if "j < length ts" "i \<noteq> j" for j
    using apart_kept [OF ok(1) _ _ Step(4)] ok(2,3) Step(3) that by simp
  have "own s' (ts[i := t'] ! j)" if "j < length ts" for j
    using i(2) others that by (cases "j = i") simp_all
  then have "\<forall>t \<in> set (ts[i := t']). own s' t" by (auto simp: in_set_conv_nth)
  moreover have "apart (ts[i := t'] ! j) (ts[i := t'] ! k)" if "j < length ts" "k < length ts" "j \<noteq> k" for j k
    using ok(3) [of j k] kept [of j] kept [of k] apart_sym that Step(3)
    by (cases "j = i"; cases "k = i") auto
  ultimately show ?thesis using i(1) Step(2) by (simp add: system_ok_def)
qed

lemma run_ok:
  assumes "(interleave step)\<^sup>*\<^sup>* c c'" "system_ok shared own apart c"
  shows "system_ok shared own apart c' \<and> length (snd c') = length (snd c)"
  using assms
proof (induction rule: rtranclp_induct)
  case base
  then show ?case by simp
next
  case (step c1 c2)
  then show ?case using step_ok [of c1 c2] by (auto elim: interleave.cases)
qed

end

text \<open>
  Systems whose threads get nearer to their end with every step, and in which one that has not ended
  leaves the system a step to take, be it of another thread.
\<close>

locale lively_system =
  fixes step :: "'s \<Rightarrow> 't \<Rightarrow> ('s \<times> 't) option"
    and ended :: "'t \<Rightarrow> bool"
    and inv :: "'s \<times> 't list \<Rightarrow> bool"
    and rank :: "'t \<Rightarrow> 'm"
    and less :: "('m \<times> 'm) set"
  assumes inv_kept: "inv c \<Longrightarrow> interleave step c c' \<Longrightarrow> inv c'"
    and moves: "inv c \<Longrightarrow> t \<in> set (snd c) \<Longrightarrow> \<not> ended t \<Longrightarrow> \<exists>c'. interleave step c c'"
    and nearer: "inv (s, ts) \<Longrightarrow> t \<in> set ts \<Longrightarrow> step s t = Some (s', t') \<Longrightarrow> (rank t', rank t) \<in> less"
    and less_wf: "wf less"
begin

lemma run_inv:
  assumes "(interleave step)\<^sup>*\<^sup>* c c'" "inv c"
  shows "inv c' \<and> length (snd c') = length (snd c)"
  using assms
proof (induction rule: rtranclp_induct)
  case base
  then show ?case by simp
next
  case (step c1 c2)
  then show ?case using inv_kept [of c1 c2] by (auto elim: interleave.cases)
qed

lemma rank_step:
  assumes "inv c" "interleave step c c'"
  shows "(mset (map rank (snd c')), mset (map rank (snd c))) \<in> mult1 less"
  using assms(2)
proof cases
  case (Step i ts s s' t')
  have "inv (s, ts)" "ts ! i \<in> set ts" using assms(1) Step(1,3) by simp_all
  from nearer [OF this Step(4)] have n: "(rank t', rank (ts ! i)) \<in> less" .
  have i: "i < length (map rank ts)" using Step(3) by simp
  have "mset (map rank (ts[i := t'])) = add_mset (rank t') (mset (map rank ts) - {#rank (ts ! i)#})"
    unfolding map_update using mset_update [OF i] Step(3) by simp
  moreover have "mset (map rank ts) = add_mset (rank (ts ! i)) (mset (map rank ts) - {#rank (ts ! i)#})"
    using Step(3) by (intro insert_DiffM [symmetric]) simp
  ultimately show ?thesis
    unfolding Step(1,2) snd_conv mult1_def using n
    by (intro CollectI case_prodI exI [of _ "rank (ts ! i)"] exI [of _ "mset (map rank ts) - {#rank (ts ! i)#}"]
        exI [of _ "{#rank t'#}"]) auto
qed

lemma no_infinite_run:
  assumes "inv (run 0)" "\<And>n. interleave step (run n) (run (Suc n))"
  shows False
proof -
  have "(interleave step)\<^sup>*\<^sup>* (run 0) (run n)" for n
    by (induction n) (auto intro: rtranclp.rtrancl_into_rtrancl assms(2))
  then have "inv (run n)" for n using run_inv assms(1) by blast
  then have "(mset (map rank (snd (run (Suc n)))), mset (map rank (snd (run n)))) \<in> mult1 less" for n
    using rank_step assms(2) by blast
  then show False
    using wf_no_infinite_down_chainE [OF wf_mult1 [OF less_wf], of "\<lambda>n. mset (map rank (snd (run n)))"] by blast
qed

lemma runs_to_end:
  assumes "inv c"
  shows "\<exists>c'. (interleave step)\<^sup>*\<^sup>* c c' \<and> (\<forall>t \<in> set (snd c'). ended t)"
proof -
  have "wf (inv_image (mult1 less) (\<lambda>c. mset (map rank (snd c))))"
    by (rule wf_inv_image [OF wf_mult1 [OF less_wf]])
  then show ?thesis using assms
  proof (induction c rule: wf_induct_rule)
    case (less c)
    show ?case
    proof (cases "\<forall>t \<in> set (snd c). ended t")
      case False
      then obtain c1 where st: "interleave step c c1" using moves [OF less(2)] by blast
      have "\<exists>c'. (interleave step)\<^sup>*\<^sup>* c1 c' \<and> (\<forall>t \<in> set (snd c'). ended t)"
        using less(1) rank_step [OF less(2) st] inv_kept [OF less(2) st] by simp
      then show ?thesis using st by (meson converse_rtranclp_into_rtranclp)
    qed blast
  qed
qed

end

text \<open>Threads that never wait: each that has not ended can take a step.\<close>

locale ending_system = thread_system step ended shared own apart
  for step :: "'s \<Rightarrow> 't \<Rightarrow> ('s \<times> 't) option"
    and ended :: "'t \<Rightarrow> bool"
    and shared :: "'s \<Rightarrow> bool"
    and own :: "'s \<Rightarrow> 't \<Rightarrow> bool"
    and apart :: "'t \<Rightarrow> 't \<Rightarrow> bool" +
  fixes rank :: "'t \<Rightarrow> 'm"
    and less :: "('m \<times> 'm) set"
  assumes progress: "shared s \<Longrightarrow> own s t \<Longrightarrow> \<not> ended t \<Longrightarrow> \<exists>s' t'. step s t = Some (s', t')"
    and closer: "shared s \<Longrightarrow> own s t \<Longrightarrow> step s t = Some (s', t') \<Longrightarrow> (rank t', rank t) \<in> less"
    and order_wf: "wf less"

sublocale ending_system \<subseteq> lively_system step ended "system_ok shared own apart" rank less
proof (unfold_locales, goal_cases)
  case (1 c c')
  then show ?case by (rule step_ok)
next
  case (2 c t)
  obtain s ts where c: "c = (s, ts)" by fastforce
  obtain i where i: "i < length ts" "ts ! i = t" using 2(2) c by (auto simp: in_set_conv_nth)
  have "shared s" "own s t" using 2(1,2) c by (auto simp: system_ok_def)
  then obtain s' t' where "step s (ts ! i) = Some (s', t')" using progress 2(3) i(2) by blast
  then show ?case using c i(1) by (auto intro: interleave.Step)
next
  case (3 s ts t s' t')
  then have "shared s" "own s t" by (auto simp: system_ok_def)
  then show ?case using closer 3(3) by blast
next
  case 4
  show ?case by (rule order_wf)
qed

context ending_system
begin

lemma never_stuck:
  assumes "system_ok shared own apart c" "(interleave step)\<^sup>*\<^sup>* c (s, ts)" "t \<in> set ts" "\<not> ended t"
  shows "step s t \<noteq> None"
  using run_ok [OF assms(2,1)] progress assms(3,4) by (fastforce simp: system_ok_def)

end

end
