(* ===== verification/Hnsw_Conc.thy ===== *)
theory Hnsw_Conc
  imports Hnsw_Insert Interleaving
begin

text \<open>
  \<^verbatim>\<open>insert\<close> and \<^verbatim>\<open>search_with_oracle\<close> of \<^verbatim>\<open>hnsw/mod.rs\<close> as threads over one index, for the claims the
  code makes about running them together.  A step is what the code does between two accesses to
  shared memory: publishing a node, loading or claiming the entry point, loading one adjacency
  list, rewriting one under its node's lock, raising the entry point under its lock.  A list is
  immutable once published and a vector once appended, so what is computed from a loaded list
  belongs to the step that loads it.  The thread's program counter holds its local variables.
\<close>

section \<open>Steps shared by inserts and searches\<close>

text \<open>One round of \<^verbatim>\<open>greedy_descend\<close>, and one of the loop of \<^verbatim>\<open>search_layer\<close>.\<close>

definition descend_step :: "hnsw \<Rightarrow> dist_fun \<Rightarrow> nat \<Rightarrow> nat \<Rightarrow> f32 \<Rightarrow> (nat \<times> f32 \<times> bool) option" where
  "descend_step h dist layer ep best = do {
     ns \<leftarrow> links_of h ep layer;
     greedy_scan dist ns (ep, best, False) }"

definition beam_start :: "hnsw \<Rightarrow> dist_fun \<Rightarrow> visited \<Rightarrow> nat \<Rightarrow> search_state option" where
  "beam_start h dist vis ep = do {
     d \<leftarrow> dist ep;
     Some (fst (mark (begin_pass vis (hnsw_len h)) ep), [Neighbor ep d], [Neighbor ep d]) }"

definition beam_step :: "hnsw \<Rightarrow> dist_fun \<Rightarrow> nat \<Rightarrow> nat \<Rightarrow> search_state \<Rightarrow> (heap + search_state) option" where
  "beam_step h dist ef layer st =
     (case st of (vis, cand, res) \<Rightarrow>
        (case cand of
           [] \<Rightarrow> Some (Inl res)
         | current # rest \<Rightarrow>
             if f32_lt (worst res) (nb_dist current) \<and> ef \<le> length res then Some (Inl res)
             else do {
               ns \<leftarrow> links_of h (nb_id current) layer;
               st' \<leftarrow> visit_all dist ef ns (vis, rest, res);
               Some (Inr st') }))"

section \<open>Inserting threads\<close>

text \<open>
  From the entry point on, a program counter holds the level of the entry point as it was loaded, the
  layers still to come (before them the one at work), and the node to enter the next one at; then
  the beam's candidates and results, or the chosen neighbours still to be linked.
\<close>

datatype insert_pc =
    Publish
  | Check_Entry
  | Claim_Entry
  | Load_Entry
  | Descend nat "nat list" nat f32
  | Start_Layer nat "nat list" nat
  | Beam nat nat "nat list" nat heap heap
  | Own_Links nat nat "nat list" nat "nat list"
  | Back_Links nat nat "nat list" nat "nat list"
  | Raise_Entry nat
  | Inserted

record inserter =
  in_id :: nat
  in_level :: nat
  in_vis :: visited
  in_pc :: insert_pc

definition inserter_new :: "nat \<Rightarrow> nat \<Rightarrow> visited \<Rightarrow> inserter" where
  "inserter_new i level vis = \<lparr>in_id = i, in_level = level, in_vis = vis, in_pc = Publish\<rparr>"

definition insert_dist :: "kernel_fun \<Rightarrow> vec_fun \<Rightarrow> nat \<Rightarrow> dist_fun" where
  "insert_dist kern vec i j = do { query \<leftarrow> vec i; hnsw_distance kern vec query j }"

definition choose_links :: "hnsw \<Rightarrow> vec_fun \<Rightarrow> nat \<Rightarrow> heap \<Rightarrow> nat list option" where
  "choose_links h vec i found =
     select_neighbors (hn_kernel h) vec (filter (\<lambda>n. nb_id n \<noteq> i) found) (cfg_m (hn_config h))"

definition insert_step :: "vec_fun \<Rightarrow> hnsw \<Rightarrow> inserter \<Rightarrow> (hnsw \<times> inserter) option" where
  "insert_step vec h t =
     (let i = in_id t; level = in_level t; dist = insert_dist (hn_kernel h) vec i;
          goto = (\<lambda>h' pc. Some (h', t\<lparr>in_pc := pc\<rparr>))
      in case in_pc t of
        Publish \<Rightarrow> do {
          query \<leftarrow> vec i;
          nodes \<leftarrow> sv_set (hn_nodes h) i (node_new level);
          goto (h\<lparr>hn_nodes := nodes\<rparr>) Check_Entry }
      | Check_Entry \<Rightarrow> goto h (if hn_entry h = entry_none then Claim_Entry else Load_Entry)
      | Claim_Entry \<Rightarrow>
          if hn_entry h = entry_none then goto (h\<lparr>hn_entry := pack_entry i level\<rparr>) Inserted
          else goto h Load_Entry
      | Load_Entry \<Rightarrow> do {
          let (entry_id, upper) = unpack_entry (hn_entry h);
          d \<leftarrow> dist entry_id;
          goto h (Descend upper (rev [level + 1..<upper + 1]) entry_id d) }
      | Descend upper [] ep best \<Rightarrow> goto h (Start_Layer upper (rev [0..<min level upper + 1]) ep)
      | Descend upper (l # ls) ep best \<Rightarrow> do {
          (ep', best', improved) \<leftarrow> descend_step h dist l ep best;
          goto h (Descend upper (if improved then l # ls else ls) ep' best') }
      | Start_Layer upper [] ep \<Rightarrow> goto h (Raise_Entry upper)
      | Start_Layer upper (l # ls) ep \<Rightarrow> do {
          (vis', cand, res) \<leftarrow> beam_start h dist (in_vis t) ep;
          Some (h, t\<lparr>in_vis := vis', in_pc := Beam upper l ls ep cand res\<rparr>) }
      | Beam upper l ls ep cand res \<Rightarrow> do {
          r \<leftarrow> beam_step h dist (cfg_ef_construction (hn_config h)) l (in_vis t, cand, res);
          (case r of
             Inr (vis', cand', res') \<Rightarrow> Some (h, t\<lparr>in_vis := vis', in_pc := Beam upper l ls ep cand' res'\<rparr>)
           | Inl found \<Rightarrow> do {
               chosen \<leftarrow> choose_links h vec i found;
               goto h (Own_Links upper l ls (case found of [] \<Rightarrow> ep | n # _ \<Rightarrow> nb_id n) chosen) }) }
      | Own_Links upper l ls ep chosen \<Rightarrow> do {
          h' \<leftarrow> rewrite_links h i l (add_own_links chosen);
          goto h' (Back_Links upper l ls ep chosen) }
      | Back_Links upper l ls ep [] \<Rightarrow> goto h (Start_Layer upper ls ep)
      | Back_Links upper l ls ep (nb # todo) \<Rightarrow> do {
          h' \<leftarrow> rewrite_links h nb l (add_back_link (hn_kernel h) vec i nb (max_degree h l));
          goto h' (Back_Links upper l ls ep todo) }
      | Raise_Entry upper \<Rightarrow> goto (raise_entry h i level upper) Inserted
      | Inserted \<Rightarrow> None)"

section \<open>Searching threads\<close>

datatype search_pc =
    Search_Entry
  | Search_Descend "nat list" nat f32
  | Search_Start nat
  | Search_Beam heap heap
  | Found "neighbor list"

record searcher =
  se_dist :: dist_fun
  se_k :: nat
  se_ef :: nat
  se_vis :: visited
  se_pc :: search_pc

definition searcher_new :: "dist_fun \<Rightarrow> nat \<Rightarrow> nat \<Rightarrow> visited \<Rightarrow> searcher" where
  "searcher_new dist k ef vis = \<lparr>se_dist = dist, se_k = k, se_ef = ef, se_vis = vis, se_pc = Search_Entry\<rparr>"

definition search_step :: "hnsw \<Rightarrow> searcher \<Rightarrow> searcher option" where
  "search_step h t =
     (let dist = se_dist t; ef' = max (se_ef t) (se_k t); goto = (\<lambda>pc. Some (t\<lparr>se_pc := pc\<rparr>))
      in case se_pc t of
        Search_Entry \<Rightarrow>
          if hn_entry h = entry_none then goto (Found [])
          else do {
            let (entry_id, upper) = unpack_entry (hn_entry h);
            d \<leftarrow> dist entry_id;
            goto (Search_Descend (rev [1..<upper + 1]) entry_id d) }
      | Search_Descend [] ep best \<Rightarrow> goto (Search_Start ep)
      | Search_Descend (l # ls) ep best \<Rightarrow> do {
          (ep', best', improved) \<leftarrow> descend_step h dist l ep best;
          goto (Search_Descend (if improved then l # ls else ls) ep' best') }
      | Search_Start ep \<Rightarrow> do {
          (vis', cand, res) \<leftarrow> beam_start h dist (se_vis t) ep;
          Some (t\<lparr>se_vis := vis', se_pc := Search_Beam cand res\<rparr>) }
      | Search_Beam cand res \<Rightarrow> do {
          r \<leftarrow> beam_step h dist ef' 0 (se_vis t, cand, res);
          (case r of
             Inr (vis', cand', res') \<Rightarrow> Some (t\<lparr>se_vis := vis', se_pc := Search_Beam cand' res'\<rparr>)
           | Inl found \<Rightarrow> goto (Found (take (se_k t) found))) }
      | Found hits \<Rightarrow> None)"

datatype thread = Insert inserter | Search searcher

primrec thread_step :: "vec_fun \<Rightarrow> hnsw \<Rightarrow> thread \<Rightarrow> (hnsw \<times> thread) option" where
  "thread_step vec h (Insert t) = map_option (map_prod id Insert) (insert_step vec h t)"
| "thread_step vec h (Search t) = map_option (\<lambda>t'. (h, Search t')) (search_step h t)"

primrec thread_ended :: "thread \<Rightarrow> bool" where
  "thread_ended (Insert t) = (in_pc t = Inserted)"
| "thread_ended (Search t) = (\<exists>hits. se_pc t = Found hits)"

end
