(* ===== verification/Hnsw_Conc_Inv.thy ===== *)
theory Hnsw_Conc_Inv
  imports Hnsw_Conc
begin

text \<open>
  What any interleaving of inserts and searches keeps.  The graph stays closed: a list names only
  published nodes of its layer and not its own node, and it is at most the connections of one insert
  over the layer's bound, since a thread adds its own choice without looking at the length.  A
  thread's candidates, entry and choices stay on the layer it works on, because layers only grow.
\<close>

section \<open>The shared index\<close>

text \<open>
  \<open>n\<close> bounds the ids in play, and the first \<open>k\<close> nodes were there before the threads started.
\<close>

definition slots_ok :: "hnsw \<Rightarrow> bool" where
  "slots_ok h \<longleftrightarrow> (\<forall>i nd. sv_get_unchecked (hn_nodes h) i = Some nd \<longrightarrow> node_links nd \<noteq> [] \<and> i < hnsw_len h)"

definition shared_ok :: "vec_fun \<Rightarrow> nat \<Rightarrow> nat \<Rightarrow> hnsw \<Rightarrow> bool" where
  "shared_ok vec n k h \<longleftrightarrow>
     slots_ok h \<and> hnsw_len h \<le> n \<and> {..<k} \<subseteq> on_layer h 0 \<and> 2 \<le> cfg_m (hn_config h) \<and> vecs_ok (hn_kernel h) vec n \<and> n \<le> sv_capacity \<and>
     (\<forall>i layer ns. links_of h i layer = Some ns \<longrightarrow>
        i \<notin> set ns \<and> set ns \<subseteq> on_layer h layer \<and> length ns \<le> max_degree h layer + cfg_m (hn_config h)) \<and>
     (\<forall>layer. on_layer h layer \<subseteq> {..<n}) \<and>
     (hn_entry h \<noteq> entry_none \<longrightarrow> (\<exists>e l. hn_entry h = pack_entry e l \<and> l < 256 \<and> e \<in> on_layer h l)) \<and>
     (0 < k \<longrightarrow> hn_entry h \<noteq> entry_none)"

text \<open>What a step of the thread inserting \<open>i\<close> may change.\<close>

definition grows :: "nat \<Rightarrow> hnsw \<Rightarrow> hnsw \<Rightarrow> bool" where
  "grows i h h' \<longleftrightarrow>
     hn_config h' = hn_config h \<and> hn_kernel h' = hn_kernel h \<and>
     (hn_entry h \<noteq> entry_none \<longrightarrow> hn_entry h' \<noteq> entry_none) \<and>
     (\<forall>l. on_layer h l \<subseteq> on_layer h' l \<and> on_layer h' l \<subseteq> insert i (on_layer h l)) \<and>
     (\<forall>j l ns. links_of h' j l = Some ns \<longrightarrow> j = i \<or> links_of h j l = Some ns \<or> length ns \<le> max_degree h l)"

lemma grows_refl [simp]: "grows i h h"
  by (auto simp: grows_def)

lemma grows_layer: "grows i h h' \<Longrightarrow> x \<in> on_layer h l \<Longrightarrow> x \<in> on_layer h' l"
  by (auto simp: grows_def)

lemma grows_fixed:
  "grows i h h' \<Longrightarrow> hn_config h' = hn_config h \<and> hn_kernel h' = hn_kernel h \<and> max_degree h' l = max_degree h l"
  by (simp add: grows_def max_degree_def)

lemma shared_closed: "shared_ok vec n k h \<Longrightarrow> closed_at h layer (on_layer h layer)"
  unfolding shared_ok_def closed_at_def on_layer_def by blast

lemma shared_below: "shared_ok vec n k h \<Longrightarrow> on_layer h layer \<subseteq> {..<n}"
  by (simp add: shared_ok_def)

lemma shared_total: "shared_ok vec n k h \<Longrightarrow> total_on dist {..<n} \<Longrightarrow> total_on dist (on_layer h layer)"
  using shared_below [of vec n k h layer] by (auto simp: total_on_def)

lemma shared_entry:
  assumes "shared_ok vec n k h" "hn_entry h \<noteq> entry_none"
  obtains e l where "unpack_entry (hn_entry h) = (e, l)" "e \<in> on_layer h l" "l < 256"
proof -
  obtain e l where e: "hn_entry h = pack_entry e l" "l < 256" "e \<in> on_layer h l"
    using assms by (auto simp: shared_ok_def)
  then have "e < n" using shared_below [OF assms(1), of l] by blast
  then have "e < 2 ^ 56" using assms(1) sv_capacity_less by (simp add: shared_ok_def)
  then show ?thesis using that e unpack_pack by simp
qed

section \<open>Steps of a traversal\<close>

lemma descend_step_ok:
  assumes "shared_ok vec n k h" "total_on dist {..<n}" "ep \<in> on_layer h l" "dist ep = Some d"
  shows "\<exists>ep' d' imp. descend_step h dist l ep d = Some (ep', d', imp) \<and> ep' \<in> on_layer h l \<and>
     dist ep' = Some d' \<and> (imp \<longrightarrow> f32_lt d' d)"
proof -
  obtain ns where ns: "links_of h ep l = Some ns" "set ns \<subseteq> on_layer h l"
    using shared_closed [OF assms(1), of l] assms(3) by (auto simp: closed_at_def)
  have "total_on dist (set ns)" using shared_total [OF assms(1,2), of l] ns(2) by (auto simp: total_on_def)
  then obtain ep' d' imp where s: "greedy_scan dist ns (ep, d, False) = Some (ep', d', imp)"
    using greedy_scan_total by (metis prod_cases3)
  show ?thesis using s ns greedy_scan_spec [OF s] assms(3,4) by (auto simp: descend_step_def)
qed

lemma beam_start_ok:
  assumes "vis_inv vis" "ep \<in> on_layer h l" "total_on dist (on_layer h l)"
  shows "\<exists>st. beam_start h dist vis ep = Some st \<and> beam_ok dist ef (on_layer h l) st"
proof -
  obtain d where d: "dist ep = Some d" using assms(2,3) by (auto simp: total_on_def)
  show ?thesis
    using search_layer_start(1) [where dist = dist, OF assms(1,2) d] d by (simp add: beam_start_def)
qed

text \<open>A round of the beam either ends with its results or leaves less to do, counted in any larger range.\<close>

definition beam_rank :: "nat \<Rightarrow> search_state \<Rightarrow> nat \<times> nat" where
  "beam_rank n st = (card ({..<n} - vis_set (fst st)), length (fst (snd st)))"

lemma beam_step_ok:
  assumes sh: "shared_ok vec n k h" and tot: "total_on dist {..<n}"
    and ok: "beam_ok dist ef (on_layer h l) (vis, cand, res)"
  shows "beam_step h dist ef l (vis, cand, res) = Some (Inl res) \<or>
     (\<exists>st. beam_step h dist ef l (vis, cand, res) = Some (Inr st) \<and> beam_ok dist ef (on_layer h l) st \<and>
        (\<forall>r \<ge> n. (beam_rank r st, beam_rank r (vis, cand, res)) \<in> less_than <*lex*> less_than))"
proof (cases "cand = [] \<or> f32_lt (worst res) (nb_dist (hd cand)) \<and> ef \<le> length res")
  case True
  then show ?thesis by (cases cand) (auto simp: beam_step_def)
next
  case False
  then obtain c rest where c: "cand = c # rest" by (cases cand) auto
  have "nb_id c \<in> on_layer h l" using ok c by (auto simp: beam_ok_def ids_def)
  then obtain ns where ns: "links_of h (nb_id c) l = Some ns" "set ns \<subseteq> on_layer h l"
    using shared_closed [OF sh, of l] by (auto simp: closed_at_def)
  have "beam_ok dist ef (on_layer h l) (vis, rest, res)"
    using ok c by (auto simp: beam_ok_def ids_def scored_def)
  from visit_all_ok [OF this ns(2) shared_total [OF sh tot]] obtain vis' cand' res' where
    v: "visit_all dist ef ns (vis, rest, res) = Some (vis', cand', res')"
    and ok': "beam_ok dist ef (on_layer h l) (vis', cand', res')" by auto
  have step: "beam_step h dist ef l (vis, cand, res) = Some (Inr (vis', cand', res'))"
    using False c ns(1) v by (auto simp: beam_step_def)
  note prog = visit_all_progress [OF v]
  have sub: "set ns \<subseteq> {..<n}" using ns(2) shared_below [OF sh, of l] by blast
  have "card ({..<r} - vis_set vis') < card ({..<r} - vis_set vis)" if "cand' \<noteq> rest" "n \<le> r" for r
  proof (rule psubset_card_mono)
    have "set ns \<subseteq> {..<r}" using sub that(2) by auto
    then show "{..<r} - vis_set vis' \<subset> {..<r} - vis_set vis" using prog that(1) by blast
  qed simp
  moreover have "card ({..<r} - vis_set vis') \<le> card ({..<r} - vis_set vis)" for r
    using prog by (intro card_mono) auto
  ultimately have "(beam_rank r (vis', cand', res'), beam_rank r (vis, cand, res)) \<in> less_than <*lex*> less_than" if "n \<le> r" for r
    using that c by (cases "cand' = rest") (auto simp: beam_rank_def le_neq_implies_less)
  then show ?thesis using step ok' by blast
qed

lemma beam_vis: "beam_ok dist ef V (vis, cand, res) \<Longrightarrow> vis_inv vis"
  by (simp add: beam_ok_def vis_active_def)

lemma beam_mono: "beam_ok dist ef V st \<Longrightarrow> V \<subseteq> W \<Longrightarrow> beam_ok dist ef W st"
  by (auto simp: beam_ok_def split: prod.splits)

lemma beam_found:
  "beam_ok dist ef V (vis, cand, res) \<Longrightarrow> ids res \<subseteq> V \<and> distinct (map nb_id res) \<and> sorted res \<and> res \<noteq> [] \<and>
     length res \<le> max 1 ef \<and> scored dist res"
  by (auto simp: beam_ok_def)

section \<open>Choosing and rewriting links\<close>

text \<open>A rewritten list may hold duplicates here, so the selection is only bounded.\<close>

lemma select_neighbors_sub:
  assumes "vecs_ok kern vec n" "ids cands \<subseteq> {..<n}"
  shows "\<exists>out. select_neighbors kern vec cands m = Some out \<and> set out \<subseteq> ids cands \<and> length out \<le> m"
proof -
  have e: "ids [] \<subseteq> {..<n}" "length ([] :: neighbor list) \<le> m" by (simp_all add: ids_def)
  obtain sel pr rest where S: "select_loop kern vec m cands [] [] = Some (sel, pr)" "length sel \<le> m"
    "mset (sel @ pr) + mset rest = mset cands"
    using select_loop_spec [OF assms e, of "[]"] by auto
  then have "mset (sel @ pr @ rest) = mset cands" by (simp add: ac_simps)
  then have "set (sel @ pr @ rest) = set cands" by (metis mset_eq_setD)
  then have "set (map nb_id sel @ take (m - length sel) (map nb_id pr)) \<subseteq> ids cands"
    using set_take_subset [of "m - length sel" "map nb_id pr"] by (fastforce simp: ids_def)
  then show ?thesis using S by (simp add: select_neighbors_def top_up_eq)
qed

lemma choose_links_ok:
  assumes "shared_ok vec n k h" "ids found \<subseteq> on_layer h l"
  shows "\<exists>chosen. choose_links h vec i found = Some chosen \<and> set chosen \<subseteq> on_layer h l - {i} \<and>
     length chosen \<le> cfg_m (hn_config h)"
proof -
  let ?cands = "filter (\<lambda>n. nb_id n \<noteq> i) found"
  have c: "ids ?cands \<subseteq> on_layer h l - {i}" using assms(2) by (auto simp: ids_def)
  then have "ids ?cands \<subseteq> {..<n}" using shared_below [OF assms(1), of l] by blast
  moreover have "vecs_ok (hn_kernel h) vec n" using assms(1) by (simp add: shared_ok_def)
  ultimately obtain out where "select_neighbors (hn_kernel h) vec ?cands (cfg_m (hn_config h)) = Some out"
    "set out \<subseteq> ids ?cands" "length out \<le> cfg_m (hn_config h)"
    using select_neighbors_sub by blast
  then show ?thesis using c by (auto simp: choose_links_def)
qed

lemma set_links_slots:
  assumes "set_links h i l ns = Some h'" "slots_ok h"
  shows "slots_ok h'"
proof -
  let ?f = "\<lambda>nd. nd\<lparr>node_links := (node_links nd)[l := ns]\<rparr>"
  obtain nodes where m: "sv_modify (hn_nodes h) i ?f = Some nodes" "h' = h\<lparr>hn_nodes := nodes\<rparr>"
    using assms(1) by (auto simp: set_links_def split: bind_splits)
  from sv_modify_Some [OF m(1)] obtain x where x: "sv_len nodes = sv_len (hn_nodes h)"
    "sv_get_unchecked (hn_nodes h) i = Some x"
    "\<And>j. sv_get_unchecked nodes j = (if j = i then Some (?f x) else sv_get_unchecked (hn_nodes h) j)" by blast
  show ?thesis
    unfolding slots_ok_def
  proof (intro allI impI)
    fix j nd assume "sv_get_unchecked (hn_nodes h') j = Some nd"
    then obtain nd' where "sv_get_unchecked (hn_nodes h) j = Some nd'" "length (node_links nd) = length (node_links nd')"
      using x(2,3) m(2) by (auto split: if_splits)
    then have "node_links nd' \<noteq> [] \<and> j < hnsw_len h" "length (node_links nd) = length (node_links nd')"
      using assms(2) by (auto simp: slots_ok_def)
    then show "node_links nd \<noteq> [] \<and> j < hnsw_len h'" using x(1) m(2) by (auto simp: hnsw_len_def)
  qed
qed

lemma rewrite_shared:
  assumes sh: "shared_ok vec n k h" and j: "links_of h j l = Some cur" and ns: "mutate cur = Some ns"
    and ok: "j \<notin> set ns" "set ns \<subseteq> on_layer h l" "length ns \<le> max_degree h l + cfg_m (hn_config h)"
    and own: "j = i \<or> ns = cur \<or> length ns \<le> max_degree h l"
  shows "\<exists>h'. rewrite_links h j l mutate = Some h' \<and> shared_ok vec n k h' \<and> grows i h h' \<and>
     (\<forall>j' l'. links_of h' j' l' = (if j' = j \<and> l' = l then Some ns else links_of h j' l'))"
proof -
  have "j \<in> on_layer h l" using j by (simp add: on_layer_def)
  from set_links_spec [OF this, of ns] obtain h' where H: "set_links h j l ns = Some h'" "same_shape h h'"
    "\<forall>j' l'. links_of h' j' l' = (if j' = j \<and> l' = l then Some ns else links_of h j' l')" by blast
  have s: "hn_config h' = hn_config h" "hn_kernel h' = hn_kernel h" "hn_entry h' = hn_entry h"
    "\<And>l. on_layer h' l = on_layer h l" using H(2) by (simp_all add: same_shape_def)
  have "max_degree h' l' = max_degree h l'" for l' by (rule same_shape_max_degree [OF H(2)])
  moreover have "slots_ok h'" using set_links_slots [OF H(1)] sh by (simp add: shared_ok_def)
  moreover have "hnsw_len h' = hnsw_len h" using H(2) by (simp add: same_shape_def)
  ultimately have "shared_ok vec n k h'" using sh ok s H(3) unfolding shared_ok_def by auto
  moreover have "grows i h h'" using own s H(3) j by (auto simp: grows_def)
  ultimately show ?thesis using H(1,3) j ns by (auto simp: rewrite_links_def)
qed

lemma own_links_ok:
  assumes sh: "shared_ok vec n k h" and i: "i \<in> on_layer h l"
    and short: "\<And>ns. links_of h i l = Some ns \<Longrightarrow> length ns \<le> max_degree h l"
    and c: "set chosen \<subseteq> on_layer h l - {i}" "length chosen \<le> cfg_m (hn_config h)"
  shows "\<exists>h'. rewrite_links h i l (add_own_links chosen) = Some h' \<and> shared_ok vec n k h' \<and> grows i h h' \<and>
     (\<forall>l'. l' \<noteq> l \<longrightarrow> links_of h' i l' = links_of h i l')"
proof -
  obtain cur where cur: "links_of h i l = Some cur" using i by (auto simp: on_layer_def)
  then have k: "i \<notin> set cur" "set cur \<subseteq> on_layer h l" "length cur \<le> max_degree h l"
    using sh short by (auto simp: shared_ok_def)
  let ?ns = "remdups_adj (cur @ chosen)"
  have 1: "add_own_links chosen cur = Some ?ns" by (simp add: add_own_links_def)
  have 2: "i \<notin> set ?ns" "set ?ns \<subseteq> on_layer h l" using k c by auto
  have "length ?ns \<le> length (cur @ chosen)" by (rule remdups_adj_length)
  then have 3: "length ?ns \<le> max_degree h l + cfg_m (hn_config h)" using k(3) c(2) by simp
  from rewrite_shared [where i = i and mutate = "add_own_links chosen", OF sh cur 1 2 3] show ?thesis by auto
qed

lemma back_link_ok:
  assumes sh: "shared_ok vec n k h" and i: "i \<in> on_layer h l" and nb: "nb \<in> on_layer h l" "nb \<noteq> i"
  shows "\<exists>h'. rewrite_links h nb l (add_back_link (hn_kernel h) vec i nb (max_degree h l)) = Some h' \<and>
     shared_ok vec n k h' \<and> grows i h h' \<and> (\<forall>l'. links_of h' i l' = links_of h i l')"
proof -
  obtain cur where cur: "links_of h nb l = Some cur" using nb by (auto simp: on_layer_def)
  then have k: "nb \<notin> set cur" "set cur \<subseteq> on_layer h l" "length cur \<le> max_degree h l + cfg_m (hn_config h)"
    using sh by (auto simp: shared_ok_def)
  have v: "vecs_ok (hn_kernel h) vec n" using sh by (simp add: shared_ok_def)
  have "\<exists>ns. add_back_link (hn_kernel h) vec i nb (max_degree h l) cur = Some ns \<and> set ns \<subseteq> insert i (set cur) \<and>
     (ns = cur \<or> length ns \<le> max_degree h l)"
  proof (cases "i \<in> set cur \<or> length cur < max_degree h l")
    case True
    then show ?thesis by (auto simp: add_back_link_def Let_def)
  next
    case False
    have n: "nb < n" "set (cur @ [i]) \<subseteq> {..<n}" using nb(1) i k(2) shared_below [OF sh, of l] by auto
    obtain base where base: "vec nb = Some base" using vecs_ok_vec [OF v n(1)] ..
    obtain cs where cs: "score (hn_kernel h) vec base (cur @ [i]) = Some cs" "map nb_id cs = cur @ [i]"
      using score_spec [OF v n(1) base n(2)] by blast
    have idc: "ids (sort cs) = set (cur @ [i])" using cs(2) by (metis ids_def set_map set_sort)
    then obtain out where "select_neighbors (hn_kernel h) vec (sort cs) (max_degree h l) = Some out"
      "set out \<subseteq> set (cur @ [i])" "length out \<le> max_degree h l"
      using select_neighbors_sub [OF v, of "sort cs" "max_degree h l"] n(2) by auto
    then show ?thesis using False base cs(1) by (auto simp: add_back_link_def Let_def)
  qed
  then obtain ns where N: "add_back_link (hn_kernel h) vec i nb (max_degree h l) cur = Some ns"
    "set ns \<subseteq> insert i (set cur)" "ns = cur \<or> length ns \<le> max_degree h l" by blast
  have 2: "nb \<notin> set ns" "set ns \<subseteq> on_layer h l" using N(2) k nb i by auto
  have 3: "length ns \<le> max_degree h l + cfg_m (hn_config h)" using N(3) k(3) by auto
  from rewrite_shared [where i = i and mutate = "add_back_link (hn_kernel h) vec i nb (max_degree h l)",
      OF sh cur N(1) 2 3] N(3) nb(2)
  show ?thesis by auto
qed

section \<open>Inserting threads\<close>

definition layers_ok :: "nat \<Rightarrow> nat list \<Rightarrow> bool" where
  "layers_ok level ls \<longleftrightarrow> sorted_wrt (>) ls \<and> (\<forall>l \<in> set ls. l \<le> level)"

text \<open>The layers on which the thread has not yet added its own links.\<close>

primrec owed :: "insert_pc \<Rightarrow> nat set" where
  "owed Publish = UNIV"
| "owed Check_Entry = UNIV"
| "owed Claim_Entry = UNIV"
| "owed Load_Entry = UNIV"
| "owed (Descend upper ls ep best) = UNIV"
| "owed (Start_Layer upper ls ep) = set ls"
| "owed (Beam upper l ls ep cand res) = insert l (set ls)"
| "owed (Own_Links upper l ls ep chosen) = insert l (set ls)"
| "owed (Back_Links upper l ls ep todo) = set ls"
| "owed (Raise_Entry upper) = {}"
| "owed Inserted = {}"

primrec pc_ok :: "hnsw \<Rightarrow> dist_fun \<Rightarrow> nat \<Rightarrow> nat \<Rightarrow> visited \<Rightarrow> insert_pc \<Rightarrow> bool" where
  "pc_ok h dist i level vis Publish = (vis_inv vis \<and> i \<notin> on_layer h 0)"
| "pc_ok h dist i level vis Check_Entry = (vis_inv vis \<and> i \<in> on_layer h level)"
| "pc_ok h dist i level vis Claim_Entry = (vis_inv vis \<and> i \<in> on_layer h level)"
| "pc_ok h dist i level vis Load_Entry = (vis_inv vis \<and> i \<in> on_layer h level \<and> hn_entry h \<noteq> entry_none)"
| "pc_ok h dist i level vis (Descend upper ls ep best) =
     (vis_inv vis \<and> i \<in> on_layer h level \<and> sorted_wrt (>) ls \<and> (\<forall>l \<in> set ls. level < l) \<and>
      dist ep = Some best \<and> ep \<in> on_layer h (if ls = [] then min level upper else hd ls))"
| "pc_ok h dist i level vis (Start_Layer upper ls ep) =
     (vis_inv vis \<and> i \<in> on_layer h level \<and> layers_ok level ls \<and> (ls \<noteq> [] \<longrightarrow> ep \<in> on_layer h (hd ls)))"
| "pc_ok h dist i level vis (Beam upper l ls ep cand res) =
     (i \<in> on_layer h level \<and> layers_ok level (l # ls) \<and>
      beam_ok dist (cfg_ef_construction (hn_config h)) (on_layer h l) (vis, cand, res))"
| "pc_ok h dist i level vis (Own_Links upper l ls ep chosen) =
     (vis_inv vis \<and> i \<in> on_layer h level \<and> layers_ok level (l # ls) \<and> ep \<in> on_layer h l \<and>
      set chosen \<subseteq> on_layer h l - {i} \<and> length chosen \<le> cfg_m (hn_config h))"
| "pc_ok h dist i level vis (Back_Links upper l ls ep todo) =
     (vis_inv vis \<and> i \<in> on_layer h level \<and> layers_ok level (l # ls) \<and> ep \<in> on_layer h l \<and>
      set todo \<subseteq> on_layer h l - {i})"
| "pc_ok h dist i level vis (Raise_Entry upper) = (vis_inv vis \<and> i \<in> on_layer h level)"
| "pc_ok h dist i level vis Inserted = (vis_inv vis \<and> i \<in> on_layer h level)"

definition inserter_ok :: "vec_fun \<Rightarrow> nat \<Rightarrow> hnsw \<Rightarrow> inserter \<Rightarrow> bool" where
  "inserter_ok vec n h t \<longleftrightarrow>
     in_id t < n \<and> in_level t < 256 \<and>
     (\<forall>l \<in> owed (in_pc t). \<forall>ns. links_of h (in_id t) l = Some ns \<longrightarrow> length ns \<le> max_degree h l) \<and>
     pc_ok h (insert_dist (hn_kernel h) vec (in_id t)) (in_id t) (in_level t) (in_vis t) (in_pc t)"

type_synonym rank = "nat \<times> nat \<times> nat \<times> nat \<times> nat"

primrec insert_rank :: "nat \<Rightarrow> visited \<Rightarrow> insert_pc \<Rightarrow> rank" where
  "insert_rank n vis Publish = (7, 0, 0, 0, 0)"
| "insert_rank n vis Check_Entry = (6, 0, 0, 0, 0)"
| "insert_rank n vis Claim_Entry = (5, 0, 0, 0, 0)"
| "insert_rank n vis Load_Entry = (4, 0, 0, 0, 0)"
| "insert_rank n vis (Descend upper ls ep best) = (3, length ls, 0, card {y. f32_lt y best}, 0)"
| "insert_rank n vis (Start_Layer upper ls ep) = (2, length ls, 3, 0, 0)"
| "insert_rank n vis (Beam upper l ls ep cand res) = (2, Suc (length ls), 2, beam_rank n (vis, cand, res))"
| "insert_rank n vis (Own_Links upper l ls ep chosen) = (2, Suc (length ls), 1, 0, 0)"
| "insert_rank n vis (Back_Links upper l ls ep todo) = (2, Suc (length ls), 0, length todo, 0)"
| "insert_rank n vis (Raise_Entry upper) = (1, 0, 0, 0, 0)"
| "insert_rank n vis Inserted = (0, 0, 0, 0, 0)"

definition rank_less :: "(rank \<times> rank) set" where
  "rank_less = less_than <*lex*> less_than <*lex*> less_than <*lex*> less_than <*lex*> less_than"

lemma wf_rank_less: "wf rank_less"
  by (simp add: rank_less_def wf_lex_prod)

text \<open>All that a step of an inserting thread has to do for itself and for the others.\<close>

definition good_step :: "vec_fun \<Rightarrow> nat \<Rightarrow> nat \<Rightarrow> hnsw \<Rightarrow> inserter \<Rightarrow> bool" where
  "good_step vec n k h t \<longleftrightarrow>
     (\<exists>h' t'. insert_step vec h t = Some (h', t') \<and> shared_ok vec n k h' \<and> inserter_ok vec n h' t' \<and>
        grows (in_id t) h h' \<and> in_id t' = in_id t \<and>
        (\<forall>r \<ge> n. (insert_rank r (in_vis t') (in_pc t'), insert_rank r (in_vis t) (in_pc t)) \<in> rank_less))"

lemma good_stepI:
  assumes "insert_step vec h t = Some (h', t')" "shared_ok vec n k h'" "inserter_ok vec n h' t'"
    "grows (in_id t) h h'" "in_id t' = in_id t"
    "\<And>r. n \<le> r \<Longrightarrow> (insert_rank r (in_vis t') (in_pc t'), insert_rank r (in_vis t) (in_pc t)) \<in> rank_less"
  shows "good_step vec n k h t"
  using assms unfolding good_step_def by blast

text \<open>A step that leaves the index alone.\<close>

lemma good_step_local:
  assumes "shared_ok vec n k h" "inserter_ok vec n h t"
    "insert_step vec h t = Some (h, t\<lparr>in_vis := vis', in_pc := pc'\<rparr>)"
    "pc_ok h (insert_dist (hn_kernel h) vec (in_id t)) (in_id t) (in_level t) vis' pc'"
    "owed pc' \<subseteq> owed (in_pc t)"
    "\<And>r. n \<le> r \<Longrightarrow> (insert_rank r vis' pc', insert_rank r (in_vis t) (in_pc t)) \<in> rank_less"
  shows "good_step vec n k h t"
  by (rule good_stepI [OF assms(3) assms(1)]) (use assms in \<open>auto simp: inserter_ok_def\<close>)

lemma insert_dist_total:
  assumes "shared_ok vec n k h" "i < n"
  shows "total_on (insert_dist (hn_kernel h) vec i) {..<n}"
proof -
  have v: "vecs_ok (hn_kernel h) vec n" using assms(1) by (simp add: shared_ok_def)
  obtain q where q: "vec i = Some q" using vecs_ok_vec [OF v assms(2)] ..
  show ?thesis using vecs_ok_total [OF v assms(2) q] by (simp add: total_on_def insert_dist_def q)
qed

lemma good_step_goto:
  assumes "shared_ok vec n k h" "inserter_ok vec n h t" "insert_step vec h t = Some (h, t\<lparr>in_pc := pc'\<rparr>)"
    "pc_ok h (insert_dist (hn_kernel h) vec (in_id t)) (in_id t) (in_level t) (in_vis t) pc'"
    "owed pc' \<subseteq> owed (in_pc t)"
    "\<And>r. n \<le> r \<Longrightarrow> (insert_rank r (in_vis t) pc', insert_rank r (in_vis t) (in_pc t)) \<in> rank_less"
  shows "good_step vec n k h t"
  by (rule good_stepI [OF assms(3) assms(1)]) (use assms in \<open>auto simp: inserter_ok_def\<close>)

text \<open>A step that rewrites one list.\<close>

lemma good_step_rewrite:
  assumes ok: "inserter_ok vec n h t" and st: "insert_step vec h t = Some (h', t\<lparr>in_pc := pc'\<rparr>)"
    and sh: "shared_ok vec n k h'" and g: "grows (in_id t) h h'"
    and same: "\<And>l. l \<in> owed pc' \<Longrightarrow> l \<in> owed (in_pc t) \<and> links_of h' (in_id t) l = links_of h (in_id t) l"
    and pc: "pc_ok h' (insert_dist (hn_kernel h) vec (in_id t)) (in_id t) (in_level t) (in_vis t) pc'"
    and r: "\<And>r. n \<le> r \<Longrightarrow> (insert_rank r (in_vis t) pc', insert_rank r (in_vis t) (in_pc t)) \<in> rank_less"
  shows "good_step vec n k h t"
proof (rule good_stepI [OF st sh _ g])
  have k: "hn_kernel h' = hn_kernel h" "max_degree h' l = max_degree h l" for l
    using grows_fixed [OF g] by simp_all
  show "inserter_ok vec n h' (t\<lparr>in_pc := pc'\<rparr>)"
    unfolding inserter_ok_def
  proof (intro conjI ballI allI impI)
    fix l ns assume "l \<in> owed (in_pc (t\<lparr>in_pc := pc'\<rparr>))"
      and "links_of h' (in_id (t\<lparr>in_pc := pc'\<rparr>)) l = Some ns"
    then have "l \<in> owed (in_pc t)" "links_of h (in_id t) l = Some ns" using same [of l] by auto
    then show "length ns \<le> max_degree h' l" using ok by (simp add: inserter_ok_def k)
  qed (use ok pc k(1) in \<open>simp_all add: inserter_ok_def\<close>)
qed (use r in simp_all)

lemma publish_good:
  assumes sh: "shared_ok vec n k h" and ok: "inserter_ok vec n h t" and pc: "in_pc t = Publish"
  shows "good_step vec n k h t"
proof -
  let ?i = "in_id t" and ?level = "in_level t"
  have i: "?i < n" "?i \<notin> on_layer h 0" "vis_inv (in_vis t)" using ok pc by (simp_all add: inserter_ok_def)
  have fresh: "links_of h ?i l = None" for l
    using i(2) on_layer_antimono [of 0 l h] by (auto simp: on_layer_def)
  have "vecs_ok (hn_kernel h) vec n" using sh by (simp add: shared_ok_def)
  then obtain q where q: "vec ?i = Some q" using vecs_ok_vec i(1) by blast
  have "?i < sv_capacity" using sh i(1) by (simp add: shared_ok_def)
  from sv_set_ok [OF this, of "hn_nodes h" "node_new ?level"] obtain nodes
    where s: "sv_set (hn_nodes h) ?i (node_new ?level) = Some nodes" ..
  let ?h = "h\<lparr>hn_nodes := nodes\<rparr>"
  have links: "links_of ?h j l = (if j = ?i then (if l \<le> ?level then Some [] else None) else links_of h j l)" for j l
    using sv_get_set [OF s, of j] by (auto simp: links_of_def node_new_def less_Suc_eq_le simp del: replicate_Suc)
  then have on: "on_layer ?h l = on_layer h l \<union> (if l \<le> ?level then {?i} else {})" for l
    using fresh by (auto simp: on_layer_def)
  have md: "max_degree ?h l = max_degree h l" for l by (simp add: max_degree_def)
  have "j \<notin> set ns \<and> set ns \<subseteq> on_layer ?h l \<and> length ns \<le> max_degree ?h l + cfg_m (hn_config ?h)"
    if "links_of ?h j l = Some ns" for j l ns
  proof (cases "j = ?i")
    case True
    then show ?thesis using that links [of j l] by (simp split: if_splits)
  next
    case False
    then have "links_of h j l = Some ns" using that links [of j l] by simp
    then have "j \<notin> set ns \<and> set ns \<subseteq> on_layer h l \<and> length ns \<le> max_degree h l + cfg_m (hn_config h)"
      using sh by (simp add: shared_ok_def)
    then show ?thesis using on [of l] md by auto
  qed
  moreover have "on_layer ?h l \<subseteq> {..<n}" for l using shared_below [OF sh, of l] on [of l] i(1) by auto
  moreover have "\<exists>e l. hn_entry ?h = pack_entry e l \<and> l < 256 \<and> e \<in> on_layer ?h l" if "hn_entry ?h \<noteq> entry_none"
    using sh that on unfolding shared_ok_def by (metis (no_types) UnI1 hnsw.select_convs(4) hnsw.surjective hnsw.update_convs(3))
  moreover have "slots_ok ?h"
    unfolding slots_ok_def
  proof (intro allI impI)
    fix j nd assume "sv_get_unchecked (hn_nodes ?h) j = Some nd"
    then have "j = ?i \<and> nd = node_new ?level \<or> sv_get_unchecked (hn_nodes h) j = Some nd"
      using sv_get_set [OF s, of j] by (auto split: if_splits)
    moreover have "slots_ok h" using sh by (simp add: shared_ok_def)
    ultimately show "node_links nd \<noteq> [] \<and> j < hnsw_len ?h"
      using sv_len_set [OF s] by (auto simp: slots_ok_def hnsw_len_def node_new_def less_max_iff_disj)
  qed
  moreover have "hnsw_len ?h \<le> n" using sh i(1) sv_len_set [OF s] by (simp add: shared_ok_def hnsw_len_def)
  moreover have "{..<k} \<subseteq> on_layer ?h 0" using sh on by (auto simp: shared_ok_def)
  ultimately have sh': "shared_ok vec n k ?h" using sh unfolding shared_ok_def by simp
  have st: "insert_step vec h t = Some (?h, t\<lparr>in_pc := Check_Entry\<rparr>)"
    using pc q s by (simp add: insert_step_def)
  have g: "grows ?i h ?h" using on links by (auto simp: grows_def split: if_splits)
  have ok': "inserter_ok vec n ?h (t\<lparr>in_pc := Check_Entry\<rparr>)"
    using ok i on links by (auto simp: inserter_ok_def)
  show ?thesis by (rule good_stepI [OF st sh' ok' g]) (simp_all add: pc rank_less_def)
qed

lemma check_good:
  assumes sh: "shared_ok vec n k h" and ok: "inserter_ok vec n h t" and pc: "in_pc t = Check_Entry"
  shows "good_step vec n k h t"
  by (rule good_step_goto [OF sh ok])
    (use pc ok in \<open>auto simp: insert_step_def inserter_ok_def rank_less_def\<close>)

lemma claim_good:
  assumes sh: "shared_ok vec n k h" and ok: "inserter_ok vec n h t" and pc: "in_pc t = Claim_Entry"
  shows "good_step vec n k h t"
proof (cases "hn_entry h = entry_none")
  case True
  let ?e = "pack_entry (in_id t) (in_level t)"
  let ?h = "h\<lparr>hn_entry := ?e\<rparr>"
  have t: "in_id t \<in> on_layer h (in_level t)" "in_level t < 256" "in_id t < n"
    using ok pc by (simp_all add: inserter_ok_def)
  have "n \<le> sv_capacity" using sh by (simp add: shared_ok_def)
  then have "?e \<noteq> entry_none" using t sv_capacity_less pack_not_none [of "in_id t" "in_level t"] by simp
  then have sh': "shared_ok vec n k ?h" and g: "grows (in_id t) h ?h"
    using sh t by (auto simp: shared_ok_def slots_ok_def grows_def)
  have st: "insert_step vec h t = Some (?h, t\<lparr>in_pc := Inserted\<rparr>)"
    using pc True by (simp add: insert_step_def)
  have ok': "inserter_ok vec n ?h (t\<lparr>in_pc := Inserted\<rparr>)"
    using ok t pc by (simp add: inserter_ok_def)
  show ?thesis by (rule good_stepI [OF st sh' ok' g]) (simp_all add: pc rank_less_def)
next
  case False
  show ?thesis
    by (rule good_step_goto [OF sh ok])
      (use pc ok False in \<open>auto simp: insert_step_def inserter_ok_def rank_less_def\<close>)
qed

lemma load_good:
  assumes sh: "shared_ok vec n k h" and ok: "inserter_ok vec n h t" and pc: "in_pc t = Load_Entry"
  shows "good_step vec n k h t"
proof -
  let ?dist = "insert_dist (hn_kernel h) vec (in_id t)" and ?level = "in_level t"
  have e: "hn_entry h \<noteq> entry_none" using ok pc by (simp add: inserter_ok_def)
  obtain e l where E: "unpack_entry (hn_entry h) = (e, l)" "e \<in> on_layer h l" "l < 256"
    by (rule shared_entry [OF sh e])
  have "total_on ?dist {..<n}" using insert_dist_total [OF sh] ok by (simp add: inserter_ok_def)
  then obtain d where d: "?dist e = Some d" using E(2) shared_below [OF sh, of l] by (auto simp: total_on_def)
  let ?ls = "rev [?level + 1..<l + 1]"
  have "e \<in> on_layer h (if ?ls = [] then min ?level l else hd ?ls)"
  proof (cases "?level < l")
    case True
    then show ?thesis using E(2) by simp
  next
    case False
    then show ?thesis using E(2) by (simp add: min_def del: upt_Suc)
  qed
  then have pc': "pc_ok h ?dist (in_id t) ?level (in_vis t) (Descend l ?ls e d)"
    using ok pc d rev_upt_sorted [of "?level + 1" "l + 1"] unfolding pc_ok.simps inserter_ok_def by auto
  have st: "insert_step vec h t = Some (h, t\<lparr>in_pc := Descend l ?ls e d\<rparr>)"
    by (simp add: insert_step_def pc E(1) d)
  show ?thesis by (rule good_step_goto [OF sh ok st pc']) (simp_all add: pc rank_less_def)
qed

lemma card_below: "f32_lt d' d \<Longrightarrow> card {y. f32_lt y d'} < card {y. f32_lt y d}"
proof (rule psubset_card_mono)
  assume "f32_lt d' d"
  then show "{y. f32_lt y d'} \<subset> {y. f32_lt y d}" using f32_lt_trans f32_lt_irrefl by blast
qed simp

lemma hd_layer_below: "sorted_wrt (>) (l # ls) \<Longrightarrow> (ls :: nat list) \<noteq> [] \<Longrightarrow> hd ls \<le> l"
  by (cases ls) auto

lemma descend_good:
  assumes sh: "shared_ok vec n k h" and ok: "inserter_ok vec n h t" and pc: "in_pc t = Descend u ls ep best"
  shows "good_step vec n k h t"
proof (cases ls)
  case Nil
  let ?ls = "rev [0..<min (in_level t) u + 1]"
  have "layers_ok (in_level t) ?ls" "hd ?ls = min (in_level t) u"
    using rev_upt_sorted [of 0 "min (in_level t) u + 1"] by (auto simp: layers_ok_def)
  then have pc': "pc_ok h (insert_dist (hn_kernel h) vec (in_id t)) (in_id t) (in_level t) (in_vis t)
      (Start_Layer u ?ls ep)"
    using ok unfolding inserter_ok_def pc pc_ok.simps Nil by auto
  have st: "insert_step vec h t = Some (h, t\<lparr>in_pc := Start_Layer u ?ls ep\<rparr>)"
    by (simp add: insert_step_def Let_def pc Nil)
  show ?thesis by (rule good_step_goto [OF sh ok st pc']) (simp_all add: pc rank_less_def)
next
  case (Cons l ls')
  let ?dist = "insert_dist (hn_kernel h) vec (in_id t)"
  have P: "vis_inv (in_vis t)" "in_id t \<in> on_layer h (in_level t)" "sorted_wrt (>) (l # ls')"
    "\<forall>x \<in> set (l # ls'). in_level t < x" "?dist ep = Some best" "ep \<in> on_layer h l" "in_id t < n"
    using ok pc Cons by (simp_all add: inserter_ok_def)
  obtain ep' d' imp where D: "descend_step h ?dist l ep best = Some (ep', d', imp)" "ep' \<in> on_layer h l"
    "?dist ep' = Some d'" "imp \<longrightarrow> f32_lt d' best"
    using descend_step_ok [OF sh insert_dist_total [OF sh P(7)] P(6,5)] by blast
  let ?pc = "Descend u (if imp then l # ls' else ls') ep' d'"
  have st: "insert_step vec h t = Some (h, t\<lparr>in_pc := ?pc\<rparr>)"
    by (simp add: insert_step_def pc Cons D(1))
  have "ep' \<in> on_layer h (if ls' = [] then min (in_level t) u else hd ls')"
  proof -
    have "(if ls' = [] then min (in_level t) u else hd ls') \<le> l"
      using P(4) hd_layer_below [OF P(3)] by auto
    then show ?thesis using on_layer_antimono D(2) by blast
  qed
  then have pc': "pc_ok h ?dist (in_id t) (in_level t) (in_vis t) ?pc" using P D by auto
  show ?thesis
    by (rule good_step_goto [OF sh ok st pc']) (use D(4) card_below in \<open>auto simp: pc Cons rank_less_def\<close>)
qed

lemma start_good:
  assumes sh: "shared_ok vec n k h" and ok: "inserter_ok vec n h t" and pc: "in_pc t = Start_Layer u ls ep"
  shows "good_step vec n k h t"
proof (cases ls)
  case Nil
  show ?thesis
    by (rule good_step_goto [OF sh ok, where pc' = "Raise_Entry u"])
      (use pc ok Nil in \<open>simp_all add: insert_step_def inserter_ok_def rank_less_def\<close>)
next
  case (Cons l ls')
  let ?dist = "insert_dist (hn_kernel h) vec (in_id t)"
  have P: "vis_inv (in_vis t)" "in_id t \<in> on_layer h (in_level t)" "layers_ok (in_level t) (l # ls')"
    "ep \<in> on_layer h l" "in_id t < n"
    using ok pc Cons by (simp_all add: inserter_ok_def)
  obtain vis' cand res where B: "beam_start h ?dist (in_vis t) ep = Some (vis', cand, res)"
    "beam_ok ?dist (cfg_ef_construction (hn_config h)) (on_layer h l) (vis', cand, res)"
    using beam_start_ok [OF P(1,4) shared_total [OF sh insert_dist_total [OF sh P(5)]],
        of "cfg_ef_construction (hn_config h)"] by auto
  have st: "insert_step vec h t = Some (h, t\<lparr>in_vis := vis', in_pc := Beam u l ls' ep cand res\<rparr>)"
    by (simp add: insert_step_def pc Cons B(1))
  show ?thesis
    by (rule good_step_local [OF sh ok st]) (use P B(2) in \<open>auto simp: pc Cons rank_less_def\<close>)
qed

lemma beam_good:
  assumes sh: "shared_ok vec n k h" and ok: "inserter_ok vec n h t" and pc: "in_pc t = Beam u l ls ep cand res"
  shows "good_step vec n k h t"
proof -
  let ?dist = "insert_dist (hn_kernel h) vec (in_id t)" and ?ef = "cfg_ef_construction (hn_config h)"
  have P: "in_id t \<in> on_layer h (in_level t)" "layers_ok (in_level t) (l # ls)" "in_id t < n"
    "beam_ok ?dist ?ef (on_layer h l) (in_vis t, cand, res)"
    using ok pc by (simp_all add: inserter_ok_def)
  from beam_step_ok [OF sh insert_dist_total [OF sh P(3)] P(4)]
  show ?thesis
  proof
    assume r: "beam_step h ?dist ?ef l (in_vis t, cand, res) = Some (Inl res)"
    have F: "ids res \<subseteq> on_layer h l" "res \<noteq> []" using beam_found [OF P(4)] by simp_all
    obtain chosen where C: "choose_links h vec (in_id t) res = Some chosen" "set chosen \<subseteq> on_layer h l - {in_id t}"
      "length chosen \<le> cfg_m (hn_config h)"
      using choose_links_ok [OF sh F(1)] by blast
    let ?pc = "Own_Links u l ls (case res of [] \<Rightarrow> ep | n # _ \<Rightarrow> nb_id n) chosen"
    have st: "insert_step vec h t = Some (h, t\<lparr>in_pc := ?pc\<rparr>)"
      by (simp add: insert_step_def pc r C(1))
    have "(case res of [] \<Rightarrow> ep | n # _ \<Rightarrow> nb_id n) \<in> on_layer h l" using F by (cases res) (auto simp: ids_def)
    then have pc': "pc_ok h ?dist (in_id t) (in_level t) (in_vis t) ?pc"
      using P C beam_vis [OF P(4)] by simp
    show ?thesis by (rule good_step_goto [OF sh ok st pc']) (simp_all add: pc rank_less_def)
  next
    assume "\<exists>st. beam_step h ?dist ?ef l (in_vis t, cand, res) = Some (Inr st) \<and> beam_ok ?dist ?ef (on_layer h l) st \<and>
        (\<forall>r \<ge> n. (beam_rank r st, beam_rank r (in_vis t, cand, res)) \<in> less_than <*lex*> less_than)"
    then obtain vis' cand' res' where B: "beam_step h ?dist ?ef l (in_vis t, cand, res) = Some (Inr (vis', cand', res'))"
      "beam_ok ?dist ?ef (on_layer h l) (vis', cand', res')"
      "\<And>r. n \<le> r \<Longrightarrow> (beam_rank r (vis', cand', res'), beam_rank r (in_vis t, cand, res)) \<in> less_than <*lex*> less_than"
      by auto
    have st: "insert_step vec h t = Some (h, t\<lparr>in_vis := vis', in_pc := Beam u l ls ep cand' res'\<rparr>)"
      by (simp add: insert_step_def pc B(1))
    show ?thesis
      by (rule good_step_local [OF sh ok st]) (use P B(2,3) in \<open>auto simp: pc rank_less_def beam_rank_def\<close>)
  qed
qed

lemma own_good:
  assumes sh: "shared_ok vec n k h" and ok: "inserter_ok vec n h t" and pc: "in_pc t = Own_Links u l ls ep chosen"
  shows "good_step vec n k h t"
proof -
  have P: "vis_inv (in_vis t)" "in_id t \<in> on_layer h (in_level t)" "layers_ok (in_level t) (l # ls)"
    "ep \<in> on_layer h l" "set chosen \<subseteq> on_layer h l - {in_id t}" "length chosen \<le> cfg_m (hn_config h)"
    "\<And>ns. links_of h (in_id t) l = Some ns \<Longrightarrow> length ns \<le> max_degree h l"
    using ok pc by (simp_all add: inserter_ok_def)
  have i: "in_id t \<in> on_layer h l" using P(2,3) on_layer_antimono by (auto simp: layers_ok_def)
  obtain h' where H: "rewrite_links h (in_id t) l (add_own_links chosen) = Some h'" "shared_ok vec n k h'"
    "grows (in_id t) h h'" "\<forall>l'. l' \<noteq> l \<longrightarrow> links_of h' (in_id t) l' = links_of h (in_id t) l'"
    using own_links_ok [OF sh i P(7,5,6)] by blast
  let ?pc = "Back_Links u l ls ep chosen"
  have st: "insert_step vec h t = Some (h', t\<lparr>in_pc := ?pc\<rparr>)" by (simp add: insert_step_def pc H(1))
  show ?thesis
  proof (rule good_step_rewrite [OF ok st H(2,3)])
    fix l' assume "l' \<in> owed ?pc"
    then have "l' \<noteq> l" using P(3) by (auto simp: layers_ok_def)
    then show "l' \<in> owed (in_pc t) \<and> links_of h' (in_id t) l' = links_of h (in_id t) l'"
      using \<open>l' \<in> owed ?pc\<close> H(4) by (simp add: pc)
  next
    show "pc_ok h' (insert_dist (hn_kernel h) vec (in_id t)) (in_id t) (in_level t) (in_vis t) ?pc"
      using P grows_layer [OF H(3)] by auto
  qed (simp add: pc rank_less_def)
qed

lemma back_good:
  assumes sh: "shared_ok vec n k h" and ok: "inserter_ok vec n h t" and pc: "in_pc t = Back_Links u l ls ep todo"
  shows "good_step vec n k h t"
proof -
  have P: "vis_inv (in_vis t)" "in_id t \<in> on_layer h (in_level t)" "layers_ok (in_level t) (l # ls)"
    "ep \<in> on_layer h l" "set todo \<subseteq> on_layer h l - {in_id t}"
    using ok pc by (simp_all add: inserter_ok_def)
  show ?thesis
  proof (cases todo)
    case Nil
    let ?pc = "Start_Layer u ls ep"
    have st: "insert_step vec h t = Some (h, t\<lparr>in_pc := ?pc\<rparr>)" by (simp add: insert_step_def pc Nil)
    have "ls \<noteq> [] \<longrightarrow> ep \<in> on_layer h (hd ls)"
      using P(3,4) hd_layer_below [of l ls] on_layer_antimono by (auto simp: layers_ok_def)
    then have pc': "pc_ok h (insert_dist (hn_kernel h) vec (in_id t)) (in_id t) (in_level t) (in_vis t) ?pc"
      using P by (simp add: layers_ok_def)
    show ?thesis by (rule good_step_goto [OF sh ok st pc']) (simp_all add: pc rank_less_def)
  next
    case (Cons nb todo')
    have i: "in_id t \<in> on_layer h l" using P(2,3) on_layer_antimono by (auto simp: layers_ok_def)
    have nb: "nb \<in> on_layer h l" "nb \<noteq> in_id t" using P(5) Cons by auto
    obtain h' where H: "rewrite_links h nb l (add_back_link (hn_kernel h) vec (in_id t) nb (max_degree h l)) = Some h'"
      "shared_ok vec n k h'" "grows (in_id t) h h'" "\<forall>l'. links_of h' (in_id t) l' = links_of h (in_id t) l'"
      using back_link_ok [OF sh i nb] by blast
    let ?pc = "Back_Links u l ls ep todo'"
    have st: "insert_step vec h t = Some (h', t\<lparr>in_pc := ?pc\<rparr>)" by (simp add: insert_step_def pc Cons H(1))
    show ?thesis
    proof (rule good_step_rewrite [OF ok st H(2,3)])
      show "pc_ok h' (insert_dist (hn_kernel h) vec (in_id t)) (in_id t) (in_level t) (in_vis t) ?pc"
        using P Cons grows_layer [OF H(3)] by auto
    qed (use H(4) in \<open>simp_all add: pc Cons rank_less_def\<close>)
  qed
qed

lemma raise_good:
  assumes sh: "shared_ok vec n k h" and ok: "inserter_ok vec n h t" and pc: "in_pc t = Raise_Entry u"
  shows "good_step vec n k h t"
proof -
  let ?h = "raise_entry h (in_id t) (in_level t) u"
  have t: "in_id t \<in> on_layer h (in_level t)" "in_level t < 256" "in_id t < n"
    using ok pc by (simp_all add: inserter_ok_def)
  have "n \<le> sv_capacity" using sh by (simp add: shared_ok_def)
  then have "pack_entry (in_id t) (in_level t) \<noteq> entry_none"
    using t sv_capacity_less pack_not_none [of "in_id t" "in_level t"] by simp
  then have sh': "shared_ok vec n k ?h" and g: "grows (in_id t) h ?h"
    using sh t by (auto simp: shared_ok_def slots_ok_def grows_def raise_entry_def)
  have st: "insert_step vec h t = Some (?h, t\<lparr>in_pc := Inserted\<rparr>)" by (simp add: insert_step_def pc)
  have ok': "inserter_ok vec n ?h (t\<lparr>in_pc := Inserted\<rparr>)"
    using ok t pc by (simp add: inserter_ok_def raise_entry_def)
  show ?thesis by (rule good_stepI [OF st sh' ok' g]) (simp_all add: pc rank_less_def)
qed

lemma insert_step_good:
  assumes "shared_ok vec n k h" "inserter_ok vec n h t" "in_pc t \<noteq> Inserted"
  shows "good_step vec n k h t"
proof (cases "in_pc t")
  case Publish then show ?thesis by (rule publish_good [OF assms(1,2)])
next
  case Check_Entry then show ?thesis by (rule check_good [OF assms(1,2)])
next
  case Claim_Entry then show ?thesis by (rule claim_good [OF assms(1,2)])
next
  case Load_Entry then show ?thesis by (rule load_good [OF assms(1,2)])
next
  case Descend then show ?thesis by (rule descend_good [OF assms(1,2)])
next
  case Start_Layer then show ?thesis by (rule start_good [OF assms(1,2)])
next
  case Beam then show ?thesis by (rule beam_good [OF assms(1,2)])
next
  case Own_Links then show ?thesis by (rule own_good [OF assms(1,2)])
next
  case Back_Links then show ?thesis by (rule back_good [OF assms(1,2)])
next
  case Raise_Entry then show ?thesis by (rule raise_good [OF assms(1,2)])
qed (use assms(3) in simp)

text \<open>What an insert knows outlasts the steps of the others.\<close>

lemma pc_ok_grows:
  "pc_ok h dist i level vis pc \<Longrightarrow> grows j h h' \<Longrightarrow> i \<noteq> j \<Longrightarrow> pc_ok h' dist i level vis pc"
proof -
  assume pc: "pc_ok h dist i level vis pc" and g: "grows j h h'" and ij: "i \<noteq> j"
  have on: "x \<in> on_layer h l \<Longrightarrow> x \<in> on_layer h' l" for x l by (rule grows_layer [OF g])
  have sub: "on_layer h l \<subseteq> on_layer h' l" for l using on by blast
  have c: "hn_config h' = hn_config h" "hn_entry h \<noteq> entry_none \<longrightarrow> hn_entry h' \<noteq> entry_none"
    and fresh: "i \<notin> on_layer h 0 \<longrightarrow> i \<notin> on_layer h' 0"
    using g ij by (auto simp: grows_def)
  show ?thesis
  proof (cases pc)
    case (Beam u l ls ep cand res)
    then show ?thesis using pc on c(1) beam_mono [OF _ sub] by simp
  next
    case (Descend u ls ep best)
    then show ?thesis using pc on by simp
  qed (use pc on c fresh in auto)
qed

lemma inserter_ok_grows:
  assumes ok: "inserter_ok vec n h t" and g: "grows j h h'" and j: "in_id t \<noteq> j"
  shows "inserter_ok vec n h' t"
proof -
  have k: "hn_kernel h' = hn_kernel h" "max_degree h' l = max_degree h l" for l
    using grows_fixed [OF g] by simp_all
  have "length ns \<le> max_degree h l" if "l \<in> owed (in_pc t)" "links_of h' (in_id t) l = Some ns" for l ns
  proof -
    have "links_of h (in_id t) l = Some ns \<or> length ns \<le> max_degree h l"
      using g j that(2) unfolding grows_def by metis
    then show ?thesis using ok that(1) by (auto simp: inserter_ok_def)
  qed
  then show ?thesis using ok pc_ok_grows [OF _ g j] k by (auto simp: inserter_ok_def)
qed

end
