(* ===== verification/Hnsw_Alone.thy ===== *)
theory Hnsw_Alone
  imports Hnsw_Conc Hnsw_Insert
begin

text \<open>
  The steps of a thread, run one after the other with no other thread in between, compute the
  operation as a function: the step relation is the same program as the definitions of \<open>Hnsw\<close>.
\<close>

abbreviation inserting :: "nat \<Rightarrow> nat \<Rightarrow> visited \<Rightarrow> insert_pc \<Rightarrow> inserter" where
  "inserting i level vis pc \<equiv> \<lparr>in_id = i, in_level = level, in_vis = vis, in_pc = pc\<rparr>"

lemma insert_step_one:
  "insert_step vec h t = Some (h', t') \<Longrightarrow> alone (insert_step vec) (h', t') c \<Longrightarrow> alone (insert_step vec) (h, t) c"
  by (rule alone.Move)

lemma rewrite_links_kernel:
  "rewrite_links h i l f = Some h' \<Longrightarrow> hn_kernel h' = hn_kernel h \<and> hn_config h' = hn_config h \<and> hn_entry h' = hn_entry h"
  by (auto simp: rewrite_links_def set_links_def split: bind_splits)

lemma back_links_kernel:
  "back_links h vec i l nbs = Some h' \<Longrightarrow> hn_kernel h' = hn_kernel h \<and> hn_config h' = hn_config h \<and> hn_entry h' = hn_entry h"
  by (induction nbs arbitrary: h) (auto split: bind_splits dest!: rewrite_links_kernel)

text \<open>The loops of the sequential functions, round by round.\<close>

lemma greedy_rounds:
  assumes go: "\<And>e b e1 b1 imp. descend_step h dist l e b = Some (e1, b1, imp) \<Longrightarrow>
      (if imp then P e1 b1 else Q e1 b1) \<Longrightarrow> P e b"
  shows "greedy_descend h dist e b l = Some (e', b') \<Longrightarrow> Q e' b' \<Longrightarrow> P e b"
  using go
proof (induction h dist e b l rule: greedy_descend.induct)
  case (1 h dist e b l)
  obtain ns e1 b1 imp where s: "links_of h e l = Some ns" "greedy_scan dist ns (e, b, False) = Some (e1, b1, imp)"
    and r: "(if imp then greedy_descend h dist e1 b1 l else Some (e1, b1)) = Some (e', b')"
    using 1(2) by (subst (asm) greedy_descend.simps) (auto split: bind_splits)
  have "P e1 b1" if "imp" using 1(1) [OF s refl refl that _ 1(3,4)] r that by simp
  then show ?case using r 1(3) by (intro 1(4) [of e b e1 b1 imp]) (auto simp: descend_step_def s)
qed

lemma loop_rounds:
  assumes stop: "\<And>cand. beam_step h dist ef l (vis', cand, found) = Some (Inl found) \<Longrightarrow> P vis' cand found"
    and go: "\<And>vis cand res v c r. beam_step h dist ef l (vis, cand, res) = Some (Inr (v, c, r)) \<Longrightarrow> P v c r \<Longrightarrow> P vis cand res"
  shows "search_loop h dist ef l vis cand res = Some (vis', found) \<Longrightarrow> P vis cand res"
  using stop go
proof (induction h dist ef l vis cand res rule: search_loop.induct)
  case (1 h dist ef l vis cand res)
  show ?case
  proof (cases "cand = [] \<or> f32_lt (worst res) (nb_dist (hd cand)) \<and> ef \<le> length res")
    case True
    then have r: "vis' = vis" "found = res"
      using 1(2) by (cases cand; auto simp: search_loop.simps)+
    have "beam_step h dist ef l (vis, cand, res) = Some (Inl res)"
      using True by (cases cand) (auto simp: beam_step_def)
    then show ?thesis using 1(3) r by simp
  next
    case False
    then obtain c rest where c: "cand = c # rest" by (cases cand) auto
    have nf: "\<not> (f32_lt (worst res) (nb_dist c) \<and> ef \<le> length res)" using False c by simp
    have "(do { ns \<leftarrow> links_of h (nb_id c) l; (vis1, cand1, res1) \<leftarrow> visit_all dist ef ns (vis, rest, res);
        search_loop h dist ef l vis1 cand1 res1 }) = Some (vis', found)"
      using 1(2) nf unfolding c by (subst (asm) search_loop.simps) auto
    then obtain ns vis1 cand1 res1 where s: "links_of h (nb_id c) l = Some ns"
      "visit_all dist ef ns (vis, rest, res) = Some (vis1, cand1, res1)"
      "search_loop h dist ef l vis1 cand1 res1 = Some (vis', found)" by (auto split: bind_splits)
    have "beam_step h dist ef l (vis, cand, res) = Some (Inr (vis1, cand1, res1))"
      using nf s(1,2) c by (auto simp: beam_step_def)
    then show ?thesis using 1(1) [OF c nf s(1,2) refl refl s(3) 1(3,4)] by (rule 1(4))
  qed
qed

section \<open>Inserts\<close>

lemma greedy_alone:
  assumes d: "\<And>j. insert_dist (hn_kernel h) vec i j = dist j" and g: "greedy_descend h dist e b l = Some (e', b')"
  shows "alone (insert_step vec) (h, inserting i level vis (Descend u (l # ls) e b)) (h, inserting i level vis (Descend u ls e' b'))"
proof (rule greedy_rounds [OF _ g, where Q = "\<lambda>e b. alone (insert_step vec) (h, inserting i level vis (Descend u ls e b))
      (h, inserting i level vis (Descend u ls e' b'))"])
  have "insert_dist (hn_kernel h) vec i = dist" using d by (rule ext)
  then have dist: "insert_dist (hn_kernel h) vec i = dist" .
  fix e b e1 b1 imp
  let ?fin = "(h, inserting i level vis (Descend u ls e' b'))"
  assume st: "descend_step h dist l e b = Some (e1, b1, imp)"
    and a: "if imp then alone (insert_step vec) (h, inserting i level vis (Descend u (l # ls) e1 b1)) ?fin
      else alone (insert_step vec) (h, inserting i level vis (Descend u ls e1 b1)) ?fin"
  have "insert_step vec h (inserting i level vis (Descend u (l # ls) e b)) =
      Some (h, inserting i level vis (Descend u (if imp then l # ls else ls) e1 b1))"
    using st by (simp add: insert_step_def Let_def dist)
  moreover have "alone (insert_step vec) (h, inserting i level vis (Descend u (if imp then l # ls else ls) e1 b1)) ?fin"
    using a by (cases imp) simp_all
  ultimately show "alone (insert_step vec) (h, inserting i level vis (Descend u (l # ls) e b)) ?fin"
    by (rule insert_step_one)
qed (rule alone.Stay)

lemma descend_alone:
  assumes "\<And>j. insert_dist (hn_kernel h) vec i j = dist j"
  shows "descend_layers h dist ls ep = Some ep' \<Longrightarrow>
     alone (insert_step vec) (h, inserting i level vis (Descend u ls (fst ep) (snd ep)))
       (h, inserting i level vis (Descend u [] (fst ep') (snd ep')))"
proof (induction ls arbitrary: ep)
  case Nil
  then show ?case by (simp add: alone.Stay)
next
  case (Cons l ls)
  then obtain e1 b1 where g: "greedy_descend h dist (fst ep) (snd ep) l = Some (e1, b1)"
    "descend_layers h dist ls (e1, b1) = Some ep'" by (auto split: bind_splits)
  show ?case
    using alone_trans [OF greedy_alone [OF assms g(1)]] Cons.IH [OF g(2)] by simp
qed

lemma beam_alone:
  assumes d: "\<And>j. insert_dist (hn_kernel h) vec i j = dist j" and ef: "ef = cfg_ef_construction (hn_config h)"
    and l: "search_loop h dist ef l vis cand res = Some (vis', found)" and c: "choose_links h vec i found = Some chosen"
  shows "alone (insert_step vec) (h, inserting i level vis (Beam u l ls ep cand res))
       (h, inserting i level vis' (Own_Links u l ls (case found of [] \<Rightarrow> ep | n # _ \<Rightarrow> nb_id n) chosen))"
proof -
  have dist: "insert_dist (hn_kernel h) vec i = dist" using d by (rule ext)
  show ?thesis
  proof (rule loop_rounds [OF _ _ l])
    fix cand assume "beam_step h dist ef l (vis', cand, found) = Some (Inl found)"
    then show "alone (insert_step vec) (h, inserting i level vis' (Beam u l ls ep cand found))
        (h, inserting i level vis' (Own_Links u l ls (case found of [] \<Rightarrow> ep | n # _ \<Rightarrow> nb_id n) chosen))"
      using ef c by (intro alone_one) (simp add: insert_step_def Let_def dist)
  next
    fix vis cand res v c r
    let ?fin = "(h, inserting i level vis' (Own_Links u l ls (case found of [] \<Rightarrow> ep | n # _ \<Rightarrow> nb_id n) chosen))"
    assume b: "beam_step h dist ef l (vis, cand, res) = Some (Inr (v, c, r))"
      and a: "alone (insert_step vec) (h, inserting i level v (Beam u l ls ep c r)) ?fin"
    show "alone (insert_step vec) (h, inserting i level vis (Beam u l ls ep cand res)) ?fin"
      by (rule insert_step_one [OF _ a]) (use b ef in \<open>simp add: insert_step_def Let_def dist\<close>)
  qed
qed

lemma back_alone:
  "back_links h vec i l nbs = Some h' \<Longrightarrow>
     alone (insert_step vec) (h, inserting i level vis (Back_Links u l ls ep nbs))
       (h', inserting i level vis (Back_Links u l ls ep []))"
proof (induction nbs arbitrary: h)
  case Nil
  then show ?case by (simp add: alone.Stay)
next
  case (Cons nb nbs)
  then obtain h1 where h1: "rewrite_links h nb l (add_back_link (hn_kernel h) vec i nb (max_degree h l)) = Some h1"
    "back_links h1 vec i l nbs = Some h'" by (auto split: bind_splits)
  then have "insert_step vec h (inserting i level vis (Back_Links u l ls ep (nb # nbs))) =
      Some (h1, inserting i level vis (Back_Links u l ls ep nbs))"
    by (simp add: insert_step_def Let_def)
  then show ?case using Cons.IH [OF h1(2)] by (rule insert_step_one)
qed

lemma connect_alone:
  assumes d: "\<And>j. insert_dist (hn_kernel h) vec i j = dist j"
    and c: "connect_layer h vec dist i l vis ep = Some (h', vis', ep')"
  shows "alone (insert_step vec) (h, inserting i level vis (Start_Layer u (l # ls) ep))
     (h', inserting i level vis' (Start_Layer u ls ep'))"
proof -
  let ?at = "\<lambda>vis pc. inserting i level vis pc" and ?ef = "cfg_ef_construction (hn_config h)"
  obtain found chosen h1 where C: "search_layer h dist vis ep ?ef l = Some (vis', found)"
    "ep' = (case found of [] \<Rightarrow> ep | n # _ \<Rightarrow> nb_id n)" "choose_links h vec i found = Some chosen"
    "rewrite_links h i l (add_own_links chosen) = Some h1" "back_links h1 vec i l chosen = Some h'"
    using c by (auto simp: connect_layer_def choose_links_def Let_def split: bind_splits)
  let ?v = "fst (mark (begin_pass vis (hnsw_len h)) ep)"
  obtain e0 where e0: "dist ep = Some e0" "search_loop h dist ?ef l ?v [Neighbor ep e0] [Neighbor ep e0] = Some (vis', found)"
    using C(1) by (auto simp: search_layer_def Let_def split: bind_splits)
  have "insert_dist (hn_kernel h) vec i = dist" using d by (rule ext)
  then have "insert_step vec h (?at vis (Start_Layer u (l # ls) ep)) =
      Some (h, ?at ?v (Beam u l ls ep [Neighbor ep e0] [Neighbor ep e0]))"
    by (simp add: insert_step_def Let_def beam_start_def e0(1))
  moreover have "alone (insert_step vec) (h, ?at ?v (Beam u l ls ep [Neighbor ep e0] [Neighbor ep e0]))
      (h, ?at vis' (Own_Links u l ls ep' chosen))"
    unfolding C(2) by (rule beam_alone [OF d refl e0(2) C(3)])
  moreover have "insert_step vec h (?at vis' (Own_Links u l ls ep' chosen)) =
      Some (h1, ?at vis' (Back_Links u l ls ep' chosen))"
    using C(4) by (simp add: insert_step_def Let_def)
  moreover have "alone (insert_step vec) (h1, ?at vis' (Back_Links u l ls ep' chosen))
      (h', ?at vis' (Back_Links u l ls ep' []))"
    by (rule back_alone [OF C(5)])
  moreover have "insert_step vec h' (?at vis' (Back_Links u l ls ep' [])) = Some (h', ?at vis' (Start_Layer u ls ep'))"
    by (simp add: insert_step_def Let_def)
  ultimately show ?thesis by (meson alone_one alone_trans)
qed

lemma connect_layers_alone:
  "(\<And>j. insert_dist (hn_kernel h) vec i j = dist j) \<Longrightarrow>
   connect_layers vec dist i ls (h, vis, ep) = Some (h', vis', ep') \<Longrightarrow>
     hn_entry h' = hn_entry h \<and>
     alone (insert_step vec) (h, inserting i level vis (Start_Layer u ls ep))
       (h', inserting i level vis' (Start_Layer u [] ep'))"
proof (induction ls arbitrary: h vis ep)
  case Nil
  then show ?case by (simp add: alone.Stay)
next
  case (Cons l ls)
  then obtain h1 vis1 ep1 where c: "connect_layer h vec dist i l vis ep = Some (h1, vis1, ep1)"
    "connect_layers vec dist i ls (h1, vis1, ep1) = Some (h', vis', ep')" by (auto split: bind_splits)
  have k: "hn_kernel h1 = hn_kernel h" "hn_entry h1 = hn_entry h"
    using c(1) by (auto simp: connect_layer_def Let_def split: bind_splits dest!: rewrite_links_kernel back_links_kernel)
  then have "\<And>j. insert_dist (hn_kernel h1) vec i j = dist j" using Cons.prems(1) by simp
  from Cons.IH [OF this c(2)] alone_trans [OF connect_alone [OF Cons.prems(1) c(1)]] k(2)
  show ?case by simp
qed

text \<open>A thread running by itself ends with the index and the scratch the function returns.\<close>

lemma insert_alone:
  assumes "hnsw_insert h vec i level vis = Some (h', vis')"
  shows "alone (insert_step vec) (h, inserter_new i level vis) (h', inserting i level vis' Inserted)"
proof -
  let ?at = "\<lambda>vis pc. inserting i level vis pc"
  obtain query nodes where q: "vec i = Some query" and s: "sv_set (hn_nodes h) i (node_new level) = Some nodes"
    using assms by (auto simp: hnsw_insert_def split: bind_splits)
  let ?h = "h\<lparr>hn_nodes := nodes\<rparr>" and ?dist = "hnsw_distance (hn_kernel h) vec query"
  have 1: "alone (insert_step vec) (h, inserter_new i level vis) (?h, ?at vis Check_Entry)"
    by (rule alone_one) (simp add: inserter_new_def insert_step_def Let_def q s)
  show ?thesis
  proof (cases "hn_entry h = entry_none")
    case True
    then have "h' = ?h\<lparr>hn_entry := pack_entry i level\<rparr>" "vis' = vis"
      using assms by (auto simp: hnsw_insert_def q s Let_def)
    moreover have "insert_step vec ?h (?at vis Check_Entry) = Some (?h, ?at vis Claim_Entry)"
      "insert_step vec ?h (?at vis Claim_Entry) = Some (?h\<lparr>hn_entry := pack_entry i level\<rparr>, ?at vis Inserted)"
      using True by (simp_all add: insert_step_def Let_def)
    ultimately show ?thesis using 1 by (meson alone_one alone_trans)
  next
    case False
    obtain e u where u: "unpack_entry (hn_entry h) = (e, u)" by fastforce
    obtain d ep h2 ep' where I: "?dist e = Some d"
      "descend_layers ?h ?dist (rev [level + 1..<u + 1]) (e, d) = Some ep"
      "connect_layers vec ?dist i (rev [0..<min level u + 1]) (?h, vis, fst ep) = Some (h2, vis', ep')"
      "h' = raise_entry h2 i level u"
      using assms False by (auto simp: hnsw_insert_def q s u Let_def simp del: upt_Suc split: bind_splits)
    have d: "insert_dist (hn_kernel ?h) vec i j = ?dist j" for j by (simp add: insert_dist_def q)
    have "insert_dist (hn_kernel h) vec i e = Some d" using I(1) by (simp add: insert_dist_def q)
    then have 2: "insert_step vec ?h (?at vis Check_Entry) = Some (?h, ?at vis Load_Entry)"
      "insert_step vec ?h (?at vis Load_Entry) = Some (?h, ?at vis (Descend u (rev [level + 1..<u + 1]) e d))"
      using False by (simp_all add: insert_step_def Let_def u)
    have 3: "alone (insert_step vec) (?h, ?at vis (Descend u (rev [level + 1..<u + 1]) e d))
        (?h, ?at vis (Descend u [] (fst ep) (snd ep)))"
      using descend_alone [OF d I(2)] by simp
    have 4: "insert_step vec ?h (?at vis (Descend u [] (fst ep) (snd ep))) =
        Some (?h, ?at vis (Start_Layer u (rev [0..<min level u + 1]) (fst ep)))"
      by (simp add: insert_step_def Let_def)
    have 5: "alone (insert_step vec) (?h, ?at vis (Start_Layer u (rev [0..<min level u + 1]) (fst ep)))
        (h2, ?at vis' (Start_Layer u [] ep'))"
      using connect_layers_alone [OF d I(3)] by simp
    have 6: "insert_step vec h2 (?at vis' (Start_Layer u [] ep')) = Some (h2, ?at vis' (Raise_Entry u))"
      "insert_step vec h2 (?at vis' (Raise_Entry u)) = Some (h', ?at vis' Inserted)"
      using I(4) by (simp_all add: insert_step_def Let_def)
    show ?thesis using 1 2 3 4 5 6 by (meson alone_one alone_trans)
  qed
qed

section \<open>Searches\<close>

abbreviation searching :: "hnsw \<Rightarrow> searcher \<Rightarrow> (hnsw \<times> searcher) option" where
  "searching h t \<equiv> map_option (Pair h) (search_step h t)"

lemma search_step_one:
  "searching h t = Some (h', t') \<Longrightarrow> alone searching (h', t') c \<Longrightarrow> alone searching (h, t) c"
  by (rule alone.Move)

lemma search_alone:
  assumes s: "search_with_oracle h dist vis k ef = Some (hits, vis')"
  shows "alone searching (h, searcher_new dist k ef vis) (h, (searcher_new dist k ef vis)\<lparr>se_vis := vis', se_pc := Found hits\<rparr>)"
proof (cases "hn_entry h = entry_none")
  case True
  then show ?thesis
    using s by (intro alone_one) (simp add: search_with_oracle_def search_step_def searcher_new_def)
next
  case False
  let ?at = "\<lambda>vis pc. \<lparr>se_dist = dist, se_k = k, se_ef = ef, se_vis = vis, se_pc = pc\<rparr>" and ?ef = "max ef k"
  obtain e u where u: "unpack_entry (hn_entry h) = (e, u)" by fastforce
  obtain d ep found where S: "dist e = Some d" "descend_layers h dist (rev [1..<u + 1]) (e, d) = Some ep"
    "search_layer h dist vis (fst ep) ?ef 0 = Some (vis', found)" "hits = take k found"
    using s False u by (auto simp: search_with_oracle_def Let_def simp del: upt_Suc split: bind_splits)
  have 1: "searching h (?at vis Search_Entry) = Some (h, ?at vis (Search_Descend (rev [1..<u + 1]) e d))"
    using False u S(1) by (simp add: search_step_def Let_def del: upt_Suc)
  have greedy: "alone searching (h, ?at vis (Search_Descend (l # ls) e b)) (h, ?at vis (Search_Descend ls e' b'))"
    if g: "greedy_descend h dist e b l = Some (e', b')" for l ls e b e' b'
  proof (rule greedy_rounds [OF _ g, where Q = "\<lambda>e b. alone searching (h, ?at vis (Search_Descend ls e b))
        (h, ?at vis (Search_Descend ls e' b'))"])
    fix e b e1 b1 imp
    let ?fin = "(h, ?at vis (Search_Descend ls e' b'))"
    assume st: "descend_step h dist l e b = Some (e1, b1, imp)"
      and a: "if imp then alone searching (h, ?at vis (Search_Descend (l # ls) e1 b1)) ?fin
        else alone searching (h, ?at vis (Search_Descend ls e1 b1)) ?fin"
    have "searching h (?at vis (Search_Descend (l # ls) e b)) =
        Some (h, ?at vis (Search_Descend (if imp then l # ls else ls) e1 b1))"
      using st by (simp add: search_step_def Let_def)
    moreover have "alone searching (h, ?at vis (Search_Descend (if imp then l # ls else ls) e1 b1)) ?fin"
      using a by (cases imp) simp_all
    ultimately show "alone searching (h, ?at vis (Search_Descend (l # ls) e b)) ?fin" by (rule search_step_one)
  qed (rule alone.Stay)
  have 2: "alone searching (h, ?at vis (Search_Descend ls (fst ep0) (snd ep0))) (h, ?at vis (Search_Descend [] (fst ep') (snd ep')))"
    if "descend_layers h dist ls ep0 = Some ep'" for ls ep0 ep'
    using that
  proof (induction ls arbitrary: ep0)
    case (Cons l ls)
    then obtain e1 b1 where g: "greedy_descend h dist (fst ep0) (snd ep0) l = Some (e1, b1)"
      "descend_layers h dist ls (e1, b1) = Some ep'" by (auto split: bind_splits)
    show ?case using alone_trans [OF greedy [OF g(1)]] Cons.IH [OF g(2)] by simp
  qed (simp add: alone.Stay)
  let ?v = "fst (mark (begin_pass vis (hnsw_len h)) (fst ep))"
  obtain e0 where e0: "dist (fst ep) = Some e0"
    "search_loop h dist ?ef 0 ?v [Neighbor (fst ep) e0] [Neighbor (fst ep) e0] = Some (vis', found)"
    using S(3) by (auto simp: search_layer_def Let_def split: bind_splits)
  have 3: "searching h (?at vis (Search_Descend [] (fst ep) (snd ep))) = Some (h, ?at vis (Search_Start (fst ep)))"
    "searching h (?at vis (Search_Start (fst ep))) =
       Some (h, ?at ?v (Search_Beam [Neighbor (fst ep) e0] [Neighbor (fst ep) e0]))"
    by (simp_all add: search_step_def Let_def beam_start_def e0(1))
  have 4: "alone searching (h, ?at ?v (Search_Beam [Neighbor (fst ep) e0] [Neighbor (fst ep) e0])) (h, ?at vis' (Found hits))"
  proof (rule loop_rounds [OF _ _ e0(2), where P = "\<lambda>vis cand res. alone searching (h, ?at vis (Search_Beam cand res)) (h, ?at vis' (Found hits))"])
    fix cand assume "beam_step h dist ?ef 0 (vis', cand, found) = Some (Inl found)"
    then show "alone searching (h, ?at vis' (Search_Beam cand found)) (h, ?at vis' (Found hits))"
      using S(4) by (intro alone_one) (simp add: search_step_def Let_def)
  next
    fix vis cand res v c r
    assume b: "beam_step h dist ?ef 0 (vis, cand, res) = Some (Inr (v, c, r))"
      and a: "alone searching (h, ?at v (Search_Beam c r)) (h, ?at vis' (Found hits))"
    show "alone searching (h, ?at vis (Search_Beam cand res)) (h, ?at vis' (Found hits))"
      by (rule search_step_one [OF _ a]) (use b in \<open>simp add: search_step_def Let_def\<close>)
  qed
  have 2: "alone searching (h, ?at vis (Search_Descend (rev [1..<u + 1]) e d)) (h, ?at vis (Search_Descend [] (fst ep) (snd ep)))"
    using 2 [OF S(2)] by simp
  have "alone searching (h, ?at vis Search_Entry) (h, ?at vis' (Found hits))"
    by (rule search_step_one [OF 1 alone_trans [OF 2 search_step_one [OF 3(1) search_step_one [OF 3(2) 4]]]])
  then show ?thesis by (simp add: searcher_new_def)
qed

section \<open>Property\<close>

text \<open>
  An insert that runs by itself ends, and with exactly the index and the scratch that the
  sequential function returns.
\<close>

theorem insert_is_its_steps:
  assumes "hn_inv h" and "hnsw_len h < sv_capacity" and "level < 256"
    and "vecs_ok (hn_kernel h) vec (Suc (hnsw_len h))" and "vis_inv vis"
  shows "alone (insert_step vec) (h, inserter_new (hnsw_len h) level vis) (h', t') \<and> in_pc t' = Inserted \<longleftrightarrow>
     (\<exists>vis'. hnsw_insert h vec (hnsw_len h) level vis = Some (h', vis') \<and>
        t' = \<lparr>in_id = hnsw_len h, in_level = level, in_vis = vis', in_pc = Inserted\<rparr>)"
proof -
  obtain h1 vis1 where i: "hnsw_insert h vec (hnsw_len h) level vis = Some (h1, vis1)"
    using hnsw_insert_spec [OF assms] by blast
  note run = insert_alone [OF i]
  have stop: "insert_step vec x t = None" if "in_pc t = Inserted" for x t
    using that by (simp add: insert_step_def)
  show ?thesis
  proof
    assume a: "alone (insert_step vec) (h, inserter_new (hnsw_len h) level vis) (h', t') \<and> in_pc t' = Inserted"
    then have "(h', t') = (h1, inserting (hnsw_len h) level vis1 Inserted)"
      using run by (intro alone_deterministic [of "insert_step vec"]) (auto intro: stop)
    then show "\<exists>vis'. hnsw_insert h vec (hnsw_len h) level vis = Some (h', vis') \<and>
        t' = inserting (hnsw_len h) level vis' Inserted" using i by simp
  qed (use i run in auto)
qed

theorem insert_is_its_steps_witness:
  "\<exists>h' t'. alone (insert_step zero_vec) (example_index, inserter_new 2 3 vis_new) (h', t') \<and> in_pc t' = Inserted \<and>
     hnsw_insert example_index zero_vec 2 3 vis_new = Some (h', in_vis t')"
proof -
  have "vecs_ok (hn_kernel example_index) zero_vec 3"
    using vecs_ok_kernel [of 3 zero_vec 1 False L2] by (simp add: zero_vec_def example_index_def)
  then have v: "vecs_ok (hn_kernel example_index) zero_vec (Suc (hnsw_len example_index))"
    by (simp add: example_len numeral_3_eq_3)
  have c: "hnsw_len example_index < sv_capacity"
    by (simp add: example_len sv_capacity_def seg_first_def sv_base_def sv_max_segments_def)
  have l: "(3 :: nat) < 256" by simp
  obtain h1 vis1 where i: "hnsw_insert example_index zero_vec (hnsw_len example_index) 3 vis_new = Some (h1, vis1)"
    using hnsw_insert_spec [OF example_inv c l v vis_new_inv] by blast
  let ?t = "\<lparr>in_id = 2, in_level = 3, in_vis = vis1, in_pc = Inserted\<rparr>"
  have "alone (insert_step zero_vec) (example_index, inserter_new 2 3 vis_new) (h1, ?t) \<and> in_pc ?t = Inserted"
    using insert_is_its_steps [OF example_inv c l v vis_new_inv, of h1 ?t] i by (simp add: example_len)
  then show ?thesis using i by (intro exI [of _ h1] exI [of _ ?t]) (simp add: example_len)
qed

end
