(* ===== verification/Hnsw_Threads.thy ===== *)
theory Hnsw_Threads
  imports Hnsw_Conc_Inv Hnsw_Alone
begin

text \<open>
  Inserts and searches of one index running together (\<^verbatim>\<open>hnsw/mod.rs\<close>): searches are shown sound like
  the inserts, the two kinds of thread make an ending system, a thread that runs by itself computes
  what the operation does, and every interleaving ends with a closed graph.
\<close>

section \<open>Searching threads\<close>

definition hits_ok :: "dist_fun \<Rightarrow> nat set \<Rightarrow> nat \<Rightarrow> neighbor list \<Rightarrow> bool" where
  "hits_ok dist V k hits \<longleftrightarrow>
     sorted hits \<and> distinct (map nb_id hits) \<and> length hits \<le> k \<and> ids hits \<subseteq> V \<and> scored dist hits"

primrec search_pc_ok :: "hnsw \<Rightarrow> bool \<Rightarrow> searcher \<Rightarrow> search_pc \<Rightarrow> bool" where
  "search_pc_ok h b t Search_Entry = vis_inv (se_vis t)"
| "search_pc_ok h b t (Search_Descend ls ep best) =
     (vis_inv (se_vis t) \<and> sorted_wrt (>) ls \<and> se_dist t ep = Some best \<and>
      ep \<in> on_layer h (if ls = [] then 0 else hd ls))"
| "search_pc_ok h b t (Search_Start ep) = (vis_inv (se_vis t) \<and> ep \<in> on_layer h 0)"
| "search_pc_ok h b t (Search_Beam cand res) =
     beam_ok (se_dist t) (max (se_ef t) (se_k t)) (on_layer h 0) (se_vis t, cand, res)"
| "search_pc_ok h b t (Found hits) =
     (hits_ok (se_dist t) (on_layer h 0) (se_k t) hits \<and> (b \<and> 0 < se_k t \<longrightarrow> hits \<noteq> []))"

definition searcher_ok :: "nat \<Rightarrow> bool \<Rightarrow> hnsw \<Rightarrow> searcher \<Rightarrow> bool" where
  "searcher_ok n b h t \<longleftrightarrow> total_on (se_dist t) {..<n} \<and> search_pc_ok h b t (se_pc t)"

primrec search_rank :: "nat \<Rightarrow> visited \<Rightarrow> search_pc \<Rightarrow> rank" where
  "search_rank n vis Search_Entry = (4, 0, 0, 0, 0)"
| "search_rank n vis (Search_Descend ls ep best) = (3, length ls, 0, card {y. f32_lt y best}, 0)"
| "search_rank n vis (Search_Start ep) = (2, 0, 0, 0, 0)"
| "search_rank n vis (Search_Beam cand res) = (1, 0, 0, beam_rank n (vis, cand, res))"
| "search_rank n vis (Found hits) = (0, 0, 0, 0, 0)"

definition good_search :: "nat \<Rightarrow> bool \<Rightarrow> hnsw \<Rightarrow> searcher \<Rightarrow> bool" where
  "good_search n b h t \<longleftrightarrow>
     (\<exists>t'. search_step h t = Some t' \<and> searcher_ok n b h t' \<and>
        (\<forall>r \<ge> n. (search_rank r (se_vis t') (se_pc t'), search_rank r (se_vis t) (se_pc t)) \<in> rank_less))"

lemma good_searchI:
  assumes "search_step h t = Some t'" "searcher_ok n b h t'"
    "\<And>r. n \<le> r \<Longrightarrow> (search_rank r (se_vis t') (se_pc t'), search_rank r (se_vis t) (se_pc t)) \<in> rank_less"
  shows "good_search n b h t"
  using assms unfolding good_search_def by blast

lemma search_entry_good:
  assumes sh: "shared_ok vec n k h" and ok: "searcher_ok n (0 < k) h t" and pc: "se_pc t = Search_Entry"
  shows "good_search n (0 < k) h t"
proof (cases "hn_entry h = entry_none")
  case True
  then have "k = 0" using sh by (simp add: shared_ok_def)
  show ?thesis
    by (rule good_searchI [where t' = "t\<lparr>se_pc := Found []\<rparr>"])
      (use ok pc True \<open>k = 0\<close> in \<open>simp_all add: search_step_def searcher_ok_def hits_ok_def ids_def
        scored_def rank_less_def\<close>)
next
  case False
  obtain e l where E: "unpack_entry (hn_entry h) = (e, l)" "e \<in> on_layer h l" "l < 256"
    by (rule shared_entry [OF sh False])
  obtain d where d: "se_dist t e = Some d"
    using ok E(2) shared_below [OF sh, of l] by (auto simp: searcher_ok_def total_on_def)
  let ?ls = "rev [1..<l + 1]"
  have "e \<in> on_layer h (if ?ls = [] then 0 else hd ?ls)" using E(2) by (cases l) auto
  then have "search_pc_ok h (0 < k) t (Search_Descend ?ls e d)"
    using ok pc d rev_upt_sorted [of 1 "l + 1"] unfolding search_pc_ok.simps searcher_ok_def by auto
  moreover have "search_pc_ok h (0 < k) (t\<lparr>se_pc := pc\<rparr>) pc' = search_pc_ok h (0 < k) t pc'" for pc pc'
    by (cases pc') simp_all
  ultimately have ok': "searcher_ok n (0 < k) h (t\<lparr>se_pc := Search_Descend ?ls e d\<rparr>)"
    using ok unfolding searcher_ok_def by simp
  have st: "search_step h t = Some (t\<lparr>se_pc := Search_Descend ?ls e d\<rparr>)"
    by (simp add: search_step_def Let_def pc False E(1) d)
  show ?thesis by (rule good_searchI [OF st ok']) (simp add: pc rank_less_def)
qed

lemma search_descend_good:
  assumes sh: "shared_ok vec n k h" and ok: "searcher_ok n b h t" and pc: "se_pc t = Search_Descend ls ep best"
  shows "good_search n b h t"
proof (cases ls)
  case Nil
  show ?thesis
    by (rule good_searchI [where t' = "t\<lparr>se_pc := Search_Start ep\<rparr>"])
      (use ok pc Nil in \<open>simp_all add: search_step_def searcher_ok_def rank_less_def\<close>)
next
  case (Cons l ls')
  have P: "vis_inv (se_vis t)" "sorted_wrt (>) (l # ls')" "se_dist t ep = Some best" "ep \<in> on_layer h l"
    "total_on (se_dist t) {..<n}"
    using ok pc Cons by (simp_all add: searcher_ok_def)
  obtain ep' d' imp where D: "descend_step h (se_dist t) l ep best = Some (ep', d', imp)" "ep' \<in> on_layer h l"
    "se_dist t ep' = Some d'" "imp \<longrightarrow> f32_lt d' best"
    using descend_step_ok [OF sh P(5,4,3)] by blast
  have "ep' \<in> on_layer h (if ls' = [] then 0 else hd ls')"
    using D(2) hd_layer_below [OF P(2)] on_layer_antimono by (cases "ls' = []") auto
  then show ?thesis
    by (intro good_searchI [where t' = "t\<lparr>se_pc := Search_Descend (if imp then l # ls' else ls') ep' d'\<rparr>"])
      (use ok pc Cons P D card_below in \<open>auto simp: search_step_def searcher_ok_def rank_less_def\<close>)
qed

lemma search_start_good:
  assumes sh: "shared_ok vec n k h" and ok: "searcher_ok n b h t" and pc: "se_pc t = Search_Start ep"
  shows "good_search n b h t"
proof -
  have P: "vis_inv (se_vis t)" "ep \<in> on_layer h 0" "total_on (se_dist t) {..<n}"
    using ok pc by (simp_all add: searcher_ok_def)
  obtain vis' cand res where B: "beam_start h (se_dist t) (se_vis t) ep = Some (vis', cand, res)"
    "beam_ok (se_dist t) (max (se_ef t) (se_k t)) (on_layer h 0) (vis', cand, res)"
    using beam_start_ok [OF P(1,2) shared_total [OF sh P(3)], of "max (se_ef t) (se_k t)"] by auto
  show ?thesis
    by (rule good_searchI [where t' = "t\<lparr>se_vis := vis', se_pc := Search_Beam cand res\<rparr>"])
      (use P B pc in \<open>simp_all add: search_step_def searcher_ok_def rank_less_def\<close>)
qed

lemma search_beam_good:
  assumes sh: "shared_ok vec n k h" and ok: "searcher_ok n b h t" and pc: "se_pc t = Search_Beam cand res"
  shows "good_search n b h t"
proof -
  let ?ef = "max (se_ef t) (se_k t)"
  have P: "total_on (se_dist t) {..<n}" "beam_ok (se_dist t) ?ef (on_layer h 0) (se_vis t, cand, res)"
    using ok pc by (simp_all add: searcher_ok_def)
  from beam_step_ok [OF sh P] show ?thesis
  proof
    assume r: "beam_step h (se_dist t) ?ef 0 (se_vis t, cand, res) = Some (Inl res)"
    note F = beam_found [OF P(2)]
    have "hits_ok (se_dist t) (on_layer h 0) (se_k t) (take (se_k t) res)"
      using F take_ids [of "se_k t" res] set_take_subset [of "se_k t" res]
      by (auto simp: hits_ok_def sorted_wrt_take take_map [symmetric] scored_def)
    then have "searcher_ok n b h (t\<lparr>se_pc := Found (take (se_k t) res)\<rparr>)"
      using P F by (simp add: searcher_ok_def)
    moreover have "search_step h t = Some (t\<lparr>se_pc := Found (take (se_k t) res)\<rparr>)"
      using pc r by (simp add: search_step_def Let_def)
    ultimately show ?thesis using pc by (intro good_searchI) (auto simp: rank_less_def)
  next
    assume "\<exists>st. beam_step h (se_dist t) ?ef 0 (se_vis t, cand, res) = Some (Inr st) \<and>
        beam_ok (se_dist t) ?ef (on_layer h 0) st \<and>
        (\<forall>r \<ge> n. (beam_rank r st, beam_rank r (se_vis t, cand, res)) \<in> less_than <*lex*> less_than)"
    then obtain vis' cand' res' where B:
      "beam_step h (se_dist t) ?ef 0 (se_vis t, cand, res) = Some (Inr (vis', cand', res'))"
      "beam_ok (se_dist t) ?ef (on_layer h 0) (vis', cand', res')"
      "\<And>r. n \<le> r \<Longrightarrow> (beam_rank r (vis', cand', res'), beam_rank r (se_vis t, cand, res)) \<in> less_than <*lex*> less_than"
      by auto
    show ?thesis
      by (rule good_searchI [where t' = "t\<lparr>se_vis := vis', se_pc := Search_Beam cand' res'\<rparr>"])
        (use P B pc in \<open>auto simp: search_step_def Let_def searcher_ok_def rank_less_def beam_rank_def\<close>)
  qed
qed

lemma search_step_good:
  assumes "shared_ok vec n k h" "searcher_ok n (0 < k) h t" "\<not> (\<exists>hits. se_pc t = Found hits)"
  shows "good_search n (0 < k) h t"
proof (cases "se_pc t")
  case Search_Entry then show ?thesis by (rule search_entry_good [OF assms(1,2)])
next
  case Search_Descend then show ?thesis by (rule search_descend_good [OF assms(1,2)])
next
  case Search_Start then show ?thesis by (rule search_start_good [OF assms(1,2)])
next
  case Search_Beam then show ?thesis by (rule search_beam_good [OF assms(1,2)])
qed (use assms(3) in simp)

lemma searcher_ok_grows:
  assumes "searcher_ok n b h t" "grows j h h'"
  shows "searcher_ok n b h' t"
proof -
  have on: "x \<in> on_layer h l \<Longrightarrow> x \<in> on_layer h' l" for x l by (rule grows_layer [OF assms(2)])
  have sub: "on_layer h 0 \<subseteq> on_layer h' 0" using on by blast
  have "search_pc_ok h b t (se_pc t)" using assms(1) by (simp add: searcher_ok_def)
  then have "search_pc_ok h' b t (se_pc t)"
    using on sub beam_mono [OF _ sub] by (cases "se_pc t") (auto simp: hits_ok_def)
  then show ?thesis using assms(1) by (simp add: searcher_ok_def)
qed

section \<open>The system\<close>

primrec thread_ok :: "vec_fun \<Rightarrow> nat \<Rightarrow> nat \<Rightarrow> hnsw \<Rightarrow> thread \<Rightarrow> bool" where
  "thread_ok vec n k h (Insert t) = inserter_ok vec n h t"
| "thread_ok vec n k h (Search t) = searcher_ok n (0 < k) h t"

primrec thread_rank :: "nat \<Rightarrow> thread \<Rightarrow> rank" where
  "thread_rank n (Insert t) = insert_rank n (in_vis t) (in_pc t)"
| "thread_rank n (Search t) = search_rank n (se_vis t) (se_pc t)"

text \<open>Distinct inserts have distinct ids: the store hands each out once.\<close>

fun apart_ids :: "thread \<Rightarrow> thread \<Rightarrow> bool" where
  "apart_ids (Insert t) (Insert u) = (in_id t \<noteq> in_id u)"
| "apart_ids t u = True"

lemma insert_step_id: "insert_step vec h t = Some (h', t') \<Longrightarrow> in_id t' = in_id t"
  by (auto simp: insert_step_def Let_def split: insert_pc.splits list.splits bind_splits sum.splits prod.splits if_splits)

lemma insert_step_end: "insert_step vec h t = Some (h', t') \<Longrightarrow> in_pc t \<noteq> Inserted"
  by (auto simp: insert_step_def)

lemma search_step_end: "search_step h t = Some t' \<Longrightarrow> \<not> (\<exists>hits. se_pc t = Found hits)"
  by (auto simp: search_step_def Let_def)

lemma insert_step_spec:
  assumes "shared_ok vec n k h" "inserter_ok vec n h t" "insert_step vec h t = Some (h', t')"
  shows "shared_ok vec n k h' \<and> inserter_ok vec n h' t' \<and> grows (in_id t) h h' \<and>
     (\<forall>r \<ge> n. (insert_rank r (in_vis t') (in_pc t'), insert_rank r (in_vis t) (in_pc t)) \<in> rank_less)"
  using insert_step_good [OF assms(1,2) insert_step_end [OF assms(3)]] assms(3) by (auto simp: good_step_def)

lemma search_step_spec:
  assumes "shared_ok vec n k h" "searcher_ok n (0 < k) h t" "search_step h t = Some t'"
  shows "searcher_ok n (0 < k) h t' \<and>
     (\<forall>r \<ge> n. (search_rank r (se_vis t') (se_pc t'), search_rank r (se_vis t) (se_pc t)) \<in> rank_less)"
  using search_step_good [OF assms(1,2) search_step_end [OF assms(3)]] assms(3) by (auto simp: good_search_def)

lemma apart_ids_sym: "apart_ids t u \<Longrightarrow> apart_ids u t"
  by (cases t; cases u) auto

lemma thread_step_spec:
  assumes "shared_ok vec n k h" "thread_ok vec n k h t" "thread_step vec h t = Some (h', t')"
  shows "shared_ok vec n k h' \<and> thread_ok vec n k h' t' \<and> (thread_rank n t', thread_rank n t) \<in> rank_less"
proof (cases t)
  case (Insert i)
  then obtain i' where "insert_step vec h i = Some (h', i')" "t' = Insert i'" using assms(3) by auto
  then show ?thesis using insert_step_spec [of vec n k h i h' i'] assms(1,2) Insert by simp
next
  case (Search s)
  then obtain s' where "search_step h s = Some s'" "t' = Search s'" "h' = h" using assms(3) by auto
  then show ?thesis using search_step_spec [of vec n k h s s'] assms(1,2) Search by simp
qed

lemma thread_step_grows:
  assumes "shared_ok vec n k h" "thread_ok vec n k h t" "thread_step vec h t = Some (h', t')"
  shows "(\<exists>i. t = Insert i \<and> grows (in_id i) h h') \<or> h' = h"
proof (cases t)
  case (Insert i)
  then obtain i' where "insert_step vec h i = Some (h', i')" using assms(3) by auto
  then show ?thesis using insert_step_spec [of vec n k h i h' i'] assms(1,2) Insert by simp
qed (use assms(3) in auto)

lemma thread_ok_grows:
  "thread_ok vec n k h u \<Longrightarrow> grows (in_id i) h h' \<Longrightarrow> apart_ids (Insert i) u \<Longrightarrow> thread_ok vec n k h' u"
  by (cases u) (auto intro: inserter_ok_grows searcher_ok_grows)

lemma thread_step_apart: "thread_step vec h t = Some (h', t') \<Longrightarrow> apart_ids t u \<Longrightarrow> apart_ids t' u"
  by (cases t; cases u) (auto dest: insert_step_id)

lemma thread_progress:
  assumes "shared_ok vec n k h" "thread_ok vec n k h t" "\<not> thread_ended t"
  shows "\<exists>h' t'. thread_step vec h t = Some (h', t')"
proof (cases t)
  case (Insert i)
  then show ?thesis using insert_step_good [of vec n k h i] assms by (auto simp: good_step_def)
next
  case (Search s)
  then show ?thesis using search_step_good [of vec n k h s] assms by (auto simp: good_search_def)
qed

interpretation threads: ending_system "thread_step vec" thread_ended "shared_ok vec n k" "thread_ok vec n k"
    apart_ids "thread_rank n" rank_less
  for vec :: vec_fun and n k :: nat
proof (unfold_locales, goal_cases)
  case (1 h t h' t')
  show ?case using thread_step_spec [OF 1] by simp
next
  case (2 h t u h' t')
  from thread_step_grows [OF 2(1,2,5)] show ?case
  proof
    assume "\<exists>i. t = Insert i \<and> grows (in_id i) h h'"
    then obtain i where "t = Insert i" "grows (in_id i) h h'" by blast
    then show ?thesis using thread_ok_grows [OF 2(3), of i h'] 2(4) by simp
  qed (use 2(3) in simp)
next
  case (3 h t u h' t')
  show ?case by (rule thread_step_apart [OF 3(4,5)])
next
  case (4 t u)
  then show ?case by (rule apart_ids_sym)
next
  case (5 h t)
  then show ?case by (rule thread_progress)
next
  case (6 h t h' t')
  show ?case using thread_step_spec [OF 6] by simp
next
  case 7
  show ?case by (rule wf_rank_less)
qed

section \<open>Starting threads\<close>

text \<open>An insert is an id and a level, a search an oracle with \<open>k\<close> and \<open>ef\<close>; each has its scratch.\<close>

type_synonym insert_job = "nat \<times> nat \<times> visited"
type_synonym search_job = "dist_fun \<times> nat \<times> nat \<times> visited"

definition spawn :: "insert_job list \<Rightarrow> search_job list \<Rightarrow> thread list" where
  "spawn ins ses =
     map (\<lambda>(i, level, vis). Insert (inserter_new i level vis)) ins @
     map (\<lambda>(dist, k, ef, vis). Search (searcher_new dist k ef vis)) ses"

lemma spawn_nth:
  "a < length ins \<Longrightarrow> spawn ins ses ! a =
     Insert (inserter_new (fst (ins ! a)) (fst (snd (ins ! a))) (snd (snd (ins ! a))))"
  "a < length ses \<Longrightarrow> spawn ins ses ! (length ins + a) =
     (case ses ! a of (dist, k, ef, vis) \<Rightarrow> Search (searcher_new dist k ef vis))"
  by (simp_all add: spawn_def nth_append split: prod.splits)

lemma length_spawn [simp]: "length (spawn ins ses) = length ins + length ses"
  by (simp add: spawn_def)

lemma spawn_search:
  assumes "length ins \<le> a" "a < length (spawn ins ses)"
  shows "\<exists>x. spawn ins ses ! a = Search x"
  using spawn_nth(2) [of "a - length ins" ses ins] assms by (auto split: prod.splits)

text \<open>The ids are the next ones, in any order, and every row they refer to is in the store.\<close>

definition jobs_ok :: "vec_fun \<Rightarrow> hnsw \<Rightarrow> insert_job list \<Rightarrow> search_job list \<Rightarrow> bool" where
  "jobs_ok vec h ins ses \<longleftrightarrow>
     distinct (map fst ins) \<and> set (map fst ins) = {hnsw_len h..<hnsw_len h + length ins} \<and>
     (\<forall>(i, level, vis) \<in> set ins. level < 256 \<and> vis_inv vis) \<and>
     (\<forall>(dist, k, ef, vis) \<in> set ses. total_on dist {..<hnsw_len h + length ins} \<and> vis_inv vis) \<and>
     vecs_ok (hn_kernel h) vec (hnsw_len h + length ins) \<and> hnsw_len h + length ins \<le> sv_capacity"

lemma hn_inv_shared:
  assumes inv: "hn_inv h" and v: "vecs_ok (hn_kernel h) vec n" and n: "hnsw_len h \<le> n" "n \<le> sv_capacity"
  shows "shared_ok vec n (hnsw_len h) h"
proof -
  have l: "links_ok h" "sv_dense (hn_nodes h)" "2 \<le> cfg_m (hn_config h)" using inv by (simp_all add: hn_inv_def)
  have "node_links nd \<noteq> [] \<and> i < hnsw_len h" if "sv_get_unchecked (hn_nodes h) i = Some nd" for i nd
  proof -
    have i: "i < hnsw_len h" using that l(2) by (auto simp: sv_dense_def hnsw_len_def)
    then show ?thesis using hn_inv_entry [OF inv] that unfolding level_ok_def by (metis not_less_zero)
  qed
  then have slots: "slots_ok h" by (simp add: slots_ok_def)
  have "i \<in> on_layer h 0" if "i < hnsw_len h" for i
  proof -
    have "sv_get_unchecked (hn_nodes h) i \<noteq> None" using that l(2) by (simp add: sv_dense_def hnsw_len_def)
    then show ?thesis using slots by (auto simp: on_layer_iff slots_ok_def)
  qed
  moreover have "hn_entry h \<noteq> entry_none \<longrightarrow> (\<exists>e l. hn_entry h = pack_entry e l \<and> l < 256 \<and> e \<in> on_layer h l)"
    "0 < hnsw_len h \<longrightarrow> hn_entry h \<noteq> entry_none"
  proof -
    have e: "entry_ok h" using inv by (simp add: hn_inv_def)
    show "hn_entry h \<noteq> entry_none \<longrightarrow> (\<exists>e l. hn_entry h = pack_entry e l \<and> l < 256 \<and> e \<in> on_layer h l)"
    proof
      assume "hn_entry h \<noteq> entry_none"
      then have "hnsw_len h \<noteq> 0" using e by (metis entry_ok_def)
      then show "\<exists>e l. hn_entry h = pack_entry e l \<and> l < 256 \<and> e \<in> on_layer h l"
        using e unfolding entry_ok_def by (simp only: if_False) blast
    qed
    show "0 < hnsw_len h \<longrightarrow> hn_entry h \<noteq> entry_none"
      using hn_inv_entry [OF inv] by (metis less_not_refl)
  qed
  moreover have "i \<notin> set ns \<and> set ns \<subseteq> on_layer h l \<and> length ns \<le> max_degree h l + cfg_m (hn_config h)"
    if "links_of h i l = Some ns" for i l ns
    using l(1) that unfolding links_ok_def by (meson trans_le_add1)
  moreover have "on_layer h l \<subseteq> {..<n}" for l using on_layer_len [OF inv, of l] n(1) by auto
  ultimately show ?thesis using slots l(3) v n unfolding shared_ok_def by blast
qed

lemma spawn_ok:
  assumes inv: "hn_inv h" and jobs: "jobs_ok vec h ins ses"
  shows "system_ok (shared_ok vec (hnsw_len h + length ins) (hnsw_len h))
     (thread_ok vec (hnsw_len h + length ins) (hnsw_len h)) apart_ids (h, spawn ins ses)"
proof -
  let ?n = "hnsw_len h + length ins"
  have sh: "shared_ok vec ?n (hnsw_len h) h" using jobs by (intro hn_inv_shared [OF inv]) (simp_all add: jobs_ok_def)
  have none: "links_of h i l = None" "i \<notin> on_layer h l" if "hnsw_len h \<le> i" for i l
    using on_layer_len [OF inv, of l] that by (auto simp: on_layer_def)
  have i: "thread_ok vec ?n (hnsw_len h) h (Insert (inserter_new i level vis))" if "(i, level, vis) \<in> set ins" for i level vis
  proof -
    have "i \<in> set (map fst ins)" using that by force
    then have "hnsw_len h \<le> i" "i < ?n" using jobs by (simp_all add: jobs_ok_def)
    then show ?thesis using that jobs none by (auto simp: inserter_ok_def inserter_new_def jobs_ok_def)
  qed
  have s: "thread_ok vec ?n (hnsw_len h) h (Search (searcher_new dist k ef vis))"
    if "(dist, k, ef, vis) \<in> set ses" for dist k ef vis
    using that jobs by (auto simp: searcher_ok_def searcher_new_def jobs_ok_def)
  have "apart_ids (spawn ins ses ! a) (spawn ins ses ! c)"
    if "a < length (spawn ins ses)" "c < length (spawn ins ses)" "a \<noteq> c" for a c
  proof (cases "a < length ins \<and> c < length ins")
    case True
    have "fst (ins ! a) \<noteq> fst (ins ! c)"
      using nth_eq_iff_index_eq [of "map fst ins" a c] True that(3) jobs by (simp add: jobs_ok_def)
    then show ?thesis using True by (simp add: spawn_nth inserter_new_def)
  next
    case False
    then have "(\<exists>x. spawn ins ses ! a = Search x) \<or> (\<exists>x. spawn ins ses ! c = Search x)"
      using that spawn_search [of ins a ses] spawn_search [of ins c ses] not_le by blast
    then show ?thesis by (cases "spawn ins ses ! a") auto
  qed
  then show ?thesis using sh i s by (auto simp: system_ok_def spawn_def)
qed

text \<open>A thread keeps its job.\<close>

primrec job :: "thread \<Rightarrow> nat \<times> nat + dist_fun \<times> nat \<times> nat" where
  "job (Insert t) = Inl (in_id t, in_level t)"
| "job (Search t) = Inr (se_dist t, se_k t, se_ef t)"

lemma insert_step_level: "insert_step vec h t = Some (h', t') \<Longrightarrow> in_level t' = in_level t"
  by (auto simp: insert_step_def Let_def split: insert_pc.splits list.splits bind_splits sum.splits prod.splits if_splits)

lemma search_step_job:
  "search_step h t = Some t' \<Longrightarrow> se_dist t' = se_dist t \<and> se_k t' = se_k t \<and> se_ef t' = se_ef t"
  by (auto simp: search_step_def Let_def split: search_pc.splits list.splits bind_splits sum.splits prod.splits if_splits)

lemma thread_step_job: "thread_step vec h t = Some (h', t') \<Longrightarrow> job t' = job t"
  by (cases t) (auto dest: insert_step_id insert_step_level search_step_job)

lemma run_job:
  "(interleave (thread_step vec))\<^sup>*\<^sup>* c c' \<Longrightarrow> map job (snd c') = map job (snd c)"
proof (induction rule: rtranclp_induct)
  case (step c1 c2)
  from step(2) show ?case
  proof cases
    case (Step i ts s s' t')
    have "map job (ts[i := t']) = map job ts"
      using thread_step_job [OF Step(4)] Step(3) by (simp add: map_update list_update_same_conv)
    then show ?thesis using step(3) Step by simp
  qed
qed simp

lemma run_jobs:
  assumes "(interleave (thread_step vec))\<^sup>*\<^sup>* (h, spawn ins ses) (h', ts)"
  shows "length ts = length ins + length ses \<and>
     (\<forall>a < length ins. job (ts ! a) = Inl (fst (ins ! a), fst (snd (ins ! a)))) \<and>
     (\<forall>a < length ses. job (ts ! (length ins + a)) = (case ses ! a of (dist, k, ef, vis) \<Rightarrow> Inr (dist, k, ef)))"
proof -
  have j: "map job ts = map job (spawn ins ses)" using run_job [OF assms] by simp
  then have len: "length ts = length ins + length ses" by (metis length_map length_spawn)
  have "job (ts ! a) = job (spawn ins ses ! a)" if "a < length ts" for a
    using j that len by (metis length_spawn nth_map)
  then show ?thesis
    using len by (simp add: spawn_nth inserter_new_def searcher_new_def split: prod.splits)
qed

text \<open>The structural check of the tests needs only the bound on the degrees in addition.\<close>

lemma check_from_shared:
  assumes sh: "shared_ok vec n k h" and all: "on_layer h 0 = {..<hnsw_len h}"
  shows "check_invariants h \<longleftrightarrow> (\<forall>i l ns. links_of h i l = Some ns \<longrightarrow> length ns \<le> max_degree h l)"
proof -
  have node: "\<exists>nd. sv_get_unchecked (hn_nodes h) i = Some nd" if "i < hnsw_len h" for i
    using that all by (auto simp: set_eq_iff on_layer_iff)
  have lay: "layer \<le> node_level nd \<longleftrightarrow> layer < length (node_links nd)"
    if "sv_get_unchecked (hn_nodes h) i = Some nd" for i nd layer
  proof -
    have "node_links nd \<noteq> []" using that sh by (simp add: shared_ok_def slots_ok_def)
    then show ?thesis by (cases "node_links nd") (auto simp: node_level_def)
  qed
  have inside: "i < hnsw_len h" if "sv_get_unchecked (hn_nodes h) i = Some nd" for i nd
    using that sh by (simp add: shared_ok_def slots_ok_def)
  show ?thesis
  proof
    assume c: "check_invariants h"
    show "\<forall>i l ns. links_of h i l = Some ns \<longrightarrow> length ns \<le> max_degree h l"
    proof (intro allI impI)
      fix i l ns assume "links_of h i l = Some ns"
      then obtain nd where nd: "sv_get_unchecked (hn_nodes h) i = Some nd" "l < length (node_links nd)"
        "ns = node_links nd ! l" by (auto simp: links_of_Some)
      then show "length ns \<le> max_degree h l"
        using c inside [OF nd(1)] lay [OF nd(1), of l] by (auto simp: check_invariants_def)
    qed
  next
    assume d: "\<forall>i l ns. links_of h i l = Some ns \<longrightarrow> length ns \<le> max_degree h l"
    show "check_invariants h"
      unfolding check_invariants_def
    proof (intro allI impI)
      fix i assume "i < hnsw_len h"
      then obtain nd where nd: "sv_get_unchecked (hn_nodes h) i = Some nd" using node by blast
      have "(\<forall>nb \<in> set (node_links nd ! layer). nb \<noteq> i \<and>
          (\<exists>nd'. sv_get_unchecked (hn_nodes h) nb = Some nd' \<and> layer \<le> node_level nd')) \<and>
          length (node_links nd ! layer) \<le> max_degree h layer" if "layer \<le> node_level nd" for layer
      proof -
        have l: "links_of h i layer = Some (node_links nd ! layer)"
          using nd lay [OF nd] that by (simp add: links_of_def)
        have "i \<notin> set (node_links nd ! layer)" "set (node_links nd ! layer) \<subseteq> on_layer h layer"
          using sh l by (simp_all add: shared_ok_def)
        moreover have "\<exists>nd'. sv_get_unchecked (hn_nodes h) nb = Some nd' \<and> layer \<le> node_level nd'"
          if "nb \<in> on_layer h layer" for nb
          using that lay by (auto simp: on_layer_iff)
        ultimately show ?thesis using d l by blast
      qed
      then show "\<exists>nd. sv_get_unchecked (hn_nodes h) i = Some nd \<and> (\<forall>layer \<le> node_level nd.
          (\<forall>nb \<in> set (node_links nd ! layer). nb \<noteq> i \<and>
            (\<exists>nd'. sv_get_unchecked (hn_nodes h) nb = Some nd' \<and> layer \<le> node_level nd')) \<and>
          length (node_links nd ! layer) \<le> max_degree h layer)"
        using nd by blast
    qed
  qed
qed

lemma inserts_done:
  assumes inv: "hn_inv h" and jobs: "jobs_ok vec h ins ses"
    and run: "(interleave (thread_step vec))\<^sup>*\<^sup>* (h, spawn ins ses) (h', ts)"
    and ended: "\<And>a. a < length ins \<Longrightarrow> thread_ended (ts ! a)"
  shows "shared_ok vec (hnsw_len h + length ins) (hnsw_len h) h'" "hnsw_len h' = hnsw_len h + length ins"
    "on_layer h' 0 = {..<hnsw_len h'}" "(i, level, vis) \<in> set ins \<Longrightarrow> i \<in> on_layer h' level"
proof -
  let ?n = "hnsw_len h + length ins" and ?k = "hnsw_len h"
  have "system_ok (shared_ok vec ?n ?k) (thread_ok vec ?n ?k) apart_ids (h', ts)"
    using threads.run_ok [OF run spawn_ok [OF inv jobs]] by blast
  then have sh: "shared_ok vec ?n ?k h'" and t: "\<And>t. t \<in> set ts \<Longrightarrow> thread_ok vec ?n ?k h' t"
    by (simp_all add: system_ok_def)
  show "shared_ok vec ?n ?k h'" by (rule sh)
  have placed: "i \<in> on_layer h' level" if m: "(i, level, vis) \<in> set ins" for i level vis
  proof -
    obtain a where a: "a < length ins" "ins ! a = (i, level, vis)" using m by (auto simp: in_set_conv_nth)
    then have "job (ts ! a) = Inl (i, level)" "a < length ts" using run_jobs [OF run] by simp_all
    moreover from this(2) have "thread_ok vec ?n ?k h' (ts ! a)" "thread_ended (ts ! a)"
      using t ended a(1) by simp_all
    ultimately show ?thesis by (cases "ts ! a") (auto simp: inserter_ok_def)
  qed
  then show "(i, level, vis) \<in> set ins \<Longrightarrow> i \<in> on_layer h' level" .
  have all: "i \<in> on_layer h' 0" if "i < ?n" for i
  proof (cases "i < ?k")
    case True
    then show ?thesis using sh by (auto simp: shared_ok_def)
  next
    case False
    then have "i \<in> set (map fst ins)" using jobs that by (simp add: jobs_ok_def)
    then obtain level vis where "(i, level, vis) \<in> set ins" by auto
    then have "i \<in> on_layer h' level" by (rule placed)
    then show ?thesis using on_layer_antimono [of 0 level h'] by blast
  qed
  have below: "i < hnsw_len h'" if "i \<in> on_layer h' 0" for i
    using that sh by (auto simp: on_layer_iff shared_ok_def slots_ok_def)
  have "hnsw_len h' \<le> ?n" using sh by (simp add: shared_ok_def)
  moreover have "?n \<le> hnsw_len h'" using below all by (meson le_less_linear less_irrefl)
  ultimately show "hnsw_len h' = ?n" by simp
  then show "on_layer h' 0 = {..<hnsw_len h'}" using all below by auto
qed

text \<open>Two inserts, finishing in either order, and a search on the index of two nodes.\<close>

definition example_ins :: "insert_job list" where
  "example_ins = [(3, 1, vis_new), (2, 0, vis_new)]"

definition example_ses :: "search_job list" where
  "example_ses = [(\<lambda>_. Some f32_zero, 1, 10, vis_new)]"

lemma example_jobs: "jobs_ok zero_vec example_index example_ins example_ses"
proof -
  have "vecs_ok (hn_kernel example_index) zero_vec 4"
    using vecs_ok_kernel [of 4 zero_vec 1 False L2] by (simp add: zero_vec_def example_index_def)
  moreover have "(4 :: nat) \<le> sv_capacity"
    by (simp add: sv_capacity_def seg_first_def sv_base_def sv_max_segments_def)
  moreover have "{3, 2} = {2..<4 :: nat}" by auto
  ultimately show ?thesis
    by (simp add: jobs_ok_def example_ins_def example_ses_def example_len vis_new_inv total_on_def)
qed

lemma example_run:
  "\<exists>h' ts. (interleave (thread_step zero_vec))\<^sup>*\<^sup>* (example_index, spawn example_ins example_ses) (h', ts) \<and>
     (\<forall>t \<in> set ts. thread_ended t) \<and> length ts = 3"
  using threads.runs_to_end [OF spawn_ok [OF example_inv example_jobs]] run_jobs
  by (fastforce simp: example_ins_def example_ses_def)

section \<open>Properties\<close>

text \<open>
  C17: Inserts and searches running together always finish.  No run is infinite, no thread ever
  panics or waits for ever, whatever the others have done, and from every reachable state all of
  them can be brought to their end.
\<close>

theorem concurrent_operations_finish:
  assumes "hn_inv h" and "jobs_ok vec h ins ses"
  shows "(\<nexists>run. run 0 = (h, spawn ins ses) \<and> (\<forall>j. interleave (thread_step vec) (run j) (run (Suc j)))) \<and>
     (\<forall>h' ts. (interleave (thread_step vec))\<^sup>*\<^sup>* (h, spawn ins ses) (h', ts) \<longrightarrow>
        (\<forall>t \<in> set ts. thread_ended t \<or> thread_step vec h' t \<noteq> None) \<and>
        (\<exists>c. (interleave (thread_step vec))\<^sup>*\<^sup>* (h', ts) c \<and> (\<forall>t \<in> set (snd c). thread_ended t)))"
proof (intro conjI allI impI)
  note ok = spawn_ok [OF assms]
  show "\<nexists>run. run 0 = (h, spawn ins ses) \<and> (\<forall>j. interleave (thread_step vec) (run j) (run (Suc j)))"
    using threads.no_infinite_run ok by metis
  fix h' ts assume r: "(interleave (thread_step vec))\<^sup>*\<^sup>* (h, spawn ins ses) (h', ts)"
  show "\<forall>t \<in> set ts. thread_ended t \<or> thread_step vec h' t \<noteq> None"
    using threads.never_stuck [OF ok r] by blast
  show "\<exists>c. (interleave (thread_step vec))\<^sup>*\<^sup>* (h', ts) c \<and> (\<forall>t \<in> set (snd c). thread_ended t)"
    using threads.run_ok [OF r ok] threads.runs_to_end by blast
qed

theorem concurrent_operations_finish_witness:
  "\<nexists>run. run 0 = (example_index, spawn example_ins example_ses) \<and>
     (\<forall>j. interleave (thread_step zero_vec) (run j) (run (Suc j)))"
  using concurrent_operations_finish [OF example_inv example_jobs] by blast

text \<open>
  C16: Whatever the interleaving, once the inserts have ended the index holds exactly the old and the
  new nodes, each on its layers; a list names only nodes of its layer and never its own node, and is
  at most the connections of one insert over its bound; and the structural check of the tests fails
  only through such an excess.
\<close>

theorem concurrent_inserts_sound:
  assumes "hn_inv h" and "jobs_ok vec h ins ses"
    and "(interleave (thread_step vec))\<^sup>*\<^sup>* (h, spawn ins ses) (h', ts)"
    and "\<forall>a < length ins. thread_ended (ts ! a)"
  shows "hnsw_len h' = hnsw_len h + length ins \<and> on_layer h' 0 = {..<hnsw_len h'} \<and>
     (\<forall>(i, level, vis) \<in> set ins. i \<in> on_layer h' level) \<and>
     (\<forall>i l ns. links_of h' i l = Some ns \<longrightarrow>
        i \<notin> set ns \<and> set ns \<subseteq> on_layer h' l \<and> length ns \<le> max_degree h' l + cfg_m (hn_config h')) \<and>
     (check_invariants h' \<longleftrightarrow> (\<forall>i l ns. links_of h' i l = Some ns \<longrightarrow> length ns \<le> max_degree h' l))"
proof (intro conjI)
  note D = inserts_done [OF assms(1-3)] and e = assms(4) [rule_format]
  show "hnsw_len h' = hnsw_len h + length ins" "on_layer h' 0 = {..<hnsw_len h'}" by (rule D(2,3) [OF e]; assumption)+
  show "\<forall>(i, level, vis) \<in> set ins. i \<in> on_layer h' level" using D(4) [OF e] by blast
  show "\<forall>i l ns. links_of h' i l = Some ns \<longrightarrow>
      i \<notin> set ns \<and> set ns \<subseteq> on_layer h' l \<and> length ns \<le> max_degree h' l + cfg_m (hn_config h')"
    using D(1) [OF e] by (simp add: shared_ok_def)
  show "check_invariants h' \<longleftrightarrow> (\<forall>i l ns. links_of h' i l = Some ns \<longrightarrow> length ns \<le> max_degree h' l)"
    by (rule check_from_shared [OF D(1,3)]) (rule e; assumption)+
qed

theorem concurrent_inserts_sound_witness:
  "\<exists>h' ts. (interleave (thread_step zero_vec))\<^sup>*\<^sup>* (example_index, spawn example_ins example_ses) (h', ts) \<and>
     hnsw_len h' = 4 \<and> 3 \<in> on_layer h' 1"
proof -
  obtain h' ts where r: "(interleave (thread_step zero_vec))\<^sup>*\<^sup>* (example_index, spawn example_ins example_ses) (h', ts)"
    "\<forall>t \<in> set ts. thread_ended t" "length ts = 3" using example_run by blast
  then have "\<forall>a < length example_ins. thread_ended (ts ! a)" by (simp add: example_ins_def)
  from concurrent_inserts_sound [OF example_inv example_jobs r(1) this] r(1)
  show ?thesis by (auto simp: example_len example_ins_def)
qed

text \<open>
  A search that runs among inserts returns at most \<open>k\<close> distinct nodes that are in the index by
  then, sorted, each with the distance the oracle gives it, and at least one when the index was not
  empty when it started.
\<close>

theorem concurrent_search_sound:
  assumes "hn_inv h" and "jobs_ok vec h ins ses"
    and "(interleave (thread_step vec))\<^sup>*\<^sup>* (h, spawn ins ses) (h', ts)"
    and "a < length ses" and "ses ! a = (dist, k, ef, vis)"
    and "ts ! (length ins + a) = Search s" and "se_pc s = Found hits"
  shows "sorted hits \<and> distinct (map nb_id hits) \<and> length hits \<le> k \<and>
     (\<forall>x \<in> set hits. nb_id x \<in> on_layer h' 0 \<and> nb_id x < hnsw_len h' \<and> dist (nb_id x) = Some (nb_dist x)) \<and>
     (0 < hnsw_len h \<and> 0 < k \<longrightarrow> hits \<noteq> [])"
proof -
  let ?n = "hnsw_len h + length ins" and ?k = "hnsw_len h"
  have S: "system_ok (shared_ok vec ?n ?k) (thread_ok vec ?n ?k) apart_ids (h', ts)"
    using threads.run_ok [OF assms(3) spawn_ok [OF assms(1,2)]] by blast
  have "length ins + a < length ts" and j: "job (ts ! (length ins + a)) = Inr (dist, k, ef)"
    using run_jobs [OF assms(3)] assms(4,5) by auto
  then have "thread_ok vec ?n ?k h' (Search s)" using S assms(6) nth_mem by (fastforce simp: system_ok_def)
  then have h: "hits_ok (se_dist s) (on_layer h' 0) (se_k s) hits" "0 < ?k \<and> 0 < se_k s \<longrightarrow> hits \<noteq> []"
    using assms(7) by (simp_all add: searcher_ok_def)
  have "on_layer h' 0 \<subseteq> {..<hnsw_len h'}" using S by (auto simp: system_ok_def shared_ok_def slots_ok_def on_layer_iff)
  then show ?thesis using h j assms(6) by (auto simp: hits_ok_def scored_def ids_def)
qed

theorem concurrent_search_sound_witness:
  "\<exists>h' ts s n. (interleave (thread_step zero_vec))\<^sup>*\<^sup>* (example_index, spawn example_ins example_ses) (h', ts) \<and>
     ts ! 2 = Search s \<and> se_pc s = Found [n] \<and> nb_id n < hnsw_len h'"
proof -
  obtain h' ts where r: "(interleave (thread_step zero_vec))\<^sup>*\<^sup>* (example_index, spawn example_ins example_ses) (h', ts)"
    "\<forall>t \<in> set ts. thread_ended t" "length ts = 3" using example_run by blast
  have j: "job (ts ! 2) = Inr (\<lambda>_. Some f32_zero, 1, 10)"
    using run_jobs [OF r(1)] by (simp add: example_ins_def example_ses_def numeral_2_eq_2)
  then obtain s where s: "ts ! 2 = Search s" by (cases "ts ! 2") auto
  moreover have "thread_ended (ts ! 2)" using r(2,3) by simp
  ultimately obtain hits where h: "se_pc s = Found hits" by auto
  have "ts ! (length example_ins + 0) = Search s" using s by (simp add: example_ins_def numeral_2_eq_2)
  from concurrent_search_sound [OF example_inv example_jobs r(1) _ _ this h, of "\<lambda>_. Some f32_zero" 1 10 vis_new]
  have "length hits \<le> 1" "hits \<noteq> []" "\<forall>x \<in> set hits. nb_id x < hnsw_len h'"
    by (simp_all add: example_ses_def example_len)
  then obtain n where "hits = [n]" "nb_id n < hnsw_len h'" by (cases hits) auto
  then show ?thesis using r(1) s h by blast
qed

end
