(* ===== verification/Db_Conc.thy ===== *)
theory Db_Conc
  imports Db_Train Hnsw_Threads
begin

text \<open>
  Callers of one database running together (\<^verbatim>\<open>db.rs\<close>): inserts, \<^verbatim>\<open>train_pq\<close> and searches as threads.
  An insert holds the maintenance lock shared from its first step to its last; \<^verbatim>\<open>train_pq\<close> takes it
  exclusively to encode and publish; a search takes no lock.  What a lock makes one piece is one
  step: the block under the log's lock, in which the row goes into store and log (or back out), and
  the block under \<^verbatim>\<open>pq.write()\<close>, in which a code is written.  Linking a row takes the many steps of
  the inserting thread in \<open>Hnsw_Conc\<close>.  The lock is \<^verbatim>\<open>parking_lot\<close>'s, taken at its contract: no reader
  beside a writer.  A step that is not defined waits for the lock, or is a panic.
\<close>

section \<open>The lock\<close>

record rwlock =
  rw_readers :: nat
  rw_writer :: bool

definition read_lock :: "rwlock \<Rightarrow> rwlock option" where
  "read_lock l = (if rw_writer l then None else Some (l\<lparr>rw_readers := rw_readers l + 1\<rparr>))"

definition read_unlock :: "rwlock \<Rightarrow> rwlock" where
  "read_unlock l = l\<lparr>rw_readers := rw_readers l - 1\<rparr>"

definition write_lock :: "rwlock \<Rightarrow> rwlock option" where
  "write_lock l = (if rw_writer l \<or> 0 < rw_readers l then None else Some (l\<lparr>rw_writer := True\<rparr>))"

definition write_unlock :: "rwlock \<Rightarrow> rwlock" where
  "write_unlock l = l\<lparr>rw_writer := False\<rparr>"

record live =
  lv_db :: db
  lv_lock :: rwlock

section \<open>Inserts\<close>

datatype row_stage =
    Want_Shared
  | Storing
  | Linking inserter
  | Releasing "nat result"
  | Row_Done "nat result"

record row_thread =
  rt_vector :: "f32 list"
  rt_io :: io_out
  rt_vis :: visited
  rt_stage :: row_stage

definition row_new :: "f32 list \<Rightarrow> io_out \<Rightarrow> visited \<Rightarrow> row_thread" where
  "row_new v io vis = \<lparr>rt_vector = v, rt_io = io, rt_vis = vis, rt_stage = Want_Shared\<rparr>"

definition row_step :: "env \<Rightarrow> live \<Rightarrow> row_thread \<Rightarrow> (live \<times> row_thread) option" where
  "row_step e lv t =
     (let db = lv_db lv; goto = (\<lambda>lv' stage. Some (lv', t\<lparr>rt_stage := stage\<rparr>))
      in case rt_stage t of
        Want_Shared \<Rightarrow> do { l \<leftarrow> read_lock (lv_lock lv); goto (lv\<lparr>lv_lock := l\<rparr>) Storing }
      | Storing \<Rightarrow>
          (case insert_row_storage_only e db (rt_vector t) (rt_io t) of
             (db', Inl err) \<Rightarrow> goto (lv\<lparr>lv_db := db'\<rparr>) (Releasing (Inl err))
           | (db', Inr i) \<Rightarrow> goto (lv\<lparr>lv_db := db'\<rparr>) (Linking (inserter_new i (en_level e i) (rt_vis t))))
      | Linking w \<Rightarrow>
          if in_pc w = Inserted then do {
            db' \<leftarrow> encode_row db (rt_vector t) (in_id w);
            goto (lv\<lparr>lv_db := db'\<rparr>) (Releasing (Inr (in_id w))) }
          else do {
            (h, w') \<leftarrow> insert_step (store_vec (db_store db)) (db_index db) w;
            goto (lv\<lparr>lv_db := db\<lparr>db_index := h\<rparr>\<rparr>) (Linking w') }
      | Releasing r \<Rightarrow> goto (lv\<lparr>lv_lock := read_unlock (lv_lock lv)\<rparr>) (Row_Done r)
      | Row_Done r \<Rightarrow> None)"

section \<open>Training\<close>

datatype train_stage =
    Asked
  | Counted nat
  | Sampled "f32 list"
  | Trained quantizer
  | Exclusive quantizer
  | Encoded quantizer "byte list"
  | Unlocking
  | Train_Done "unit result"

record 'g train_thread =
  tt_m :: nat
  tt_iters :: nat
  tt_max :: nat
  tt_seed :: 'g
  tt_stage :: train_stage

definition train_new :: "nat \<Rightarrow> nat \<Rightarrow> nat \<Rightarrow> 'g \<Rightarrow> 'g train_thread" where
  "train_new m iters max_samples g =
     \<lparr>tt_m = m, tt_iters = iters, tt_max = max_samples, tt_seed = g, tt_stage = Asked\<rparr>"

text \<open>The checks, with the number of rows they were made for.\<close>

definition train_check :: "db \<Rightarrow> nat \<Rightarrow> nat \<Rightarrow> nat result" where
  "train_check db m max_samples =
     (let n = vs_len (db_store db); dim = vs_dim (db_store db)
      in if cfg_metric (hn_config (db_index db)) \<noteq> L2 then Inl (Corrupt ''PQ supports L2 only in v1'')
         else if m = 0 \<or> dim mod m \<noteq> 0 then
           Inl (InvalidArgument (''PQ m must be a non-zero divisor of dimension '' @ show_nat dim))
         else if max_samples < pq_k then
           Inl (InvalidArgument (''max_samples must be at least '' @ show_nat pq_k))
         else if n < pq_k then Inl (Corrupt (''need >= '' @ show_nat pq_k @ '' vectors to train PQ''))
         else Inr n)"

definition train_step :: "'g rng \<Rightarrow> live \<Rightarrow> 'g train_thread \<Rightarrow> (live \<times> 'g train_thread) option" where
  "train_step rng lv t =
     (let db = lv_db lv; goto = (\<lambda>lv' stage. Some (lv', t\<lparr>tt_stage := stage\<rparr>))
      in case tt_stage t of
        Asked \<Rightarrow>
          goto lv (case train_check db (tt_m t) (tt_max t) of Inl err \<Rightarrow> Train_Done (Inl err) | Inr n \<Rightarrow> Counted n)
      | Counted n \<Rightarrow> do { samples \<leftarrow> sample_rows (db_store db) n (tt_max t); goto lv (Sampled samples) }
      | Sampled samples \<Rightarrow> do {
          r \<leftarrow> pq_train rng samples (vs_dim (db_store db)) (tt_m t) (tt_iters t) (tt_seed t);
          goto lv (case r of Inl err \<Rightarrow> Train_Done (Inl err) | Inr q \<Rightarrow> Trained q) }
      | Trained q \<Rightarrow> do { l \<leftarrow> write_lock (lv_lock lv); goto (lv\<lparr>lv_lock := l\<rparr>) (Exclusive q) }
      | Exclusive q \<Rightarrow> do { codes \<leftarrow> encode_all q (db_store db); goto lv (Encoded q codes) }
      | Encoded q codes \<Rightarrow> goto (lv\<lparr>lv_db := db\<lparr>db_pq := Some \<lparr>ps_pq = q, ps_codes = codes\<rparr>\<rparr>\<rparr>) Unlocking
      | Unlocking \<Rightarrow> goto (lv\<lparr>lv_lock := write_unlock (lv_lock lv)\<rparr>) (Train_Done (Inr ()))
      | Train_Done r \<Rightarrow> None)"

section \<open>Searches\<close>

datatype query_stage =
    Query_Start
  | Searching searcher
  | Answered "neighbor list result"

record query_thread =
  qt_query :: "f32 list"
  qt_k :: nat
  qt_ef :: nat
  qt_vis :: visited
  qt_stage :: query_stage

definition query_new :: "f32 list \<Rightarrow> nat \<Rightarrow> nat \<Rightarrow> visited \<Rightarrow> query_thread" where
  "query_new query k ef vis = \<lparr>qt_query = query, qt_k = k, qt_ef = ef, qt_vis = vis, qt_stage = Query_Start\<rparr>"

text \<open>The oracle of a search reads the store as it is by then.\<close>

definition query_dist :: "db \<Rightarrow> f32 list \<Rightarrow> dist_fun" where
  "query_dist db query = hnsw_distance (hn_kernel (db_index db)) (store_vec (db_store db)) query"

definition query_step :: "live \<Rightarrow> query_thread \<Rightarrow> query_thread option" where
  "query_step lv t =
     (let db = lv_db lv; query = qt_query t; dist = query_dist db query; goto = (\<lambda>stage. Some (t\<lparr>qt_stage := stage\<rparr>))
      in case qt_stage t of
        Query_Start \<Rightarrow>
          goto (if length query \<noteq> vs_dim (db_store db) then
                  Answered (Inl (DimensionMismatch (vs_dim (db_store db)) (length query)))
                else Searching (searcher_new dist (qt_k t) (qt_ef t) (qt_vis t)))
      | Searching w \<Rightarrow> do {
          w' \<leftarrow> search_step (db_index db) (w\<lparr>se_dist := dist\<rparr>);
          goto (case se_pc w' of Found hits \<Rightarrow> Answered (Inr hits) | _ \<Rightarrow> Searching w') }
      | Answered r \<Rightarrow> None)"

section \<open>All of them\<close>

datatype 'g caller = Row row_thread | Training "'g train_thread" | Query query_thread

primrec caller_step :: "env \<Rightarrow> 'g rng \<Rightarrow> live \<Rightarrow> 'g caller \<Rightarrow> (live \<times> 'g caller) option" where
  "caller_step e rng lv (Row t) = map_option (map_prod id Row) (row_step e lv t)"
| "caller_step e rng lv (Training t) = map_option (map_prod id Training) (train_step rng lv t)"
| "caller_step e rng lv (Query t) = map_option (\<lambda>t'. (lv, Query t')) (query_step lv t)"

primrec caller_ended :: "'g caller \<Rightarrow> bool" where
  "caller_ended (Row t) = (\<exists>r. rt_stage t = Row_Done r)"
| "caller_ended (Training t) = (\<exists>r. tt_stage t = Train_Done r)"
| "caller_ended (Query t) = (\<exists>r. qt_stage t = Answered r)"

end
