(* ===== verification/Db_Conc_Inv.thy ===== *)
theory Db_Conc_Inv
  imports Db_Conc Db_Recovery
begin

text \<open>
  What callers running together keep.  The store only grows at its end, the graph keeps what
  \<open>Hnsw_Conc_Inv\<close> says of it, and an id that was handed out belongs to one insert, which has placed
  and encoded it by the time it returns.  The maintenance lock keeps rows from going in between the
  encoding of all rows and its publication.
\<close>

section \<open>Growing stores\<close>

lemma shared_extends:
  assumes sh: "shared_ok vec n k h" and n: "n \<le> n'" "n' \<le> sv_capacity" and v: "vecs_ok (hn_kernel h) vec' n'"
  shows "shared_ok vec' n' k h"
proof -
  have "on_layer h l \<subseteq> {..<n'}" for l using shared_below [OF sh, of l] n(1) by auto
  then show ?thesis using assms unfolding shared_ok_def by auto
qed

lemma distance_extends: "vec \<subseteq>\<^sub>m vec' \<Longrightarrow> hnsw_distance kern vec q \<subseteq>\<^sub>m hnsw_distance kern vec' q"
  unfolding map_le_def hnsw_distance_def dom_def by (auto split: bind_splits)

lemma insert_dist_extends: "vec \<subseteq>\<^sub>m vec' \<Longrightarrow> insert_dist kern vec i \<subseteq>\<^sub>m insert_dist kern vec' i"
  unfolding map_le_def insert_dist_def hnsw_distance_def dom_def by (auto split: bind_splits)

lemma scored_extends: "scored dist hs \<Longrightarrow> dist \<subseteq>\<^sub>m dist' \<Longrightarrow> scored dist' hs"
  unfolding scored_def map_le_def by (metis domI)

lemma beam_extends: "beam_ok dist ef V st \<Longrightarrow> dist \<subseteq>\<^sub>m dist' \<Longrightarrow> beam_ok dist' ef V st"
  using scored_extends by (auto simp: beam_ok_def split: prod.splits)

lemma map_le_Some: "f \<subseteq>\<^sub>m g \<Longrightarrow> f x = Some y \<Longrightarrow> g x = Some y"
  unfolding map_le_def by (metis domI)

lemma inserter_extends:
  assumes ok: "inserter_ok vec n h t" and v: "vec \<subseteq>\<^sub>m vec'" and n: "n \<le> n'"
  shows "inserter_ok vec' n' h t"
proof -
  let ?dist = "insert_dist (hn_kernel h) vec (in_id t)" and ?dist' = "insert_dist (hn_kernel h) vec' (in_id t)"
  have d: "?dist \<subseteq>\<^sub>m ?dist'" by (rule insert_dist_extends [OF v])
  have "pc_ok h ?dist (in_id t) (in_level t) (in_vis t) (in_pc t)" using ok by (simp add: inserter_ok_def)
  then have "pc_ok h ?dist' (in_id t) (in_level t) (in_vis t) (in_pc t)"
    using map_le_Some [OF d] beam_extends [OF _ d] by (cases "in_pc t") auto
  then show ?thesis using ok n by (auto simp: inserter_ok_def)
qed

lemma searcher_extends:
  assumes ok: "searcher_ok n b h (t\<lparr>se_dist := dist\<rparr>)" and d: "dist \<subseteq>\<^sub>m dist'" and tot: "total_on dist' {..<n'}"
  shows "searcher_ok n' b h (t\<lparr>se_dist := dist'\<rparr>)"
proof -
  have "search_pc_ok h b (t\<lparr>se_dist := dist\<rparr>) (se_pc t)" using ok by (simp add: searcher_ok_def)
  then have "search_pc_ok h b (t\<lparr>se_dist := dist'\<rparr>) (se_pc t)"
    using map_le_Some [OF d] beam_extends [OF _ d] scored_extends [OF _ d]
    by (cases "se_pc t") (auto simp: hits_ok_def)
  then show ?thesis using tot by (simp add: searcher_ok_def)
qed

lemma store_extends:
  assumes "prefix (vs_vectors s) (vs_vectors s')" "vs_dim s' = vs_dim s"
  shows "store_vec s \<subseteq>\<^sub>m store_vec s'" "vs_count s \<le> vs_count s'"
proof -
  obtain xs where xs: "vs_vectors s' = vs_vectors s @ xs" using assms(1) by (auto simp: prefix_def)
  then have "length (vs_vectors s') = length (vs_vectors s) + length xs" by simp
  then show le: "vs_count s \<le> vs_count s'" by simp
  have "vs_get_unchecked s' i = vs_get_unchecked s i" if "i < vs_count s" for i
  proof -
    have "vs_vectors s' ! i = vs_vectors s ! i" using xs that by (simp add: nth_append)
    then show ?thesis using that le by simp
  qed
  then show "store_vec s \<subseteq>\<^sub>m store_vec s'" using le by (auto simp: map_le_def store_vec_def split: if_splits)
qed

lemma in_memory [simp]:
  "db_vectors (db\<lparr>db_index := h\<rparr>) = db_vectors db" "db_dim (db\<lparr>db_index := h\<rparr>) = db_dim db"
  "db_vectors (db\<lparr>db_pq := p\<rparr>) = db_vectors db" "db_dim (db\<lparr>db_pq := p\<rparr>) = db_dim db"
  by (simp_all add: db_vectors_def db_dim_def)

section \<open>Codes out of order\<close>

text \<open>The code of a row is in place; a row between its insertion and its encoding has none yet.\<close>

definition coded :: "db \<Rightarrow> nat \<Rightarrow> bool" where
  "coded db i \<longleftrightarrow>
     (case db_pq db of
        None \<Rightarrow> True
      | Some st \<Rightarrow>
          \<exists>code. pq_encode (ps_pq st) (db_vectors db ! i) = Some code \<and>
            slice (ps_codes st) (i * pq_m (ps_pq st)) (pq_m (ps_pq st)) = Some code)"

definition codes_shape :: "db \<Rightarrow> bool" where
  "codes_shape db \<longleftrightarrow>
     (case db_pq db of
        None \<Rightarrow> True
      | Some st \<Rightarrow>
          pq_inv (ps_pq st) \<and> pq_dim (ps_pq st) = db_dim db \<and>
          (\<exists>c \<le> length (db_vectors db). length (ps_codes st) = c * pq_m (ps_pq st)))"

lemma pieces: "length xs = n * m \<Longrightarrow> concat (map (\<lambda>i. take m (drop (i * m) xs)) [0..<n]) = xs"
proof (induction n arbitrary: xs)
  case (Suc n)
  have "concat (map (\<lambda>i. take m (drop (i * m) xs)) [0..<n]) =
      concat (map (\<lambda>i. take m (drop (i * m) (take (n * m) xs))) [0..<n])"
    by (rule arg_cong [of _ _ concat], rule map_cong) (auto simp: drop_take take_take min_def dest!: mult_le_mono1 [of _ _ m, OF Suc_leI])
  then show ?case using Suc.IH [of "take (n * m) xs"] Suc.prems by simp
qed simp

lemma coded_all:
  assumes shape: "codes_shape db" and all: "\<And>i. i < length (db_vectors db) \<Longrightarrow> coded db i"
  shows "pq_ok (db_dim db) (db_vectors db) (db_pq db)"
proof (cases "db_pq db")
  case None
  then show ?thesis by (simp add: pq_ok_def)
next
  case (Some st)
  let ?q = "ps_pq st" and ?m = "pq_m (ps_pq st)" and ?vs = "db_vectors db"
  obtain c where c: "c \<le> length ?vs" "length (ps_codes st) = c * ?m" and q: "pq_inv ?q" "pq_dim ?q = db_dim db"
    using shape Some by (auto simp: codes_shape_def)
  have code: "pq_encode ?q (?vs ! i) = Some (take ?m (drop (i * ?m) (ps_codes st))) \<and> i * ?m + ?m \<le> length (ps_codes st)"
    if "i < length ?vs" for i
    using all [OF that] Some by (auto simp: coded_def slice_def split: if_splits)
  have n: "length (ps_codes st) = length ?vs * ?m"
  proof (cases "length ?vs")
    case (Suc n)
    then have "Suc n * ?m \<le> c * ?m" using code [of n] c(2) by simp
    moreover have "0 < ?m" using q(1) by (simp add: pq_inv_def)
    ultimately have "Suc n \<le> c" by (simp only: mult_le_cancel2)
    then show ?thesis using c Suc by simp
  qed (use c in simp)
  have "map_opt (pq_encode ?q) (map ((!) ?vs) [0..<length ?vs]) =
      Some (map (\<lambda>i. take ?m (drop (i * ?m) (ps_codes st))) [0..<length ?vs])"
    unfolding map_opt_map by (rule map_opt_known) (use code in auto)
  then have "codes_of ?q ?vs = Some (ps_codes st)" using pieces [OF n] by (simp add: codes_of_def map_nth)
  then show ?thesis using Some q by (simp add: pq_ok_def)
qed

text \<open>Writing one code, wherever the array ends, leaves the others in place.\<close>

definition put_code :: "byte list \<Rightarrow> nat \<Rightarrow> nat \<Rightarrow> byte list \<Rightarrow> byte list" where
  "put_code codes i m code =
     (let cs = (if length codes < (i + 1) * m then resize codes ((i + 1) * m) else codes)
      in take (i * m) cs @ code @ drop (i * m + m) cs)"

lemma put_code_slices:
  assumes len: "length codes = c * m" and code: "length code = m"
  shows "slice (put_code codes i m code) (i * m) m = Some code" "length (put_code codes i m code) = max c (i + 1) * m"
    "j \<noteq> i \<Longrightarrow> slice codes (j * m) m = Some x \<Longrightarrow> slice (put_code codes i m code) (j * m) m = Some x"
proof -
  define cs where "cs = (if length codes < (i + 1) * m then resize codes ((i + 1) * m) else codes)"
  define codes' where "codes' = put_code codes i m code"
  have cs': "codes' = take (i * m) cs @ code @ drop (i * m + m) cs"
    unfolding codes'_def put_code_def cs_def Let_def ..
  have lcs: "length cs = max c (i + 1) * m"
  proof (cases "c \<le> i + 1")
    case True
    then have "length codes \<le> (i + 1) * m" unfolding len by (rule mult_le_mono1)
    then show ?thesis using True by (auto simp: cs_def resize_def max_def)
  next
    case False
    then have "(i + 1) * m \<le> length codes" unfolding len by (intro mult_le_mono1) simp
    then show ?thesis using False len by (simp add: cs_def max_def)
  qed
  have room: "i * m + m \<le> length cs" unfolding lcs by (metis add.commute max.cobounded2 mult_Suc mult_le_mono1 Suc_eq_plus1)
  show "slice (put_code codes i m code) (i * m) m = Some code"
    unfolding codes'_def [symmetric] using room code by (simp add: cs' slice_def)
  show "length (put_code codes i m code) = max c (i + 1) * m"
    unfolding codes'_def [symmetric] using room code lcs by (simp add: cs')
  assume j: "j \<noteq> i" and s: "slice codes (j * m) m = Some x"
  then have jm: "j * m + m \<le> length codes" "x = take m (drop (j * m) codes)" by (simp_all add: slice_def split: if_splits)
  have x: "take m (drop (j * m) cs) = x" using jm by (simp add: cs_def resize_def)
  have "length codes \<le> length cs" by (simp add: cs_def resize_def)
  then have jl: "j * m + m \<le> length cs" using jm(1) by simp
  have "take m (drop (j * m) codes') = take m (drop (j * m) cs)"
  proof (cases "j < i")
    case True
    then have "(j + 1) * m \<le> i * m" by (intro mult_le_mono1) simp
    then have le: "j * m + m \<le> i * m" by simp
    then have "take m (drop (j * m) codes') = take m (drop (j * m) (take (i * m) cs))"
      using room by (simp add: cs')
    also have "\<dots> = take m (drop (j * m) cs)" using le by (simp add: drop_take take_take min_def)
    finally show ?thesis .
  next
    case False
    then have "(i + 1) * m \<le> j * m" using j by (intro mult_le_mono1) simp
    then have "i * m + m \<le> j * m" by simp
    moreover from this have "i * m \<le> j * m" by (rule add_leD1)
    ultimately have "i * m + m \<le> j * m" "i * m \<le> j * m" .
    then show ?thesis using room code by (simp add: cs')
  qed
  moreover have "length codes' = length cs" using room code by (simp add: cs')
  ultimately show "slice (put_code codes i m code) (j * m) m = Some x"
    unfolding codes'_def [symmetric] using x jl by (simp add: slice_def)
qed

lemma encode_row_coded:
  assumes shape: "codes_shape db" and i: "i < length (db_vectors db)" "length (db_vectors db ! i) = db_dim db"
  shows "\<exists>p. encode_row db (db_vectors db ! i) i = Some (db\<lparr>db_pq := p\<rparr>) \<and> codes_shape (db\<lparr>db_pq := p\<rparr>) \<and>
     coded (db\<lparr>db_pq := p\<rparr>) i \<and> (\<forall>j. coded db j \<longrightarrow> coded (db\<lparr>db_pq := p\<rparr>) j) \<and> (p = None \<longleftrightarrow> db_pq db = None)"
proof (cases "db_pq db")
  case None
  moreover from None have "db = db\<lparr>db_pq := None\<rparr>" by simp
  ultimately show ?thesis by (intro exI [of _ None]) (simp add: encode_row_def codes_shape_def coded_def)
next
  case (Some st)
  let ?q = "ps_pq st" and ?m = "pq_m (ps_pq st)"
  obtain c where c: "c \<le> length (db_vectors db)" "length (ps_codes st) = c * ?m" and q: "pq_inv ?q" "pq_dim ?q = db_dim db"
    using shape Some by (auto simp: codes_shape_def)
  obtain code where C: "pq_encode ?q (db_vectors db ! i) = Some code" "length code = ?m"
    using pq_encode_spec [OF q(1), of "db_vectors db ! i"] q(2) i(2) by auto
  let ?codes = "put_code (ps_codes st) i ?m code"
  let ?p = "Some (st\<lparr>ps_codes := ?codes\<rparr>)"
  note S = put_code_slices [OF c(2) C(2), where i = i]
  have "encode_row db (db_vectors db ! i) i = Some (db\<lparr>db_pq := ?p\<rparr>)"
    using Some C(1) by (simp add: encode_row_def put_code_def Let_def)
  moreover have "codes_shape (db\<lparr>db_pq := ?p\<rparr>)"
    using q S(2) c(1) i(1) by (auto simp: codes_shape_def db_dim_def db_vectors_def intro!: exI [of _ "max c (i + 1)"])
  moreover have "coded (db\<lparr>db_pq := ?p\<rparr>) i" using C(1) S(1) by (simp add: coded_def db_vectors_def)
  moreover have "coded (db\<lparr>db_pq := ?p\<rparr>) j" if "coded db j" for j
  proof (cases "j = i")
    case False
    then show ?thesis using that Some S(3) by (auto simp: coded_def db_vectors_def)
  qed (use calculation(3) in simp)
  ultimately show ?thesis using Some by (intro exI [of _ ?p]) simp
qed

section \<open>What each caller keeps\<close>

text \<open>
  \<open>P\<close> is what every vector has, those of the start and those to be inserted; the ids from \<open>k\<close> on were
  handed out after the start.
\<close>

definition memory_ok :: "env \<Rightarrow> (f32 list \<Rightarrow> bool) \<Rightarrow> nat \<Rightarrow> db \<Rightarrow> bool" where
  "memory_ok e P k db \<longleftrightarrow>
     vs_inv (db_store db) \<and> shared_ok (store_vec (db_store db)) (length (db_vectors db)) k (db_index db) \<and>
     hn_kernel (db_index db) = kernel (en_avx e) (cfg_metric (hn_config (db_index db))) \<and>
     k \<le> length (db_vectors db) \<and> (\<forall>v \<in> set (db_vectors db). P v) \<and> codes_shape db \<and> (\<forall>i<k. coded db i)"

definition row_at :: "nat \<Rightarrow> db \<Rightarrow> nat \<Rightarrow> f32 list \<Rightarrow> bool" where
  "row_at k db i v \<longleftrightarrow> k \<le> i \<and> i < length (db_vectors db) \<and> db_vectors db ! i = v"

definition row_in :: "env \<Rightarrow> nat \<Rightarrow> db \<Rightarrow> f32 list \<Rightarrow> nat result \<Rightarrow> bool" where
  "row_in e k db v r \<longleftrightarrow>
     (case r of
        Inl err \<Rightarrow> True
      | Inr i \<Rightarrow> row_at k db i v \<and> i \<in> on_layer (db_index db) (en_level e i) \<and> coded db i)"

primrec row_stage_ok :: "env \<Rightarrow> nat \<Rightarrow> db \<Rightarrow> f32 list \<Rightarrow> row_stage \<Rightarrow> bool" where
  "row_stage_ok e k db v Want_Shared = True"
| "row_stage_ok e k db v Storing = True"
| "row_stage_ok e k db v (Linking w) =
     (row_at k db (in_id w) v \<and> in_level w = en_level e (in_id w) \<and>
      inserter_ok (store_vec (db_store db)) (length (db_vectors db)) (db_index db) w)"
| "row_stage_ok e k db v (Releasing r) = row_in e k db v r"
| "row_stage_ok e k db v (Row_Done r) = row_in e k db v r"

definition trained_for :: "db \<Rightarrow> nat \<Rightarrow> quantizer \<Rightarrow> bool" where
  "trained_for db m q \<longleftrightarrow> pq_inv q \<and> pq_dim q = db_dim db \<and> pq_m q = m"

primrec train_stage_ok :: "(f32 list \<Rightarrow> bool) \<Rightarrow> db \<Rightarrow> nat \<Rightarrow> nat \<Rightarrow> train_stage \<Rightarrow> bool" where
  "train_stage_ok P db m M Asked = True"
| "train_stage_ok P db m M (Counted n) =
     (m \<noteq> 0 \<and> db_dim db mod m = 0 \<and> pq_k \<le> M \<and> pq_k \<le> n \<and> n \<le> length (db_vectors db))"
| "train_stage_ok P db m M (Sampled samples) =
     (train_args samples (db_dim db) m \<and> set samples \<subseteq> \<Union> (set ` Collect P) \<and> length samples div db_dim db \<le> 2 * M)"
| "train_stage_ok P db m M (Trained q) = trained_for db m q"
| "train_stage_ok P db m M (Exclusive q) = trained_for db m q"
| "train_stage_ok P db m M (Encoded q codes) = trained_for db m q"
| "train_stage_ok P db m M Unlocking = (db_pq db \<noteq> None)"
| "train_stage_ok P db m M (Train_Done r) = (\<forall>u. r = Inr u \<longrightarrow> db_pq db \<noteq> None)"

primrec query_stage_ok :: "nat \<Rightarrow> db \<Rightarrow> f32 list \<Rightarrow> nat \<Rightarrow> query_stage \<Rightarrow> bool" where
  "query_stage_ok k db q c Query_Start = True"
| "query_stage_ok k db q c (Searching w) =
     (length q = db_dim db \<and> se_k w = c \<and> (\<forall>hits. se_pc w \<noteq> Found hits) \<and>
      searcher_ok (length (db_vectors db)) (0 < k) (db_index db) (w\<lparr>se_dist := query_dist db q\<rparr>))"
| "query_stage_ok k db q c (Answered r) =
     (case r of
        Inl err \<Rightarrow> length q \<noteq> db_dim db
      | Inr hits \<Rightarrow> length q = db_dim db \<and> hits_ok (query_dist db q) (on_layer (db_index db) 0) c hits \<and>
          (0 < k \<and> 0 < c \<longrightarrow> hits \<noteq> []))"

primrec caller_ok :: "env \<Rightarrow> (f32 list \<Rightarrow> bool) \<Rightarrow> nat \<Rightarrow> db \<Rightarrow> 'g caller \<Rightarrow> bool" where
  "caller_ok e P k db (Row t) \<longleftrightarrow>
     P (rt_vector t) \<and> vis_inv (rt_vis t) \<and> row_stage_ok e k db (rt_vector t) (rt_stage t)"
| "caller_ok e P k db (Training t) \<longleftrightarrow> train_stage_ok P db (tt_m t) (tt_max t) (tt_stage t)"
| "caller_ok e P k db (Query t) \<longleftrightarrow> vis_inv (qt_vis t) \<and> query_stage_ok k db (qt_query t) (qt_k t) (qt_stage t)"

text \<open>The id an insert was given, once it has one.\<close>

primrec stage_id :: "row_stage \<Rightarrow> nat option" where
  "stage_id Want_Shared = None"
| "stage_id Storing = None"
| "stage_id (Linking w) = Some (in_id w)"
| "stage_id (Releasing r) = (case r of Inl err \<Rightarrow> None | Inr i \<Rightarrow> Some i)"
| "stage_id (Row_Done r) = (case r of Inl err \<Rightarrow> None | Inr i \<Rightarrow> Some i)"

primrec caller_id :: "'g caller \<Rightarrow> nat option" where
  "caller_id (Row t) = stage_id (rt_stage t)"
| "caller_id (Training t) = None"
| "caller_id (Query t) = None"

text \<open>What a step of a caller may do to the database under the others.\<close>

definition advances :: "nat option \<Rightarrow> db \<Rightarrow> db \<Rightarrow> bool" where
  "advances j db db' \<longleftrightarrow>
     db_dim db' = db_dim db \<and> prefix (db_vectors db) (db_vectors db') \<and>
     (db_index db' = db_index db \<or> (\<exists>i. j = Some i \<and> grows i (db_index db) (db_index db'))) \<and>
     (\<forall>i < length (db_vectors db). coded db i \<longrightarrow> coded db' i) \<and> (db_pq db \<noteq> None \<longrightarrow> db_pq db' \<noteq> None)"

lemma advances_refl [simp]: "advances j db db"
  by (simp add: advances_def)

lemma advances_layer: "advances j db db' \<Longrightarrow> x \<in> on_layer (db_index db) l \<Longrightarrow> x \<in> on_layer (db_index db') l"
  using grows_layer by (auto simp: advances_def)

lemma row_in_advances: "row_in e k db v r \<Longrightarrow> advances j db db' \<Longrightarrow> row_in e k db' v r"
  using advances_layer [of j db db']
  by (auto simp: row_in_def row_at_def advances_def prefix_def nth_append split: sum.splits)

lemma query_dist_advances:
  assumes a: "advances j db db'" and ok: "memory_ok e P k db'" and q: "length q = db_dim db"
  shows "query_dist db q \<subseteq>\<^sub>m query_dist db' q" "total_on (query_dist db' q) {..<length (db_vectors db')}"
proof -
  have p: "prefix (vs_vectors (db_store db)) (vs_vectors (db_store db'))" "vs_dim (db_store db') = vs_dim (db_store db)"
    using a by (simp_all add: advances_def db_vectors_def db_dim_def)
  have "hn_kernel (db_index db') = hn_kernel (db_index db)"
    using a grows_fixed by (auto simp: advances_def)
  then show "query_dist db q \<subseteq>\<^sub>m query_dist db' q"
    using distance_extends [OF store_extends(1) [OF p]] by (simp add: query_dist_def)
  show "total_on (query_dist db' q) {..<length (db_vectors db')}"
    using ok q p(2) by (auto simp: query_dist_def total_on_def hnsw_distance_def store_vec_def memory_ok_def db_vectors_def
        db_dim_def kernel_total)
qed

lemma others_ok:
  assumes ok: "caller_ok e P k db u" and a: "advances j db db'" and mem: "memory_ok e P k db'"
    and j: "j = None \<or> caller_id u \<noteq> j"
  shows "caller_ok e P k db' u"
proof (cases u)
  case (Row t)
  have p: "prefix (vs_vectors (db_store db)) (vs_vectors (db_store db'))" "vs_dim (db_store db') = vs_dim (db_store db)"
    "db_vectors db' = db_vectors db @ drop (length (db_vectors db)) (db_vectors db')"
    using a by (auto simp: advances_def db_vectors_def db_dim_def prefix_def)
  note ext = store_extends [OF p(1,2)]
  have "row_stage_ok e k db' (rt_vector t) (rt_stage t)"
  proof (cases "rt_stage t")
    case (Linking w)
    then have w: "row_at k db (in_id w) (rt_vector t)" "in_level w = en_level e (in_id w)"
      "inserter_ok (store_vec (db_store db)) (length (db_vectors db)) (db_index db) w" "j \<noteq> Some (in_id w)"
      using ok j Row by auto
    have "inserter_ok (store_vec (db_store db')) (length (db_vectors db')) (db_index db) w"
      using inserter_extends [OF w(3) ext(1)] ext(2) by (simp add: db_vectors_def)
    moreover from this have "inserter_ok (store_vec (db_store db')) (length (db_vectors db')) (db_index db') w"
      if "j = Some i" "grows i (db_index db) (db_index db')" for i
      using inserter_ok_grows [OF _ that(2)] that(1) w(4) by blast
    ultimately have "inserter_ok (store_vec (db_store db')) (length (db_vectors db')) (db_index db') w"
      using a by (auto simp: advances_def)
    moreover have "row_at k db' (in_id w) (rt_vector t)" using w(1) p(3) unfolding row_at_def by (metis length_append nth_append trans_less_add1)
    ultimately show ?thesis using Linking w(2) by simp
  qed (use ok Row row_in_advances [OF _ a] in simp_all)
  then show ?thesis using ok Row by simp
next
  case (Training t)
  then show ?thesis
    using ok a by (cases "tt_stage t") (auto simp: advances_def trained_for_def prefix_def)
next
  case (Query t)
  have "db_dim db' = db_dim db" using a by (simp add: advances_def)
  moreover have "on_layer (db_index db) l \<subseteq> on_layer (db_index db') l" for l using advances_layer [OF a] by blast
  moreover note Q = query_dist_advances [OF a mem, of "qt_query t"]
  ultimately have "query_stage_ok k db' (qt_query t) (qt_k t) (qt_stage t)"
    if "query_stage_ok k db (qt_query t) (qt_k t) (qt_stage t)"
  proof (cases "qt_stage t")
    case (Searching w)
    then have w: "length (qt_query t) = db_dim db" "se_k w = qt_k t \<and> (\<forall>hits. se_pc w \<noteq> Found hits)"
      "searcher_ok (length (db_vectors db)) (0 < k) (db_index db) (w\<lparr>se_dist := query_dist db (qt_query t)\<rparr>)"
      using that by simp_all
    from searcher_extends [OF w(3) Q [OF w(1)]]
    have s: "searcher_ok (length (db_vectors db')) (0 < k) (db_index db) (w\<lparr>se_dist := query_dist db' (qt_query t)\<rparr>)" .
    have "searcher_ok (length (db_vectors db')) (0 < k) (db_index db') (w\<lparr>se_dist := query_dist db' (qt_query t)\<rparr>)"
      using a s searcher_ok_grows [OF s] by (auto simp: advances_def)
    then show ?thesis using Searching w(1,2) \<open>db_dim db' = db_dim db\<close> by simp
  next
    case (Answered r)
    then show ?thesis
      using that Q(1) scored_extends [OF _ Q(1)] \<open>db_dim db' = db_dim db\<close> \<open>\<And>l. on_layer (db_index db) l \<subseteq> on_layer (db_index db') l\<close>
      by (auto simp: hits_ok_def split: sum.splits)
  qed simp
  then show ?thesis using ok Query by simp
qed

section \<open>Steps of inserts\<close>

lemma stored_ok:
  assumes mem: "memory_ok e P k db" and lev: "levels_ok e" and v: "P v" "vis_inv vis"
    and ins: "insert_row_storage_only e db v io = (db', r)"
  shows "memory_ok e P k db' \<and> advances None db db' \<and>
     (case r of
        Inl err \<Rightarrow> db_vectors db' = db_vectors db
      | Inr i \<Rightarrow> i = length (db_vectors db) \<and> db_vectors db' = db_vectors db @ [v] \<and>
          row_stage_ok e k db' v (Linking (inserter_new i (en_level e i) vis)))"
proof -
  have inv: "vs_inv (db_store db)" and kern: "hn_kernel (db_index db) = kernel (en_avx e) (cfg_metric (hn_config (db_index db)))"
    and sh: "shared_ok (store_vec (db_store db)) (length (db_vectors db)) k (db_index db)"
    using mem by (simp_all add: memory_ok_def)
  note I = insert_row_spec [OF inv ins]
  obtain s w where db': "db' = db\<lparr>db_store := s, db_wal := w\<rparr>" using I by blast
  obtain xs where xs: "db_vectors db' = db_vectors db @ xs" "set xs \<subseteq> {v}"
    using I by (cases r) auto
  have same: "db_index db' = db_index db" "db_pq db' = db_pq db" "db_dim db' = db_dim db" "vs_inv (db_store db')"
    using I db' by simp_all
  have "length (db_vectors db') \<le> sv_capacity" using store_capacity [OF same(4)] by (simp add: db_vectors_def)
  moreover have "vecs_ok (hn_kernel (db_index db)) (store_vec (db_store db')) (length (db_vectors db'))"
    using store_vecs_ok [of "length (db_vectors db')"] kern by (simp add: db_vectors_def)
  ultimately have sh': "shared_ok (store_vec (db_store db')) (length (db_vectors db')) k (db_index db')"
    using shared_extends [OF sh, of "length (db_vectors db')"] same(1) xs(1) by simp
  have c: "coded db' i" if "coded db i" "i < length (db_vectors db)" for i
    using that same(2) xs(1) by (simp add: coded_def nth_append split: option.splits)
  have "codes_shape db'" using mem same xs(1)
    by (cases "db_pq db") (auto simp: memory_ok_def codes_shape_def intro: trans_le_add1)
  then have mem': "memory_ok e P k db'" using mem same sh' xs v c by (auto simp: memory_ok_def)
  moreover have "advances None db db'" using same xs c by (simp add: advances_def)
  moreover have "row_stage_ok e k db' v (Linking (inserter_new i (en_level e i) vis))"
    if i: "i = length (db_vectors db)" and v': "db_vectors db' = db_vectors db @ [v]" for i
  proof -
    have "i \<notin> on_layer (db_index db) l" for l using shared_below [OF sh, of l] i by auto
    then have "links_of (db_index db) i l = None" for l by (simp add: on_layer_def)
    moreover have "en_level e i < 64" using lev by (simp add: levels_ok_def)
    then have "en_level e i < 256" by simp
    moreover have "k \<le> length (db_vectors db)" using mem by (simp add: memory_ok_def)
    ultimately show ?thesis
      using i v' v(2) same(1) \<open>\<And>l. i \<notin> on_layer (db_index db) l\<close> by (simp add: inserter_new_def inserter_ok_def row_at_def)
  qed
  ultimately show ?thesis using I by (cases r) auto
qed

lemma linked_ok:
  assumes mem: "memory_ok e P k db" and ok: "row_stage_ok e k db v (Linking w)"
    and st: "insert_step (store_vec (db_store db)) (db_index db) w = Some (h, w')"
  shows "memory_ok e P k (db\<lparr>db_index := h\<rparr>) \<and> advances (Some (in_id w)) db (db\<lparr>db_index := h\<rparr>) \<and>
     row_stage_ok e k (db\<lparr>db_index := h\<rparr>) v (Linking w') \<and> in_id w' = in_id w"
proof -
  let ?n = "length (db_vectors db)"
  have sh: "shared_ok (store_vec (db_store db)) ?n k (db_index db)"
    and w: "inserter_ok (store_vec (db_store db)) ?n (db_index db) w"
    using mem ok by (simp_all add: memory_ok_def)
  note S = insert_step_spec [OF sh w st]
  have "hn_kernel h = hn_kernel (db_index db) \<and> hn_config h = hn_config (db_index db)"
    using S grows_fixed by blast
  moreover have "in_id w' = in_id w" by (rule insert_step_id [OF st])
  moreover have "in_level w' = in_level w" by (rule insert_step_level [OF st])
  moreover have "coded (db\<lparr>db_index := h\<rparr>) = coded db" by (simp add: fun_eq_iff coded_def split: option.split)
  ultimately show ?thesis
    using mem ok S by (simp add: memory_ok_def advances_def row_at_def codes_shape_def split: option.splits)
qed

lemma encoded_ok:
  assumes mem: "memory_ok e P k db" and ok: "row_stage_ok e k db v (Linking w)" and pc: "in_pc w = Inserted"
  shows "\<exists>db'. encode_row db v (in_id w) = Some db' \<and> memory_ok e P k db' \<and> advances None db db' \<and>
     row_in e k db' v (Inr (in_id w)) \<and> db_vectors db' = db_vectors db"
proof -
  have i: "in_id w < length (db_vectors db)" "db_vectors db ! in_id w = v" "k \<le> in_id w"
    "in_id w \<in> on_layer (db_index db) (en_level e (in_id w))"
    using ok pc by (auto simp: row_at_def inserter_ok_def)
  have "db_vectors db ! in_id w \<in> set (db_vectors db)" using i(1) by (rule nth_mem)
  then have "length (db_vectors db ! in_id w) = db_dim db" using vectors_dim by (auto simp: db_vectors_def db_dim_def)
  from encode_row_coded [OF _ i(1) this] mem i(2) obtain p where
    E: "encode_row db v (in_id w) = Some (db\<lparr>db_pq := p\<rparr>)" "codes_shape (db\<lparr>db_pq := p\<rparr>)"
      "coded (db\<lparr>db_pq := p\<rparr>) (in_id w)" "\<forall>j. coded db j \<longrightarrow> coded (db\<lparr>db_pq := p\<rparr>) j" "p = None \<longleftrightarrow> db_pq db = None"
    by (auto simp: memory_ok_def)
  have "memory_ok e P k (db\<lparr>db_pq := p\<rparr>)" using mem E by (simp add: memory_ok_def db_vectors_def)
  moreover have "advances None db (db\<lparr>db_pq := p\<rparr>)" using E by (simp add: advances_def db_vectors_def db_dim_def)
  moreover have "row_in e k (db\<lparr>db_pq := p\<rparr>) v (Inr (in_id w))"
    using i E(3) by (simp add: row_in_def row_at_def db_vectors_def)
  ultimately show ?thesis using E(1) by (auto simp: db_vectors_def)
qed

lemma row_in_cases [simp]: "row_in e k db v (Inl err)"
  by (simp add: row_in_def)

lemma row_step_ok:
  assumes mem: "memory_ok e P k (lv_db lv)" and ok: "caller_ok e P k (lv_db lv) (Row t)" and lev: "levels_ok e"
    and st: "row_step e lv t = Some (lv', t')"
  shows "memory_ok e P k (lv_db lv') \<and> caller_ok e P k (lv_db lv') (Row t') \<and>
     advances (stage_id (rt_stage t)) (lv_db lv) (lv_db lv')"
proof (cases "rt_stage t")
  case Want_Shared
  then show ?thesis using assms by (auto simp: row_step_def Let_def split: bind_splits)
next
  case Storing
  obtain db' r where ins: "insert_row_storage_only e (lv_db lv) (rt_vector t) (rt_io t) = (db', r)" by fastforce
  have v: "P (rt_vector t)" "vis_inv (rt_vis t)" using ok by simp_all
  from stored_ok [OF mem lev v ins] st show ?thesis
    using Storing v ins by (cases r) (auto simp: row_step_def Let_def)
next
  case (Linking w)
  have w: "row_stage_ok e k (lv_db lv) (rt_vector t) (Linking w)" and v: "P (rt_vector t)" "vis_inv (rt_vis t)"
    using ok Linking by simp_all
  show ?thesis
  proof (cases "in_pc w = Inserted")
    case True
    from encoded_ok [OF mem w True] obtain db' where D: "encode_row (lv_db lv) (rt_vector t) (in_id w) = Some db'"
      "memory_ok e P k db'" "advances None (lv_db lv) db'" "row_in e k db' (rt_vector t) (Inr (in_id w))" by blast
    then have "lv' = lv\<lparr>lv_db := db'\<rparr>" "t' = t\<lparr>rt_stage := Releasing (Inr (in_id w))\<rparr>"
      using st Linking True by (simp_all add: row_step_def Let_def)
    moreover have "advances (Some (in_id w)) (lv_db lv) db'" using D(3) by (auto simp: advances_def)
    ultimately show ?thesis using D v Linking by simp
  next
    case False
    then obtain h w' where S: "insert_step (store_vec (db_store (lv_db lv))) (db_index (lv_db lv)) w = Some (h, w')"
      "lv' = lv\<lparr>lv_db := (lv_db lv)\<lparr>db_index := h\<rparr>\<rparr>" "t' = t\<lparr>rt_stage := Linking w'\<rparr>"
      using st Linking by (auto simp: row_step_def Let_def split: bind_splits prod.splits)
    then show ?thesis using linked_ok [OF mem w S(1)] v Linking by (auto simp: row_at_def)
  qed
next
  case (Releasing r)
  then have "lv_db lv' = lv_db lv" "t' = t\<lparr>rt_stage := Row_Done r\<rparr>" using st by (auto simp: row_step_def Let_def)
  then show ?thesis using mem ok Releasing by simp
next
  case (Row_Done r)
  then show ?thesis using st by (simp add: row_step_def)
qed

section \<open>Steps of trainings and searches\<close>

lemma slice_concat: "\<forall>c \<in> set cs. length c = m \<Longrightarrow> i < length cs \<Longrightarrow> slice (concat cs) (i * m) m = Some (cs ! i)"
proof (induction cs arbitrary: i)
  case (Cons c cs)
  show ?case
  proof (cases i)
    case (Suc j)
    then have "slice (concat cs) (j * m) m = Some (cs ! j)" using Cons by simp
    then show ?thesis using Suc Cons.prems by (auto simp: slice_def split: if_splits)
  qed (use Cons.prems in \<open>simp add: slice_def\<close>)
qed simp

lemma codes_of_coded:
  assumes q: "pq_inv q" "pq_dim q = db_dim db" and codes: "codes_of q (db_vectors db) = Some codes"
  defines "db' \<equiv> db\<lparr>db_pq := Some \<lparr>ps_pq = q, ps_codes = codes\<rparr>\<rparr>"
  shows "codes_shape db' \<and> (\<forall>i < length (db_vectors db). coded db' i)"
proof -
  let ?m = "pq_m q"
  have dims: "\<forall>v \<in> set (db_vectors db). length v = pq_dim q" using q(2) vectors_dim by (auto simp: db_vectors_def db_dim_def)
  obtain cs where cs: "map_opt (pq_encode q) (db_vectors db) = Some cs" "length cs = length (db_vectors db)"
    "\<forall>c \<in> set cs. length c = ?m" using codes_of_total [OF q(1) dims] by blast
  then have c: "codes = concat cs" using codes by (simp add: codes_of_def)
  have len: "length codes = length (db_vectors db) * ?m" using concat_lengths [OF cs(3)] cs(2) c by simp
  have "coded db' i" if "i < length (db_vectors db)" for i
  proof -
    have "pq_encode q (db_vectors db ! i) = Some (cs ! i)" using map_opt_Some [OF cs(1)] that by simp
    moreover have "slice codes (i * ?m) ?m = Some (cs ! i)" using slice_concat [OF cs(3)] that cs(2) c by simp
    ultimately show ?thesis by (simp add: coded_def db'_def)
  qed
  moreover have "codes_shape db'" using q len by (auto simp: codes_shape_def db'_def)
  ultimately show ?thesis by blast
qed

lemma published_ok:
  assumes mem: "memory_ok e P k db" and q: "pq_inv q" "pq_dim q = db_dim db" and codes: "codes_of q (db_vectors db) = Some codes"
  shows "memory_ok e P k (db\<lparr>db_pq := Some \<lparr>ps_pq = q, ps_codes = codes\<rparr>\<rparr>) \<and>
     advances None db (db\<lparr>db_pq := Some \<lparr>ps_pq = q, ps_codes = codes\<rparr>\<rparr>)"
proof -
  have "k \<le> length (db_vectors db)" using mem by (simp add: memory_ok_def)
  then show ?thesis using mem codes_of_coded [OF q codes] by (simp add: memory_ok_def advances_def)
qed

text \<open>The codes a training publishes are those of the rows of that moment: the lock sees to it.\<close>

definition codes_fresh :: "db \<Rightarrow> 'g caller \<Rightarrow> bool" where
  "codes_fresh db u \<longleftrightarrow>
     (\<forall>t q codes. u = Training t \<and> tt_stage t = Encoded q codes \<longrightarrow> codes_of q (db_vectors db) = Some codes)"

lemma train_step_ok:
  assumes mem: "memory_ok e P k (lv_db lv)" and ok: "caller_ok e P k (lv_db lv) (Training t)"
    and fresh: "codes_fresh (lv_db lv) (Training t)" and st: "train_step rng lv t = Some (lv', t')"
  shows "memory_ok e P k (lv_db lv') \<and> caller_ok e P k (lv_db lv') (Training t') \<and>
     advances None (lv_db lv) (lv_db lv') \<and> codes_fresh (lv_db lv') (Training t')"
proof -
  let ?db = "lv_db lv"
  have inv: "vs_inv (db_store ?db)" using mem by (simp add: memory_ok_def)
  have n: "vs_len (db_store ?db) = length (db_vectors ?db)" by (simp add: vs_len_def db_vectors_def)
  show ?thesis
  proof (cases "tt_stage t")
    case Asked
    then have "lv' = lv" "t' = t\<lparr>tt_stage := (case train_check ?db (tt_m t) (tt_max t) of
        Inl err \<Rightarrow> Train_Done (Inl err) | Inr n \<Rightarrow> Counted n)\<rparr>"
      using st by (auto simp: train_step_def Let_def)
    moreover have "m \<noteq> 0 \<and> db_dim ?db mod m = 0 \<and> pq_k \<le> M \<and> pq_k \<le> n \<and> n \<le> length (db_vectors ?db)"
      if "train_check ?db m M = Inr n" for m M n
      using that n by (auto simp: train_check_def Let_def db_dim_def split: if_splits)
    ultimately show ?thesis using mem by (auto simp: codes_fresh_def split: sum.splits)
  next
    case (Counted n)
    then have c: "pq_k \<le> n" "pq_k \<le> tt_max t" "n \<le> vs_count (db_store ?db)" "tt_m t \<noteq> 0" "db_dim ?db mod tt_m t = 0"
      using ok by (simp_all add: db_vectors_def)
    obtain samples where S: "sample_rows (db_store ?db) n (tt_max t) = Some samples"
      "set samples \<subseteq> \<Union> (set ` set (db_vectors ?db))" "length samples mod db_dim ?db = 0"
      "pq_k \<le> length samples div db_dim ?db" "length samples div db_dim ?db \<le> 2 * tt_max t"
      using sample_rows_spec [OF inv c(1-3)] by (auto simp: db_vectors_def db_dim_def)
    have "0 < db_dim ?db" using inv by (simp add: vs_inv_def geometry_ok_def db_dim_def)
    moreover have "samples \<noteq> []" using S(4) by (auto simp: pq_k_def)
    ultimately have "train_args samples (db_dim ?db) (tt_m t)" using S c by (simp add: train_args_def)
    moreover have "set samples \<subseteq> \<Union> (set ` Collect P)" using S(2) mem by (fastforce simp: memory_ok_def)
    moreover have "lv' = lv" "t' = t\<lparr>tt_stage := Sampled samples\<rparr>"
      using st Counted S(1) by (simp_all add: train_step_def Let_def)
    ultimately show ?thesis using mem S(5) by (simp add: codes_fresh_def)
  next
    case (Sampled samples)
    then obtain r where r: "pq_train rng samples (db_dim ?db) (tt_m t) (tt_iters t) (tt_seed t) = Some r"
      "lv' = lv" "t' = t\<lparr>tt_stage := (case r of Inl err \<Rightarrow> Train_Done (Inl err) | Inr q \<Rightarrow> Trained q)\<rparr>"
      using st by (auto simp: train_step_def Let_def db_dim_def split: bind_splits)
    have dim: "db_dim ?db < 2 ^ 32" using inv by (simp add: vs_inv_def geometry_ok_def db_dim_def)
    have "trained_for ?db (tt_m t) q" if "r = Inr q" for q
      using pq_train_inv [OF r(1) [unfolded that] dim] by (simp add: trained_for_def)
    then show ?thesis using r(2,3) mem by (auto simp: codes_fresh_def split: sum.splits)
  next
    case (Trained q)
    then show ?thesis using st mem ok by (auto simp: train_step_def Let_def codes_fresh_def split: bind_splits)
  next
    case (Exclusive q)
    then obtain codes where "codes_of q (db_vectors ?db) = Some codes" "lv' = lv" "t' = t\<lparr>tt_stage := Encoded q codes\<rparr>"
      using st by (auto simp: train_step_def Let_def encode_all_codes db_vectors_def split: bind_splits)
    then show ?thesis using mem ok Exclusive by (simp add: codes_fresh_def)
  next
    case (Encoded q codes)
    then have "codes_of q (db_vectors ?db) = Some codes" "pq_inv q" "pq_dim q = db_dim ?db"
      using fresh ok by (simp_all add: codes_fresh_def trained_for_def)
    from published_ok [OF mem this(2,3,1)] show ?thesis
      using st Encoded by (auto simp: train_step_def Let_def codes_fresh_def)
  next
    case Unlocking
    then show ?thesis using st mem ok by (auto simp: train_step_def Let_def codes_fresh_def)
  next
    case (Train_Done r)
    then show ?thesis using st by (simp add: train_step_def)
  qed
qed

lemma query_total:
  assumes "memory_ok e P k db" "length q = db_dim db"
  shows "total_on (query_dist db q) {..<length (db_vectors db)}"
  using query_dist_advances(2) [OF advances_refl assms] .

lemma query_step_ok:
  assumes mem: "memory_ok e P k (lv_db lv)" and ok: "caller_ok e P k (lv_db lv) (Query t)"
    and st: "query_step lv t = Some t'"
  shows "caller_ok e P k (lv_db lv) (Query t')"
proof -
  let ?db = "lv_db lv" and ?q = "qt_query t"
  let ?dist = "query_dist ?db ?q"
  show ?thesis
  proof (cases "qt_stage t")
    case Query_Start
    have "searcher_ok (length (db_vectors ?db)) (0 < k) (db_index ?db) (searcher_new ?dist (qt_k t) (qt_ef t) (qt_vis t))"
      if "length ?q = db_dim ?db"
      using query_total [OF mem that] ok by (simp add: searcher_ok_def searcher_new_def)
    then show ?thesis
      using st ok Query_Start by (auto simp: query_step_def Let_def db_dim_def searcher_new_def)
  next
    case (Searching w)
    let ?w = "w\<lparr>se_dist := ?dist\<rparr>"
    have w: "length ?q = db_dim ?db" "se_k w = qt_k t"
      "searcher_ok (length (db_vectors ?db)) (0 < k) (db_index ?db) ?w"
      using ok Searching by simp_all
    obtain w' where w': "search_step (db_index ?db) ?w = Some w'"
      "t' = t\<lparr>qt_stage := (case se_pc w' of Found hits \<Rightarrow> Answered (Inr hits) | _ \<Rightarrow> Searching w')\<rparr>"
      using st Searching by (auto simp: query_step_def Let_def split: bind_splits)
    have sh: "shared_ok (store_vec (db_store ?db)) (length (db_vectors ?db)) k (db_index ?db)"
      using mem by (simp add: memory_ok_def)
    have s: "searcher_ok (length (db_vectors ?db)) (0 < k) (db_index ?db) w'"
      using search_step_spec [OF sh w(3) w'(1)] by blast
    moreover have j: "se_k w' = qt_k t" "se_dist w' = ?dist" using search_step_job [OF w'(1)] w(2) by simp_all
    moreover from j(2) have "w'\<lparr>se_dist := ?dist\<rparr> = w'" by simp
    ultimately show ?thesis
      using w'(2) ok w(1) by (cases "se_pc w'") (auto simp: searcher_ok_def)
  next
    case (Answered r)
    then show ?thesis using st by (simp add: query_step_def)
  qed
qed

section \<open>The maintenance lock\<close>

primrec row_reads :: "row_stage \<Rightarrow> bool" where
  "row_reads Want_Shared = False"
| "row_reads Storing = True"
| "row_reads (Linking w) = True"
| "row_reads (Releasing r) = True"
| "row_reads (Row_Done r) = False"

primrec train_writes :: "train_stage \<Rightarrow> bool" where
  "train_writes Asked = False"
| "train_writes (Counted n) = False"
| "train_writes (Sampled samples) = False"
| "train_writes (Trained q) = False"
| "train_writes (Exclusive q) = True"
| "train_writes (Encoded q codes) = True"
| "train_writes Unlocking = True"
| "train_writes (Train_Done r) = False"

primrec reads :: "'g caller \<Rightarrow> bool" where
  "reads (Row t) = row_reads (rt_stage t)"
| "reads (Training t) = False"
| "reads (Query t) = False"

primrec writes :: "'g caller \<Rightarrow> bool" where
  "writes (Row t) = False"
| "writes (Training t) = train_writes (tt_stage t)"
| "writes (Query t) = False"

text \<open>An insert whose row is not in the store yet.\<close>

primrec unstored :: "'g caller \<Rightarrow> bool" where
  "unstored (Row t) = (rt_stage t = Want_Shared \<or> rt_stage t = Storing)"
| "unstored (Training t) = False"
| "unstored (Query t) = False"

abbreviation count_of :: "('a \<Rightarrow> bool) \<Rightarrow> 'a list \<Rightarrow> nat" where
  "count_of P ts \<equiv> length (filter P ts)"

lemma count_update:
  "a < length ts \<Longrightarrow>
     count_of P (ts[a := t]) + (if P (ts ! a) then 1 else 0) = count_of P ts + (if P t then 1 else 0)"
proof (induction ts arbitrary: a)
  case (Cons x ts)
  then show ?case by (cases a) auto
qed simp

lemma count_pos: "a < length ts \<Longrightarrow> P (ts ! a) \<Longrightarrow> 0 < count_of P ts"
  by (metis filter_empty_conv length_greater_0_conv nth_mem)

lemma count_zero: "count_of P ts = 0 \<longleftrightarrow> (\<forall>t \<in> set ts. \<not> P t)"
  by (auto simp: filter_empty_conv)

definition lock_ok :: "rwlock \<Rightarrow> 'g caller list \<Rightarrow> bool" where
  "lock_ok l ts \<longleftrightarrow>
     rw_readers l = count_of reads ts \<and> (if rw_writer l then 1 else 0) = count_of writes ts \<and>
     (rw_writer l \<longrightarrow> rw_readers l = 0)"

text \<open>What a step does to the lock.\<close>

definition lock_move :: "rwlock \<Rightarrow> rwlock \<Rightarrow> 'g caller \<Rightarrow> 'g caller \<Rightarrow> bool" where
  "lock_move l l' t t' \<longleftrightarrow>
     (l' = l \<and> reads t' = reads t \<and> writes t' = writes t) \<or>
     (read_lock l = Some l' \<and> \<not> reads t \<and> reads t' \<and> \<not> writes t \<and> \<not> writes t') \<or>
     (l' = read_unlock l \<and> reads t \<and> \<not> reads t' \<and> \<not> writes t \<and> \<not> writes t') \<or>
     (write_lock l = Some l' \<and> \<not> reads t \<and> \<not> reads t' \<and> \<not> writes t \<and> writes t') \<or>
     (l' = write_unlock l \<and> \<not> reads t \<and> \<not> reads t' \<and> writes t \<and> \<not> writes t')"

lemma lock_kept:
  assumes ok: "lock_ok l ts" and a: "a < length ts" and m: "lock_move l l' (ts ! a) t'"
  shows "lock_ok l' (ts[a := t'])"
  using m count_update [OF a, of reads t'] count_update [OF a, of writes t'] ok
  unfolding lock_move_def lock_ok_def
  by (elim disjE conjE)
    (auto simp: read_lock_def write_lock_def read_unlock_def write_unlock_def split: if_splits)

lemma caller_step_lock:
  assumes "caller_step e rng lv t = Some (lv', t')"
  shows "lock_move (lv_lock lv) (lv_lock lv') t t'"
proof (cases t)
  case (Row r)
  then obtain r' where r': "row_step e lv r = Some (lv', r')" "t' = Row r'" using assms by auto
  then show ?thesis
    using Row by (cases "rt_stage r")
      (auto simp: row_step_def Let_def lock_move_def split: bind_splits if_splits prod.splits sum.splits)
next
  case (Training r)
  then obtain r' where r': "train_step rng lv r = Some (lv', r')" "t' = Training r'" using assms by auto
  then show ?thesis
    using Training by (cases "tt_stage r")
      (auto simp: train_step_def Let_def lock_move_def split: bind_splits if_splits prod.splits sum.splits)
next
  case (Query r)
  then show ?thesis using assms by (auto simp: lock_move_def)
qed

section \<open>Ids\<close>

definition ids_ok :: "nat \<Rightarrow> nat \<Rightarrow> 'g caller list \<Rightarrow> bool" where
  "ids_ok k n ts \<longleftrightarrow>
     (\<forall>a b i. a < length ts \<and> b < length ts \<and> caller_id (ts ! a) = Some i \<and> caller_id (ts ! b) = Some i \<longrightarrow> a = b) \<and>
     (\<forall>i. k \<le> i \<and> i < n \<longrightarrow> (\<exists>t \<in> set ts. caller_id t = Some i))"

definition id_move :: "nat \<Rightarrow> nat \<Rightarrow> 'g caller \<Rightarrow> 'g caller \<Rightarrow> bool" where
  "id_move n n' t t' \<longleftrightarrow>
     (n' = n \<and> caller_id t' = caller_id t \<and> (unstored t' \<longrightarrow> unstored t)) \<or>
     (n' = Suc n \<and> caller_id t = None \<and> caller_id t' = Some n \<and> unstored t \<and> \<not> unstored t')"

lemma id_below: "caller_ok e P k db t \<Longrightarrow> caller_id t = Some i \<Longrightarrow> k \<le> i \<and> i < length (db_vectors db)"
proof (cases t)
  case (Row r)
  then show "caller_ok e P k db t \<Longrightarrow> caller_id t = Some i \<Longrightarrow> k \<le> i \<and> i < length (db_vectors db)"
    by (cases "rt_stage r") (auto simp: row_at_def row_in_def split: sum.splits)
qed simp_all

lemma ids_kept:
  assumes ok: "ids_ok k n ts" and a: "a < length ts" and m: "id_move n n' (ts ! a) t'"
    and below: "\<And>t i. t \<in> set ts \<Longrightarrow> caller_id t = Some i \<Longrightarrow> i < n"
  shows "ids_ok k n' (ts[a := t'])"
proof -
  have inj: "b = c" if "b < length ts" "c < length ts" "caller_id (ts ! b) = Some i" "caller_id (ts ! c) = Some i" for b c i
    using ok that by (auto simp: ids_ok_def)
  have own: "i = n \<and> caller_id (ts ! a) = None \<or> caller_id (ts ! a) = Some i" if "caller_id t' = Some i" for i
    using m that by (auto simp: id_move_def)
  have lt: "i < n" if "b < length ts" "caller_id (ts ! b) = Some i" for b i using below [of "ts ! b" i] that by simp
  have "b = c" if bc: "b < length (ts[a := t'])" "c < length (ts[a := t'])" "caller_id (ts[a := t'] ! b) = Some i"
    "caller_id (ts[a := t'] ! c) = Some i" for b c i
    using bc own [of i] inj [of b c i] inj [of a c i] inj [of b a i] lt [of b i] lt [of c i] a
    by (cases "b = a"; cases "c = a") auto
  moreover have "\<exists>t \<in> set (ts[a := t']). caller_id t = Some i" if i: "k \<le> i" "i < n'" for i
  proof (cases "caller_id t' = Some i")
    case True
    then show ?thesis using set_update_memI [OF a, of t'] by blast
  next
    case False
    then have "i < n" "caller_id (ts ! a) \<noteq> Some i" using m i(2) by (auto simp: id_move_def)
    then obtain t where "t \<in> set ts" "caller_id t = Some i" "t \<noteq> ts ! a" using ok i(1) unfolding ids_ok_def by blast
    then obtain b where "b < length ts" "caller_id (ts ! b) = Some i" "b \<noteq> a" by (auto simp: in_set_conv_nth)
    then show ?thesis by (auto simp: in_set_conv_nth intro!: bexI [of _ "ts ! b"] exI [of _ b])
  qed
  ultimately show ?thesis unfolding ids_ok_def by blast
qed

text \<open>A step that is not the insertion of a row leaves the vectors alone.\<close>

lemma row_step_vectors:
  assumes mem: "memory_ok e P k (lv_db lv)" and ok: "caller_ok e P k (lv_db lv) (Row t)" and lev: "levels_ok e"
    and st: "row_step e lv t = Some (lv', t')"
  shows "id_move (length (db_vectors (lv_db lv))) (length (db_vectors (lv_db lv'))) (Row t) (Row t') \<and>
     (db_vectors (lv_db lv') = db_vectors (lv_db lv) \<or> rt_stage t = Storing)"
proof (cases "rt_stage t")
  case Storing
  obtain db' r where ins: "insert_row_storage_only e (lv_db lv) (rt_vector t) (rt_io t) = (db', r)" by fastforce
  have v: "P (rt_vector t)" "vis_inv (rt_vis t)" using ok by simp_all
  from stored_ok [OF mem lev v ins] st show ?thesis
    using Storing ins by (cases r) (auto simp: row_step_def Let_def id_move_def inserter_new_def)
next
  case (Linking w)
  have w: "row_stage_ok e k (lv_db lv) (rt_vector t) (Linking w)" using ok Linking by simp
  show ?thesis
  proof (cases "in_pc w = Inserted")
    case True
    then show ?thesis
      using encoded_ok [OF mem w True] st Linking by (auto simp: row_step_def Let_def id_move_def)
  next
    case False
    then show ?thesis
      using linked_ok [OF mem w] st Linking by (fastforce simp: row_step_def Let_def id_move_def split: bind_splits)
  qed
qed (use st in \<open>auto simp: row_step_def Let_def id_move_def split: bind_splits\<close>)

lemma train_step_vectors:
  "train_step rng lv t = Some (lv', t') \<Longrightarrow> db_vectors (lv_db lv') = db_vectors (lv_db lv)"
  by (cases "tt_stage t") (auto simp: train_step_def Let_def split: bind_splits)

section \<open>The system\<close>

definition session_inv :: "env \<Rightarrow> (f32 list \<Rightarrow> bool) \<Rightarrow> nat \<Rightarrow> nat \<Rightarrow> live \<times> 'g caller list \<Rightarrow> bool" where
  "session_inv e P k N c \<longleftrightarrow>
     (case c of (lv, ts) \<Rightarrow>
        memory_ok e P k (lv_db lv) \<and> (\<forall>t \<in> set ts. caller_ok e P k (lv_db lv) t \<and> codes_fresh (lv_db lv) t) \<and>
        lock_ok (lv_lock lv) ts \<and> ids_ok k (length (db_vectors (lv_db lv))) ts \<and>
        length (db_vectors (lv_db lv)) + count_of unstored ts \<le> N)"

lemma caller_step_ok:
  assumes mem: "memory_ok e P k (lv_db lv)" and ok: "caller_ok e P k (lv_db lv) t" and fresh: "codes_fresh (lv_db lv) t"
    and lev: "levels_ok e" and st: "caller_step e rng lv t = Some (lv', t')"
  shows "memory_ok e P k (lv_db lv')" "caller_ok e P k (lv_db lv') t'" "codes_fresh (lv_db lv') t'"
    "advances (caller_id t) (lv_db lv) (lv_db lv')"
    "id_move (length (db_vectors (lv_db lv))) (length (db_vectors (lv_db lv'))) t t'"
    "db_vectors (lv_db lv') = db_vectors (lv_db lv) \<or> reads t"
proof -
  have "memory_ok e P k (lv_db lv') \<and> caller_ok e P k (lv_db lv') t' \<and> codes_fresh (lv_db lv') t' \<and>
    advances (caller_id t) (lv_db lv) (lv_db lv') \<and>
    id_move (length (db_vectors (lv_db lv))) (length (db_vectors (lv_db lv'))) t t' \<and>
    (db_vectors (lv_db lv') = db_vectors (lv_db lv) \<or> reads t)"
  proof (cases t)
    case (Row r)
    then obtain r' where r': "row_step e lv r = Some (lv', r')" "t' = Row r'" using st by auto
    have ok': "caller_ok e P k (lv_db lv) (Row r)" using ok Row by simp
    show ?thesis
      using row_step_ok [OF mem ok' lev r'(1)] row_step_vectors [OF mem ok' lev r'(1)] Row r'(2)
      by (auto simp: codes_fresh_def)
  next
    case (Training r)
    then obtain r' where r': "train_step rng lv r = Some (lv', r')" "t' = Training r'" using st by auto
    show ?thesis
      using train_step_ok [OF mem _ _ r'(1)] ok fresh train_step_vectors [OF r'(1)] Training r'(2)
      by (simp add: id_move_def)
  next
    case (Query r)
    then obtain r' where r': "query_step lv r = Some r'" "t' = Query r'" "lv' = lv" using st by auto
    have ok': "caller_ok e P k (lv_db lv) (Query r)" using ok Query by simp
    show ?thesis
      using query_step_ok [OF mem ok' r'(1)] mem Query r'(2,3) by (simp add: id_move_def codes_fresh_def)
  qed
  then show "memory_ok e P k (lv_db lv')" "caller_ok e P k (lv_db lv') t'" "codes_fresh (lv_db lv') t'"
    "advances (caller_id t) (lv_db lv) (lv_db lv')"
    "id_move (length (db_vectors (lv_db lv))) (length (db_vectors (lv_db lv'))) t t'"
    "db_vectors (lv_db lv') = db_vectors (lv_db lv) \<or> reads t" by blast+
qed

lemma lock_excludes:
  assumes "lock_ok l ts" "a < length ts" "reads (ts ! a)"
  shows "u \<in> set ts \<Longrightarrow> \<not> writes u"
  using assms count_pos [OF assms(2), of reads] count_zero [of writes ts] by (auto simp: lock_ok_def split: if_splits)

lemma session_step:
  assumes inv: "session_inv e P k N c" and lev: "levels_ok e" and st: "interleave (caller_step e rng) c c'"
  shows "session_inv e P k N c'"
  using st inv
proof cases
  case (Step a ts lv lv' t')
  let ?db = "lv_db lv" and ?db' = "lv_db lv'" and ?t = "ts ! a"
  have mem: "memory_ok e P k ?db" and all: "\<And>t. t \<in> set ts \<Longrightarrow> caller_ok e P k ?db t \<and> codes_fresh ?db t"
    and lock: "lock_ok (lv_lock lv) ts" and ids: "ids_ok k (length (db_vectors ?db)) ts"
    and room: "length (db_vectors ?db) + count_of unstored ts \<le> N"
    using inv Step(1) by (simp_all add: session_inv_def)
  have t: "?t \<in> set ts" using Step(3) by simp
  note S = caller_step_ok [OF mem _ _ lev Step(4)]
  have own: "caller_ok e P k ?db ?t" "codes_fresh ?db ?t" using all [OF t] by simp_all
  note S = S [OF own]
  have others: "caller_ok e P k ?db' u \<and> codes_fresh ?db' u" if u: "u = ts ! b" "b < length ts" "b \<noteq> a" for u b
  proof
    have "u \<in> set ts" using u by simp
    note U = all [OF this]
    have "caller_id ?t = None \<or> caller_id u \<noteq> caller_id ?t"
      using ids u Step(3) unfolding ids_ok_def by (metis option.exhaust)
    then show "caller_ok e P k ?db' u" using others_ok [OF _ S(4,1)] U by blast
    show "codes_fresh ?db' u"
    proof (cases "reads ?t")
      case True
      from lock_excludes [OF lock Step(3) True \<open>u \<in> set ts\<close>] show ?thesis by (auto simp: codes_fresh_def)
    next
      case False
      then have v: "db_vectors ?db' = db_vectors ?db" using S(6) by simp
      show ?thesis using U unfolding codes_fresh_def v by blast
    qed
  qed
  have "caller_ok e P k ?db' u \<and> codes_fresh ?db' u" if u: "u \<in> set (ts[a := t'])" for u
  proof -
    obtain b where "b < length ts" "u = ts[a := t'] ! b" using u by (auto simp: in_set_conv_nth)
    then show ?thesis using others [of "ts ! b" b] S(2,3) Step(3) by (cases "b = a") auto
  qed
  moreover have "lock_ok (lv_lock lv') (ts[a := t'])"
    by (rule lock_kept [OF lock Step(3) caller_step_lock [OF Step(4)]])
  moreover have "ids_ok k (length (db_vectors ?db')) (ts[a := t'])"
    by (rule ids_kept [OF ids Step(3) S(5)]) (use all id_below in blast)
  moreover have "length (db_vectors ?db') + count_of unstored (ts[a := t']) \<le> N"
    using count_update [OF Step(3), of unstored t'] S(5) room by (auto simp: id_move_def split: if_splits)
  ultimately show ?thesis using S(1) Step(2) by (simp add: session_inv_def)
qed

section \<open>Progress\<close>

primrec row_rank :: "nat \<Rightarrow> row_stage \<Rightarrow> nat \<times> rank" where
  "row_rank N Want_Shared = (4, 0, 0, 0, 0, 0)"
| "row_rank N Storing = (3, 0, 0, 0, 0, 0)"
| "row_rank N (Linking w) = (2, insert_rank N (in_vis w) (in_pc w))"
| "row_rank N (Releasing r) = (1, 0, 0, 0, 0, 0)"
| "row_rank N (Row_Done r) = (0, 0, 0, 0, 0, 0)"

primrec train_rank :: "train_stage \<Rightarrow> nat \<times> rank" where
  "train_rank Asked = (7, 0, 0, 0, 0, 0)"
| "train_rank (Counted n) = (6, 0, 0, 0, 0, 0)"
| "train_rank (Sampled samples) = (5, 0, 0, 0, 0, 0)"
| "train_rank (Trained q) = (4, 0, 0, 0, 0, 0)"
| "train_rank (Exclusive q) = (3, 0, 0, 0, 0, 0)"
| "train_rank (Encoded q codes) = (2, 0, 0, 0, 0, 0)"
| "train_rank Unlocking = (1, 0, 0, 0, 0, 0)"
| "train_rank (Train_Done r) = (0, 0, 0, 0, 0, 0)"

primrec query_rank :: "nat \<Rightarrow> query_stage \<Rightarrow> nat \<times> rank" where
  "query_rank N Query_Start = (2, 0, 0, 0, 0, 0)"
| "query_rank N (Searching w) = (1, search_rank N (se_vis w) (se_pc w))"
| "query_rank N (Answered r) = (0, 0, 0, 0, 0, 0)"

primrec caller_rank :: "nat \<Rightarrow> 'g caller \<Rightarrow> nat \<times> rank" where
  "caller_rank N (Row t) = row_rank N (rt_stage t)"
| "caller_rank N (Training t) = train_rank (tt_stage t)"
| "caller_rank N (Query t) = query_rank N (qt_stage t)"

definition caller_less :: "((nat \<times> rank) \<times> (nat \<times> rank)) set" where
  "caller_less = less_than <*lex*> rank_less"

lemma wf_caller_less: "wf caller_less"
  by (simp add: caller_less_def wf_lex_prod wf_rank_less)

lemma caller_nearer:
  assumes mem: "memory_ok e P k (lv_db lv)" and ok: "caller_ok e P k (lv_db lv) t"
    and n: "length (db_vectors (lv_db lv)) \<le> N" and st: "caller_step e rng lv t = Some (lv', t')"
  shows "(caller_rank N t', caller_rank N t) \<in> caller_less"
proof -
  have sh: "shared_ok (store_vec (db_store (lv_db lv))) (length (db_vectors (lv_db lv))) k (db_index (lv_db lv))"
    using mem by (simp add: memory_ok_def)
  show ?thesis
  proof (cases t)
    case (Row r)
    then obtain r' where r': "row_step e lv r = Some (lv', r')" "t' = Row r'" using st by auto
    show ?thesis
    proof (cases "rt_stage r")
      case (Linking w)
      then have w: "inserter_ok (store_vec (db_store (lv_db lv))) (length (db_vectors (lv_db lv))) (db_index (lv_db lv)) w"
        using ok Row by simp
      show ?thesis
        using r' Row Linking insert_step_spec [OF sh w] n
        by (fastforce simp: row_step_def Let_def caller_less_def split: bind_splits if_splits prod.splits)
    qed (use r' Row in \<open>auto simp: row_step_def Let_def caller_less_def split: bind_splits prod.splits sum.splits\<close>)
  next
    case (Training r)
    then obtain r' where "train_step rng lv r = Some (lv', r')" "t' = Training r'" using st by auto
    then show ?thesis
      using Training by (cases "tt_stage r") (auto simp: train_step_def Let_def caller_less_def split: bind_splits sum.splits)
  next
    case (Query r)
    then obtain r' where r': "query_step lv r = Some r'" "t' = Query r'" using st by auto
    show ?thesis
    proof (cases "qt_stage r")
      case (Searching w)
      then have w: "searcher_ok (length (db_vectors (lv_db lv))) (0 < k) (db_index (lv_db lv))
          (w\<lparr>se_dist := query_dist (lv_db lv) (qt_query r)\<rparr>)"
        using ok Query by simp
      obtain w' where w': "search_step (db_index (lv_db lv)) (w\<lparr>se_dist := query_dist (lv_db lv) (qt_query r)\<rparr>) = Some w'"
        "r' = r\<lparr>qt_stage := (case se_pc w' of Found hits \<Rightarrow> Answered (Inr hits) | _ \<Rightarrow> Searching w')\<rparr>"
        using r'(1) Searching by (auto simp: query_step_def Let_def split: bind_splits)
      have "(search_rank N (se_vis w') (se_pc w'), search_rank N (se_vis w) (se_pc w)) \<in> rank_less"
        using search_step_spec [OF sh w w'(1)] n by auto
      then show ?thesis using r'(2) w'(2) Query Searching by (cases "se_pc w'") (simp_all add: caller_less_def)
    qed (use r' Query in \<open>auto simp: query_step_def Let_def caller_less_def\<close>)
  qed
qed

end
