(* ===== verification/Db_Alone.thy ===== *)
theory Db_Alone
  imports Db_Conc
begin

text \<open>
  A caller that runs while no other does computes what the sequential operation of \<open>Db\<close> computes: the
  threads of \<open>Db_Conc\<close> are those operations cut into steps.  The scratch stays with the thread.
\<close>

lemma alone_lift:
  assumes "alone step (s, t) (s', t')"
    and "\<And>s t s' t'. step s t = Some (s', t') \<Longrightarrow> big (f s) (g t) = Some (f s', g t')"
  shows "alone big (f s, g t) (f s', g t')"
  using assms(1)
proof (induction "(s, t)" "(s', t')" arbitrary: s t rule: alone.induct)
  case Stay
  show ?case by (rule alone.Stay)
next
  case (Move s t c)
  obtain s1 t1 where "c = (s1, t1)" by fastforce
  then show ?case using Move assms(2) by (auto intro: alone.Move)
qed

lemma linking_alone:
  assumes "alone (insert_step (store_vec (db_store db))) (h, w) (h', w')"
  shows "alone (row_step e) (\<lparr>lv_db = db\<lparr>db_index := h\<rparr>, lv_lock = l\<rparr>, t\<lparr>rt_stage := Linking w\<rparr>)
     (\<lparr>lv_db = db\<lparr>db_index := h'\<rparr>, lv_lock = l\<rparr>, t\<lparr>rt_stage := Linking w'\<rparr>)"
proof (rule alone_lift [OF assms])
  fix h w h' w' assume st: "insert_step (store_vec (db_store db)) h w = Some (h', w')"
  then have "in_pc w \<noteq> Inserted" by (rule insert_step_end)
  then show "row_step e \<lparr>lv_db = db\<lparr>db_index := h\<rparr>, lv_lock = l\<rparr> (t\<lparr>rt_stage := Linking w\<rparr>) =
      Some (\<lparr>lv_db = db\<lparr>db_index := h'\<rparr>, lv_lock = l\<rparr>, t\<lparr>rt_stage := Linking w'\<rparr>)"
    using st by (simp add: row_step_def Let_def)
qed

lemma encode_row_scratch:
  "encode_row (db\<lparr>db_scratch := vis\<rparr>) v i = map_option (\<lambda>d. d\<lparr>db_scratch := vis\<rparr>) (encode_row db v i)"
  by (cases "db_pq db") (auto simp: encode_row_def Let_def split: bind_splits)

lemma encode_row_memory: "encode_row db v i = Some db' \<Longrightarrow> \<exists>p. db' = db\<lparr>db_pq := p\<rparr>"
  by (cases "db_pq db") (auto simp: encode_row_def Let_def split: bind_splits intro: exI [of _ None])

lemma insert_row_memory: "insert_row_storage_only e db v io = (db', r) \<Longrightarrow> db_scratch db' = db_scratch db"
  by (auto simp: insert_row_storage_only_def split: option.splits sum.splits prod.splits)

text \<open>A database that no caller holds.\<close>

definition idle :: "db \<Rightarrow> live" where
  "idle db = \<lparr>lv_db = db, lv_lock = \<lparr>rw_readers = 0, rw_writer = False\<rparr>\<rparr>"

lemmas row_then = alone.Move [where step = "row_step e"] for e
lemmas row_one = alone_one [where step = "row_step e"] for e

text \<open>An insert by itself up to the moment its row is in the graph, and has no code yet.\<close>

lemma row_links_alone:
  assumes "insert_row_storage_only e db v io = (db1, Inr i)"
    and "hnsw_insert (db_index db1) (store_vec (db_store db1)) i (en_level e i) (db_scratch db) = Some (h, vis)"
  shows "alone (row_step e) (idle db, row_new v io (db_scratch db))
     (\<lparr>lv_db = db1\<lparr>db_index := h\<rparr>, lv_lock = \<lparr>rw_readers = 1, rw_writer = False\<rparr>\<rparr>,
      (row_new v io (db_scratch db))\<lparr>rt_stage := Linking (inserting i (en_level e i) vis Inserted)\<rparr>)"
proof -
  let ?t = "row_new v io (db_scratch db)" and ?l = "\<lparr>rw_readers = 1, rw_writer = False\<rparr>"
  let ?w = "inserter_new i (en_level e i) (db_scratch db)"
  have 1: "row_step e (idle db) ?t = Some (\<lparr>lv_db = db, lv_lock = ?l\<rparr>, ?t\<lparr>rt_stage := Storing\<rparr>)"
    by (simp add: row_step_def Let_def row_new_def idle_def read_lock_def)
  have 2: "row_step e \<lparr>lv_db = db, lv_lock = ?l\<rparr> (?t\<lparr>rt_stage := Storing\<rparr>) =
      Some (\<lparr>lv_db = db1\<lparr>db_index := db_index db1\<rparr>, lv_lock = ?l\<rparr>, ?t\<lparr>rt_stage := Linking ?w\<rparr>)"
    using assms(1) by (simp add: row_step_def Let_def row_new_def)
  show ?thesis by (rule row_then [OF 1 row_then [OF 2 linking_alone [OF insert_alone [OF assms(2)]]]])
qed

lemma row_alone:
  assumes "db_insert e db v io = Some (db', r)"
  shows "alone (row_step e) (idle db, row_new v io (db_scratch db))
     (idle (db'\<lparr>db_scratch := db_scratch db\<rparr>), (row_new v io (db_scratch db))\<lparr>rt_stage := Row_Done r\<rparr>)"
proof -
  let ?t = "row_new v io (db_scratch db)" and ?l = "\<lparr>rw_readers = 1, rw_writer = False\<rparr>"
  obtain db1 r1 where ins: "insert_row_storage_only e db v io = (db1, r1)" by fastforce
  have s: "db_scratch db1 = db_scratch db" using insert_row_memory [OF ins] by simp
  have rel: "alone (row_step e) (\<lparr>lv_db = d, lv_lock = ?l\<rparr>, ?t\<lparr>rt_stage := Releasing r\<rparr>) (idle d, ?t\<lparr>rt_stage := Row_Done r\<rparr>)" for d r
    by (rule alone_one) (simp add: row_step_def Let_def idle_def read_unlock_def)
  show ?thesis
  proof (cases r1)
    case (Inl err)
    then have R: "db' = db1" "r = Inl err" using assms ins by (simp_all add: db_insert_def)
    have 1: "row_step e (idle db) ?t = Some (\<lparr>lv_db = db, lv_lock = ?l\<rparr>, ?t\<lparr>rt_stage := Storing\<rparr>)"
      by (simp add: row_step_def Let_def row_new_def idle_def read_lock_def)
    have 2: "row_step e \<lparr>lv_db = db, lv_lock = ?l\<rparr> (?t\<lparr>rt_stage := Storing\<rparr>) =
        Some (\<lparr>lv_db = db1, lv_lock = ?l\<rparr>, ?t\<lparr>rt_stage := Releasing r\<rparr>)"
      using ins Inl R by (simp add: row_step_def Let_def row_new_def)
    have "db'\<lparr>db_scratch := db_scratch db\<rparr> = db1" using R s by simp
    then show ?thesis using 1 2 rel [of db1 r] by (simp add: row_then)
  next
    case (Inr i)
    then obtain h vis' db3 where H: "hnsw_insert (db_index db1) (store_vec (db_store db1)) i (en_level e i) (db_scratch db) = Some (h, vis')"
      "encode_row (db1\<lparr>db_index := h, db_scratch := vis'\<rparr>) v i = Some db'" "r = Inr i"
      using assms ins s by (auto simp: db_insert_def index_row_def split: bind_splits)
    let ?w' = "inserting i (en_level e i) vis' Inserted"
    note 1 = row_links_alone [OF ins [unfolded Inr] H(1)]
    obtain d where d: "encode_row (db1\<lparr>db_index := h\<rparr>) v i = Some d" "db' = d\<lparr>db_scratch := vis'\<rparr>"
      using H(2) encode_row_scratch [where db = "db1\<lparr>db_index := h\<rparr>" and vis = vis' and v = v and i = i] by auto
    have "db_scratch d = db_scratch db" using encode_row_memory [OF d(1)] s by auto
    then have "db'\<lparr>db_scratch := db_scratch db\<rparr> = d" using d(2) by simp
    moreover have 4: "row_step e \<lparr>lv_db = db1\<lparr>db_index := h\<rparr>, lv_lock = ?l\<rparr> (?t\<lparr>rt_stage := Linking ?w'\<rparr>) =
        Some (\<lparr>lv_db = d, lv_lock = ?l\<rparr>, ?t\<lparr>rt_stage := Releasing r\<rparr>)"
      using d(1) H(3) by (simp add: row_step_def Let_def row_new_def)
    ultimately have "alone (row_step e) (\<lparr>lv_db = db1\<lparr>db_index := h\<rparr>, lv_lock = ?l\<rparr>, ?t\<lparr>rt_stage := Linking ?w'\<rparr>)
        (idle (db'\<lparr>db_scratch := db_scratch db\<rparr>), ?t\<lparr>rt_stage := Row_Done r\<rparr>)"
      using row_then [OF 4 rel [of d r]] by simp
    then show ?thesis by (rule alone_trans [OF 1])
  qed
qed

lemmas train_then = alone.Move [where step = "train_step rng"] for rng
lemmas train_one = alone_one [where step = "train_step rng"] for rng

lemma train_alone:
  assumes "db_train_pq rng db m iters M g = Some (db', r)"
  shows "alone (train_step rng) (idle db, train_new m iters M g) (idle db', (train_new m iters M g)\<lparr>tt_stage := Train_Done r\<rparr>)"
proof -
  let ?t = "train_new m iters M g" and ?n = "vs_len (db_store db)" and ?dim = "vs_dim (db_store db)"
  let ?held = "\<lambda>d. \<lparr>lv_db = d, lv_lock = \<lparr>rw_readers = 0, rw_writer = True\<rparr>\<rparr>"
  show ?thesis
  proof (cases "train_check db m M")
    case (Inl err)
    then have "db' = db" "r = Inl err"
      using assms by (auto simp: db_train_pq_def train_check_def Let_def split: if_splits)
    then show ?thesis using Inl by (intro train_one) (simp add: train_step_def train_new_def idle_def)
  next
    case (Inr n)
    then have n: "n = ?n" by (auto simp: train_check_def Let_def split: if_splits)
    have "db_train_pq rng db m iters M g = do {
        samples \<leftarrow> train_samples (db_store db) M;
        r \<leftarrow> pq_train rng samples ?dim m iters g;
        case r of
          Inl err \<Rightarrow> Some (db, Inl err)
        | Inr q \<Rightarrow> do {
            codes \<leftarrow> encode_all q (db_store db);
            Some (db\<lparr>db_pq := Some \<lparr>ps_pq = q, ps_codes = codes\<rparr>\<rparr>, Inr ()) } }"
      using Inr by (auto simp: db_train_pq_def train_check_def Let_def split: if_splits)
    then obtain samples res where S: "sample_rows (db_store db) n M = Some samples"
      "pq_train rng samples ?dim m iters g = Some res"
      "(case res of Inl err \<Rightarrow> Some (db, Inl err) | Inr q \<Rightarrow> do {
          codes \<leftarrow> encode_all q (db_store db);
          Some (db\<lparr>db_pq := Some \<lparr>ps_pq = q, ps_codes = codes\<rparr>\<rparr>, Inr ()) }) = Some (db', r)"
      using assms n by (auto simp: train_samples_def split: bind_splits)
    have 1: "train_step rng (idle db) ?t = Some (idle db, ?t\<lparr>tt_stage := Counted n\<rparr>)"
      using Inr by (simp add: train_step_def train_new_def idle_def)
    have 2: "train_step rng (idle db) (?t\<lparr>tt_stage := Counted n\<rparr>) = Some (idle db, ?t\<lparr>tt_stage := Sampled samples\<rparr>)"
      using S(1) by (simp add: train_step_def train_new_def idle_def)
    show ?thesis
    proof (cases res)
      case (Inl err)
      then have "db' = db" "r = Inl err" using S(3) by simp_all
      then have "train_step rng (idle db) (?t\<lparr>tt_stage := Sampled samples\<rparr>) = Some (idle db', ?t\<lparr>tt_stage := Train_Done r\<rparr>)"
        using S(2) Inl by (simp add: train_step_def train_new_def idle_def)
      then show ?thesis using 1 2 by (meson train_then train_one)
    next
      case (Inr q)
      then obtain codes where C: "encode_all q (db_store db) = Some codes" "r = Inr ()"
        "db' = db\<lparr>db_pq := Some \<lparr>ps_pq = q, ps_codes = codes\<rparr>\<rparr>"
        using S(3) by (auto split: bind_splits)
      have 3: "train_step rng (idle db) (?t\<lparr>tt_stage := Sampled samples\<rparr>) = Some (idle db, ?t\<lparr>tt_stage := Trained q\<rparr>)"
        using S(2) Inr by (simp add: train_step_def train_new_def idle_def)
      have 4: "train_step rng (idle db) (?t\<lparr>tt_stage := Trained q\<rparr>) = Some (?held db, ?t\<lparr>tt_stage := Exclusive q\<rparr>)"
        by (simp add: train_step_def train_new_def idle_def write_lock_def)
      have 5: "train_step rng (?held db) (?t\<lparr>tt_stage := Exclusive q\<rparr>) = Some (?held db, ?t\<lparr>tt_stage := Encoded q codes\<rparr>)"
        using C(1) by (simp add: train_step_def train_new_def)
      have 6: "train_step rng (?held db) (?t\<lparr>tt_stage := Encoded q codes\<rparr>) = Some (?held db', ?t\<lparr>tt_stage := Unlocking\<rparr>)"
        using C(3) by (simp add: train_step_def train_new_def)
      have 7: "train_step rng (?held db') (?t\<lparr>tt_stage := Unlocking\<rparr>) = Some (idle db', ?t\<lparr>tt_stage := Train_Done r\<rparr>)"
        using C(2) by (simp add: train_step_def train_new_def idle_def write_unlock_def)
      show ?thesis
        by (rule train_then [OF 1], rule train_then [OF 2], rule train_then [OF 3], rule train_then [OF 4],
            rule train_then [OF 5], rule train_then [OF 6], rule train_one [OF 7])
    qed
  qed
qed

section \<open>Searches\<close>

abbreviation querying :: "live \<Rightarrow> query_thread \<Rightarrow> (live \<times> query_thread) option" where
  "querying lv t \<equiv> map_option (Pair lv) (query_step lv t)"

lemma query_step_one:
  "querying lv t = Some (lv', t') \<Longrightarrow> alone querying (lv', t') c \<Longrightarrow> alone querying (lv, t) c"
  by (rule alone.Move)

lemma search_step_dist: "search_step h t = Some t' \<Longrightarrow> se_dist t' = se_dist t"
  by (auto simp: search_step_def Let_def split: search_pc.splits list.splits if_splits prod.splits sum.splits bind_splits)

lemma searching_alone:
  assumes "alone searching (h, t) (h', t')" and "h = db_index (lv_db lv)" and "se_dist t = query_dist (lv_db lv) query"
    and "se_pc t' = Found hits"
  shows "alone querying (lv, \<lparr>qt_query = query, qt_k = k, qt_ef = ef, qt_vis = vis, qt_stage =
       (case se_pc t of Found hits \<Rightarrow> Answered (Inr hits) | _ \<Rightarrow> Searching t)\<rparr>)
     (lv, \<lparr>qt_query = query, qt_k = k, qt_ef = ef, qt_vis = vis, qt_stage = Answered (Inr hits)\<rparr>)"
  using assms
proof (induction "(h, t)" "(h', t')" arbitrary: t rule: alone.induct)
  case Stay
  then show ?case by (simp add: alone.Stay)
next
  case (Move t c)
  let ?at = "\<lambda>t. \<lparr>qt_query = query, qt_k = k, qt_ef = ef, qt_vis = vis, qt_stage =
       (case se_pc t of Found hits \<Rightarrow> Answered (Inr hits) | _ \<Rightarrow> Searching t)\<rparr>"
  obtain t1 where t1: "search_step h t = Some t1" "c = (h, t1)" using Move.hyps(1) by auto
  have d: "se_dist t1 = query_dist (lv_db lv) query" using search_step_dist [OF t1(1)] Move.prems(2) by simp
  have "\<not> (\<exists>hits. se_pc t = Found hits)" using t1(1) by (auto simp: search_step_def)
  then have "(case se_pc t of Found hits \<Rightarrow> Answered (Inr hits) | _ \<Rightarrow> Searching t) = Searching t"
    by (cases "se_pc t") auto
  moreover have "t\<lparr>se_dist := query_dist (lv_db lv) query\<rparr> = t" using Move.prems(2) by simp
  ultimately have "querying lv (?at t) = Some (lv, ?at t1)"
    using t1(1) Move.prems(1) by (simp add: query_step_def Let_def split: search_pc.splits)
  moreover have "alone querying (lv, ?at t1) (lv, \<lparr>qt_query = query, qt_k = k, qt_ef = ef, qt_vis = vis, qt_stage = Answered (Inr hits)\<rparr>)"
    using Move.hyps(3) [OF t1(2)] Move.prems(1,3) d by blast
  ultimately show ?case by (rule query_step_one)
qed

lemma query_alone:
  assumes "db_search db query k ef = Some (db', r)"
  shows "alone querying (idle db, query_new query k ef (db_scratch db))
     (idle db, (query_new query k ef (db_scratch db))\<lparr>qt_stage := Answered r\<rparr>)"
proof (cases "length query = vs_dim (db_store db)")
  case False
  then show ?thesis
    using assms by (intro alone_one) (auto simp: db_search_def query_step_def query_new_def idle_def)
next
  case True
  let ?w = "searcher_new (query_dist db query) k ef (db_scratch db)"
  obtain hits vis' where S: "search_with_oracle (db_index db) (query_dist db query) (db_scratch db) k ef = Some (hits, vis')" "r = Inr hits"
    using assms True by (auto simp: db_search_def hnsw_search_def query_dist_def split: bind_splits)
  have "querying (idle db) (query_new query k ef (db_scratch db)) =
      Some (idle db, (query_new query k ef (db_scratch db))\<lparr>qt_stage := Searching ?w\<rparr>)"
    using True by (simp add: query_step_def query_new_def idle_def)
  moreover have "alone querying (idle db, (query_new query k ef (db_scratch db))\<lparr>qt_stage := Searching ?w\<rparr>)
      (idle db, (query_new query k ef (db_scratch db))\<lparr>qt_stage := Answered r\<rparr>)"
    using searching_alone [OF search_alone [OF S(1)], of "idle db" query hits k ef "db_scratch db"] S(2)
    by (simp add: idle_def searcher_new_def query_new_def)
  ultimately show ?thesis by (rule query_step_one)
qed

section \<open>Property\<close>


end
