(* ===== verification/Db_Live.thy ===== *)
theory Db_Live
  imports Db_Conc_Inv Db_Alone Db_Run
begin

text \<open>
  Sessions of callers running together on one database: they always come to an end, no matter how the
  maintenance lock is contended; the codes cover the store whenever no insert is under way, trainings
  notwithstanding; and a kill at any moment loses no insert that had returned.
\<close>

section \<open>Progress\<close>

text \<open>The callers that wait for the maintenance lock.\<close>

primrec waits :: "rwlock \<Rightarrow> 'g caller \<Rightarrow> bool" where
  "waits l (Row t) = (rt_stage t = Want_Shared \<and> rw_writer l)"
| "waits l (Training t) = ((\<exists>q. tt_stage t = Trained q) \<and> (rw_writer l \<or> 0 < rw_readers l))"
| "waits l (Query t) = False"

text \<open>What a training needs to be sure not to panic: ordinary coordinates and moderate parameters.\<close>

primrec trainable :: "nat \<Rightarrow> 'g caller \<Rightarrow> bool" where
  "trainable dim (Row t) = True"
| "trainable dim (Training t) = (tt_max t \<le> 2 ^ 23 \<and> dim div tt_m t \<le> 2 ^ 20)"
| "trainable dim (Query t) = True"

definition ordinary :: "f32 list \<Rightarrow> bool" where
  "ordinary v \<longleftrightarrow> list_all coord_ok v"

lemma caller_progress:
  assumes mem: "memory_ok e P k (lv_db lv)" and ok: "caller_ok e P k (lv_db lv) t"
    and rng: "rng_ok rng" and P: "\<And>v. P v \<Longrightarrow> ordinary v" and tr: "trainable (db_dim (lv_db lv)) t"
    and go: "\<not> caller_ended t" "\<not> waits (lv_lock lv) t"
  shows "\<exists>lv' t'. caller_step e rng lv t = Some (lv', t')"
proof -
  let ?db = "lv_db lv"
  have sh: "shared_ok (store_vec (db_store ?db)) (length (db_vectors ?db)) k (db_index ?db)"
    using mem by (simp add: memory_ok_def)
  show ?thesis
  proof (cases t)
    case (Row r)
    show ?thesis
    proof (cases "rt_stage r")
      case Want_Shared
      then show ?thesis using go Row by (simp add: row_step_def Let_def read_lock_def)
    next
      case Storing
      obtain db' res where "insert_row_storage_only e ?db (rt_vector r) (rt_io r) = (db', res)" by fastforce
      then show ?thesis using Row Storing by (cases res) (simp_all add: row_step_def Let_def)
    next
      case (Linking w)
      then have st: "row_stage_ok e k ?db (rt_vector r) (Linking w)" using ok Row by simp
      show ?thesis
      proof (cases "in_pc w = Inserted")
        case True
        then show ?thesis using encoded_ok [OF mem st True] Row Linking by (auto simp: row_step_def Let_def)
      next
        case False
        have "good_step (store_vec (db_store ?db)) (length (db_vectors ?db)) k (db_index ?db) w"
          using insert_step_good [OF sh _ False] st by simp
        then show ?thesis using Row Linking False by (auto simp: row_step_def Let_def good_step_def)
      qed
    next
      case Releasing
      then show ?thesis using Row by (simp add: row_step_def Let_def)
    qed (use go Row in simp)
  next
    case (Training r)
    have inv: "vs_inv (db_store ?db)" using mem by (simp add: memory_ok_def)
    show ?thesis
    proof (cases "tt_stage r")
      case (Counted n)
      then obtain samples where "sample_rows (db_store ?db) n (tt_max r) = Some samples"
        using sample_rows_spec [OF inv, of n "tt_max r"] ok Training by (auto simp: db_vectors_def)
      then show ?thesis using Training Counted by (simp add: train_step_def Let_def)
    next
      case (Sampled samples)
      then have s: "set samples \<subseteq> \<Union> (set ` Collect P)" "length samples div db_dim ?db \<le> 2 * tt_max r"
        using ok Training by simp_all
      have "list_all coord_ok samples" using s(1) P by (fastforce simp: list_all_iff ordinary_def)
      moreover have "length samples div db_dim ?db \<le> 2 ^ 24" "db_dim ?db div tt_m r \<le> 2 ^ 20" using s(2) tr Training by simp_all
      ultimately obtain res where "pq_train rng samples (db_dim ?db) (tt_m r) (tt_iters r) (tt_seed r) = Some res"
        using pq_train_total [OF rng] by blast
      then show ?thesis using Training Sampled by (simp add: train_step_def Let_def db_dim_def)
    next
      case (Trained q)
      then show ?thesis using go Training by (simp add: train_step_def Let_def write_lock_def)
    next
      case (Exclusive q)
      then have "pq_inv q" "pq_dim q = db_dim ?db" using ok Training by (simp_all add: trained_for_def)
      moreover have "\<forall>v \<in> set (db_vectors ?db). length v = db_dim ?db" using vectors_dim by (auto simp: db_vectors_def db_dim_def)
      ultimately obtain cs where "map_opt (pq_encode q) (db_vectors ?db) = Some cs" using codes_of_total [of q "db_vectors ?db"] by auto
      then show ?thesis
        using Training Exclusive by (simp add: train_step_def Let_def encode_all_codes db_vectors_def codes_of_def)
    qed (use go Training in \<open>simp_all add: train_step_def Let_def\<close>)
  next
    case (Query r)
    show ?thesis
    proof (cases "qt_stage r")
      case Query_Start
      then show ?thesis using Query by (simp add: query_step_def Let_def)
    next
      case (Searching w)
      let ?w = "w\<lparr>se_dist := query_dist ?db (qt_query r)\<rparr>"
      have w: "searcher_ok (length (db_vectors ?db)) (0 < k) (db_index ?db) ?w" using ok Query Searching by simp
      have "\<not> (\<exists>hits. se_pc ?w = Found hits)" using ok Query Searching by simp
      from search_step_good [OF sh w this] show ?thesis
        using Query Searching by (auto simp: good_search_def query_step_def Let_def)
    qed (use go Query in simp)
  qed
qed

definition calm :: "env \<Rightarrow> 'g rng \<Rightarrow> nat \<Rightarrow> nat \<Rightarrow> nat \<Rightarrow> live \<times> 'g caller list \<Rightarrow> bool" where
  "calm e rng k N dim c \<longleftrightarrow>
     levels_ok e \<and> rng_ok rng \<and> session_inv e ordinary k N c \<and> db_dim (lv_db (fst c)) = dim \<and>
     (\<forall>t \<in> set (snd c). trainable dim t)"

lemma caller_step_trainable:
  "caller_step e rng lv t = Some (lv', t') \<Longrightarrow> trainable dim t \<Longrightarrow> trainable dim t'"
  by (cases t) (auto simp: train_step_def Let_def split: train_stage.splits bind_splits)

text \<open>If a caller waits, the one it waits for can go on.\<close>

lemma calm_moves:
  assumes c: "calm e rng k N dim (lv, ts)" and t: "t \<in> set ts" "\<not> caller_ended t"
  shows "\<exists>c'. interleave (caller_step e rng) (lv, ts) c'"
proof -
  have I: "memory_ok e ordinary k (lv_db lv)" "\<And>u. u \<in> set ts \<Longrightarrow> caller_ok e ordinary k (lv_db lv) u"
    "lock_ok (lv_lock lv) ts" and rng: "rng_ok rng" and tr: "\<And>u. u \<in> set ts \<Longrightarrow> trainable (db_dim (lv_db lv)) u"
    using c by (auto simp: calm_def session_inv_def)
  have go: "\<exists>c'. interleave (caller_step e rng) (lv, ts) c'"
    if u: "u \<in> set ts" "\<not> caller_ended u" "\<not> waits (lv_lock lv) u" for u
  proof -
    obtain i where i: "i < length ts" "ts ! i = u" using u(1) by (auto simp: in_set_conv_nth)
    obtain lv' t' where "caller_step e rng lv (ts ! i) = Some (lv', t')"
      using caller_progress [OF I(1) I(2) [OF u(1)] rng _ tr [OF u(1)] u(2,3)] i(2) by blast
    then show ?thesis using i(1) by (blast intro: interleave.Step)
  qed
  show ?thesis
  proof (cases "\<exists>u \<in> set ts. writes u \<or> reads u")
    case True
    then obtain u where u: "u \<in> set ts" "writes u \<or> reads u" by blast
    have "\<not> caller_ended u" "\<not> waits (lv_lock lv) u"
    proof -
      show "\<not> caller_ended u" using u(2) by (cases u) auto
      show "\<not> waits (lv_lock lv) u" using u(2) by (cases u) auto
    qed
    then show ?thesis using go u(1) by blast
  next
    case False
    then have "count_of writes ts = 0" "count_of reads ts = 0" unfolding count_zero by blast+
    then have "\<not> rw_writer (lv_lock lv)" "rw_readers (lv_lock lv) = 0"
      using I(3) by (auto simp: lock_ok_def split: if_splits)
    then have "\<not> waits (lv_lock lv) t" by (cases t) simp_all
    then show ?thesis using go t by blast
  qed
qed

lemma calm_step:
  assumes "calm e rng k N dim c" "interleave (caller_step e rng) c c'"
  shows "calm e rng k N dim c'"
  using assms(2,1)
proof cases
  case (Step a ts lv lv' t')
  have C: "levels_ok e" "session_inv e ordinary k N c" using assms(1) by (simp_all add: calm_def)
  have "session_inv e ordinary k N c'" by (rule session_step [OF C(2,1) assms(2)])
  moreover have "db_dim (lv_db lv') = db_dim (lv_db lv)"
  proof -
    have "memory_ok e ordinary k (lv_db lv)" "caller_ok e ordinary k (lv_db lv) (ts ! a)" "codes_fresh (lv_db lv) (ts ! a)"
      using C(2) Step(1,3) by (simp_all add: session_inv_def)
    from caller_step_ok(4) [OF this C(1) Step(4)] show ?thesis by (simp add: advances_def)
  qed
  moreover have "trainable dim u" if "u \<in> set (ts[a := t'])" for u
  proof -
    have "trainable dim (ts ! a)" using assms(1) Step(1,3) by (simp add: calm_def)
    then have "trainable dim t'" by (rule caller_step_trainable [OF Step(4)])
    then show ?thesis using that set_update_subset_insert [of ts a t'] assms(1) Step(1) by (auto simp: calm_def)
  qed
  ultimately show ?thesis using assms(1) Step(1,2) by (simp add: calm_def)
qed

interpretation callers: lively_system "caller_step e rng" caller_ended "calm e rng k N dim" "caller_rank N" caller_less
  for e :: env and rng :: "'g rng" and k N dim :: nat
proof (unfold_locales, goal_cases)
  case (1 c c')
  then show ?case by (rule calm_step)
next
  case (2 c t)
  then show ?case using calm_moves by (cases c) simp
next
  case (3 lv ts t lv' t')
  then have "memory_ok e ordinary k (lv_db lv)" "caller_ok e ordinary k (lv_db lv) t" "length (db_vectors (lv_db lv)) \<le> N"
    by (auto simp: calm_def session_inv_def)
  then show ?case using caller_nearer 3(3) by blast
next
  case 4
  show ?case by (rule wf_caller_less)
qed

section \<open>Sessions\<close>

type_synonym row_job = "f32 list \<times> io_out \<times> visited"
type_synonym 'g train_job = "nat \<times> nat \<times> nat \<times> 'g"
type_synonym query_job = "f32 list \<times> nat \<times> nat \<times> visited"

definition callers :: "row_job list \<Rightarrow> 'g train_job list \<Rightarrow> query_job list \<Rightarrow> 'g caller list" where
  "callers rows trains queries =
     map (\<lambda>(v, io, vis). Row (row_new v io vis)) rows @
     map (\<lambda>(m, iters, M, g). Training (train_new m iters M g)) trains @
     map (\<lambda>(q, k, ef, vis). Query (query_new q k ef vis)) queries"

definition scratch_ok :: "row_job list \<Rightarrow> query_job list \<Rightarrow> bool" where
  "scratch_ok rows queries \<longleftrightarrow> (\<forall>(v, io, vis) \<in> set rows. vis_inv vis) \<and> (\<forall>(q, k, ef, vis) \<in> set queries. vis_inv vis)"

lemma db_ok_memory:
  assumes ok: "db_ok e db" and P: "\<forall>v \<in> set (db_vectors db). P v"
  shows "memory_ok e P (length (db_vectors db)) db"
proof -
  let ?n = "length (db_vectors db)"
  have inv: "vs_inv (db_store db)" and g: "graph_ok e (db_index db)" and len: "hnsw_len (db_index db) = ?n"
    and pq: "pq_ok (db_dim db) (db_vectors db) (db_pq db)"
    using ok by (simp_all add: db_ok_def db_vectors_def)
  have kern: "hn_kernel (db_index db) = kernel (en_avx e) (cfg_metric (hn_config (db_index db)))" and h: "hn_inv (db_index db)"
    using g by (simp_all add: graph_ok_def)
  have "vecs_ok (hn_kernel (db_index db)) (store_vec (db_store db)) ?n"
    using store_vecs_ok [of ?n "db_store db"] kern by (simp add: db_vectors_def)
  from hn_inv_shared [OF h this] have sh: "shared_ok (store_vec (db_store db)) ?n ?n (db_index db)"
    using store_capacity [OF inv] len by (simp add: db_vectors_def)
  have codes: "codes_shape db \<and> (\<forall>i < ?n. coded db i)"
  proof (cases "db_pq db")
    case None
    then show ?thesis by (simp add: codes_shape_def coded_def)
  next
    case (Some st)
    then have q: "pq_inv (ps_pq st)" "pq_dim (ps_pq st) = db_dim db" "codes_of (ps_pq st) (db_vectors db) = Some (ps_codes st)"
      using pq by (simp_all add: pq_ok_def)
    have "db\<lparr>db_pq := Some \<lparr>ps_pq = ps_pq st, ps_codes = ps_codes st\<rparr>\<rparr> = db" using Some by simp
    then show ?thesis using codes_of_coded [OF q(1,2,3)] by simp
  qed
  show ?thesis using inv sh kern P codes by (simp add: memory_ok_def)
qed

lemma start_ok:
  assumes ok: "db_ok e db" and P: "\<forall>v \<in> set (db_vectors db). P v" "\<forall>(v, io, vis) \<in> set rows. P v" and s: "scratch_ok rows queries"
  shows "session_inv e P (length (db_vectors db)) (length (db_vectors db) + length rows) (idle db, callers rows trains queries)"
proof -
  have u: "count_of unstored (callers rows trains queries) = length rows"
    by (simp add: callers_def filter_map o_def row_new_def train_new_def query_new_def split_def)
  have r: "count_of reads (callers rows trains queries) = 0" "count_of writes (callers rows trains queries) = 0"
    unfolding count_zero by (auto simp: callers_def row_new_def train_new_def)
  have "caller_id t = None" if "t \<in> set (callers rows trains queries)" for t
    using that by (auto simp: callers_def row_new_def)
  then have "ids_ok (length (db_vectors db)) (length (db_vectors db)) (callers rows trains queries)"
    by (fastforce simp: ids_ok_def)
  moreover have "caller_ok e P (length (db_vectors db)) db t \<and> codes_fresh db t" if "t \<in> set (callers rows trains queries)" for t
    using that P(2) s by (auto simp: callers_def scratch_ok_def row_new_def train_new_def query_new_def codes_fresh_def)
  ultimately show ?thesis using db_ok_memory [OF ok P(1)] u r by (simp add: session_inv_def idle_def lock_ok_def)
qed

section \<open>What a run keeps\<close>

primrec caller_job :: "'g caller \<Rightarrow> f32 list \<times> nat option" where
  "caller_job (Row t) = (rt_vector t, None)"
| "caller_job (Training t) = ([], Some (tt_m t))"
| "caller_job (Query t) = (qt_query t, Some (qt_k t))"

lemma caller_step_job: "caller_step e rng lv t = Some (lv', t') \<Longrightarrow> caller_job t' = caller_job t"
  by (cases t)
    (auto simp: row_step_def train_step_def query_step_def Let_def
      split: row_stage.splits train_stage.splits query_stage.splits bind_splits if_splits prod.splits sum.splits)

lemma session_run:
  assumes "(interleave (caller_step e rng))\<^sup>*\<^sup>* c c'" and "session_inv e P k N c" and "levels_ok e"
  shows "session_inv e P k N c' \<and> map caller_job (snd c') = map caller_job (snd c) \<and>
     prefix (db_vectors (lv_db (fst c))) (db_vectors (lv_db (fst c'))) \<and> db_dim (lv_db (fst c')) = db_dim (lv_db (fst c)) \<and>
     (db_pq (lv_db (fst c)) \<noteq> None \<longrightarrow> db_pq (lv_db (fst c')) \<noteq> None)"
  using assms(1,2)
proof (induction rule: rtranclp_induct)
  case base
  then show ?case by simp
next
  case (step c1 c2)
  have I: "session_inv e P k N c1" using step by blast
  have I2: "session_inv e P k N c2" by (rule session_step [OF I assms(3) step(2)])
  from step(2) show ?case
  proof cases
    case (Step a ts lv lv' t')
    have "memory_ok e P k (lv_db lv)" "caller_ok e P k (lv_db lv) (ts ! a)" "codes_fresh (lv_db lv) (ts ! a)"
      using I Step(1,3) by (simp_all add: session_inv_def)
    from caller_step_ok(4) [OF this assms(3) Step(4)]
    have "prefix (db_vectors (lv_db lv)) (db_vectors (lv_db lv'))" "db_dim (lv_db lv') = db_dim (lv_db lv)"
      "db_pq (lv_db lv) \<noteq> None \<longrightarrow> db_pq (lv_db lv') \<noteq> None"
      by (simp_all add: advances_def)
    moreover have "map caller_job (ts[a := t']) = map caller_job ts"
      using caller_step_job [OF Step(4)] by (simp add: map_update list_update_id [of "map caller_job ts" a, simplified nth_map [OF Step(3)]])
    ultimately show ?thesis using step I2 Step(1,2) by (auto dest: prefix_order.trans)
  qed
qed

text \<open>While no insert holds the lock, every row is placed and coded.\<close>

lemma session_quiet:
  assumes inv: "session_inv e P k N (lv, ts)" and quiet: "rw_readers (lv_lock lv) = 0"
  shows "hnsw_len (db_index (lv_db lv)) = length (db_vectors (lv_db lv))"
    "on_layer (db_index (lv_db lv)) 0 = {..<length (db_vectors (lv_db lv))}"
    "pq_ok (db_dim (lv_db lv)) (db_vectors (lv_db lv)) (db_pq (lv_db lv))"
    "k \<le> i \<Longrightarrow> i < length (db_vectors (lv_db lv)) \<Longrightarrow>
       \<exists>t. Row t \<in> set ts \<and> rt_stage t = Row_Done (Inr i) \<and> db_vectors (lv_db lv) ! i = rt_vector t"
proof -
  let ?db = "lv_db lv" and ?n = "length (db_vectors (lv_db lv))"
  have mem: "memory_ok e P k ?db" and ok: "\<And>t. t \<in> set ts \<Longrightarrow> caller_ok e P k ?db t"
    and lock: "lock_ok (lv_lock lv) ts" and ids: "ids_ok k ?n ts"
    using inv by (simp_all add: session_inv_def)
  have sh: "shared_ok (store_vec (db_store ?db)) ?n k (db_index ?db)" and k: "k \<le> ?n" using mem by (simp_all add: memory_ok_def)
  have q: "\<not> reads t" if "t \<in> set ts" for t
    using lock quiet count_zero [of reads ts] that by (simp add: lock_ok_def)
  have h: "\<exists>t \<in> set ts. caller_id t = Some i" if "k \<le> i" "i < ?n" for i using ids that by (simp add: ids_ok_def)
  have placed: "\<exists>t. Row t \<in> set ts \<and> rt_stage t = Row_Done (Inr i) \<and> row_in e k ?db (rt_vector t) (Inr i)"
    if i: "k \<le> i" "i < ?n" for i
  proof -
    obtain u where u: "u \<in> set ts" "caller_id u = Some i" using h [OF i] by blast
    from u(2) obtain t where t: "u = Row t" "stage_id (rt_stage t) = Some i" by (cases u) simp_all
    then have "rt_stage t = Row_Done (Inr i)" using q [OF u(1)] by (cases "rt_stage t") (auto split: sum.splits)
    then show ?thesis using ok [OF u(1)] u(1) t(1) by auto
  qed
  show "\<exists>t. Row t \<in> set ts \<and> rt_stage t = Row_Done (Inr i) \<and> db_vectors ?db ! i = rt_vector t" if "k \<le> i" "i < ?n" for i
    using placed [OF that] by (auto simp: row_in_def row_at_def)
  have all: "i \<in> on_layer (db_index ?db) 0 \<and> coded ?db i" if "i < ?n" for i
  proof (cases "i < k")
    case True
    then show ?thesis using mem sh by (auto simp: memory_ok_def shared_ok_def)
  next
    case False
    then show ?thesis using placed [of i] that on_layer_antimono [of 0] by (auto simp: row_in_def)
  qed
  then show "pq_ok (db_dim ?db) (db_vectors ?db) (db_pq ?db)"
    using coded_all mem by (auto simp: memory_ok_def)
  have below: "i < hnsw_len (db_index ?db)" if "i \<in> on_layer (db_index ?db) 0" for i
    using that sh by (auto simp: on_layer_iff shared_ok_def slots_ok_def)
  have "hnsw_len (db_index ?db) \<le> ?n" using sh by (simp add: shared_ok_def)
  moreover have "?n \<le> hnsw_len (db_index ?db)" using below all by (meson le_less_linear less_irrefl)
  ultimately show "hnsw_len (db_index ?db) = ?n" by simp
  then show "on_layer (db_index ?db) 0 = {..<?n}" using all below by auto
qed

text \<open>The diagnostic of the tests (\<^verbatim>\<open>pq_inconsistent_ids\<close>): ids with a wrong code, codes, rows.\<close>

definition pq_inconsistent_ids :: "db \<Rightarrow> (nat list \<times> nat \<times> nat) option option" where
  "pq_inconsistent_ids db =
     (case db_pq db of
        None \<Rightarrow> Some None
      | Some st \<Rightarrow> do {
          let m = pq_m (ps_pq st);
          let covered = length (ps_codes st) div m;
          let stored = vs_len (db_store db);
          bad \<leftarrow> map_opt (\<lambda>i. do {
            v \<leftarrow> store_vec (db_store db) i;
            fresh \<leftarrow> pq_encode (ps_pq st) v;
            code \<leftarrow> slice (ps_codes st) (i * m) m;
            Some (if fresh \<noteq> code then [i] else []) }) [0..<min covered stored];
          Some (Some (concat bad, covered, stored)) })"

lemma pq_ok_consistent:
  assumes "pq_ok (db_dim db) (db_vectors db) (db_pq db)" and "db_pq db \<noteq> None"
  shows "pq_inconsistent_ids db = Some (Some ([], length (db_vectors db), length (db_vectors db)))"
proof -
  let ?n = "length (db_vectors db)"
  obtain st where st: "db_pq db = Some st" using assms(2) by blast
  then have q: "pq_inv (ps_pq st)" "pq_dim (ps_pq st) = db_dim db" "codes_of (ps_pq st) (db_vectors db) = Some (ps_codes st)"
    using assms(1) by (simp_all add: pq_ok_def)
  let ?q = "ps_pq st" and ?m = "pq_m (ps_pq st)"
  have "db\<lparr>db_pq := Some \<lparr>ps_pq = ?q, ps_codes = ps_codes st\<rparr>\<rparr> = db" using st by simp
  then have c: "\<forall>i < ?n. coded db i" using codes_of_coded [OF q] by simp
  have dims: "\<forall>v \<in> set (db_vectors db). length v = pq_dim ?q" using q(2) vectors_dim by (auto simp: db_vectors_def db_dim_def)
  have "length (ps_codes st) = ?n * ?m" by (rule codes_of_length [OF q(1) dims q(3)])
  moreover have "0 < ?m" using q(1) by (simp add: pq_inv_def)
  ultimately have cov: "length (ps_codes st) div ?m = ?n" by simp
  have "map_opt (\<lambda>i. do {
            v \<leftarrow> store_vec (db_store db) i;
            fresh \<leftarrow> pq_encode ?q v;
            code \<leftarrow> slice (ps_codes st) (i * ?m) ?m;
            Some (if fresh \<noteq> code then [i] else []) }) [0..<?n] = Some (map (\<lambda>_. []) [0..<?n])"
    by (rule map_opt_known) (use c st in \<open>auto simp: coded_def store_vec_def db_vectors_def\<close>)
  then show ?thesis using st cov by (simp add: pq_inconsistent_ids_def Let_def vs_len_def db_vectors_def)
qed

section \<open>Durability\<close>

primrec offered :: "'g caller \<Rightarrow> f32 list set" where
  "offered (Row t) = {rt_vector t}"
| "offered (Training t) = {}"
| "offered (Query t) = {}"

lemma job_offered: "caller_job u = caller_job t \<Longrightarrow> offered u = offered t"
  by (cases t; cases u) auto

lemma durable_in_memory:
  "durable e (db\<lparr>db_index := h\<rparr>) ws = durable e db ws" "next_lsn (db\<lparr>db_index := h\<rparr>) = next_lsn db"
  by (simp_all add: durable_def logged_def unacked_def next_lsn_def)

text \<open>Only the insertion of a row touches what the files determine.\<close>

lemma caller_step_durable:
  assumes D: "durable e (lv_db lv) ws" and ok: "caller_ok e no_nan k (lv_db lv) t"
    and room: "next_lsn (lv_db lv) + (if unstored t then 1 else 0) < u64_limit"
    and st: "caller_step e rng lv t = Some (lv', t')"
  shows "\<exists>ws'. durable e (lv_db lv') ws' \<and> set ws' \<subseteq> set ws \<union> offered t \<and>
     next_lsn (lv_db lv') + (if unstored t' then 1 else 0) \<le> next_lsn (lv_db lv) + (if unstored t then 1 else 0)"
proof (cases t)
  case (Row r)
  then obtain r' where r': "row_step e lv r = Some (lv', r')" "t' = Row r'" using st by auto
  show ?thesis
  proof (cases "rt_stage r")
    case Storing
    obtain db' res where ins: "insert_row_storage_only e (lv_db lv) (rt_vector r) (rt_io r) = (db', res)" by fastforce
    have "no_nan (rt_vector r)" "next_lsn (lv_db lv) + 1 < u64_limit" using ok room Row Storing by simp_all
    from insert_row_durable [OF D this ins] obtain ws' where "durable e db' ws'" "next_lsn db' \<le> next_lsn (lv_db lv) + 1"
      "set ws' \<subseteq> insert (rt_vector r) (set ws)"
      by (cases res) auto
    then show ?thesis
      using r' Row Storing ins by (cases res) (auto simp: row_step_def Let_def)
  qed (use r' Row D durable_in_memory encode_row_memory in
      \<open>auto simp: row_step_def Let_def split: bind_splits if_splits prod.splits dest!: encode_row_memory\<close>)
next
  case (Training r)
  then obtain r' where "train_step rng lv r = Some (lv', r')" "t' = Training r'" using st by auto
  then show ?thesis
    using Training D by (cases "tt_stage r") (auto simp: train_step_def Let_def split: bind_splits)
next
  case (Query r)
  then show ?thesis using st D by auto
qed

lemma session_durable:
  assumes "(interleave (caller_step e rng))\<^sup>*\<^sup>* (lv, ts) (lv', ts')" and "session_inv e no_nan k N (lv, ts)" and lev: "levels_ok e"
    and "durable e (lv_db lv) ws" and "next_lsn (lv_db lv) + count_of unstored ts < u64_limit"
  shows "\<exists>ws'. durable e (lv_db lv') ws' \<and> set ws' \<subseteq> set ws \<union> \<Union> (offered ` set ts) \<and>
     next_lsn (lv_db lv') + count_of unstored ts' < u64_limit"
  using assms(1)
proof (induction "(lv', ts')" arbitrary: lv' ts' rule: rtranclp_induct)
  case base
  then show ?case using assms(4,5) by blast
next
  case (step c)
  obtain lv1 ts1 where c: "c = (lv1, ts1)" by fastforce
  from step.hyps(3) [OF c] obtain ws1 where W: "durable e (lv_db lv1) ws1" "set ws1 \<subseteq> set ws \<union> \<Union> (offered ` set ts)"
    "next_lsn (lv_db lv1) + count_of unstored ts1 < u64_limit" by blast
  have S: "session_inv e no_nan k N (lv1, ts1)" "map caller_job ts1 = map caller_job ts"
    using session_run [OF step.hyps(1) assms(2) lev] c by simp_all
  from step.hyps(2) [unfolded c] show ?case
  proof cases
    case (Step a t')
    note n = count_update [OF Step(2), of unstored t']
    have "(if unstored (ts1 ! a) then 1 else 0) \<le> count_of unstored ts1"
      using count_pos [OF Step(2), of unstored] by (simp add: Suc_le_eq)
    then have room: "next_lsn (lv_db lv1) + (if unstored (ts1 ! a) then 1 else 0) < u64_limit" using W(3) by linarith
    have "caller_ok e no_nan k (lv_db lv1) (ts1 ! a)" using S(1) Step(2) by (simp add: session_inv_def)
    from caller_step_durable [OF W(1) this room Step(3)] obtain ws' where
      R: "durable e (lv_db lv') ws'" "set ws' \<subseteq> set ws1 \<union> offered (ts1 ! a)"
      "next_lsn (lv_db lv') + (if unstored t' then 1 else 0) \<le> next_lsn (lv_db lv1) + (if unstored (ts1 ! a) then 1 else 0)"
      by blast
    have "offered t \<in> offered ` set ts" if "t \<in> set ts1" for t
    proof -
      have "caller_job t \<in> caller_job ` set ts" using S(2) that by (metis imageI list.set_map)
      then obtain u where "u \<in> set ts" "caller_job u = caller_job t" by (metis imageE)
      then have "offered u = offered t" by (intro job_offered)
      then show ?thesis using \<open>u \<in> set ts\<close> by (metis imageI)
    qed
    then have "offered (ts1 ! a) \<subseteq> \<Union> (offered ` set ts)" using Step(2) by (meson Union_upper nth_mem)
    then have "set ws' \<subseteq> set ws \<union> \<Union> (offered ` set ts)" using R(2) W(2) by blast
    moreover have "next_lsn (lv_db lv') + count_of unstored ts' < u64_limit"
      using R(3) n W(3) Step(1) by (auto split: if_splits)
    ultimately show ?thesis using R(1) by blast
  qed
qed

section \<open>What the callers see\<close>

text \<open>The result of an insert, once it has returned.\<close>

primrec returned :: "'g caller \<Rightarrow> nat result option" where
  "returned (Row t) = (case rt_stage t of Row_Done r \<Rightarrow> Some r | _ \<Rightarrow> None)"
| "returned (Training t) = None"
| "returned (Query t) = None"

lemma returned_Some: "returned t = Some r \<Longrightarrow> \<exists>u. t = Row u \<and> rt_stage u = Row_Done r"
  by (cases t) (auto split: row_stage.splits)

lemma length_callers [simp]: "length (callers rows trains queries) = length rows + length trains + length queries"
  by (simp add: callers_def)

lemma callers_row:
  assumes "map caller_job ts = map caller_job (callers rows trains queries)" "a < length rows"
  shows "\<exists>t. ts ! a = Row t \<and> rt_vector t = fst (rows ! a)" "a < length ts"
proof -
  have len: "length ts = length (callers rows trains queries)" using assms(1) by (metis length_map)
  then show lt: "a < length ts" using assms(2) by simp
  have "caller_job (ts ! a) = caller_job (callers rows trains queries ! a)"
    using assms(1) lt len by (metis nth_map)
  also have "\<dots> = (fst (rows ! a), None)"
    using assms(2) by (simp add: callers_def nth_append row_new_def split: prod.splits)
  finally show "\<exists>t. ts ! a = Row t \<and> rt_vector t = fst (rows ! a)" by (cases "ts ! a") auto
qed

lemma callers_other:
  assumes "map caller_job ts = map caller_job (callers rows trains queries)" "length rows \<le> a" "a < length ts"
  shows "returned (ts ! a) = None"
proof -
  have len: "length ts = length (callers rows trains queries)" using assms(1) by (metis length_map)
  have "caller_job (ts ! a) = caller_job (callers rows trains queries ! a)" using assms(1,3) len by (metis nth_map)
  moreover have "snd (caller_job (callers rows trains queries ! a)) \<noteq> None"
    using assms(2,3) len by (auto simp: callers_def nth_append train_new_def query_new_def split: prod.splits)
  ultimately have "snd (caller_job (ts ! a)) \<noteq> None" by simp
  then show ?thesis by (cases "ts ! a") simp_all
qed

lemma callers_query:
  assumes "map caller_job ts = map caller_job (callers rows trains queries)" and "b < length queries"
    and "ts ! (length rows + length trains + b) = Query t" and "queries ! b = (q, k, ef, vis)"
  shows "Query t \<in> set ts" "qt_query t = q" "qt_k t = k"
proof -
  let ?a = "length rows + length trains + b"
  have len: "length ts = length (callers rows trains queries)" using assms(1) by (metis length_map)
  then have lt: "?a < length ts" using assms(2) by simp
  then show "Query t \<in> set ts" using assms(3) nth_mem by metis
  have "caller_job (ts ! ?a) = caller_job (callers rows trains queries ! ?a)" using assms(1) lt len by (metis nth_map)
  also have "\<dots> = (q, Some k)" using assms(2,4) by (simp add: callers_def nth_append query_new_def)
  finally show "qt_query t = q" "qt_k t = k" using assms(3) by simp_all
qed

lemma answered_exact:
  assumes "memory_ok e P k db" and "hits_ok (query_dist db q) (on_layer (db_index db) 0) c hits" and "length q = db_dim db"
  shows "list_all (exact_hit e db q) hits" "list_all (\<lambda>x. nb_id x \<in> on_layer (db_index db) 0) hits"
proof -
  have kern: "hn_kernel (db_index db) = kernel (en_avx e) (cfg_metric (hn_config (db_index db)))"
    and sh: "shared_ok (store_vec (db_store db)) (length (db_vectors db)) k (db_index db)"
    using assms(1) by (simp_all add: memory_ok_def)
  have H: "ids hits \<subseteq> on_layer (db_index db) 0" "scored (query_dist db q) hits" using assms(2) by (simp_all add: hits_ok_def)
  then show "list_all (\<lambda>x. nb_id x \<in> on_layer (db_index db) 0) hits" by (auto simp: ids_def list_all_iff)
  have "exact_hit e db q x" if x: "x \<in> set hits" for x
  proof -
    have "query_dist db q (nb_id x) = Some (nb_dist x)" using H(2) x by (auto simp: scored_def)
    moreover have "nb_id x < length (db_vectors db)"
      using calculation by (auto simp: query_dist_def hnsw_distance_def store_vec_def db_vectors_def split: bind_splits if_splits)
    ultimately show ?thesis
      using row_distance [OF assms(3), of "nb_id x" "en_avx e" "cfg_metric (hn_config (db_index db))"] kern
      by (auto simp: exact_hit_def query_dist_def)
  qed
  then show "list_all (exact_hit e db q) hits" by (simp add: list_all_iff)
qed

lemma returned_row:
  assumes "session_inv e P k N (lv, ts)" "t \<in> set ts" "returned t = Some (Inr i)" "t = Row u"
  shows "k \<le> i \<and> holds_row (lv_db lv) (i, rt_vector u) \<and> caller_id t = Some i"
proof -
  have "caller_ok e P k (lv_db lv) t" using assms(1,2) by (simp add: session_inv_def)
  then show ?thesis
    using assms(3,4) by (auto simp: row_in_def row_at_def holds_row_def split: row_stage.splits)
qed

lemma ended_quiet: "session_inv e P k N (lv, ts) \<Longrightarrow> \<forall>t \<in> set ts. caller_ended t \<Longrightarrow> rw_readers (lv_lock lv) = 0"
proof -
  assume I: "session_inv e P k N (lv, ts)" and e: "\<forall>t \<in> set ts. caller_ended t"
  have "\<not> reads t" if "caller_ended t" for t :: "'a caller" using that by (cases t) auto
  then have "count_of reads ts = 0" unfolding count_zero using e by blast
  then show "rw_readers (lv_lock lv) = 0" using I by (simp add: session_inv_def lock_ok_def)
qed

end
