(* ===== verification/Db_Sessions.thy ===== *)
theory Db_Sessions
  imports Db_Live
begin

text \<open>
  Sessions of callers on one database: properties of every interleaving of inserts, trainings and
  searches, from the invariant and the progress of \<open>Db_Live\<close>.
\<close>

section \<open>Examples\<close>

definition example_rows :: "row_job list" where
  "example_rows = [([f32_zero, f32_one], IoOk, vis_new), ([f32_one, f32_zero], IoOk, vis_new)]"

definition example_queries :: "query_job list" where
  "example_queries = [([f32_one, f32_zero], 1, 10, vis_new)]"

definition example_trains :: "unit train_job list" where
  "example_trains = [(2, 25, 100000, ())]"

lemma example_scratch: "scratch_ok example_rows example_queries"
  by (simp add: scratch_ok_def example_rows_def example_queries_def vis_new_inv)

lemma example_ordinary: "ordinary [f32_one, f32_zero]" "ordinary [f32_zero, f32_one]"
  using example_coords by (simp_all add: ordinary_def)

lemma start_calm:
  assumes "db_ok e db" "levels_ok e" "rng_ok rng" "\<forall>v \<in> set (db_vectors db). ordinary v"
    "\<forall>(v, io, vis) \<in> set rows. ordinary v" "\<forall>(m, iters, M, g) \<in> set trains. M \<le> 2 ^ 23 \<and> db_dim db div m \<le> 2 ^ 20"
    "scratch_ok rows queries"
  shows "calm e rng (length (db_vectors db)) (length (db_vectors db) + length rows) (db_dim db)
     (idle db, callers rows trains queries)"
proof -
  have "trainable (db_dim db) t" if "t \<in> set (callers rows trains queries)" for t
    using that assms(6) by (auto simp: callers_def train_new_def)
  then show ?thesis using start_ok [OF assms(1,4,5,7)] assms(2,3) by (simp add: calm_def idle_def)
qed

lemma example_calm:
  "calm example_env least_rng 1 3 2 (idle example_pq_db, callers example_rows example_trains example_queries)"
  using start_calm [OF example_pq_db_facts(1) example_levels least_rng_ok _ _ _ example_scratch, of example_trains]
    example_ordinary example_pq_db_facts(2,3)
  by (simp add: example_rows_def example_trains_def numeral_3_eq_3)

text \<open>All callers of the example can be brought to their end.\<close>

lemma example_live_run:
  "\<exists>lv ts. (interleave (caller_step example_env least_rng))\<^sup>*\<^sup>*
      (idle example_pq_db, callers example_rows example_trains example_queries) (lv, ts) \<and>
     (\<forall>t \<in> set ts. caller_ended t) \<and> rw_readers (lv_lock lv) = 0 \<and> length ts = 4"
proof -
  obtain c where c: "(interleave (caller_step example_env least_rng))\<^sup>*\<^sup>*
      (idle example_pq_db, callers example_rows example_trains example_queries) c" "\<forall>t \<in> set (snd c). caller_ended t"
    using callers.runs_to_end [OF example_calm] by blast
  from callers.run_inv [OF c(1) example_calm] have "calm example_env least_rng 1 3 2 c" "length (snd c) = 4"
    by (simp_all add: example_rows_def example_trains_def example_queries_def)
  then show ?thesis using c ended_quiet by (cases c) (fastforce simp: calm_def)
qed

text \<open>Two inserts into an empty database: the first has returned its id while the other has not begun.\<close>

definition example_pair :: "row_job list" where
  "example_pair = [([f32_zero, f32_one], IoOk, db_scratch example_fresh), ([f32_one, f32_zero], IoOk, vis_new)]"

lemma example_pair_scratch: "scratch_ok example_pair ([] :: query_job list)"
  using example_fresh_facts(2) by (simp add: scratch_ok_def example_pair_def vis_new_inv db_ok_def)

lemma example_first_insert:
  "\<exists>lv ts. (interleave (caller_step example_env least_rng))\<^sup>*\<^sup>*
      (idle example_fresh, callers example_pair [] []) (lv, ts) \<and>
     returned (ts ! 0) = Some (Inr 0) \<and> rw_readers (lv_lock lv) = 0"
proof -
  let ?v = "[f32_zero, f32_one]" and ?vis = "db_scratch example_fresh"
  let ?ts = "callers example_pair ([] :: unit train_job list) []"
  obtain db' where "db_insert example_env example_fresh ?v IoOk = Some (db', Inr 0)"
    using example_fresh_insert [of ?v] by auto
  from alone_lift [OF row_alone [OF this], of "caller_step example_env least_rng" id Row]
  have run: "alone (caller_step example_env least_rng) (idle example_fresh, Row (row_new ?v IoOk ?vis))
      (idle (db'\<lparr>db_scratch := ?vis\<rparr>), Row ((row_new ?v IoOk ?vis)\<lparr>rt_stage := Row_Done (Inr 0)\<rparr>))"
    by simp
  have "0 < length ?ts" "?ts ! 0 = Row (row_new ?v IoOk ?vis)" by (simp_all add: callers_def example_pair_def)
  from alone_interleave [OF run this] show ?thesis
    by (intro exI conjI) (auto simp: idle_def callers_def example_pair_def)
qed

section \<open>Properties\<close>



text \<open>
  C7: trainings and inserts that overlap leave no row without its code.  Whenever no insert holds the
  maintenance lock, the graph has exactly the rows of the store, and the diagnostic of the tests finds
  as many codes as rows and none that differs from a fresh encoding, unless nothing was ever trained.
\<close>

theorem concurrent_codes_cover:
  assumes "db_ok e db" and "levels_ok e" and "scratch_ok rows queries"
    and "(interleave (caller_step e rng))\<^sup>*\<^sup>* (idle db, callers rows trains queries) (lv, ts)"
    and "rw_readers (lv_lock lv) = 0"
  shows "let n = length (db_vectors (lv_db lv)) in
     hnsw_len (db_index (lv_db lv)) = n \<and> on_layer (db_index (lv_db lv)) 0 = {..<n} \<and>
     (if db_pq db \<noteq> None \<or> (\<exists>t. Training t \<in> set ts \<and> tt_stage t = Train_Done (Inr ()))
      then pq_inconsistent_ids (lv_db lv) = Some (Some ([], n, n))
      else db_pq (lv_db lv) = None \<or> pq_inconsistent_ids (lv_db lv) = Some (Some ([], n, n)))"
proof -
  have S: "session_inv e (\<lambda>_. True) (length (db_vectors db)) (length (db_vectors db) + length rows) (lv, ts) \<and>
      (db_pq db \<noteq> None \<longrightarrow> db_pq (lv_db lv) \<noteq> None)"
    using session_run [OF assms(4) start_ok [OF assms(1) _ _ assms(3)] assms(2), of "\<lambda>_. True"] by (simp add: idle_def)
  note Q = session_quiet [OF conjunct1 [OF S] assms(5)]
  have "db_pq (lv_db lv) \<noteq> None" if "Training t \<in> set ts" "tt_stage t = Train_Done (Inr ())" for t
    using S that by (force simp: session_inv_def)
  then have "db_pq (lv_db lv) \<noteq> None" if "db_pq db \<noteq> None \<or> (\<exists>t. Training t \<in> set ts \<and> tt_stage t = Train_Done (Inr ()))"
    using that S by blast
  then show ?thesis using Q(1,2) pq_ok_consistent [OF Q(3)] by (auto simp: Let_def)
qed

theorem concurrent_codes_cover_witness:
  "\<exists>lv ts. (interleave (caller_step example_env least_rng))\<^sup>*\<^sup>*
      (idle example_pq_db, callers example_rows example_trains example_queries) (lv, ts) \<and>
     pq_inconsistent_ids (lv_db lv) = Some (Some ([], hnsw_len (db_index (lv_db lv)), hnsw_len (db_index (lv_db lv))))"
proof -
  obtain lv ts where r: "(interleave (caller_step example_env least_rng))\<^sup>*\<^sup>*
      (idle example_pq_db, callers example_rows example_trains example_queries) (lv, ts)" "rw_readers (lv_lock lv) = 0"
    using example_live_run by blast
  from concurrent_codes_cover [OF example_pq_db_facts(1) example_levels example_scratch r] show ?thesis
    using r(1) example_pq_db_facts(4) by (auto simp: Let_def)
qed

text \<open>
  C6: inserts running together act as appends in some order.  The vectors only grow at the end; an id
  that was returned is new, belongs to that insert alone, and reads back its vector at once and ever
  after; and when no insert is under way, every new row is the row of an insert that returned its id.
\<close>

theorem concurrent_inserts_append:
  assumes "db_ok e db" and "levels_ok e" and "scratch_ok rows queries"
    and "(interleave (caller_step e rng))\<^sup>*\<^sup>* (idle db, callers rows trains queries) (lv, ts)"
  shows "prefix (db_vectors db) (db_vectors (lv_db lv)) \<and>
     (\<forall>a < length rows. \<forall>i. returned (ts ! a) = Some (Inr i) \<longrightarrow>
        length (db_vectors db) \<le> i \<and> db_get (lv_db lv) i = Inr (fst (rows ! a)) \<and>
        (\<forall>b < length rows. returned (ts ! b) = Some (Inr i) \<longrightarrow> b = a)) \<and>
     (rw_readers (lv_lock lv) = 0 \<longrightarrow>
        (\<forall>i. length (db_vectors db) \<le> i \<and> i < length (db_vectors (lv_db lv)) \<longrightarrow>
           (\<exists>a < length rows. returned (ts ! a) = Some (Inr i))))"
proof -
  let ?k = "length (db_vectors db)" and ?N = "length (db_vectors db) + length rows"
  note R = session_run [OF assms(4) start_ok [OF assms(1) _ _ assms(3)] assms(2), of "\<lambda>_. True", simplified]
  have S: "session_inv e (\<lambda>_. True) ?k ?N (lv, ts)" and j: "map caller_job ts = map caller_job (callers rows trains queries)"
    and p: "prefix (db_vectors db) (db_vectors (lv_db lv))"
    using R by (simp_all add: idle_def)
  have got: "?k \<le> i \<and> db_get (lv_db lv) i = Inr (fst (rows ! a)) \<and> caller_id (ts ! a) = Some i"
    if a: "a < length rows" "returned (ts ! a) = Some (Inr i)" for a i
  proof -
    obtain t where t: "ts ! a = Row t" "rt_vector t = fst (rows ! a)" using callers_row(1) [OF j a(1)] by blast
    have "ts ! a \<in> set ts" using callers_row(2) [OF j a(1)] by simp
    from returned_row [OF S this a(2) t(1)] show ?thesis using t holds_row_get by simp
  qed
  have "b = a" if "a < length rows" "b < length rows" "returned (ts ! a) = Some (Inr i)" "returned (ts ! b) = Some (Inr i)" for a b i
  proof -
    have "ids_ok ?k (length (db_vectors (lv_db lv))) ts" using S by (simp add: session_inv_def)
    then show ?thesis using got [OF that(1,3)] got [OF that(2,4)] callers_row(2) [OF j] that(1,2) unfolding ids_ok_def by blast
  qed
  moreover have "\<exists>a < length rows. returned (ts ! a) = Some (Inr i)"
    if q: "rw_readers (lv_lock lv) = 0" "?k \<le> i" "i < length (db_vectors (lv_db lv))" for i
  proof -
    obtain t where "Row t \<in> set ts" "rt_stage t = Row_Done (Inr i)" using session_quiet(4) [OF S q] by blast
    then obtain a where a: "a < length ts" "ts ! a = Row t" "returned (ts ! a) = Some (Inr i)"
      by (auto simp: in_set_conv_nth)
    then have "a < length rows" using callers_other [OF j _ a(1)] by (cases "a < length rows") auto
    then show ?thesis using a(3) by blast
  qed
  ultimately show ?thesis using p got by blast
qed

theorem concurrent_inserts_append_witness:
  "\<exists>lv ts. (interleave (caller_step example_env least_rng))\<^sup>*\<^sup>*
      (idle example_fresh, callers example_pair [] []) (lv, ts) \<and>
     returned (ts ! 0) = Some (Inr 0) \<and> db_get (lv_db lv) 0 = Inr [f32_zero, f32_one]"
proof -
  obtain lv ts where r: "(interleave (caller_step example_env least_rng))\<^sup>*\<^sup>*
      (idle example_fresh, callers example_pair [] []) (lv, ts)" "returned (ts ! 0) = Some (Inr 0)"
    using example_first_insert by blast
  have "db_get (lv_db lv) 0 = Inr [f32_zero, f32_one]"
    using concurrent_inserts_append [OF example_fresh_facts(2) example_levels example_pair_scratch r(1)] r(2)
    by (auto simp: example_pair_def)
  then show ?thesis using r by blast
qed



text \<open>
  C9: a search that runs beside inserts and trainings returns an answer that is right for the
  database it leaves behind: at most \<open>k\<close> distinct rows of the graph, in order, each with the exact
  distance of its row, and some row when there was one at the start; only a query of another length is
  refused.
\<close>

theorem concurrent_search_exact:
  assumes "db_ok e db" and "levels_ok e" and "scratch_ok rows queries"
    and "(interleave (caller_step e rng))\<^sup>*\<^sup>* (idle db, callers rows trains queries) (lv, ts)"
    and "b < length queries" and "queries ! b = (q, k, ef, vis)"
    and "ts ! (length rows + length trains + b) = Query t" and "qt_stage t = Answered r"
  shows "case r of
       Inl err \<Rightarrow> length q \<noteq> db_dim db
     | Inr hits \<Rightarrow> length q = db_dim db \<and> sorted hits \<and> distinct (map nb_id hits) \<and> length hits \<le> k \<and>
         list_all (exact_hit e (lv_db lv) q) hits \<and>
         list_all (\<lambda>x. nb_id x \<in> on_layer (db_index (lv_db lv)) 0) hits \<and>
         \<not> (hits = [] \<and> 0 < k \<and> db_vectors db \<noteq> [])"
proof -
  let ?k = "length (db_vectors db)" and ?N = "length (db_vectors db) + length rows"
  from session_run [OF assms(4) start_ok [OF assms(1) _ _ assms(3)] assms(2), of "\<lambda>_. True", simplified]
  have S: "session_inv e (\<lambda>_. True) ?k ?N (lv, ts)" and j: "map caller_job ts = map caller_job (callers rows trains queries)"
    and dim: "db_dim (lv_db lv) = db_dim db"
    by (simp_all add: idle_def)
  note Q = callers_query [OF j assms(5,7,6)]
  have mem: "memory_ok e (\<lambda>_. True) ?k (lv_db lv)" and all: "\<forall>u \<in> set ts. caller_ok e (\<lambda>_. True) ?k (lv_db lv) u"
    using S by (simp_all add: session_inv_def)
  have ok: "query_stage_ok ?k (lv_db lv) q k (Answered r)"
    using bspec [OF all Q(1)] Q(2,3) assms(8) by simp
  show ?thesis
  proof (cases r)
    case (Inl err)
    then show ?thesis using ok dim by simp
  next
    case (Inr hits)
    then have H: "length q = db_dim (lv_db lv)" "hits_ok (query_dist (lv_db lv) q) (on_layer (db_index (lv_db lv)) 0) k hits"
      "0 < ?k \<and> 0 < k \<longrightarrow> hits \<noteq> []"
      using ok by simp_all
    then have "sorted hits \<and> distinct (map nb_id hits) \<and> length hits \<le> k" by (simp add: hits_ok_def)
    then show ?thesis using Inr H(1,3) dim answered_exact [OF mem H(2,1)] by auto
  qed
qed

theorem concurrent_search_exact_witness:
  "\<exists>lv ts t n. (interleave (caller_step example_env least_rng))\<^sup>*\<^sup>*
      (idle example_pq_db, callers example_rows example_trains example_queries) (lv, ts) \<and>
     ts ! 3 = Query t \<and> qt_stage t = Answered (Inr [n]) \<and> exact_hit example_env (lv_db lv) [f32_one, f32_zero] n"
proof -
  obtain lv ts where r: "(interleave (caller_step example_env least_rng))\<^sup>*\<^sup>*
      (idle example_pq_db, callers example_rows example_trains example_queries) (lv, ts)" "\<forall>t \<in> set ts. caller_ended t"
    "length ts = 4"
    using example_live_run by blast
  from session_run [OF r(1) start_ok [OF example_pq_db_facts(1) _ _ example_scratch] example_levels, of "\<lambda>_. True", simplified]
  have j: "map caller_job ts = map caller_job (callers example_rows example_trains example_queries)" by simp
  have "caller_job (ts ! 3) = map caller_job ts ! 3" using r(3) by simp
  also have "\<dots> = ([f32_one, f32_zero], Some 1)"
    unfolding j by (simp add: callers_def example_rows_def example_trains_def example_queries_def query_new_def numeral_3_eq_3)
  finally have "caller_job (ts ! 3) = ([f32_one, f32_zero], Some 1)" .
  moreover have "caller_ended (ts ! 3)" using r(2,3) by simp
  ultimately obtain t res where t: "ts ! 3 = Query t" "qt_stage t = Answered res"
    by (cases "ts ! 3") auto
  have "ts ! (length example_rows + length example_trains + 0) = Query t"
    using t(1) by (simp add: example_rows_def example_trains_def numeral_3_eq_3)
  from concurrent_search_exact [OF example_pq_db_facts(1) example_levels example_scratch r(1) _ _ this t(2)]
  have C: "case res of Inl err \<Rightarrow> False | Inr hits \<Rightarrow> length hits \<le> 1 \<and> list_all (exact_hit example_env (lv_db lv) [f32_one, f32_zero]) hits \<and> hits \<noteq> []"
    using example_pq_db_facts(2,3) by (cases res) (simp_all add: example_queries_def)
  then obtain n where "res = Inr [n]" "exact_hit example_env (lv_db lv) [f32_one, f32_zero] n"
    by (cases res) (auto simp: le_Suc_eq length_Suc_conv)
  then show ?thesis using r(1) t by blast
qed

end
