(* ===== verification/Hnsw_Race.thy ===== *)
theory Hnsw_Race
  imports Hnsw_Threads Persist
begin

text \<open>
  What inserts running together can do that inserts one after the other cannot.  A node becomes
  reachable on its upper layers before it has added its own links on the lower ones, so another
  insert can link to it there first; its own choice is then appended without a look at the length
  (\<^verbatim>\<open>hnsw/mod.rs\<close>, the first \<^verbatim>\<open>rewrite_links\<close> of \<^verbatim>\<open>insert\<close>), and the list is over the bound of its layer.
  The loader of a snapshot refuses such a list (\<^verbatim>\<open>hnsw/persist.rs\<close>).
\<close>

section \<open>Indexes within the first segment\<close>

definition small_nodes :: "nat list list list \<Rightarrow> node segvec" where
  "small_nodes ns =
     \<lparr>sv_slots = fmap_of_list (map (\<lambda>i. ((0, i), \<lparr>node_links = ns ! i\<rparr>)) [0..<length ns]), sv_len = length ns\<rparr>"

definition race_config :: hnsw_config where
  "race_config = \<lparr>cfg_m = 2, cfg_ef_construction = 10, cfg_metric = L2\<rparr>"

definition race_index :: "nat list list list \<Rightarrow> 64 word \<Rightarrow> hnsw" where
  "race_index ns e = \<lparr>hn_config = race_config, hn_kernel = kernel False L2, hn_nodes = small_nodes ns, hn_entry = e\<rparr>"

lemma race_index_sel [simp]:
  "hn_config (race_index ns e) = race_config" "hn_kernel (race_index ns e) = kernel False L2"
  "hn_entry (race_index ns e) = e" "hnsw_len (race_index ns e) = length ns"
  "(race_index ns e)\<lparr>hn_entry := e'\<rparr> = race_index ns e'"
  by (simp_all add: race_index_def hnsw_len_def small_nodes_def)

lemma race_max_degree [simp]: "max_degree (race_index ns e) l = (if l = 0 then 4 else 2)"
  by (simp add: max_degree_def race_config_def)

lemma locate_small: "i < 1024 \<Longrightarrow> sv_locate i = (0, i)"
  by (intro sv_seg.locate_unique) (simp_all add: sv_base_def seg_first_def)

lemma small_slots: "fmlookup (sv_slots (small_nodes ns)) (s, i) =
    (if s = 0 \<and> i < length ns then Some \<lparr>node_links = ns ! i\<rparr> else None)"
proof -
  have "map_of (map (\<lambda>i. ((0, i), \<lparr>node_links = ns ! i\<rparr>)) [0..<length ns]) (s, i) =
      (if s = 0 \<and> i < length ns then Some \<lparr>node_links = ns ! i\<rparr> else None)" for i and s :: nat
  proof (cases "s = 0 \<and> i < length ns")
    case True
    then have "((s, i), \<lparr>node_links = ns ! i\<rparr>) \<in> set (map (\<lambda>i. ((0, i), \<lparr>node_links = ns ! i\<rparr>)) [0..<length ns])"
      by force
    moreover have "distinct (map fst (map (\<lambda>i. ((0 :: nat, i), \<lparr>node_links = ns ! i\<rparr>)) [0..<length ns]))"
      by (simp add: o_def distinct_map inj_on_def)
    ultimately show ?thesis using True map_of_is_SomeI by fastforce
  next
    case False
    then show ?thesis by (auto simp: map_of_eq_None_iff)
  qed
  then show ?thesis by (simp add: small_nodes_def fmlookup_of_list)
qed

lemma small_get: "length ns \<le> 1024 \<Longrightarrow> i < 1024 \<Longrightarrow>
    sv_get_unchecked (small_nodes ns) i = (if i < length ns then Some \<lparr>node_links = ns ! i\<rparr> else None)"
  by (simp add: sv_get_unchecked_def locate_small small_slots)

lemma small_set:
  assumes "i = length ns" "i < 1024"
  shows "sv_set (small_nodes ns) i \<lparr>node_links = x\<rparr> = Some (small_nodes (ns @ [x]))"
proof -
  have "fmupd (0, i) \<lparr>node_links = x\<rparr> (sv_slots (small_nodes ns)) = sv_slots (small_nodes (ns @ [x]))"
    by (rule fmap_ext) (use assms in \<open>auto simp: small_slots nth_append less_Suc_eq split: if_splits\<close>)
  then have "(small_nodes ns)\<lparr>sv_slots := fmupd (0, i) \<lparr>node_links = x\<rparr> (sv_slots (small_nodes ns)),
      sv_len := Suc i\<rparr> = small_nodes (ns @ [x])"
    using assms by (simp add: small_nodes_def)
  then show ?thesis
    using assms by (simp add: sv_set_def locate_small sv_max_segments_def) (simp add: small_nodes_def)
qed

lemma race_links [simp]:
  "length ns \<le> 4 \<Longrightarrow> i < 4 \<Longrightarrow>
     links_of (race_index ns e) i l = (if i < length ns \<and> l < length (ns ! i) then Some (ns ! i ! l) else None)"
  by (simp add: links_of_def race_index_def small_get)

lemma race_publish [simp]:
  "i = length ns \<Longrightarrow> i < 4 \<Longrightarrow> sv_set (hn_nodes (race_index ns e)) i (node_new level) =
     Some (small_nodes (ns @ [replicate (level + 1) []]))"
  by (simp add: race_index_def node_new_def small_set del: replicate_Suc)

lemma race_publish_upd [simp]: "(race_index ns e)\<lparr>hn_nodes := small_nodes ns'\<rparr> = race_index ns' e"
  by (simp add: race_index_def)

lemma race_set_links [simp]:
  assumes "length ns \<le> 4" "i < length ns"
  shows "set_links (race_index ns e) i l xs = Some (race_index (ns[i := (ns ! i)[l := xs]]) e)"
proof -
  have i: "i < 1024" "sv_locate i = (0, i)" using assms locate_small [of i] by simp_all
  have "fmupd (0, i) \<lparr>node_links = (ns ! i)[l := xs]\<rparr> (sv_slots (small_nodes ns)) =
      sv_slots (small_nodes (ns[i := (ns ! i)[l := xs]]))"
    by (rule fmap_ext) (use assms in \<open>auto simp: small_slots nth_list_update split: if_splits\<close>)
  then have "sv_modify (small_nodes ns) i (\<lambda>nd. nd\<lparr>node_links := (node_links nd)[l := xs]\<rparr>) =
      Some (small_nodes (ns[i := (ns ! i)[l := xs]]))"
    using assms i by (simp add: sv_modify_def small_get) (simp add: small_nodes_def)
  then show ?thesis by (simp add: set_links_def race_index_def)
qed

section \<open>Four inserts\<close>

text \<open>Two vectors at the origin and two at one; the levels drawn are 2, 1, 2 and 1.\<close>

definition race_vec :: vec_fun where
  "race_vec i = (if i < 2 then Some [f32_zero] else if i < 4 then Some [f32_one] else None)"

definition race_ins :: "insert_job list" where
  "race_ins = [(0, 2, vis_new), (1, 1, vis_new), (2, 2, vis_new), (3, 1, vis_new)]"

lemma race_arith:
  "f32_sub f32_zero f32_one = F32 0xBF800000" "f32_sub f32_one f32_zero = f32_one"
  "f32_sub f32_one f32_one = f32_zero" "f32_sub f32_zero f32_zero = f32_zero"
  "f32_mul (F32 0xBF800000) (F32 0xBF800000) = f32_one" "f32_mul f32_one f32_one = f32_one"
  "f32_add f32_zero f32_one = f32_one"
  by (simp_all add: f32_eval)

lemma race_kernel:
  "kernel False L2 [f32_zero] [f32_zero] = Some f32_zero" "kernel False L2 [f32_zero] [f32_one] = Some f32_one"
  "kernel False L2 [f32_one] [f32_zero] = Some f32_one" "kernel False L2 [f32_one] [f32_one] = Some f32_zero"
  by (simp_all add: scalar_l2_squared_def race_arith Let_def)

abbreviation racing :: "nat \<Rightarrow> nat \<Rightarrow> 32 word list \<Rightarrow> 32 word \<Rightarrow> insert_pc \<Rightarrow> inserter" where
  "racing i level stamps g pc \<equiv>
     \<lparr>in_id = i, in_level = level, in_vis = \<lparr>vis_stamps = stamps, vis_generation = g\<rparr>, in_pc = pc\<rparr>"

lemma race_dist:
  "i < 4 \<Longrightarrow> j < 4 \<Longrightarrow> insert_dist (kernel False L2) race_vec i j = Some (if (i < 2) = (j < 2) then f32_zero else f32_one)"
  using race_kernel by (auto simp: insert_dist_def hnsw_distance_def race_vec_def simp del: kernel.simps)

lemma race_order:
  "f32_zero < f32_one" "\<not> f32_one < f32_zero" "f32_lt f32_zero f32_one" "\<not> f32_lt f32_one f32_zero"
  "\<not> f32_lt f32_zero f32_zero" "\<not> f32_lt f32_one f32_one" "f32_zero \<noteq> f32_one" "f32_one \<noteq> f32_zero"
  by (simp_all add: f32_eval less_f32_def)

lemma step_times_numeral:
  "step_times step (numeral v) c =
     (case step (fst c) (snd c) of None \<Rightarrow> None | Some c' \<Rightarrow> step_times step (pred_numeral v) c')"
  by (simp add: numeral_eq_Suc)

lemma replicate_numeral: "replicate (numeral v) x = x # replicate (pred_numeral v) x"
  by (simp add: numeral_eq_Suc)

lemmas race_eval =
  insert_step_def Let_def descend_step_def beam_start_def begin_pass_def mark_def grow_stamps_def beam_step_def
  worst_def visit_one_def push_bounded_def choose_links_def select_neighbors_def race_config_def
  rewrite_links_def add_own_links_def add_back_link_def raise_entry_def race_dist race_order race_kernel
  neighbor_le_iff neighbor_less_iff unpack_pack pack_not_none upt_conv_Cons step_times_numeral replicate_numeral

lemma race_first:
  "step_times (insert_step race_vec) 3 (race_index [] entry_none, inserter_new 0 2 vis_new) =
     Some (race_index [[[], [], []]] (pack_entry 0 2), racing 0 2 [] 0 Inserted)"
  by (simp add: race_eval race_vec_def inserter_new_def vis_new_def del: kernel.simps)

lemma race_second:
  "step_times (insert_step race_vec) 19 (race_index [[[], [], []]] (pack_entry 0 2), inserter_new 1 1 vis_new) =
     Some (race_index [[[1], [1], []], [[0], [0]]] (pack_entry 0 2), racing 1 1 [2, 0] 2 Inserted)"
  by (simp add: race_eval race_vec_def inserter_new_def vis_new_def del: kernel.simps)

text \<open>The third insert stops when it is linked on layer 2 and on no other.\<close>

lemma race_third:
  "step_times (insert_step race_vec) 10
      (race_index [[[1], [1], []], [[0], [0]]] (pack_entry 0 2), inserter_new 2 2 vis_new) =
     Some (race_index [[[1], [1], [2]], [[0], [0]], [[], [], [0]]] (pack_entry 0 2),
       racing 2 2 [1, 0, 0] 1 (Start_Layer 2 [1, 0] 0))"
  by (simp add: race_eval race_vec_def inserter_new_def vis_new_def del: kernel.simps)

text \<open>The fourth one finds it there, and links to it below.\<close>

lemma race_fourth:
  "step_times (insert_step race_vec) 20
      (race_index [[[1], [1], [2]], [[0], [0]], [[], [], [0]]] (pack_entry 0 2), inserter_new 3 1 vis_new) =
     Some (race_index [[[1], [1], [2]], [[0], [0]], [[3], [3], [0]], [[2], [2]]] (pack_entry 0 2),
       racing 3 1 [0, 0, 2, 0] 2 Inserted)"
  by (simp add: race_eval race_vec_def inserter_new_def vis_new_def del: kernel.simps)

text \<open>The third one goes on, and adds its two choices to the link it finds.\<close>

lemma race_third_again:
  "step_times (insert_step race_vec) 18
      (race_index [[[1], [1], [2]], [[0], [0]], [[3], [3], [0]], [[2], [2]]] (pack_entry 0 2),
       racing 2 2 [1, 0, 0] 1 (Start_Layer 2 [1, 0] 0)) =
     Some (race_index [[[1, 2], [1, 2], [2]], [[0, 2], [0, 2]], [[3, 0, 1], [3, 0, 1], [0]], [[2], [2]]]
         (pack_entry 0 2),
       racing 2 2 [3, 3, 0, 0] 3 Inserted)"
  by (simp add: race_eval race_vec_def inserter_new_def vis_new_def del: kernel.simps)

definition race_result :: hnsw where
  "race_result =
     race_index [[[1, 2], [1, 2], [2]], [[0, 2], [0, 2]], [[3, 0, 1], [3, 0, 1], [0]], [[2], [2]]] (pack_entry 0 2)"

definition race_schedule :: "nat list" where
  "race_schedule = replicate 3 0 @ replicate 19 1 @ replicate 10 2 @ replicate 20 3 @ replicate 18 2"

lemma insert_times:
  "step_times (insert_step vec) n (h, t) = Some (h', t') \<Longrightarrow>
     step_times (thread_step vec) n (h, Insert t) = Some (h', Insert t')"
proof (induction n arbitrary: h t)
  case (Suc n)
  then obtain h1 t1 where "insert_step vec h t = Some (h1, t1)" "step_times (insert_step vec) n (h1, t1) = Some (h', t')"
    by (auto split: option.splits)
  then show ?case using Suc.IH by simp
qed simp

lemma run_inserter:
  assumes "step_times (insert_step vec) n (h, t) = Some (h', t')" "i < length ts" "ts ! i = Insert t"
  shows "run_schedule (thread_step vec) (replicate n i) (h, ts) = Some (h', ts[i := Insert t'])"
  using step_times_schedule [of "thread_step vec" n h ts i h' "Insert t'"] insert_times [OF assms(1)] assms(2,3) by simp

lemma race_run:
  "\<exists>ts. run_schedule (thread_step race_vec) race_schedule (race_index [] entry_none, spawn race_ins []) =
     Some (race_result, ts) \<and> (\<forall>t \<in> set ts. thread_ended t)"
proof -
  let ?ts = "spawn race_ins []"
  have ts: "?ts = [Insert (inserter_new 0 2 vis_new), Insert (inserter_new 1 1 vis_new),
      Insert (inserter_new 2 2 vis_new), Insert (inserter_new 3 1 vis_new)]"
    by (simp add: spawn_def race_ins_def)
  note 1 = run_inserter [OF race_first, of 0 ?ts]
  note 2 = run_inserter [OF race_second, of 1 "?ts[0 := Insert (racing 0 2 [] 0 Inserted)]"]
  note 3 = run_inserter [OF race_third, of 2
      "?ts[0 := Insert (racing 0 2 [] 0 Inserted), 1 := Insert (racing 1 1 [2, 0] 2 Inserted)]"]
  note 4 = run_inserter [OF race_fourth, of 3
      "?ts[0 := Insert (racing 0 2 [] 0 Inserted), 1 := Insert (racing 1 1 [2, 0] 2 Inserted),
        2 := Insert (racing 2 2 [1, 0, 0] 1 (Start_Layer 2 [1, 0] 0))]"]
  note 5 = run_inserter [OF race_third_again, of 2
      "?ts[0 := Insert (racing 0 2 [] 0 Inserted), 1 := Insert (racing 1 1 [2, 0] 2 Inserted),
        2 := Insert (racing 2 2 [1, 0, 0] 1 (Start_Layer 2 [1, 0] 0)),
        3 := Insert (racing 3 1 [0, 0, 2, 0] 2 Inserted)]"]
  show ?thesis
    unfolding race_schedule_def run_schedule_append
    using 1 2 3 4 5 by (simp add: ts race_result_def)
qed

text \<open>The starting index is the empty one, and the jobs are the next four ids.\<close>

lemma race_start: "hnsw_new False race_config = Inr (race_index [] entry_none)"
proof -
  have "small_nodes [] = sv_new" by (simp add: small_nodes_def sv_new_def)
  then show ?thesis by (simp add: hnsw_new_def race_index_def race_config_def)
qed

lemma race_jobs: "jobs_ok race_vec (race_index [] entry_none) race_ins []"
proof -
  have "\<forall>i<4. \<exists>v. race_vec i = Some v \<and> length v = 1" by (simp add: race_vec_def)
  then have "vecs_ok (kernel False L2) race_vec 4" by (rule vecs_ok_kernel)
  moreover have "(4 :: nat) \<le> sv_capacity"
    by (simp add: sv_capacity_def seg_first_def sv_base_def sv_max_segments_def)
  moreover have "{0, 1, 2, 3} = {0..<4 :: nat}" by auto
  moreover have "length race_ins = 4" "map fst race_ins = [0, 1, 2, 3]"
    "\<forall>(i, level, vis) \<in> set race_ins. level < 256 \<and> vis_inv vis"
    by (simp_all add: race_ins_def vis_new_inv)
  ultimately show ?thesis by (simp add: jobs_ok_def del: kernel.simps)
qed

lemma race_overfull: "links_of race_result 2 1 = Some [3, 0, 1] \<and> max_degree race_result 1 = 2"
  by (simp add: race_result_def numeral_nat)

section \<open>Overfull lists in a snapshot\<close>

text \<open>A node that the file can hold, whether or not its lists are within the bounds.\<close>

definition node_plain :: "nat \<Rightarrow> node \<Rightarrow> bool" where
  "node_plain cnt nd \<longleftrightarrow>
     node_links nd \<noteq> [] \<and> length (node_links nd) \<le> 64 \<and>
     (\<forall>ns \<in> set (node_links nd). length ns < 2 ^ 32 \<and> (\<forall>nb \<in> set ns. nb < cnt))"

lemma read_layers_overfull:
  "length layers = length nss \<Longrightarrow> \<forall>ns \<in> set nss. length ns < 2 ^ 32 \<and> (\<forall>nb \<in> set ns. nb < cnt) \<Longrightarrow> cnt \<le> 2 ^ 64 \<Longrightarrow>
   k < length nss \<Longrightarrow> (if layers ! k = 0 then 2 * m else m) < length (nss ! k) \<Longrightarrow>
     read_layers m cnt layers (concat (map links_bytes nss) @ rest) = Inl (Corrupt ''snapshot: absurd degree'')"
proof (induction nss arbitrary: layers k)
  case Nil
  then show ?case by simp
next
  case (Cons ns nss)
  then obtain l ls where l: "layers = l # ls" by (cases layers) auto
  have small: "length ns < 256 ^ 4" using Cons.prems(2) by simp
  show ?case
  proof (cases "length ns \<le> (if l = 0 then 2 * m else m)")
    case True
    then obtain k' where k': "k = Suc k'" using Cons.prems(5) l by (cases k) auto
    have "read_layers m cnt ls (concat (map links_bytes nss) @ rest) = Inl (Corrupt ''snapshot: absurd degree'')"
      by (rule Cons.IH [of ls k']) (use Cons.prems l k' in auto)
    then show ?thesis
      using Cons.prems(2,3) True small by (simp add: l links_bytes_def [of ns] read_ids_bytes)
  next
    case False
    then show ?thesis using small by (simp add: l links_bytes_def [of ns])
  qed
qed

lemma read_node_overfull:
  assumes "node_plain cnt nd" "cnt \<le> 2 ^ 64" "\<not> node_fits m cnt nd"
  shows "read_node m cnt (node_bytes nd @ rest) = Inl (Corrupt ''snapshot: absurd degree'')"
proof -
  have l: "length (node_links nd) = node_level nd + 1" "node_level nd \<le> 63"
    using assms(1) by (cases "node_links nd"; simp add: node_plain_def node_level_def)+
  obtain k where k: "k < length (node_links nd)" "(if k = 0 then 2 * m else m) < length (node_links nd ! k)"
    using assms(1,3) unfolding node_plain_def node_fits_def by (meson not_le)
  have "read_layers m cnt [0..<node_level nd + 1] (concat (map links_bytes (node_links nd)) @ rest) =
      Inl (Corrupt ''snapshot: absurd degree'')"
  proof (rule read_layers_overfull)
    show "(if [0..<node_level nd + 1] ! k = 0 then 2 * m else m) < length (node_links nd ! k)"
      using k l by (simp del: upt_Suc)
  qed (use assms k l in \<open>auto simp: node_plain_def simp del: upt_Suc\<close>)
  then show ?thesis using l(2) by (simp add: read_node_def node_bytes_def del: upt_Suc)
qed

lemma read_nodes_overfull:
  "\<forall>nd \<in> set nds. node_plain cnt nd \<Longrightarrow> cnt \<le> 2 ^ 64 \<Longrightarrow> m \<le> 4096 \<Longrightarrow> sv_dense v \<Longrightarrow>
   sv_len v + length nds \<le> sv_capacity \<Longrightarrow> \<exists>nd \<in> set nds. \<not> node_fits m cnt nd \<Longrightarrow>
    read_nodes m cnt [sv_len v..<sv_len v + length nds] v (concat (map node_bytes nds) @ rest) =
      Some (Inl (Corrupt ''snapshot: absurd degree''))"
proof (induction nds arbitrary: v)
  case Nil
  then show ?case by simp
next
  case (Cons nd nds)
  let ?i = "sv_len v"
  have e: "[?i..<?i + length (nd # nds)] = ?i # [Suc ?i..<Suc ?i + length nds]"
    by (simp add: upt_conv_Cons del: upt_Suc)
  show ?case
  proof (cases "node_fits m cnt nd")
    case True
    obtain v1 where v1: "sv_set v ?i nd = Some v1" using sv_set_ok [of ?i v nd] Cons.prems(5) by auto
    note d = sv_dense_push [OF Cons.prems(4) v1]
    have "read_nodes m cnt [sv_len v1..<sv_len v1 + length nds] v1 (concat (map node_bytes nds) @ rest) =
        Some (Inl (Corrupt ''snapshot: absurd degree''))"
      by (rule Cons.IH) (use Cons.prems d True in auto)
    then show ?thesis
      unfolding e using read_node_bytes [OF True Cons.prems(2,3)] v1 d by simp
  next
    case False
    have "node_plain cnt nd" using Cons.prems(1) by simp
    then show ?thesis unfolding e using read_node_overfull [OF _ Cons.prems(2) False] by simp
  qed
qed

text \<open>What every index has that concurrent inserts leave, but the bounds on its lists.\<close>

definition index_plain :: "hnsw \<Rightarrow> bool" where
  "index_plain h \<longleftrightarrow>
     2 \<le> cfg_m (hn_config h) \<and> cfg_m (hn_config h) \<le> 4096 \<and> cfg_ef_construction (hn_config h) < 2 ^ 32 \<and>
     hnsw_len h \<le> sv_capacity \<and>
     (\<forall>i < hnsw_len h. \<exists>nd. sv_get_unchecked (hn_nodes h) i = Some nd \<and> node_plain (hnsw_len h) nd)"

lemma overfull_refused:
  assumes p: "index_plain h" and w: "wal_lsn < 2 ^ 64"
    and over: "i < hnsw_len h" "links_of h i l = Some ns" "max_degree h l < length ns"
  shows "\<exists>bs. snapshot_bytes crc h wal_lsn = Some bs \<and>
     hnsw_load crc avx bs = Some (Inl (Corrupt ''snapshot: absurd degree''))"
proof -
  let ?n = "hnsw_len h" and ?m = "cfg_m (hn_config h)"
  have m: "2 \<le> ?m" "?m \<le> 4096" and cap: "?n \<le> sv_capacity" using p by (simp_all add: index_plain_def)
  then have n64: "?n < 2 ^ 64" using sv_capacity_less by simp
  let ?f = "\<lambda>i. the (sv_get_unchecked (hn_nodes h) i)"
  have get: "sv_get_unchecked (hn_nodes h) i = Some (?f i)" "node_plain ?n (?f i)" if "i < ?n" for i
    using p that by (auto simp: index_plain_def)
  let ?nds = "map ?f [0..<?n]"
  have plain: "\<forall>nd \<in> set ?nds. node_plain ?n nd" using get by auto
  obtain nd where nd: "sv_get_unchecked (hn_nodes h) i = Some nd" "l < length (node_links nd)" "ns = node_links nd ! l"
    using over(2) by (auto simp: links_of_Some)
  then have "\<not> length (node_links nd ! l) \<le> (if l = 0 then 2 * ?m else ?m)"
    using over(3) by (auto simp: max_degree_def)
  moreover have "?f i = nd" using nd(1) by simp
  ultimately have "\<not> node_fits ?m ?n (?f i)" using nd(2) unfolding node_fits_def by blast
  then have bad: "\<exists>nd \<in> set ?nds. \<not> node_fits ?m ?n nd" using over(1) by auto
  have nb: "nodes_bytes h [0..<?n] = Some (concat (map node_bytes ?nds))"
    by (rule nodes_bytes_Some) (use get in simp)
  define body where "body = snap_header h wal_lsn @ concat (map node_bytes ?nds)"
  define tail where "tail = le_bytes 4 (unat (crc body))"
  have bs: "snapshot_bytes crc h wal_lsn = Some (body @ tail)"
    using nb by (simp add: snapshot_bytes_def Let_def body_def tail_def)
  have "length tail = 4" "le_val tail = unat (crc body)" by (simp_all add: tail_def)
  then have v: "verify_crc crc (body @ tail) = Inr (length (body @ tail))" by (simp add: verify_crc_def)
  have hd: "read_snap_header (body @ tail) =
      Inr ((hn_config h, wal_lsn, ?n, unat (hn_entry h)), concat (map node_bytes ?nds) @ tail)"
    using read_snap_header_bytes [of h wal_lsn] m p w n64 by (simp add: body_def index_plain_def)
  have "8 * ?n \<le> length (concat (map node_bytes ?nds))"
    using length_concat_nodes [of ?nds] plain by (simp add: node_plain_def)
  then have cnt: "?n \<le> length (body @ tail) div 8" by (simp add: body_def)
  have new: "hnsw_new avx (hn_config h) = Inr \<lparr>hn_config = hn_config h,
      hn_kernel = kernel avx (cfg_metric (hn_config h)), hn_nodes = sv_new, hn_entry = entry_none\<rparr>"
    using m by (simp add: hnsw_new_def)
  have "?n \<le> 2 ^ 64" "sv_len (sv_new :: node segvec) + length ?nds \<le> sv_capacity" using n64 cap by simp_all
  from read_nodes_overfull [OF plain this(1) m(2) sv_dense_new this(2) bad, of tail]
  have "read_nodes ?m ?n [0..<?n] sv_new (concat (map node_bytes ?nds) @ tail) =
      Some (Inl (Corrupt ''snapshot: absurd degree''))" by simp
  then have "hnsw_load crc avx (body @ tail) = Some (Inl (Corrupt ''snapshot: absurd degree''))"
    unfolding hnsw_load_def v hd using m cnt new by simp
  then show ?thesis using bs by blast
qed

lemma race_plain: "index_plain race_result"
proof -
  let ?ns = "[[[1, 2], [1, 2], [2]], [[0, 2], [0, 2]], [[3, 0, 1], [3, 0, 1], [0]], [[2], [2]]] :: nat list list list"
  have all: "\<forall>n \<in> set ?ns. node_plain 4 \<lparr>node_links = n\<rparr>" by (simp add: node_plain_def)
  have "\<exists>nd. sv_get_unchecked (hn_nodes race_result) i = Some nd \<and> node_plain 4 nd" if "i < 4" for i
  proof -
    have "sv_get_unchecked (hn_nodes race_result) i = Some \<lparr>node_links = ?ns ! i\<rparr>"
      using that by (simp add: race_result_def race_index_def small_get)
    moreover have "?ns ! i \<in> set ?ns" using that by (intro nth_mem) simp
    ultimately show ?thesis using all by blast
  qed
  moreover have "hnsw_len race_result = 4" "hn_config race_result = race_config" by (simp_all add: race_result_def)
  moreover have "(4 :: nat) \<le> sv_capacity"
    by (simp add: sv_capacity_def seg_first_def sv_base_def sv_max_segments_def)
  ultimately show ?thesis by (simp add: index_plain_def race_config_def)
qed

section \<open>Property\<close>

text \<open>
  C29: Four inserts into a fresh index can be interleaved so that all of them succeed and one list
  holds three links where two are allowed: the structural check of the tests fails, and the
  snapshot that saving writes is refused by every later load, whatever the checksum and the LSN.
\<close>

theorem concurrent_inserts_overfill:
  "\<exists>h0 h ts. hnsw_new False race_config = Inr h0 \<and>
     (interleave (thread_step race_vec))\<^sup>*\<^sup>* (h0, spawn race_ins []) (h, ts) \<and> list_all thread_ended ts \<and>
     \<not> check_invariants h \<and>
     (\<forall>crc avx w. \<exists>bs. snapshot_bytes crc h (unat (w :: 64 word)) = Some bs \<and>
        hnsw_load crc avx bs = Some (Inl (Corrupt ''snapshot: absurd degree'')))"
proof -
  obtain ts where r: "run_schedule (thread_step race_vec) race_schedule (race_index [] entry_none, spawn race_ins []) =
      Some (race_result, ts)" "\<forall>t \<in> set ts. thread_ended t" using race_run by blast
  note run = run_schedule_interleave [OF r(1)]
  have inv: "hn_inv (race_index [] entry_none)" using hnsw_new_inv [OF race_start] by blast
  have len: "hnsw_len race_result = 4" by (simp add: race_result_def)
  have ended: "thread_ended (ts ! a)" if "a < length race_ins" for a
    using r(2) run_jobs [OF run] that by simp
  note fin = inserts_done [OF inv race_jobs run ended]
  have "check_invariants race_result \<longleftrightarrow>
      (\<forall>i l ns. links_of race_result i l = Some ns \<longrightarrow> length ns \<le> max_degree race_result l)"
    by (rule check_from_shared [OF fin(1,3)])
  then have "\<not> check_invariants race_result" using race_overfull by fastforce
  moreover have "\<exists>bs. snapshot_bytes crc race_result (unat (w :: 64 word)) = Some bs \<and>
      hnsw_load crc avx bs = Some (Inl (Corrupt ''snapshot: absurd degree''))" for crc avx w
    by (rule overfull_refused [OF race_plain, of _ 2 1 "[3, 0, 1]"])
      (use race_overfull len unat64_less [of w] in simp_all)
  ultimately show ?thesis using race_start run r(2) by (fastforce simp: list_all_iff)
qed

end
