(* ===== verification/Db_Race.thy ===== *)
theory Db_Race
  imports Db_Live Hnsw_Race
begin

text \<open>
  What the maintenance lock does not cover: \<^verbatim>\<open>search_pq\<close> takes only the lock of the codes, and an insert
  links its row before it asks for that lock to write the code.  In between, the graph returns an id
  the codes do not have.  And what concurrent inserts can leave in the graph, a checkpoint makes final.
\<close>

lemma connect_layers_entry:
  "connect_layers vec dist i ls st = Some st' \<Longrightarrow> hn_entry (fst st') = hn_entry (fst st)"
  by (induction ls arbitrary: st)
    (auto simp: connect_layer_def Let_def split: bind_splits dest!: rewrite_links_kernel back_links_kernel)

text \<open>A node above the entry's layer becomes the entry.\<close>

lemma insert_entry:
  assumes "hnsw_insert h vec i level vis = Some (h', vis')"
    and "hn_entry h = entry_none \<or> snd (unpack_entry (hn_entry h)) < level"
  shows "hn_entry h' = pack_entry i level"
  using assms
  by (auto simp: hnsw_insert_def Let_def raise_entry_def simp del: upt_Suc split: bind_splits if_splits prod.splits
      dest!: connect_layers_entry)

text \<open>A search whose entry has no code panics on its first distance.\<close>

lemma search_pq_no_code:
  assumes "db_pq db = Some st" and "length (ps_codes st) \<le> i * pq_m (ps_pq st)" and "0 < pq_m (ps_pq st)"
    and "hn_entry (db_index db) = pack_entry i level" and "i < sv_capacity" and "level < 256"
    and "length query = db_dim db" and "rerank = 0 \<or> k * rerank < u64_limit"
  shows "db_search_pq e db query k ef rerank = None"
proof -
  have "i < 2 ^ 56" using assms(5) sv_capacity_less by simp
  then have "unpack_entry (hn_entry (db_index db)) = (i, level)" "hn_entry (db_index db) \<noteq> entry_none"
    using assms(4,6) unpack_pack pack_not_none sv_capacity_less assms(5) by simp_all
  moreover have "adc_dist st table i = None" for table
    using assms(2,3) by (simp add: adc_dist_def slice_def)
  ultimately have "search_with_oracle (db_index db) (adc_dist st table) vis c ef' = None" for table vis c ef'
    by (simp add: search_with_oracle_def)
  moreover obtain fetch where "(if rerank = 0 then Some k else checked_mul k rerank) = Some fetch"
    using assms(8) by (cases "rerank = 0") (auto simp: checked_mul_def u64_limit_def)
  ultimately show ?thesis
    using assms(1,7) by (auto simp: db_search_pq_def db_dim_def split: bind_splits)
qed

section \<open>An example\<close>

lemma example_pq_row:
  "\<exists>db1. insert_row_storage_only example_env example_pq_db [f32_one, f32_one] IoOk = (db1, Inr 1)"
  "hn_entry (db_index example_pq_db) = pack_entry 0 0"
proof -
  let ?v = "[f32_one, f32_zero]" and ?f = "example_fresh"
  have inv: "vs_inv (db_store ?f)" "graph_ok example_env (db_index ?f)" "hnsw_len (db_index ?f) = 0" "vs_count (db_store ?f) = 0"
    using example_fresh_facts(2,7) length_vs_vectors [of "db_store ?f"] by (auto simp: db_ok_def db_vectors_def)
  have wal: "\<not> wal_poisoned (fresh_wal Always)" by (simp add: fresh_wal_def)
  obtain s w where ins: "insert_row_storage_only example_env ?f ?v IoOk = (?f\<lparr>db_store := s, db_wal := Some w\<rparr>, Inr 0)"
    "\<not> wal_poisoned w" "vs_mapped s = vs_mapped (db_store ?f)"
    using insert_row_ok [OF inv(1) example_fresh_facts(3) wal, of ?v example_env] example_room example_fresh_facts(8) inv(4)
    by (auto simp: db_vectors_def)
  obtain db' where db': "db_insert example_env ?f ?v IoOk = Some (db', Inr 0)" "example_db = db'"
    using example_fresh_insert [of ?v] by (auto simp: example_db_def)
  obtain h vis p where H: "hnsw_insert (db_index ?f) (store_vec s) 0 0 (db_scratch ?f) = Some (h, vis)"
    "db' = ?f\<lparr>db_store := s, db_wal := Some w, db_index := h, db_scratch := vis, db_pq := p\<rparr>"
    using db'(1) ins(1) by (auto simp: db_insert_def index_row_def example_env_def split: bind_splits dest!: encode_row_memory)
  note E = H(2) [folded db'(2)]
  have "hn_entry (db_index ?f) = entry_none" using inv(2,3) by (simp add: graph_ok_def hn_inv_def entry_ok_def)
  then show "hn_entry (db_index example_pq_db) = pack_entry 0 0"
    using insert_entry [OF H(1)] by (simp add: example_pq_db_def E)
  have st: "db_store example_pq_db = s" "db_wal example_pq_db = Some w" by (simp_all add: example_pq_db_def E)
  have inv1: "vs_inv (db_store example_pq_db)" using example_pq_db_facts(1) by (simp add: db_ok_def)
  have n: "vs_count (db_store example_pq_db) = 1"
    using example_pq_db_facts(2) length_vs_vectors [of "db_store example_pq_db"] by (simp add: db_vectors_def)
  have "seg_first base_rows 1 \<le> seg_first base_rows (vs_mapped (db_store ?f))"
    using inv(1) by (intro seg_first_mono) (simp add: vs_inv_def)
  then have "vs_count (db_store example_pq_db) < seg_first base_rows (vs_mapped (db_store example_pq_db))"
    using ins(3) st n by (simp add: seg_first_def base_rows_def)
  from insert_row_ok [OF inv1 st(2) ins(2) _ _ this, of "[f32_one, f32_one]" example_env]
  show "\<exists>db1. insert_row_storage_only example_env example_pq_db [f32_one, f32_one] IoOk = (db1, Inr 1)"
    using example_pq_db_facts(3) n by auto
qed

section \<open>A checkpoint of an overfull graph\<close>

lemma checkpoint_done:
  assumes "db_checkpoint e db io = Some (db', Inr ())"
  shows "\<exists>bs. snapshot_bytes (en_crc e) (db_index db) (next_lsn db) = Some bs \<and> db_snap db' = Some bs \<and>
     (\<forall>w. db_wal db = Some w \<longrightarrow> (\<exists>w'. db_wal db' = Some w' \<and> wal_content w' = []))"
  using assms
  by (auto simp: db_checkpoint_def save_codebook_def save_index_def hnsw_save_def replace_file_def next_lsn_def
      wal_reset_def split: prod.splits sum.splits option.splits bind_splits replace_out.splits io_out.splits)
    (rule exI, erule sym)+

lemma refused_snapshot:
  "db_snap db = Some bs \<Longrightarrow> hnsw_load (en_crc e) (en_avx e) bs = Some (Inl err) \<Longrightarrow>
     \<exists>err'. db_open e rd io (files_of db) dim opts = Some (Inl err')"
  by (cases "open_store e (files_of db) dim") (auto simp: db_open_def load_index_def files_of_def)

section \<open>Properties\<close>

text \<open>
  C30: \<^verbatim>\<open>search_pq\<close> beside an insert can panic.  From any sound database with trained codes, an insert
  whose node lies above the graph's entry gets, by its own steps, to a state in which its row is linked
  and the codes are still short of it; there every \<^verbatim>\<open>search_pq\<close> of the right dimension indexes past the
  codes, although the insert holds the maintenance lock and once it has returned the search is sound.
\<close>

theorem search_pq_beside_insert_panics:
  assumes "db_ok e db" and "levels_ok e" and "db_pq db = Some st"
    and "insert_row_storage_only e db v io = (db1, Inr i)"
    and "hn_entry (db_index db) = entry_none \<or> snd (unpack_entry (hn_entry (db_index db))) < en_level e i"
    and "length query = db_dim db" and "rerank = 0 \<or> k * rerank < u64_limit"
  shows "\<exists>lv w. alone (row_step e) (idle db, row_new v io (db_scratch db))
        (lv, (row_new v io (db_scratch db))\<lparr>rt_stage := Linking w\<rparr>) \<and> in_pc w = Inserted \<and>
     0 < rw_readers (lv_lock lv) \<and> db_search_pq e (lv_db lv) query k ef rerank = None"
proof -
  have inv: "vs_inv (db_store db)" and pq: "pq_ok (db_dim db) (db_vectors db) (Some st)"
    using assms(1,3) by (simp_all add: db_ok_def)
  note I = insert_row_spec [OF inv assms(4)]
  then obtain s w where db1: "db1 = db\<lparr>db_store := s, db_wal := w\<rparr>" by blast
  have i: "i = length (db_vectors db)" using I by simp
  obtain db' r where "db_insert e db v io = Some (db', r)" using db_insert_spec [OF assms(1,2)] by blast
  then obtain h vis where H: "hnsw_insert (db_index db1) (store_vec (db_store db1)) i (en_level e i) (db_scratch db) = Some (h, vis)"
    using assms(4) insert_row_memory [OF assms(4)] by (auto simp: db_insert_def index_row_def split: bind_splits)
  let ?db = "db1\<lparr>db_index := h\<rparr>" and ?w = "inserting i (en_level e i) vis Inserted"
  have "hn_entry h = pack_entry i (en_level e i)" using insert_entry [OF H] assms(5) db1 by simp
  moreover have "length (ps_codes st) \<le> i * pq_m (ps_pq st)" "0 < pq_m (ps_pq st)"
    using pq i codes_of_length [of "ps_pq st" "db_vectors db" "ps_codes st"] vectors_dim
    by (auto simp: pq_ok_def pq_inv_def db_vectors_def db_dim_def)
  moreover have "length (db_vectors db1) = Suc i" using I i by simp
  then have "i < sv_capacity" using store_capacity [of "db_store db1"] I by (simp add: db_vectors_def)
  moreover have "en_level e i < 256" using assms(2) by (auto simp: levels_ok_def intro: order.strict_trans)
  ultimately have "db_search_pq e ?db query k ef rerank = None"
    using search_pq_no_code [of ?db st i "en_level e i" query rerank k e ef] assms(3,6,7) I db1 by (simp add: db_dim_def)
  then show ?thesis using row_links_alone [OF assms(4) H] by fastforce
qed

theorem search_pq_beside_insert_panics_witness:
  "\<exists>lv w. alone (row_step example_env) (idle example_pq_db, row_new [f32_one, f32_one] IoOk (db_scratch example_pq_db))
      (lv, (row_new [f32_one, f32_one] IoOk (db_scratch example_pq_db))\<lparr>rt_stage := Linking w\<rparr>) \<and>
     db_search_pq example_env (lv_db lv) [f32_one, f32_one] 1 8 3 = None"
proof -
  obtain db1 where ins: "insert_row_storage_only example_env example_pq_db [f32_one, f32_one] IoOk = (db1, Inr 1)"
    using example_pq_row(1) ..
  obtain st where st: "db_pq example_pq_db = Some st" using example_pq_db_facts(4) ..
  have "unpack_entry (pack_entry 0 0) = (0, 0)" by (rule unpack_pack) simp_all
  then have "snd (unpack_entry (hn_entry (db_index example_pq_db))) < en_level example_env 1"
    using example_pq_row(2) by (simp add: example_env_def)
  from search_pq_beside_insert_panics [OF example_pq_db_facts(1) example_levels st ins disjI2 [OF this],
      of "[f32_one, f32_one]" 3 1 8]
  show ?thesis using example_pq_db_facts(3) by (auto simp: u64_limit_def)
qed

text \<open>
  C31: checkpointing a graph with an overfull list loses the database.  If concurrent inserts left a
  list longer than its bound, a checkpoint that reports success has emptied the log and written a
  snapshot with which every later open is refused, whatever the dimension, the options and the device.
\<close>

theorem overfull_checkpoint_loses_database:
  assumes "index_plain (db_index db)" and "i < hnsw_len (db_index db)" and "links_of (db_index db) i l = Some ns"
    and "max_degree (db_index db) l < length ns" and "next_lsn db < 2 ^ 64" and "db_wal db = Some w"
    and "db_checkpoint e db io = Some (db', Inr ())"
  shows "dk_wal (files_of db') = Some [] \<and> (\<forall>rd io' dim opts. \<exists>err. db_open e rd io' (files_of db') dim opts = Some (Inl err))"
proof -
  obtain bs w' where C: "snapshot_bytes (en_crc e) (db_index db) (next_lsn db) = Some bs" "db_snap db' = Some bs"
    "db_wal db' = Some w'" "wal_content w' = []"
    using checkpoint_done [OF assms(7)] assms(6) by blast
  have "hnsw_load (en_crc e) (en_avx e) bs = Some (Inl (Corrupt ''snapshot: absurd degree''))"
    using overfull_refused [OF assms(1,5,2,3,4), of "en_crc e" "en_avx e"] C(1) by simp
  then show ?thesis using C(3,4) refused_snapshot [OF C(2)] by (auto simp: files_of_def)
qed

theorem overfull_checkpoint_loses_database_witness:
  "\<exists>db'. db_checkpoint example_env (example_fresh\<lparr>db_index := race_result\<rparr>)
       \<lparr>ck_msync = True, ck_codebook = Replaced, ck_snap = Replaced, ck_reset = IoOk\<rparr> = Some (db', Inr ()) \<and>
     (\<exists>err. db_open example_env reads_ok IoOk (files_of db') 2 default_options = Some (Inl err))"
proof -
  let ?db = "example_fresh\<lparr>db_index := race_result\<rparr>"
  let ?io = "\<lparr>ck_msync = True, ck_codebook = Replaced, ck_snap = Replaced, ck_reset = IoOk\<rparr>"
  have over: "2 < hnsw_len (db_index ?db)" "links_of (db_index ?db) 2 1 = Some [3, 0, 1]"
    "max_degree (db_index ?db) 1 < length [3, 0, 1 :: nat]"
    using race_overfull by (simp_all add: race_result_def)
  have plain: "index_plain (db_index ?db)" using race_plain by simp
  have wal: "db_wal ?db = Some (fresh_wal Always)" using example_fresh_facts(3) by simp
  have lsn: "next_lsn ?db < 2 ^ 64" using example_fresh_inv(2) by (simp add: next_lsn_def)
  obtain bs where "snapshot_bytes (en_crc example_env) race_result (next_lsn ?db) = Some bs"
    using overfull_refused [OF plain lsn over, of "en_crc example_env" False] by auto
  then obtain db' where "db_checkpoint example_env ?db ?io = Some (db', Inr ())"
    using example_fresh_facts(3,4)
    by (auto simp: db_checkpoint_def vs_flush_def save_codebook_def save_index_def hnsw_save_def replace_file_def
        wal_reset_def ensure_healthy_def fresh_wal_def next_lsn_def)
  with overfull_checkpoint_loses_database [OF plain over lsn wal this] show ?thesis by blast
qed

end
