(* ===== verification/Db_Batch.thy ===== *)
theory Db_Batch
  imports Db_Live
begin

text \<open>
  \<^verbatim>\<open>finish_batch\<close> as it runs: the rows of a batch are linked by the thread pool, any number of them at
  once and in any order, and then their codes are written.  The sequential \<open>finish_batch\<close> is one of its
  schedules.
\<close>

text \<open>The threads take their scratch from wherever they last ran.\<close>

definition batch_jobs :: "env \<Rightarrow> (nat \<Rightarrow> visited) \<Rightarrow> nat \<Rightarrow> nat \<Rightarrow> insert_job list" where
  "batch_jobs e vis base n = map (\<lambda>i. (i, en_level e i, vis i)) [base..<base + n]"

inductive parallel_batch :: "env \<Rightarrow> (nat \<Rightarrow> visited) \<Rightarrow> db \<Rightarrow> nat \<Rightarrow> nat \<Rightarrow> db \<Rightarrow> bool" for e vis db base n where
  Linked: "(interleave (thread_step (store_vec (db_store db))))\<^sup>*\<^sup>* (db_index db, spawn (batch_jobs e vis base n) []) (h, ts) \<Longrightarrow>
     list_all thread_ended ts \<Longrightarrow> encode_batch (db\<lparr>db_index := h\<rparr>) base n = Some db' \<Longrightarrow>
     parallel_batch e vis db base n db'"

inductive_cases parallel_batchE: "parallel_batch e vis db base n db'"

lemma batch_jobs_ok:
  assumes inv: "vs_inv (db_store db)" and g: "graph_ok e (db_index db)" and lev: "levels_ok e" and vis: "\<forall>i. vis_inv (vis i)"
    and base: "base = hnsw_len (db_index db)" "vs_count (db_store db) = base + n"
  shows "jobs_ok (store_vec (db_store db)) (db_index db) (batch_jobs e vis base n) []"
proof -
  have kern: "hn_kernel (db_index db) = kernel (en_avx e) (cfg_metric (hn_config (db_index db)))"
    using g by (simp add: graph_ok_def)
  have "map fst (batch_jobs e vis base n) = [base..<base + n]" by (simp add: batch_jobs_def o_def)
  moreover have "en_level e i < 256" for i using lev by (auto simp: levels_ok_def intro: order.strict_trans)
  moreover have "vecs_ok (hn_kernel (db_index db)) (store_vec (db_store db)) (base + n)"
    unfolding kern by (rule store_vecs_ok) (simp add: base(2))
  moreover have "base + n \<le> sv_capacity" using store_capacity [OF inv] base(2) by simp
  ultimately show ?thesis using vis base(1) by (auto simp: jobs_ok_def batch_jobs_def)
qed

lemma parallel_batch_run:
  assumes inv: "vs_inv (db_store db)" and g: "graph_ok e (db_index db)" and lev: "levels_ok e" and vis: "\<forall>i. vis_inv (vis i)"
    and base: "base = hnsw_len (db_index db)" "vs_count (db_store db) = base + n"
    and pq: "pq_ok (db_dim db) (take base (db_vectors db)) (db_pq db)"
  shows "\<exists>db'. parallel_batch e vis db base n db'"
    "parallel_batch e vis db base n db' \<Longrightarrow> db_store db' = db_store db \<and> hnsw_len (db_index db') = base + n \<and>
       on_layer (db_index db') 0 = {..<base + n} \<and> pq_ok (db_dim db) (db_vectors db) (db_pq db') \<and>
       map_option ps_pq (db_pq db') = map_option ps_pq (db_pq db) \<and>
       shared_ok (store_vec (db_store db)) (base + n) base (db_index db')"
proof -
  let ?vec = "store_vec (db_store db)" and ?jobs = "batch_jobs e vis base n"
  have h: "hn_inv (db_index db)" using g by (simp add: graph_ok_def)
  note jobs = batch_jobs_ok [OF inv g lev vis base]
  have len: "length ?jobs = n" by (simp add: batch_jobs_def)
  have enc: "\<exists>p. encode_batch (db\<lparr>db_index := k\<rparr>) base n = Some (db\<lparr>db_index := k, db_pq := p\<rparr>) \<and>
      pq_ok (db_dim db) (db_vectors db) p \<and> map_option ps_pq p = map_option ps_pq (db_pq db)" for k
    using encode_batch_spec [of "db\<lparr>db_index := k\<rparr>" base n] base(2) pq by (simp add: db_vectors_def db_dim_def)
  obtain k ts where "(interleave (thread_step ?vec))\<^sup>*\<^sup>* (db_index db, spawn ?jobs []) (k, ts)" "\<forall>t \<in> set ts. thread_ended t"
    using threads.runs_to_end [OF spawn_ok [OF h jobs]] by fastforce
  then show "\<exists>db'. parallel_batch e vis db base n db'"
    using enc [of k] parallel_batch.Linked [of db e vis base n k ts] by (auto simp: list_all_iff)
  assume "parallel_batch e vis db base n db'"
  then obtain k ts where R: "(interleave (thread_step ?vec))\<^sup>*\<^sup>* (db_index db, spawn ?jobs []) (k, ts)" "list_all thread_ended ts"
    "encode_batch (db\<lparr>db_index := k\<rparr>) base n = Some db'" by (rule parallel_batchE)
  have "thread_ended (ts ! a)" if "a < length ?jobs" for a
    using R(2) that run_jobs [OF R(1)] by (simp add: list_all_length)
  note D = inserts_done [OF h jobs R(1) this, unfolded len base(1) [symmetric]]
  obtain p where p: "db' = db\<lparr>db_index := k, db_pq := p\<rparr>" "pq_ok (db_dim db) (db_vectors db) p"
    "map_option ps_pq p = map_option ps_pq (db_pq db)"
    using enc [of k] R(3) by auto
  show "db_store db' = db_store db \<and> hnsw_len (db_index db') = base + n \<and>
       on_layer (db_index db') 0 = {..<base + n} \<and> pq_ok (db_dim db) (db_vectors db) (db_pq db') \<and>
       map_option ps_pq (db_pq db') = map_option ps_pq (db_pq db) \<and>
       shared_ok ?vec (base + n) base (db_index db')"
    unfolding p(1) using p(2,3) D(1-3) by simp
qed

section \<open>Property\<close>

text \<open>
  C11: a batch linked in parallel is sound.  However the rows that phase one stored are interleaved by the
  thread pool, the batch can be finished, and once it is, the vectors are those of before and the rows
  stored, the graph has exactly their ids, and every row has its code, none of them stale.
\<close>

theorem parallel_batch_sound:
  assumes "db_ok e db" and "levels_ok e" and "\<forall>i. vis_inv (vis i)"
    and "batch_rows e io 0 (rows_of (db_dim db) batch) db = (db1, n, err)"
  shows "let base = length (db_vectors db) in
     (\<exists>db'. parallel_batch e vis db1 base n db') \<and>
     (\<forall>db'. parallel_batch e vis db1 base n db' \<longrightarrow>
        db_vectors db' = db_vectors db @ take n (rows_of (db_dim db) batch) \<and>
        hnsw_len (db_index db') = base + n \<and> on_layer (db_index db') 0 = {..<base + n} \<and>
        pq_inconsistent_ids db' = Some (if db_pq db = None then None else Some ([], base + n, base + n)))"
proof -
  let ?base = "length (db_vectors db)" and ?rows = "take n (rows_of (db_dim db) batch)"
  have ok: "vs_inv (db_store db)" "graph_ok e (db_index db)" "hnsw_len (db_index db) = ?base"
    "pq_ok (db_dim db) (db_vectors db) (db_pq db)"
    using assms(1) by (simp_all add: db_ok_def db_vectors_def)
  note B = batch_rows_spec [OF ok(1) assms(4)]
  then obtain s w where db1: "db1 = db\<lparr>db_store := s, db_wal := w\<rparr>" by blast
  have v: "vs_inv (db_store db1)" "db_dim db1 = db_dim db" "db_vectors db1 = db_vectors db @ ?rows" "n \<le> length (rows_of (db_dim db) batch)"
    using B by simp_all
  have cnt: "vs_count (db_store db1) = ?base + n" using arg_cong [OF v(3), of length] v(4) by (simp add: db_vectors_def)
  have g: "graph_ok e (db_index db1)" "?base = hnsw_len (db_index db1)" using ok(2,3) db1 by simp_all
  have pq: "pq_ok (db_dim db1) (take ?base (db_vectors db1)) (db_pq db1)" using ok(4) v(2,3) db1 by simp
  note P = parallel_batch_run [OF v(1) g(1) assms(2,3) g(2) cnt pq]
  have "db_vectors db' = db_vectors db @ ?rows \<and> hnsw_len (db_index db') = ?base + n \<and>
      on_layer (db_index db') 0 = {..<?base + n} \<and>
      pq_inconsistent_ids db' = Some (if db_pq db = None then None else Some ([], ?base + n, ?base + n))"
    if "parallel_batch e vis db1 ?base n db'" for db'
  proof -
    have S: "db_store db' = db_store db1" "hnsw_len (db_index db') = ?base + n" "on_layer (db_index db') 0 = {..<?base + n}"
      "pq_ok (db_dim db1) (db_vectors db1) (db_pq db')" "map_option ps_pq (db_pq db') = map_option ps_pq (db_pq db)"
      using P(2) [OF that] db1 by auto
    then have same: "db_vectors db' = db_vectors db1" "db_dim db' = db_dim db1" by (simp_all add: db_vectors_def db_dim_def)
    have n: "length (db_vectors db') = ?base + n" using same(1) cnt by (simp add: db_vectors_def)
    have "pq_inconsistent_ids db' = Some (if db_pq db = None then None else Some ([], ?base + n, ?base + n))"
    proof (cases "db_pq db'")
      case None
      then show ?thesis using S(5) by (simp add: pq_inconsistent_ids_def)
    next
      case (Some st)
      then have "db_pq db \<noteq> None" using S(5) by (cases "db_pq db") simp_all
      then show ?thesis using pq_ok_consistent [of db'] S(4) same Some n by simp
    qed
    then show ?thesis using S(2,3) same(1) v(3) by simp
  qed
  then show ?thesis using P(1) by (auto simp: Let_def)
qed

theorem parallel_batch_sound_witness:
  "\<exists>db1 n db'. parallel_batch example_env (\<lambda>_. vis_new) db1 1 n db' \<and>
     db_vectors db' = [f32_one, f32_zero] # take n [[f32_one, f32_one], [f32_zero, f32_one]] \<and> hnsw_len (db_index db') = 1 + n"
proof -
  let ?batch = "[f32_one, f32_one, f32_zero, f32_one]"
  obtain db1 n err where b: "batch_rows example_env (\<lambda>_. IoOk) 0 (rows_of (db_dim example_pq_db) ?batch) example_pq_db = (db1, n, err)"
    by (metis prod_cases3)
  have "rows_of 2 ?batch = [[f32_one, f32_one], [f32_zero, f32_one]]"
    by (simp add: rows_of_def upt_conv_Cons)
  then show ?thesis
    using parallel_batch_sound [OF example_pq_db_facts(1) example_levels _ b, of "\<lambda>_. vis_new"] example_pq_db_facts(2,3)
    by (auto simp: vis_new_inv Let_def)
qed

end
