(* ===== verification/Db_Create.thy ===== *)
theory Db_Create
  imports Db_Run
begin

text \<open>
  \<^verbatim>\<open>VectorStore::create\<close> as the steps it takes on the file.  A process that is killed, or whose call
  fails, in the middle leaves the file as it is then; mapped writes outlive the process.  The next
  \<^verbatim>\<open>Db::open\<close> sees that the file exists and opens it instead of creating it.
\<close>

text \<open>The fields of the header, in the order they are written.\<close>

definition header_fields :: "nat \<Rightarrow> nat \<Rightarrow> (nat \<times> byte list) list" where
  "header_fields dim stride =
     [(off_magic, le_bytes 4 store_magic), (off_version, le_bytes 4 store_version), (off_dim, le_bytes 4 dim),
      (off_count, le_bytes 8 0), (off_stride, le_bytes 8 stride)]"

text \<open>The file after each write of a list.\<close>

primrec after_writes :: "vfile \<Rightarrow> (nat \<times> byte list) list \<Rightarrow> vfile list" where
  "after_writes f [] = []"
| "after_writes f (w # ws) = (let f' = vf_write f (fst w) (snd w) in f' # after_writes f' ws)"

definition create_stages :: "nat \<Rightarrow> nat \<Rightarrow> nat \<Rightarrow> vfile list" where
  "create_stages limit map_limit dim =
     (if dim = 0 \<or> 2 ^ 32 - 1 < dim then []
      else let f = empty_file limit map_limit
           in f # (case checked_mul dim 4 of
                None \<Rightarrow> []
              | Some row_bytes \<Rightarrow>
                  (case checked_next_multiple row_bytes row_align of
                     None \<Rightarrow> []
                   | Some stride \<Rightarrow>
                       (case vf_set_len f header_size of
                          Inl err \<Rightarrow> []
                        | Inr f1 \<Rightarrow>
                            f1 # (case vf_mmap f1 header_size of
                               Inl err \<Rightarrow> []
                             | Inr _ \<Rightarrow>
                                 (let fs = after_writes f1 (header_fields dim stride);
                                      s = \<lparr>vs_file = last fs, vs_mapped = 0, vs_dim = dim, vs_stride = stride, vs_count = 0\<rparr>
                                  in fs @ (case ensure_mapped_locked s 1 True of
                                             (s', Inl err) \<Rightarrow> []
                                           | (s', Inr _) \<Rightarrow> [vs_file s'])))))))"

text \<open>A creation that succeeds ends with the last of them.\<close>

lemma create_is_last_stage:
  assumes "vs_create limit map_limit dim = Inr s"
  shows "length (create_stages limit map_limit dim) = 8" "last (create_stages limit map_limit dim) = vs_file s"
proof -
  from assms obtain row_bytes stride f t where dim: "\<not> (dim = 0 \<or> 2 ^ 32 - 1 < dim)"
    and rb: "checked_mul dim 4 = Some row_bytes" and st: "checked_next_multiple row_bytes row_align = Some stride"
    and f: "vf_set_len (empty_file limit map_limit) header_size = Inr f" and m: "vf_mmap f header_size = Inr ()"
    and t: "ensure_mapped_locked \<lparr>vs_file = write_header f dim stride, vs_mapped = 0, vs_dim = dim,
        vs_stride = stride, vs_count = 0\<rparr> 1 True = (s, Inr ())"
    unfolding vs_create_def Let_def by (auto simp: result_simps mapped_Inr)
  have "last (after_writes f (header_fields dim stride)) = write_header f dim stride"
    "length (after_writes f (header_fields dim stride)) = 5"
    by (simp_all add: header_fields_def write_header_def Let_def)
  note this [simp]
  show "length (create_stages limit map_limit dim) = 8" "last (create_stages limit map_limit dim) = vs_file s"
    using dim t unfolding create_stages_def Let_def by (simp_all add: rb st f m)
qed

section \<open>What opening says\<close>

lemma short_file_refused: "vf_len f < header_size \<Longrightarrow> \<exists>err. vs_open f = Inl err"
  by (simp add: vs_open_def ensure_def)

lemma no_segment_refused:
  assumes "vf_len f = header_size"
  shows "\<exists>err. vs_open f = Inl err"
proof (cases "vs_open f")
  case (Inr s)
  then have i: "vs_inv s" "vs_file s = f" using vs_open_sound by blast+
  then have "seg_fits f (vs_stride s) 0" "1 \<le> vs_dim s" "4 * vs_dim s \<le> vs_stride s" by (simp_all add: vs_inv_def geometry_ok_def)
  then show ?thesis using assms by (simp add: seg_fits_def seg_first_def base_rows_def)
qed simp

lemma stages_short: "f \<in> set (take 7 (create_stages limit map_limit dim)) \<Longrightarrow> vf_len f \<le> header_size"
  by (auto simp: create_stages_def empty_file_def vf_set_len_def header_fields_def Let_def
      split: option.splits sum.splits if_splits)

section \<open>Property\<close>

text \<open>
  C27: a database whose creation did not get to its end can never be opened.  Of the files a killed or
  failed \<^verbatim>\<open>create\<close> leaves behind, all but the finished one make every later \<^verbatim>\<open>open\<close> of the directory fail,
  whatever the dimension and the options.
\<close>

theorem interrupted_create_unopenable:
  assumes "f \<in> set (take 7 (create_stages limit map_limit dim))"
  shows "\<exists>err. db_open e rd io (empty_disk\<lparr>dk_store := Some f\<rparr>) dim' opts = Some (Inl err)"
proof -
  have "vf_len f < header_size \<or> vf_len f = header_size" using stages_short [OF assms] by auto
  then obtain err where "vs_open f = Inl err" using short_file_refused no_segment_refused by blast
  then show ?thesis by (simp add: db_open_def open_store_def)
qed

theorem interrupted_create_unopenable_witness:
  "\<exists>err. db_open example_env reads_ok IoOk (empty_disk\<lparr>dk_store := Some (create_stages (2 ^ 20) (2 ^ 20) 2 ! 6)\<rparr>) 2 default_options =
     Some (Inl err)"
proof -
  have "length (create_stages (2 ^ 20) (2 ^ 20) 2) = 8" using create_is_last_stage(1) example_created by blast
  then have "create_stages (2 ^ 20) (2 ^ 20) 2 ! 6 \<in> set (take 7 (create_stages (2 ^ 20) (2 ^ 20) 2))"
    by (auto simp: in_set_conv_nth intro!: exI [of _ 6])
  then show ?thesis by (rule interrupted_create_unopenable)
qed

end
