(* ===== verification/Hnsw_Level.thy ===== *)
theory Hnsw_Level
  imports Db_Inv Float64
begin

text \<open>
  The level of a new node (\<^verbatim>\<open>hnsw/mod.rs\<close>, the first line of \<^verbatim>\<open>insert\<close>): \<^verbatim>\<open>-ln(u) * ml\<close>, rounded down, of a
  draw \<^verbatim>\<open>u\<close>.  The logarithm is the platform's and the draw the generator's; both are arguments, with what
  their documentation says of them as hypotheses.
\<close>

section \<open>Drawing a level\<close>

definition f64_mul :: "f64 \<Rightarrow> f64 \<Rightarrow> f64" where
  "f64_mul x y = f64_of_pat (fp_mul 52 11 (f64_pat x) (f64_pat y))"

definition f64_neg :: "f64 \<Rightarrow> f64" where
  "f64_neg x = f64_of_pat (fp_neg 52 11 (f64_pat x))"

definition f64_neg_inf :: f64 where
  "f64_neg_inf = f64_of_pat (fp_make 52 11 True (inf_mag 52 11))"

definition f64_units :: "f64 \<Rightarrow> nat" where
  "f64_units x = fp_units 52 (fp_mag 52 11 (f64_pat x))"

definition f64_sign :: "f64 \<Rightarrow> bool" where
  "f64_sign x = fp_sign 52 11 (f64_pat x)"

definition f64_is_finite :: "f64 \<Rightarrow> bool" where
  "f64_is_finite x \<longleftrightarrow> fp_mag 52 11 (f64_pat x) < inf_mag 52 11"

text \<open>\<^verbatim>\<open>x.floor() as usize\<close>, which saturates; a NaN is 0.\<close>

definition floor_usize :: "f64 \<Rightarrow> nat" where
  "floor_usize x =
     (if fp_is_nan 52 11 (f64_pat x) \<or> f64_sign x then 0
      else min (f64_units x div 2 ^ fp_scale 52 11) (u64_limit - 1))"

text \<open>The field \<^verbatim>\<open>ml\<close> of the index, and the level.\<close>

definition hnsw_ml :: "(f64 \<Rightarrow> f64) \<Rightarrow> nat \<Rightarrow> f64" where
  "hnsw_ml ln m = f64_div (f64_of_nat 1) (ln (f64_of_nat m))"

definition insert_level :: "(f64 \<Rightarrow> f64) \<Rightarrow> f64 \<Rightarrow> f64 \<Rightarrow> nat" where
  "insert_level ln ml u = floor_usize (f64_mul (f64_neg (ln u)) ml)"

section \<open>What the library promises\<close>

text \<open>A draw is 0, or at least \<open>2\<^sup>-\<^sup>5\<^sup>3\<close> and below 1.\<close>

definition drawn :: "f64 \<Rightarrow> bool" where
  "drawn u \<longleftrightarrow> u = f64_zero \<or> (f64_is_finite u \<and> \<not> f64_sign u \<and> 2 ^ 1021 \<le> f64_units u \<and> f64_units u < 2 ^ 1074)"

text \<open>
  The natural logarithm as far as it matters: minus infinity at 0, between \<open>-37\<close> and 0 on the draws,
  and at least \<open>11/16\<close> on the integers from 2 on.
\<close>

definition ln_like :: "(f64 \<Rightarrow> f64) \<Rightarrow> bool" where
  "ln_like ln \<longleftrightarrow>
     ln f64_zero = f64_neg_inf \<and>
     (\<forall>u. drawn u \<and> u \<noteq> f64_zero \<longrightarrow> f64_is_finite (ln u) \<and> f64_sign (ln u) \<and> f64_units (ln u) \<le> 37 * 2 ^ 1074) \<and>
     (\<forall>m. 2 \<le> m \<and> m \<le> 4096 \<longrightarrow> f64_is_finite (ln (f64_of_nat m)) \<and> \<not> f64_sign (ln (f64_of_nat m)) \<and>
        11 * 2 ^ 1070 \<le> f64_units (ln (f64_of_nat m)))"

section \<open>Bounds\<close>

lemma f64_pat_of_pat: "n < 2 * 2 ^ (52 + 11) \<Longrightarrow> f64_pat (f64_of_pat n) = n"
  by (simp add: f64_pat_def f64_of_pat_def unat_of_nat)

lemma f64_pat_less: "f64_pat x < 2 * 2 ^ (52 + 11)"
  using unsigned_less [of "f64_bits x"] by (simp add: f64_pat_def)

lemma f64_pat_ops:
  "f64_pat (f64_mul x y) = fp_mul 52 11 (f64_pat x) (f64_pat y)"
  "f64_pat (f64_neg x) = fp_neg 52 11 (f64_pat x)"
  unfolding f64_mul_def f64_neg_def
  using fp_op_less [of 52 "f64_pat x" 11 "f64_pat y" "f64_pat y"] f64_pat_less
  by (simp_all add: f64_pat_of_pat del: power_numeral)

lemma units_of_inf: "fp_units 52 (inf_mag 52 11) = 2 ^ 52 * 2 ^ 2046"
proof -
  have "inf_mag 52 11 = 2047 * 2 ^ 52" by (simp add: inf_mag_def)
  then show ?thesis by (simp add: fp_units_def del: power_numeral)
qed

text \<open>A rounded quotient under a value stays under it, and is finite.\<close>

lemma f64_rounded:
  assumes "0 < d" "n \<le> i * 2 ^ j * d" "i \<le> 2 ^ 53" "j \<le> 2000"
  shows "fp_units 52 (fp_round 52 11 n d) \<le> i * 2 ^ j" "fp_round 52 11 n d < inf_mag 52 11"
proof -
  obtain m where m: "fp_units 52 m = i * 2 ^ j" using fp_grid_units [of i 52 j] assms(3) by auto
  have r: "fp_round 52 11 n d \<le> m" using assms(1,2) m by (intro fp_round_le_mag) simp_all
  then show "fp_units 52 (fp_round 52 11 n d) \<le> i * 2 ^ j" using fp_units_mono [OF r, of 52] m by simp
  have "i * 2 ^ j \<le> 2 ^ 53 * 2 ^ 2000" using assms(3,4) by (intro mult_le_mono power_increasing) simp_all
  also have "\<dots> < (2 :: nat) ^ 52 * 2 ^ 2046" by (simp only: power_add [symmetric], rule power_strict_increasing) simp_all
  finally have "fp_units 52 m < fp_units 52 (inf_mag 52 11)" using m units_of_inf by simp
  then show "fp_round 52 11 n d < inf_mag 52 11" using r fp_units_less [of 52 m "inf_mag 52 11"] by simp
qed

lemma fp_scale_double: "fp_scale 52 11 = 1074"
  by (simp add: fp_scale_def)

text \<open>The double 1 as a bit pattern.\<close>

lemma one_parts:
  "fp_mag 52 11 (1023 * 2 ^ 52) = 1023 * 2 ^ 52" "\<not> fp_is_nan 52 11 (1023 * 2 ^ 52)" "\<not> fp_is_inf 52 11 (1023 * 2 ^ 52)"
  "fp_units 52 (1023 * 2 ^ 52) = 2 ^ 1074" "\<not> fp_sign 52 11 (1023 * 2 ^ 52)"
  by (simp_all add: fp_mag_def fp_is_nan_def fp_is_inf_def fp_units_def fp_sign_def inf_mag_def)

lemma one_units: "f64_pat (f64_of_nat 1) = 1023 * 2 ^ 52" "f64_units (f64_of_nat 1) = 2 ^ 1074"
proof -
  have "fp_of_nat 52 11 1 = 1023 * 2 ^ 52"
    by (simp add: fp_of_nat_def fp_scale_double fp_round_def fp_pack_def fp_binade_def rne_def rne_adjust_def inf_mag_def
        ilog2_numeral ilog2_one)
  then show p: "f64_pat (f64_of_nat 1) = 1023 * 2 ^ 52" by (simp add: f64_of_nat_def f64_pat_of_pat)
  show "f64_units (f64_of_nat 1) = 2 ^ 1074" unfolding f64_units_def p one_parts ..
qed

lemma fp_make_parts:
  "m < 2 ^ (p + w) \<Longrightarrow> fp_mag p w (fp_make p w s m) = m" "m < 2 ^ (p + w) \<Longrightarrow> fp_sign p w (fp_make p w s m) = s"
  by (simp_all add: fp_mag_def fp_sign_def fp_make_def)

lemma rne_ge: "n div d \<le> rne n d"
  by (simp add: rne_def rne_adjust_def)

lemma fp_round_pos: "0 < d \<Longrightarrow> d \<le> n \<Longrightarrow> 0 < fp_round 52 11 n d"
proof -
  assume d: "0 < d" "d \<le> n"
  have "0 < n div d" using d by (simp add: div_greater_zero_iff)
  then have "0 < rne n d" using rne_ge [of n d] by linarith
  moreover have "0 < fp_binade 52 (n div d)" if "\<not> n div d < 2 ^ 53"
    using fp_binade_bounds(2) [of 52 "n div d"] that by (cases "fp_binade 52 (n div d)") simp_all
  moreover have "fp_binade 52 (n div d) = 0" if "n div d < 2 ^ 53" using that by (simp add: fp_binade_def)
  ultimately show ?thesis
    by (cases "n div d < 2 ^ 53") (simp_all add: fp_round_def fp_pack_def inf_mag_def)
qed

lemma ml_bound:
  assumes "ln_like ln" "2 \<le> m" "m \<le> 4096"
  shows "f64_is_finite (hnsw_ml ln m)" "\<not> f64_sign (hnsw_ml ln m)" "f64_units (hnsw_ml ln m) \<le> 3 * 2 ^ 1073"
    "f64_units (hnsw_ml ln m) \<noteq> 0"
proof -
  let ?y = "ln (f64_of_nat m)"
  have y: "f64_is_finite ?y" "\<not> f64_sign ?y" "11 * 2 ^ 1070 \<le> f64_units ?y" using assms by (simp_all add: ln_like_def)
  let ?r = "fp_round 52 11 (2 ^ 1074 * 2 ^ 1074) (f64_units ?y)"
  have d: "0 < f64_units ?y" using y(3) by (rule order.strict_trans2 [rotated]) simp
  have "(2 :: nat) ^ 1074 * 2 ^ 1074 \<le> 3 * 2 ^ 1073 * (11 * 2 ^ 1070)" by simp
  also have "\<dots> \<le> 3 * 2 ^ 1073 * f64_units ?y" using y(3) by (rule mult_le_mono2)
  finally have n: "(2 :: nat) ^ 1074 * 2 ^ 1074 \<le> 3 * 2 ^ 1073 * f64_units ?y" .
  note R = f64_rounded [OF d n]
  have r: "fp_units 52 ?r \<le> 3 * 2 ^ 1073" "?r < inf_mag 52 11" by (rule R; simp)+
  have "\<not> fp_is_nan 52 11 (f64_pat ?y)" "\<not> fp_is_inf 52 11 (f64_pat ?y)" "\<not> fp_sign 52 11 (f64_pat ?y)"
    using y(1,2) by (simp_all add: f64_is_finite_def f64_sign_def fp_is_nan_def fp_is_inf_def)
  then have "fp_div 52 11 (1023 * 2 ^ 52) (f64_pat ?y) = fp_make 52 11 False ?r"
    using d unfolding fp_div_def Let_def fp_scale_double one_parts by (simp add: one_parts f64_units_def del: power_numeral mult_numeral_1)
  then have p: "f64_pat (hnsw_ml ln m) = fp_make 52 11 False ?r"
    unfolding hnsw_ml_def f64_div_def one_units(1) by (simp only:) (intro f64_pat_of_pat fp_make_less fp_round_less)
  have mag: "fp_mag 52 11 (f64_pat (hnsw_ml ln m)) = ?r" unfolding p by (rule fp_make_parts(1) [OF fp_round_less])
  show "f64_is_finite (hnsw_ml ln m)" unfolding f64_is_finite_def mag by (rule r(2))
  show "f64_units (hnsw_ml ln m) \<le> 3 * 2 ^ 1073" unfolding f64_units_def [of "hnsw_ml ln m"] mag by (rule r(1))
  show "\<not> f64_sign (hnsw_ml ln m)"
    unfolding f64_sign_def p using fp_make_parts(2) [OF fp_round_less, of 52 11 False] by blast
  have "f64_units ?y < fp_units 52 (inf_mag 52 11)"
    using y(1) by (simp only: f64_units_def f64_is_finite_def fp_units_less)
  also have "\<dots> \<le> 2 ^ 1074 * 2 ^ 1074" unfolding units_of_inf by (simp only: power_add [symmetric], rule power_increasing) simp_all
  finally have "0 < ?r" using d by (intro fp_round_pos) simp_all
  then have "fp_units 52 0 < fp_units 52 ?r" by (simp only: fp_units_less)
  then show "f64_units (hnsw_ml ln m) \<noteq> 0" unfolding f64_units_def [of "hnsw_ml ln m"] mag by simp
qed

lemma drawn_bound:
  assumes "ln_like ln" "drawn u" "u \<noteq> f64_zero" "2 \<le> m" "m \<le> 4096"
  shows "insert_level ln (hnsw_ml ln m) u \<le> 55"
proof -
  let ?x = "f64_neg (ln u)" and ?y = "hnsw_ml ln m"
  have l: "f64_is_finite (ln u)" "f64_sign (ln u)" "f64_units (ln u) \<le> 37 * 2 ^ 1074"
    using assms(1-3) by (simp_all add: ln_like_def)
  have x: "f64_is_finite ?x" "\<not> f64_sign ?x" "f64_units ?x \<le> 37 * 2 ^ 1074"
    using l by (simp_all add: f64_is_finite_def f64_sign_def f64_units_def f64_pat_ops del: power_numeral)
  note y = ml_bound [OF assms(1,4,5)]
  let ?n = "f64_units ?x * f64_units ?y"
  let ?r = "fp_round 52 11 ?n (2 ^ 1074)"
  have "?n \<le> 37 * 2 ^ 1074 * (3 * 2 ^ 1073)" by (rule mult_le_mono [OF x(3) y(3)])
  also have "\<dots> = 111 * 2 ^ 1073 * 2 ^ 1074" by simp
  finally have n: "?n \<le> 111 * 2 ^ 1073 * 2 ^ 1074" .
  have r: "fp_units 52 ?r \<le> 111 * 2 ^ 1073" "?r < inf_mag 52 11" by (rule f64_rounded [OF _ n]; simp)+
  have "fp_mul 52 11 (f64_pat ?x) (f64_pat ?y) = fp_make 52 11 False ?r"
    using x(1,2) y(1,2) unfolding fp_mul_def Let_def fp_scale_double
    by (simp add: f64_is_finite_def f64_sign_def f64_units_def fp_is_nan_def fp_is_inf_def del: power_numeral)
  then have p: "f64_pat (f64_mul ?x ?y) = fp_make 52 11 False ?r" by (simp only: f64_pat_ops(1))
  have m: "fp_mag 52 11 (f64_pat (f64_mul ?x ?y)) = ?r" unfolding p by (rule fp_make_parts(1) [OF fp_round_less])
  have "f64_units (f64_mul ?x ?y) div 2 ^ 1074 \<le> 111 * 2 ^ 1073 div 2 ^ 1074"
    unfolding f64_units_def [of "f64_mul ?x ?y"] m by (rule div_le_mono [OF r(1)])
  also have "\<dots> = 55" by simp
  finally show ?thesis
    unfolding insert_level_def floor_usize_def fp_scale_double by (auto intro: min.coboundedI1 simp del: power_numeral)
qed

lemma inf_units: "fp_units 52 (inf_mag 52 11) \<noteq> 0" "u64_limit - 1 \<le> fp_units 52 (inf_mag 52 11) div 2 ^ 1074"
proof -
  have "fp_units 52 (inf_mag 52 11) = 2 ^ 1024 * 2 ^ 1074" unfolding units_of_inf by (simp only: power_add [symmetric]) simp
  then have "fp_units 52 (inf_mag 52 11) div 2 ^ 1074 = 2 ^ 1024" by (simp only: nonzero_mult_div_cancel_right [OF power_not_zero [OF zero_neq_numeral [symmetric]]])
  moreover have "u64_limit - 1 \<le> 2 ^ 1024"
    unfolding u64_limit_def by (rule le_trans [OF diff_le_self], rule power_increasing) simp_all
  ultimately show "u64_limit - 1 \<le> fp_units 52 (inf_mag 52 11) div 2 ^ 1074" by (simp only:)
  show "fp_units 52 (inf_mag 52 11) \<noteq> 0" unfolding units_of_inf by (simp only: mult_eq_0_iff power_eq_0_iff) simp
qed

lemma zero_draw:
  assumes "ln_like ln" "2 \<le> m" "m \<le> 4096"
  shows "insert_level ln (hnsw_ml ln m) f64_zero = u64_limit - 1"
proof -
  let ?y = "hnsw_ml ln m"
  note y = ml_bound [OF assms(1-3)]
  have i: "fp_mag 52 11 (fp_make 52 11 s (inf_mag 52 11)) = inf_mag 52 11" for s
    by (rule fp_make_parts(1) [OF inf_mag_less])
  have "f64_pat (ln f64_zero) = fp_make 52 11 True (inf_mag 52 11)"
    using assms(1) unfolding ln_like_def f64_neg_inf_def
    by (simp add: f64_pat_of_pat [OF fp_make_less [OF inf_mag_less]])
  then have "f64_pat (f64_neg (ln f64_zero)) = fp_make 52 11 False (inf_mag 52 11)"
    using i [of True] fp_make_parts(2) [OF inf_mag_less, of 52 11 True] by (simp add: f64_pat_ops fp_neg_def)
  then have p: "f64_pat (f64_mul (f64_neg (ln f64_zero)) ?y) = fp_make 52 11 False (inf_mag 52 11)"
    using y(1,2,4) i [of False] fp_make_parts(2) [OF inf_mag_less, of 52 11 False] inf_units
    by (simp add: f64_pat_ops fp_mul_def Let_def fp_is_nan_def fp_is_inf_def f64_is_finite_def f64_sign_def f64_units_def)
  then show ?thesis
    using i [of False] fp_make_parts(2) [OF inf_mag_less, of 52 11 False] inf_units
    by (simp add: insert_level_def floor_usize_def f64_sign_def f64_units_def fp_is_nan_def fp_scale_double)
qed

section \<open>Property\<close>

text \<open>
  C22: why a level fits its byte.  For every index the constructor accepts and every positive draw, the level is
  at most 55, so an environment whose levels are drawn satisfies what the other theorems ask of levels;
  the one draw out of \<open>2\<^sup>5\<^sup>3\<close> that is zero saturates to the largest \<^verbatim>\<open>usize\<close>.
\<close>

theorem drawn_levels_fit:
  assumes "ln_like ln" and "hnsw_new avx cfg = Inr h" and "\<forall>i. drawn (draw i)"
  shows "let lv = (\<lambda>i. insert_level ln (hnsw_ml ln (cfg_m cfg)) (draw i))
     in (\<forall>i. if draw i = f64_zero then lv i = u64_limit - 1 else lv i \<le> 55) \<and>
        ((\<forall>i. draw i \<noteq> f64_zero) \<longrightarrow> levels_ok (e\<lparr>en_level := lv\<rparr>))"
proof -
  have m: "2 \<le> cfg_m cfg" "cfg_m cfg \<le> 4096" using assms(2) by (simp_all add: hnsw_new_def result_simps ensure_eq_Inr)
  have b: "if draw i = f64_zero then insert_level ln (hnsw_ml ln (cfg_m cfg)) (draw i) = u64_limit - 1
      else insert_level ln (hnsw_ml ln (cfg_m cfg)) (draw i) \<le> 55" for i
    using zero_draw [OF assms(1) m] drawn_bound [OF assms(1) _ _ m, of "draw i"] assms(3) by simp
  moreover have "levels_ok (e\<lparr>en_level := \<lambda>i. insert_level ln (hnsw_ml ln (cfg_m cfg)) (draw i)\<rparr>)" if "\<forall>i. draw i \<noteq> f64_zero"
    unfolding levels_ok_def using b that by (fastforce intro: order.strict_trans1 [of _ 55])
  ultimately show ?thesis by (simp only: Let_def) blast
qed

text \<open>A function with these three properties, in place of the platform's.\<close>

definition step_ln :: "f64 \<Rightarrow> f64" where
  "step_ln x = (if x = f64_zero then f64_neg_inf else if f64_units x < 2 ^ 1074 then f64_neg (f64_of_nat 1) else f64_of_nat 1)"

lemma integers_not_drawn:
  assumes "2 \<le> m" "m \<le> 4096"
  shows "2 ^ 1074 \<le> f64_units (f64_of_nat m)" "f64_of_nat m \<noteq> f64_zero"
proof -
  let ?n = "m * 2 ^ 1074"
  let ?e = "fp_binade 52 ?n" and ?r = "fp_round 52 11 ?n 1"
  have n: "2 ^ 1075 \<le> ?n"
  proof -
    have "(2 :: nat) * 2 ^ 1074 \<le> ?n" by (rule mult_le_mono1 [OF assms(1)])
    then show ?thesis by (simp only: power_Suc [symmetric]) simp
  qed
  have "(2 :: nat) ^ (52 + 1) \<le> 2 ^ 1075" by (rule power_increasing) simp_all
  then have B: "2 ^ (52 + ?e) \<le> ?n" "?n < 2 ^ (52 + 1 + ?e)" using fp_binade_bounds [of 52 ?n] n by linarith+
  have "(2 :: nat) ^ 1075 < 2 ^ (52 + 1 + ?e)" using n B(2) by (rule le_less_trans)
  then have "1075 < 52 + 1 + ?e" by (rule power_less_imp_less_exp [rotated]) simp
  then have "1023 * 2 ^ 52 \<le> ?e * 2 ^ 52" by (intro mult_le_mono1) simp
  then have r: "1023 * 2 ^ 52 \<le> ?r" by (simp add: fp_round_def fp_pack_def inf_mag_def)
  have p: "f64_pat (f64_of_nat m) = ?r"
    unfolding f64_of_nat_def fp_of_nat_def fp_scale_double
    by (rule f64_pat_of_pat) (rule order.strict_trans [OF fp_round_less], simp)
  have mag: "fp_mag 52 11 (f64_pat (f64_of_nat m)) = ?r" unfolding p fp_mag_def by (rule mod_less [OF fp_round_less])
  show "2 ^ 1074 \<le> f64_units (f64_of_nat m)"
    unfolding f64_units_def mag using fp_units_mono [OF r, of 52] by (simp only: one_parts)
  show "f64_of_nat m \<noteq> f64_zero"
  proof
    assume "f64_of_nat m = f64_zero"
    then have "?r = 0" using p by (simp add: f64_zero_def f64_pat_def)
    then show False using r by simp
  qed
qed

lemma step_ln_like: "ln_like step_ln"
proof -
  have one: "f64_is_finite (f64_of_nat 1)" "\<not> f64_sign (f64_of_nat 1)" "f64_units (f64_of_nat 1) = 2 ^ 1074"
    unfolding f64_is_finite_def f64_sign_def one_units by (simp_all add: one_parts inf_mag_def del: power_numeral) simp
  have neg: "f64_is_finite (f64_neg x) = f64_is_finite x" "f64_sign (f64_neg x) = (\<not> f64_sign x)" "f64_units (f64_neg x) = f64_units x" for x
    by (simp_all add: f64_is_finite_def f64_sign_def f64_units_def f64_pat_ops)
  have "(11 :: nat) * 2 ^ 1070 \<le> 2 ^ 1074" "(2 :: nat) ^ 1074 \<le> 37 * 2 ^ 1074" by simp_all
  then show ?thesis
    using one neg integers_not_drawn unfolding ln_like_def step_ln_def
    by (auto simp: drawn_def not_less [symmetric] simp del: power_numeral)
qed

definition f64_half :: f64 where
  "f64_half = f64_of_pat (1022 * 2 ^ 52)"

lemma half_drawn: "drawn f64_half" "f64_half \<noteq> f64_zero"
proof -
  have p: "f64_pat f64_half = 1022 * 2 ^ 52" unfolding f64_half_def by (rule f64_pat_of_pat) simp
  have half: "fp_mag 52 11 (1022 * 2 ^ 52) = 1022 * 2 ^ 52" "fp_units 52 (1022 * 2 ^ 52) = 2 ^ 1073"
    "(1022 :: nat) * 2 ^ 52 < inf_mag 52 11" "\<not> fp_sign 52 11 (1022 * 2 ^ 52)"
    by (simp_all add: fp_mag_def fp_units_def inf_mag_def fp_sign_def)
  have "f64_units f64_half = 2 ^ 1073" unfolding f64_units_def p half ..
  moreover have "f64_is_finite f64_half" unfolding f64_is_finite_def p half by (rule half(3))
  moreover have "\<not> f64_sign f64_half" unfolding f64_sign_def p by (rule half(4))
  ultimately show "drawn f64_half" by (simp add: drawn_def)
  have "f64_pat f64_zero = 0" by (simp add: f64_zero_def f64_pat_def)
  then show "f64_half \<noteq> f64_zero" using p by auto
qed

theorem drawn_levels_fit_witness:
  "levels_ok (example_env\<lparr>en_level := \<lambda>i. insert_level step_ln (hnsw_ml step_ln 16) f64_half\<rparr>)"
proof -
  obtain h where h: "hnsw_new False default_config = Inr h" by (simp add: hnsw_new_def default_config_def ensure_def)
  have "\<forall>i :: nat. drawn f64_half" using half_drawn(1) by blast
  from drawn_levels_fit [OF step_ln_like h this, of example_env] show ?thesis
    using half_drawn(2) by (simp add: Let_def default_config_def)
qed

end
