(* ===== verification/SegVec_Conc.thy ===== *)
theory SegVec_Conc
  imports SegVec Interleaving
begin

text \<open>
  \<^verbatim>\<open>hnsw/segvec.rs\<close> shared by threads.  The segment pointers, the blocks they lead to, the published
  length and the lock that guards growth are one state; \<^verbatim>\<open>set\<close> with its double-checked
  \<^verbatim>\<open>ensure_segment\<close>, and \<^verbatim>\<open>get_unchecked\<close>, are threads whose steps are the accesses to it.  What the code
  leaves undefined is \<open>None\<close>: a null pointer followed, a slot outside its block or one not yet written.
  An allocation that fails aborts the process and has no step.
\<close>

section \<open>The shared array\<close>

record 'a shared_segs =
  sg_table :: "nat option list"
  sg_blocks :: "nat list"
  sg_memory :: "(nat \<times> nat, 'a) fmap"
  sg_len :: nat
  sg_locked :: bool

definition shared_new :: "'a shared_segs" where
  "shared_new = \<lparr>sg_table = replicate sv_max_segments None, sg_blocks = [], sg_memory = fmempty, sg_len = 0, sg_locked = False\<rparr>"

text \<open>\<^verbatim>\<open>self.segments[seg].load\<close>, which panics past the table, and the slot it leads to.\<close>

definition load_segment :: "'a shared_segs \<Rightarrow> nat \<Rightarrow> nat option option" where
  "load_segment s seg = (if seg < length (sg_table s) then Some (sg_table s ! seg) else None)"

definition slot_of :: "'a shared_segs \<Rightarrow> nat \<Rightarrow> 'a option" where
  "slot_of s i =
     (case load_segment s (fst (sv_locate i)) of
        Some (Some p) \<Rightarrow> fmlookup (sg_memory s) (p, snd (sv_locate i))
      | _ \<Rightarrow> None)"

section \<open>\<^verbatim>\<open>set\<close> and \<^verbatim>\<open>get_unchecked\<close> as threads\<close>

datatype set_pc =
    Load_Segment | Take_Lock | Load_Again | Allocate | Store_Pointer nat | Drop_Guard nat | Write_Slot nat | Publish_Len | Set_Done

datatype 'a get_pc = Load_Base | Read_Slot nat | Got 'a

datatype 'a seg_thread = Setter nat 'a set_pc | Getter nat "'a get_pc"

definition setter_new :: "nat \<times> 'a \<Rightarrow> 'a seg_thread" where
  "setter_new job = Setter (fst job) (snd job) Load_Segment"

definition getter_new :: "nat \<Rightarrow> 'a seg_thread" where
  "getter_new i = Getter i Load_Base"

definition set_step :: "'a shared_segs \<Rightarrow> nat \<Rightarrow> 'a \<Rightarrow> set_pc \<Rightarrow> ('a shared_segs \<times> set_pc) option" where
  "set_step s i x pc =
     (let seg = fst (sv_locate i); off = snd (sv_locate i)
      in case pc of
        Load_Segment \<Rightarrow>
          (case load_segment s seg of
             None \<Rightarrow> None
           | Some (Some p) \<Rightarrow> Some (s, Write_Slot p)
           | Some None \<Rightarrow> Some (s, Take_Lock))
      | Take_Lock \<Rightarrow> (if sg_locked s then None else Some (s\<lparr>sg_locked := True\<rparr>, Load_Again))
      | Load_Again \<Rightarrow>
          (case load_segment s seg of
             None \<Rightarrow> None
           | Some (Some p) \<Rightarrow> Some (s, Drop_Guard p)
           | Some None \<Rightarrow> Some (s, Allocate))
      | Allocate \<Rightarrow> Some (s\<lparr>sg_blocks := sg_blocks s @ [sv_seg_len seg]\<rparr>, Store_Pointer (length (sg_blocks s)))
      | Store_Pointer p \<Rightarrow>
          (if seg < length (sg_table s) then Some (s\<lparr>sg_table := (sg_table s)[seg := Some p]\<rparr>, Drop_Guard p) else None)
      | Drop_Guard p \<Rightarrow> Some (s\<lparr>sg_locked := False\<rparr>, Write_Slot p)
      | Write_Slot p \<Rightarrow>
          (if p < length (sg_blocks s) \<and> off < sg_blocks s ! p
           then Some (s\<lparr>sg_memory := fmupd (p, off) x (sg_memory s)\<rparr>, Publish_Len) else None)
      | Publish_Len \<Rightarrow> Some (s\<lparr>sg_len := max (sg_len s) (i + 1)\<rparr>, Set_Done)
      | Set_Done \<Rightarrow> None)"

definition get_step :: "'a shared_segs \<Rightarrow> nat \<Rightarrow> 'a get_pc \<Rightarrow> 'a get_pc option" where
  "get_step s i pc =
     (case pc of
        Load_Base \<Rightarrow>
          (case load_segment s (fst (sv_locate i)) of Some (Some p) \<Rightarrow> Some (Read_Slot p) | _ \<Rightarrow> None)
      | Read_Slot p \<Rightarrow>
          (case fmlookup (sg_memory s) (p, snd (sv_locate i)) of Some x \<Rightarrow> Some (Got x) | None \<Rightarrow> None)
      | Got x \<Rightarrow> None)"

fun seg_step :: "'a shared_segs \<Rightarrow> 'a seg_thread \<Rightarrow> ('a shared_segs \<times> 'a seg_thread) option" where
  "seg_step s (Setter i x pc) =
     (case set_step s i x pc of Some (s', pc') \<Rightarrow> Some (s', Setter i x pc') | None \<Rightarrow> None)"
| "seg_step s (Getter i pc) =
     (case get_step s i pc of Some pc' \<Rightarrow> Some (s, Getter i pc') | None \<Rightarrow> None)"

fun seg_ended :: "'a seg_thread \<Rightarrow> bool" where
  "seg_ended (Setter i x pc) \<longleftrightarrow> pc = Set_Done"
| "seg_ended (Getter i pc) \<longleftrightarrow> (\<exists>x. pc = Got x)"

section \<open>What holds at every moment\<close>

text \<open>The table leads to distinct blocks of the right size, and nothing is written outside a block.\<close>

definition segs_ok :: "'a shared_segs \<Rightarrow> bool" where
  "segs_ok s \<longleftrightarrow>
     length (sg_table s) = sv_max_segments \<and>
     (\<forall>seg p. load_segment s seg = Some (Some p) \<longrightarrow> p < length (sg_blocks s) \<and> sg_blocks s ! p = sv_seg_len seg) \<and>
     (\<forall>seg seg' p. load_segment s seg = Some (Some p) \<longrightarrow> load_segment s seg' = Some (Some p) \<longrightarrow> seg = seg') \<and>
     (\<forall>p off. fmlookup (sg_memory s) (p, off) \<noteq> None \<longrightarrow> (\<exists>seg. load_segment s seg = Some (Some p)))"

fun guards :: "'a seg_thread \<Rightarrow> bool" where
  "guards (Setter i x pc) \<longleftrightarrow> (case pc of Load_Again \<Rightarrow> True | Allocate \<Rightarrow> True | Store_Pointer p \<Rightarrow> True | Drop_Guard p \<Rightarrow> True | _ \<Rightarrow> False)"
| "guards (Getter i pc) \<longleftrightarrow> False"

text \<open>The block a thread has allocated and not yet stored in the table is its own.\<close>

definition private_block :: "'a shared_segs \<Rightarrow> nat \<Rightarrow> nat \<Rightarrow> bool" where
  "private_block s seg p \<longleftrightarrow>
     p < length (sg_blocks s) \<and> sg_blocks s ! p = sv_seg_len seg \<and> (\<forall>seg'. load_segment s seg' \<noteq> Some (Some p))"

fun own_seg :: "'a shared_segs \<Rightarrow> 'a seg_thread \<Rightarrow> bool" where
  "own_seg s (Setter i x pc) \<longleftrightarrow> i < sv_capacity \<and> (guards (Setter i x pc) \<longrightarrow> sg_locked s) \<and>
     (let seg = fst (sv_locate i)
      in case pc of
        Allocate \<Rightarrow> load_segment s seg = Some None
      | Store_Pointer p \<Rightarrow> load_segment s seg = Some None \<and> private_block s seg p
      | Drop_Guard p \<Rightarrow> load_segment s seg = Some (Some p)
      | Write_Slot p \<Rightarrow> load_segment s seg = Some (Some p)
      | Publish_Len \<Rightarrow> slot_of s i = Some x
      | Set_Done \<Rightarrow> slot_of s i = Some x \<and> i < sg_len s
      | _ \<Rightarrow> True)"
| "own_seg s (Getter i pc) \<longleftrightarrow>
     (case pc of
        Load_Base \<Rightarrow> slot_of s i \<noteq> None
      | Read_Slot p \<Rightarrow> slot_of s i \<noteq> None \<and> load_segment s (fst (sv_locate i)) = Some (Some p)
      | Got x \<Rightarrow> slot_of s i = Some x)"

text \<open>Indices are claimed once; a reader has an index from a writer that has written it.\<close>

fun writes :: "'a seg_thread \<Rightarrow> nat option" where
  "writes (Setter i x pc) = (if pc = Publish_Len \<or> pc = Set_Done then None else Some i)"
| "writes (Getter i pc) = None"

fun needs :: "'a seg_thread \<Rightarrow> nat" where
  "needs (Setter i x pc) = i"
| "needs (Getter i pc) = i"

definition seg_apart :: "'a seg_thread \<Rightarrow> 'a seg_thread \<Rightarrow> bool" where
  "seg_apart t u \<longleftrightarrow> \<not> (guards t \<and> guards u) \<and> writes t \<noteq> Some (needs u) \<and> writes u \<noteq> Some (needs t)"

section \<open>Steps keep it\<close>

lemma set_step_cases:
  "set_step s i x pc = Some (s', pc') \<Longrightarrow>
     (pc = Load_Segment \<and> s' = s \<and> (\<exists>p. load_segment s (fst (sv_locate i)) = Some (Some p) \<and> pc' = Write_Slot p)) \<or>
     (pc = Load_Segment \<and> s' = s \<and> load_segment s (fst (sv_locate i)) = Some None \<and> pc' = Take_Lock) \<or>
     (pc = Take_Lock \<and> \<not> sg_locked s \<and> s' = s\<lparr>sg_locked := True\<rparr> \<and> pc' = Load_Again) \<or>
     (pc = Load_Again \<and> s' = s \<and> (\<exists>p. load_segment s (fst (sv_locate i)) = Some (Some p) \<and> pc' = Drop_Guard p)) \<or>
     (pc = Load_Again \<and> s' = s \<and> load_segment s (fst (sv_locate i)) = Some None \<and> pc' = Allocate) \<or>
     (pc = Allocate \<and> s' = s\<lparr>sg_blocks := sg_blocks s @ [sv_seg_len (fst (sv_locate i))]\<rparr> \<and> pc' = Store_Pointer (length (sg_blocks s))) \<or>
     (\<exists>p. pc = Store_Pointer p \<and> fst (sv_locate i) < length (sg_table s) \<and>
        s' = s\<lparr>sg_table := (sg_table s)[fst (sv_locate i) := Some p]\<rparr> \<and> pc' = Drop_Guard p) \<or>
     (\<exists>p. pc = Drop_Guard p \<and> s' = s\<lparr>sg_locked := False\<rparr> \<and> pc' = Write_Slot p) \<or>
     (\<exists>p. pc = Write_Slot p \<and> p < length (sg_blocks s) \<and> s' = s\<lparr>sg_memory := fmupd (p, snd (sv_locate i)) x (sg_memory s)\<rparr> \<and> pc' = Publish_Len) \<or>
     (pc = Publish_Len \<and> s' = s\<lparr>sg_len := max (sg_len s) (i + 1)\<rparr> \<and> pc' = Set_Done)"
  by (cases pc) (auto simp: set_step_def Let_def split: option.splits if_splits)

lemma load_segment_same [simp]:
  "load_segment (s\<lparr>sg_locked := b\<rparr>) = load_segment s" "load_segment (s\<lparr>sg_blocks := bs\<rparr>) = load_segment s"
  "load_segment (s\<lparr>sg_memory := m\<rparr>) = load_segment s" "load_segment (s\<lparr>sg_len := n\<rparr>) = load_segment s"
  by (simp_all add: load_segment_def fun_eq_iff)

lemma slot_of_same [simp]:
  "slot_of (s\<lparr>sg_locked := b\<rparr>) = slot_of s" "slot_of (s\<lparr>sg_blocks := bs\<rparr>) = slot_of s" "slot_of (s\<lparr>sg_len := n\<rparr>) = slot_of s"
  by (simp_all add: slot_of_def fun_eq_iff split: option.splits)

lemma load_segment_store:
  "seg < length (sg_table s) \<Longrightarrow>
     load_segment (s\<lparr>sg_table := (sg_table s)[seg := Some p]\<rparr>) seg' = (if seg' = seg then Some (Some p) else load_segment s seg')"
  by (auto simp: load_segment_def)

lemma memory_pointed:
  "segs_ok s \<Longrightarrow> \<forall>seg. load_segment s seg \<noteq> Some (Some p) \<Longrightarrow> fmlookup (sg_memory s) (p, off) = None"
  unfolding segs_ok_def by blast

lemma slot_of_store:
  assumes ok: "segs_ok s" and own: "load_segment s seg = Some None" "private_block s seg p" and seg: "seg < length (sg_table s)"
  shows "slot_of (s\<lparr>sg_table := (sg_table s)[seg := Some p]\<rparr>) = slot_of s"
proof
  fix j
  have "fmlookup (sg_memory s) (p, off) = None" for off
    using memory_pointed [OF ok] own(2) by (simp add: private_block_def)
  then show "slot_of (s\<lparr>sg_table := (sg_table s)[seg := Some p]\<rparr>) j = slot_of s j"
    using own(1) by (simp add: slot_of_def load_segment_store [OF seg] split: option.splits)
qed

lemma slot_of_write:
  assumes ok: "segs_ok s" and own: "load_segment s (fst (sv_locate i)) = Some (Some p)"
  shows "slot_of (s\<lparr>sg_memory := fmupd (p, snd (sv_locate i)) x (sg_memory s)\<rparr>) j = (if j = i then Some x else slot_of s j)"
proof (cases "load_segment s (fst (sv_locate j)) = Some (Some p) \<and> snd (sv_locate j) = snd (sv_locate i)")
  case True
  then have "fst (sv_locate j) = fst (sv_locate i)" using ok own by (auto simp: segs_ok_def)
  then have "sv_locate j = sv_locate i" using True by (simp add: prod_eq_iff)
  then have "j = i" by (simp add: sv_seg.locate_inject)
  then show ?thesis using own by (simp add: slot_of_def)
next
  case False
  then have "j \<noteq> i" using own by auto
  then show ?thesis using False by (auto simp: slot_of_def split: option.splits)
qed

lemma seg_small: "segs_ok s \<Longrightarrow> i < sv_capacity \<Longrightarrow> fst (sv_locate i) < length (sg_table s)"
  by (simp add: segs_ok_def sv_locate_small)

lemma off_small: "snd (sv_locate i) < sv_seg_len (fst (sv_locate i))"
  using sv_seg.locate_bounds [of i "fst (sv_locate i)" "snd (sv_locate i)"] by (simp add: sv_seg_len_def)

text \<open>A step keeps every pointer and writes no slot but the setter's own.\<close>

lemma set_step_slots:
  assumes "segs_ok s" "own_seg s (Setter i x pc)" "set_step s i x pc = Some (s', pc')"
  shows "slot_of s' j = (if (\<exists>p. pc = Write_Slot p) \<and> j = i then Some x else slot_of s j)"
  using set_step_cases [OF assms(3)] assms(2) slot_of_store [OF assms(1)] slot_of_write [OF assms(1)]
  by (elim disjE conjE exE) (simp_all add: Let_def)

lemma set_step_pointers:
  assumes "segs_ok s" "own_seg s (Setter i x pc)" "set_step s i x pc = Some (s', pc')"
  shows "load_segment s seg = Some (Some p) \<Longrightarrow> load_segment s' seg = Some (Some p)"
  using set_step_cases [OF assms(3)] assms(2)
  by (elim disjE conjE exE) (auto simp: Let_def load_segment_store)

lemma segs_okD:
  assumes "segs_ok s"
  shows "load_segment s seg = Some (Some p) \<Longrightarrow> p < length (sg_blocks s) \<and> sg_blocks s ! p = sv_seg_len seg"
    "load_segment s seg = Some (Some p) \<Longrightarrow> load_segment s seg' = Some (Some p) \<Longrightarrow> seg = seg'"
    "fmlookup (sg_memory s) (p, off) \<noteq> None \<Longrightarrow> \<exists>seg. load_segment s seg = Some (Some p)"
  using assms unfolding segs_ok_def by blast+

lemma segs_ok_store:
  assumes ok: "segs_ok s" and own: "load_segment s seg = Some None" "private_block s seg p" and seg: "seg < length (sg_table s)"
  shows "segs_ok (s\<lparr>sg_table := (sg_table s)[seg := Some p]\<rparr>)"
proof -
  let ?s = "s\<lparr>sg_table := (sg_table s)[seg := Some p]\<rparr>"
  note L = load_segment_store [OF seg, of p]
  have p: "p < length (sg_blocks s)" "sg_blocks s ! p = sv_seg_len seg" "\<And>seg'. load_segment s seg' \<noteq> Some (Some p)"
    using own(2) by (simp_all add: private_block_def)
  have "q < length (sg_blocks ?s) \<and> sg_blocks ?s ! q = sv_seg_len a" if "load_segment ?s a = Some (Some q)" for a q
    using that p(1,2) segs_okD(1) [OF ok, of a q] unfolding L by (simp split: if_splits)
  moreover have "a = b" if "load_segment ?s a = Some (Some q)" "load_segment ?s b = Some (Some q)" for a b q
    using that p(3) segs_okD(2) [OF ok, of a q b] unfolding L by (auto split: if_splits)
  moreover have "\<exists>a. load_segment ?s a = Some (Some q)" if m: "fmlookup (sg_memory ?s) (q, off) \<noteq> None" for q off
  proof -
    have "fmlookup (sg_memory s) (q, off) \<noteq> None" using m by simp
    then obtain a where a: "load_segment s a = Some (Some q)" using segs_okD(3) [OF ok] by blast
    then have "a \<noteq> seg" using own(1) by auto
    then have "load_segment ?s a = Some (Some q)" unfolding L using a by simp
    then show ?thesis by blast
  qed
  moreover have "length (sg_table ?s) = sv_max_segments" using ok by (simp add: segs_ok_def)
  ultimately show ?thesis unfolding segs_ok_def by blast
qed

lemma segs_ok_same:
  assumes ok: "segs_ok s" and same: "sg_table s' = sg_table s" "sg_blocks s' = sg_blocks s @ bs"
    and mem: "\<And>p off. fmlookup (sg_memory s') (p, off) \<noteq> None \<Longrightarrow> \<exists>seg. load_segment s seg = Some (Some p)"
  shows "segs_ok s'"
proof -
  have L: "load_segment s' seg = load_segment s seg" for seg using same(1) by (simp add: load_segment_def)
  have "q < length (sg_blocks s') \<and> sg_blocks s' ! q = sv_seg_len a" if "load_segment s a = Some (Some q)" for a q
    using segs_okD(1) [OF ok that] same(2) by (simp add: nth_append)
  moreover have "length (sg_table s') = sv_max_segments" using ok same(1) by (simp add: segs_ok_def)
  ultimately show ?thesis using segs_okD(2) [OF ok] mem unfolding segs_ok_def L by blast
qed

lemma set_step_segs:
  assumes "segs_ok s" "own_seg s (Setter i x pc)" "set_step s i x pc = Some (s', pc')"
  shows "segs_ok s'"
proof -
  have quiet: "segs_ok s'" if "sg_table s' = sg_table s" "sg_blocks s' = sg_blocks s @ bs" "sg_memory s' = sg_memory s" for bs
    using that segs_okD(3) [OF assms(1)] by (intro segs_ok_same [OF assms(1)]) simp_all
  from set_step_cases [OF assms(3)] show ?thesis
  proof (elim disjE conjE exE)
    fix p assume "pc = Store_Pointer p" "s' = s\<lparr>sg_table := (sg_table s)[fst (sv_locate i) := Some p]\<rparr>"
      "fst (sv_locate i) < length (sg_table s)"
    then show ?thesis using assms(2) segs_ok_store [OF assms(1)] by (simp add: Let_def)
  next
    fix p assume w: "pc = Write_Slot p" "s' = s\<lparr>sg_memory := fmupd (p, snd (sv_locate i)) x (sg_memory s)\<rparr>"
    have pt: "load_segment s (fst (sv_locate i)) = Some (Some p)" using w(1) assms(2) by (simp add: Let_def)
    have "\<exists>seg. load_segment s seg = Some (Some q)" if "fmlookup (sg_memory s') (q, off) \<noteq> None" for q off
      using that w(2) pt segs_okD(3) [OF assms(1), of q off] by (cases "(q, off) = (p, snd (sv_locate i))") auto
    then show ?thesis using w(2) by (intro segs_ok_same [OF assms(1), of s' "[]"]) simp_all
  qed (use quiet [of "[]"] quiet [of "[sv_seg_len (fst (sv_locate i))]"] assms(1) in simp_all)
qed

lemma set_step_own:
  assumes "segs_ok s" "own_seg s (Setter i x pc)" "set_step s i x pc = Some (s', pc')"
  shows "own_seg s' (Setter i x pc')"
proof -
  have slots: "slot_of s' i = (if \<exists>p. pc = Write_Slot p then Some x else slot_of s i)"
    using set_step_slots [OF assms, of i] by simp
  show ?thesis
    using set_step_cases [OF assms(3)] assms(2) slots segs_okD(1) [OF assms(1)]
    by (elim disjE conjE exE)
      (auto simp: Let_def load_segment_store private_block_def nth_append less_max_iff_disj)
qed

text \<open>What the lock guards changes only under it.\<close>

lemma set_step_unguarded:
  assumes "set_step s i x pc = Some (s', pc')" and "\<not> guards (Setter i x pc)"
  shows "sg_table s' = sg_table s" "sg_blocks s' = sg_blocks s" "sg_locked s \<Longrightarrow> sg_locked s'"
  using set_step_cases [OF assms(1)] assms(2) by (elim disjE conjE exE; simp)+

lemma set_step_len: "set_step s i x pc = Some (s', pc') \<Longrightarrow> sg_len s \<le> sg_len s'"
  by (drule set_step_cases, elim disjE conjE exE) simp_all

lemma set_step_others:
  assumes "segs_ok s" "own_seg s (Setter i x pc)" "set_step s i x pc = Some (s', pc')"
    and u: "own_seg s u" and apart: "seg_apart (Setter i x pc) u"
  shows "own_seg s' u"
proof -
  note ptr = set_step_pointers [OF assms(1-3)]
  have "slot_of s' (needs u) = slot_of s (needs u)"
    using set_step_slots [OF assms(1-3), of "needs u"] apart by (auto simp: seg_apart_def)
  note slot = this
  have g: "sg_locked s'" "load_segment s' = load_segment s" "private_block s' = private_block s" if "guards u"
  proof -
    have n: "\<not> guards (Setter i x pc)" using apart that by (simp add: seg_apart_def)
    have "sg_locked s" using u that by (cases u) simp_all
    then show "sg_locked s'" using set_step_unguarded(3) [OF assms(3) n] by simp
    show l: "load_segment s' = load_segment s" using set_step_unguarded(1) [OF assms(3) n] by (simp add: load_segment_def fun_eq_iff)
    show "private_block s' = private_block s" using set_step_unguarded(2) [OF assms(3) n] by (simp add: private_block_def l fun_eq_iff)
  qed
  show ?thesis
  proof (cases u)
    case (Setter j y pc1)
    then show ?thesis
      using u slot g ptr set_step_len [OF assms(3)] by (cases pc1) (simp_all add: Let_def)
  next
    case (Getter j pc1)
    then show ?thesis using u slot ptr by (cases pc1) simp_all
  qed
qed

lemma guards_step:
  "set_step s i x pc = Some (s', pc') \<Longrightarrow> guards (Setter i x pc') \<Longrightarrow> guards (Setter i x pc) \<or> \<not> sg_locked s"
  by (drule set_step_cases, elim disjE conjE exE) simp_all

lemma get_step_cases:
  "get_step s i pc = Some pc' \<Longrightarrow>
     (pc = Load_Base \<and> (\<exists>p. load_segment s (fst (sv_locate i)) = Some (Some p) \<and> pc' = Read_Slot p)) \<or>
     (\<exists>p x. pc = Read_Slot p \<and> fmlookup (sg_memory s) (p, snd (sv_locate i)) = Some x \<and> pc' = Got x)"
  by (cases pc) (auto simp: get_step_def split: option.splits)

lemma seg_step_cases:
  assumes "seg_step s t = Some (s', t')"
  obtains i x pc pc' where "t = Setter i x pc" "t' = Setter i x pc'" "set_step s i x pc = Some (s', pc')"
  | i pc pc' where "t = Getter i pc" "t' = Getter i pc'" "s' = s" "get_step s i pc = Some pc'"
  using assms by (cases t) (auto split: option.splits)

lemma seg_step_needs: "seg_step s t = Some (s', t') \<Longrightarrow> needs t' = needs t"
  by (erule seg_step_cases) simp_all

lemma seg_step_writes: "seg_step s t = Some (s', t') \<Longrightarrow> writes t' = Some i \<Longrightarrow> writes t = Some i"
  by (erule seg_step_cases) (auto dest!: set_step_cases split: if_splits)

lemma seg_step_guards: "seg_step s t = Some (s', t') \<Longrightarrow> guards t' \<Longrightarrow> guards t \<or> \<not> sg_locked s"
  by (erule seg_step_cases) (auto dest: guards_step)

lemma guards_locked: "own_seg s t \<Longrightarrow> guards t \<Longrightarrow> sg_locked s"
  by (cases t) simp_all

interpretation segs: thread_system seg_step seg_ended segs_ok own_seg seg_apart
proof (unfold_locales, goal_cases)
  case (1 s t s' t')
  from 1(3) show ?case
  proof (cases rule: seg_step_cases)
    case (1 i x pc pc')
    have own: "own_seg s (Setter i x pc)" using \<open>own_seg s t\<close> 1(1) by simp
    show ?thesis
      unfolding 1(2) using set_step_segs [OF \<open>segs_ok s\<close> own 1(3)] set_step_own [OF \<open>segs_ok s\<close> own 1(3)] by (rule conjI)
  next
    case (2 i pc pc')
    then show ?thesis using \<open>segs_ok s\<close> \<open>own_seg s t\<close> get_step_cases [OF 2(4)] by (auto simp: slot_of_def)
  qed
next
  case (2 s t u s' t')
  from 2(5) show ?case
  proof (cases rule: seg_step_cases)
    case (1 i x pc pc')
    have own: "own_seg s (Setter i x pc)" "seg_apart (Setter i x pc) u" using 2(2,4) 1(1) by simp_all
    show ?thesis by (rule set_step_others [OF 2(1) own(1) 1(3) 2(3) own(2)])
  qed (use 2(3) in simp)
next
  case (3 s t u s' t')
  have "\<not> (guards t' \<and> guards u)"
    using seg_step_guards [OF 3(4)] guards_locked [OF 3(3)] 3(5) by (auto simp: seg_apart_def)
  moreover have "writes t' \<noteq> Some (needs u)" using seg_step_writes [OF 3(4), of "needs u"] 3(5) by (auto simp: seg_apart_def)
  moreover have "writes u \<noteq> Some (needs t')" using seg_step_needs [OF 3(4)] 3(5) by (auto simp: seg_apart_def)
  ultimately show ?case by (simp add: seg_apart_def)
next
  case (4 t u)
  then show ?case by (auto simp: seg_apart_def)
qed

section \<open>Every schedule comes to its end\<close>

definition segs_run :: "'a shared_segs \<times> 'a seg_thread list \<Rightarrow> bool" where
  "segs_run c \<longleftrightarrow>
     system_ok segs_ok own_seg seg_apart c \<and> (sg_locked (fst c) \<longrightarrow> (\<exists>t \<in> set (snd c). guards t)) \<and>
     (\<forall>p < length (sg_blocks (fst c)).
        (\<exists>seg. load_segment (fst c) seg = Some (Some p)) \<or> (\<exists>i x. Setter i x (Store_Pointer p) \<in> set (snd c)))"

primrec set_rank :: "set_pc \<Rightarrow> nat" where
  "set_rank Load_Segment = 8"
| "set_rank Take_Lock = 7"
| "set_rank Load_Again = 6"
| "set_rank Allocate = 5"
| "set_rank (Store_Pointer p) = 4"
| "set_rank (Drop_Guard p) = 3"
| "set_rank (Write_Slot p) = 2"
| "set_rank Publish_Len = 1"
| "set_rank Set_Done = 0"

fun seg_rank :: "'a seg_thread \<Rightarrow> nat" where
  "seg_rank (Setter i x pc) = set_rank pc"
| "seg_rank (Getter i pc) = (case pc of Load_Base \<Rightarrow> 2 | Read_Slot p \<Rightarrow> 1 | Got x \<Rightarrow> 0)"

lemma seg_rank_step: "seg_step s t = Some (s', t') \<Longrightarrow> seg_rank t' < seg_rank t"
  by (erule seg_step_cases) (auto dest!: set_step_cases get_step_cases)

text \<open>Only a thread at the lock waits, and only while another holds it.\<close>

lemma setter_moves:
  assumes "segs_ok s" "own_seg s (Setter i x pc)" "pc \<noteq> Set_Done" "pc = Take_Lock \<Longrightarrow> \<not> sg_locked s"
  shows "\<exists>c. seg_step s (Setter i x pc) = Some c"
proof -
  have "i < sv_capacity" using assms(2) by simp
  then have seg: "fst (sv_locate i) < length (sg_table s)" using seg_small [OF assms(1)] by simp
  show ?thesis
  proof (cases pc)
    case (Write_Slot p)
    then have "load_segment s (fst (sv_locate i)) = Some (Some p)" using assms(2) by (simp add: Let_def)
    from segs_okD(1) [OF assms(1) this] show ?thesis using Write_Slot off_small [of i] by (simp add: set_step_def Let_def)
  qed (use assms(3,4) seg in \<open>auto simp: set_step_def Let_def load_segment_def split: option.splits\<close>)
qed

lemma getter_moves: "own_seg s (Getter i pc) \<Longrightarrow> \<forall>x. pc \<noteq> Got x \<Longrightarrow> \<exists>c. seg_step s (Getter i pc) = Some c"
  by (cases pc) (auto simp: get_step_def slot_of_def split: option.splits)

lemma segs_run_moves:
  assumes c: "segs_run (s, ts)" and t: "t \<in> set ts" "\<not> seg_ended t"
  shows "\<exists>c'. interleave seg_step (s, ts) c'"
proof -
  have ok: "segs_ok s" "\<And>u. u \<in> set ts \<Longrightarrow> own_seg s u" "sg_locked s \<Longrightarrow> \<exists>u \<in> set ts. guards u"
    using c by (auto simp: segs_run_def system_ok_def)
  have go: "\<exists>c'. interleave seg_step (s, ts) c'" if u: "u \<in> set ts" "seg_step s u = Some c1" for u c1
  proof -
    obtain i where "i < length ts" "ts ! i = u" using u(1) by (auto simp: in_set_conv_nth)
    then show ?thesis using u(2) by (cases c1) (blast intro: interleave.Step)
  qed
  show ?thesis
  proof (cases "\<exists>u \<in> set ts. guards u")
    case True
    then obtain u where u: "u \<in> set ts" "guards u" by blast
    obtain i x pc where s: "u = Setter i x pc" "pc \<noteq> Set_Done" "pc \<noteq> Take_Lock" using u(2) by (cases u) (auto split: set_pc.split_asm)
    then show ?thesis using setter_moves [OF ok(1), of i x pc] ok(2) go u(1) by blast
  next
    case False
    then have free: "\<not> sg_locked s" using ok(3) by blast
    show ?thesis
    proof (cases t)
      case (Setter i x pc)
      then have "own_seg s (Setter i x pc)" "pc \<noteq> Set_Done" using ok(2) [OF t(1)] t(2) by simp_all
      from setter_moves [OF ok(1) this free] show ?thesis using go [OF t(1)] Setter by blast
    next
      case (Getter i pc)
      then have "own_seg s (Getter i pc)" "\<forall>x. pc \<noteq> Got x" using ok(2) [OF t(1)] t(2) by simp_all
      from getter_moves [OF this] show ?thesis using go [OF t(1)] Getter by blast
    qed
  qed
qed

lemma segs_run_step:
  assumes "segs_run c" "interleave seg_step c c'"
  shows "segs_run c'"
  using assms(2,1)
proof cases
  case (Step a ts s s' t')
  have ok: "system_ok segs_ok own_seg seg_apart c" "sg_locked s \<Longrightarrow> \<exists>t \<in> set ts. guards t"
    "\<And>p. p < length (sg_blocks s) \<Longrightarrow>
       (\<exists>seg. load_segment s seg = Some (Some p)) \<or> (\<exists>i x. Setter i x (Store_Pointer p) \<in> set ts)"
    using assms(1) Step(1) by (auto simp: segs_run_def)
  have at: "t' \<in> set (ts[a := t'])" using Step(3) by (simp add: set_update_memI)
  have stay: "u \<in> set (ts[a := t'])" if "u \<in> set ts" "u \<noteq> ts ! a" for u
    using that Step(3) by (metis in_set_conv_nth length_list_update nth_list_update_neq)
  have own: "segs_ok s" "own_seg s (ts ! a)" using ok(1) Step(1,3) by (auto simp: system_ok_def)
  have "\<exists>t \<in> set (ts[a := t']). guards t" if "sg_locked s'"
    using Step(4)
  proof (cases rule: seg_step_cases)
    case (1 i x pc pc')
    then show ?thesis
    proof (cases "guards t'")
      case False
      then have pc: "\<not> guards (ts ! a)" "sg_locked s" using set_step_cases [OF 1(3)] that 1(1,2)
        by (elim disjE conjE exE; simp)+
      then show ?thesis using ok(2) stay by blast
    qed (use at in blast)
  next
    case (2 i pc pc')
    then show ?thesis using ok(2) stay that by fastforce
  qed
  moreover have "(\<exists>seg. load_segment s' seg = Some (Some p)) \<or> (\<exists>i x. Setter i x (Store_Pointer p) \<in> set (ts[a := t']))"
    if p: "p < length (sg_blocks s')" for p
    using Step(4)
  proof (cases rule: seg_step_cases)
    case (1 i x pc pc')
    have "own_seg s (Setter i x pc)" using own(2) 1(1) by simp
    note ptr = set_step_pointers [OF own(1) this 1(3)]
    show ?thesis
    proof (cases "p < length (sg_blocks s)")
      case True
      from ok(3) [OF True] show ?thesis
      proof
        assume "\<exists>j y. Setter j y (Store_Pointer p) \<in> set ts"
        then obtain j y where j: "Setter j y (Store_Pointer p) \<in> set ts" by blast
        show ?thesis
        proof (cases "Setter j y (Store_Pointer p) = ts ! a")
          case True
          then have "pc = Store_Pointer p" using 1(1) by simp
          then have "load_segment s' (fst (sv_locate i)) = Some (Some p)"
            using 1(3) by (auto simp: set_step_def Let_def load_segment_def split: if_splits)
          then show ?thesis by blast
        qed (use stay j in blast)
      qed (use ptr in blast)
    next
      case False
      then have "pc' = Store_Pointer p" using set_step_cases [OF 1(3)] p by (elim disjE conjE exE) simp_all
      then show ?thesis using at 1(2) by blast
    qed
  next
    case (2 i pc pc')
    then show ?thesis using ok(3) [of p] p stay by (metis seg_thread.distinct(1))
  qed
  moreover have "system_ok segs_ok own_seg seg_apart c'" by (rule segs.step_ok [OF ok(1) assms(2)])
  ultimately show ?thesis using Step(2) by (simp add: segs_run_def)
qed

interpretation setters: lively_system seg_step seg_ended segs_run seg_rank less_than
proof (unfold_locales, goal_cases)
  case (1 c c')
  then show ?case by (rule segs_run_step)
next
  case (2 c t)
  then show ?case using segs_run_moves by (cases c) simp
next
  case (3 s ts t s' t')
  then show ?case using seg_rank_step by simp
qed simp

section \<open>What a run leaves\<close>

fun job_of :: "'a seg_thread \<Rightarrow> (nat \<times> 'a) option" where
  "job_of (Setter i x pc) = Some (i, x)"
| "job_of (Getter i pc) = None"

lemma seg_step_job: "seg_step s t = Some (s', t') \<Longrightarrow> job_of t' = job_of t \<and> needs t' = needs t"
  by (erule seg_step_cases) simp_all

text \<open>The length afterwards: the old one, or one past an index written.\<close>

definition len_within :: "nat \<Rightarrow> nat set \<Rightarrow> nat \<Rightarrow> bool" where
  "len_within n idx m \<longleftrightarrow> n \<le> m \<and> (m = n \<or> m \<in> Suc ` idx)"

lemma len_within_unique:
  "len_within n idx m \<Longrightarrow> len_within n idx m' \<Longrightarrow> \<forall>i \<in> idx. i < m \<Longrightarrow> \<forall>i \<in> idx. i < m' \<Longrightarrow> m = m'"
  by (fastforce simp: len_within_def)

lemma seg_step_effect:
  assumes "segs_ok s" "own_seg s t" "seg_step s t = Some (s', t')"
  shows "\<forall>x. job_of t \<noteq> Some (j, x) \<Longrightarrow> slot_of s' j = slot_of s j"
    "load_segment s seg = Some (Some p) \<Longrightarrow> load_segment s' seg = Some (Some p)"
    "sg_len s \<le> sg_len s' \<and> (sg_len s' = sg_len s \<or> (\<exists>i x. job_of t = Some (i, x) \<and> sg_len s' = Suc i))"
proof -
  have "((\<forall>x. job_of t \<noteq> Some (j, x)) \<longrightarrow> slot_of s' j = slot_of s j) \<and>
      (load_segment s seg = Some (Some p) \<longrightarrow> load_segment s' seg = Some (Some p)) \<and>
      sg_len s \<le> sg_len s' \<and> (sg_len s' = sg_len s \<or> (\<exists>i x. job_of t = Some (i, x) \<and> sg_len s' = Suc i))"
    using assms(3)
  proof (cases rule: seg_step_cases)
    case (1 i x pc pc')
    have own: "own_seg s (Setter i x pc)" using assms(2) 1(1) by simp
    have "sg_len s \<le> sg_len s' \<and> (sg_len s' = sg_len s \<or> sg_len s' = Suc i)"
      using set_step_cases [OF 1(3)] by (elim disjE conjE exE) (simp_all add: max_def)
    then show ?thesis
      using set_step_slots [OF assms(1) own 1(3), of j] set_step_pointers [OF assms(1) own 1(3), of seg p] 1(1) by auto
  qed simp
  then show "\<forall>x. job_of t \<noteq> Some (j, x) \<Longrightarrow> slot_of s' j = slot_of s j"
    "load_segment s seg = Some (Some p) \<Longrightarrow> load_segment s' seg = Some (Some p)"
    "sg_len s \<le> sg_len s' \<and> (sg_len s' = sg_len s \<or> (\<exists>i x. job_of t = Some (i, x) \<and> sg_len s' = Suc i))"
    by blast+
qed

definition jobs_of :: "'a seg_thread list \<Rightarrow> nat set" where
  "jobs_of ts = {i. \<exists>t \<in> set ts. \<exists>x. job_of t = Some (i, x)}"

lemma segs_run_effect:
  assumes "(interleave seg_step)\<^sup>*\<^sup>* (s, ts) (s', ts')" "segs_run (s, ts)"
  shows "map job_of ts' = map job_of ts \<and> map needs ts' = map needs ts \<and>
     (\<forall>j. j \<notin> jobs_of ts \<longrightarrow> slot_of s' j = slot_of s j) \<and>
     (\<forall>seg p. load_segment s seg = Some (Some p) \<longrightarrow> load_segment s' seg = Some (Some p)) \<and>
     len_within (sg_len s) (jobs_of ts) (sg_len s') \<and> segs_run (s', ts')"
  using assms
proof (induction "(s', ts')" arbitrary: s' ts' rule: rtranclp_induct)
  case base
  then show ?case by (simp add: len_within_def)
next
  case (step c)
  obtain s1 ts1 where c: "c = (s1, ts1)" by fastforce
  have IH: "map job_of ts1 = map job_of ts" "map needs ts1 = map needs ts"
    "\<forall>j. j \<notin> jobs_of ts \<longrightarrow> slot_of s1 j = slot_of s j"
    "\<forall>seg p. load_segment s seg = Some (Some p) \<longrightarrow> load_segment s1 seg = Some (Some p)"
    "len_within (sg_len s) (jobs_of ts) (sg_len s1)" "segs_run (s1, ts1)"
    using step(3) [OF c step(4)] by blast+
  obtain a t' where a: "a < length ts1" "seg_step s1 (ts1 ! a) = Some (s', t')" "ts' = ts1[a := t']"
    using step(2) c by (auto elim: interleaveE)
  have own: "segs_ok s1" "own_seg s1 (ts1 ! a)" using IH(6) a(1) by (simp_all add: segs_run_def system_ok_def)
  note E = seg_step_effect [OF own a(2)]
  have same: "map job_of ts' = map job_of ts1" "map needs ts' = map needs ts1"
    using a(1,3) seg_step_job [OF a(2)] by (simp_all add: map_update list_update_same_conv)
  have "length ts1 = length ts" using arg_cong [OF IH(1), of length] by simp
  then have "job_of (ts1 ! a) = job_of (ts ! a)" "ts ! a \<in> set ts" using IH(1) a(1) nth_map [of a ts1 job_of] by simp_all
  then have j: "i \<in> jobs_of ts" if "job_of (ts1 ! a) = Some (i, x)" for i x
    unfolding jobs_of_def using that by (intro CollectI bexI [of _ "ts ! a"] exI [of _ x]) simp_all
  have "len_within (sg_len s) (jobs_of ts) (sg_len s')" using IH(5) E(3) j by (auto simp: len_within_def)
  moreover have "slot_of s' i = slot_of s1 i" if "i \<notin> jobs_of ts" for i using E(1) j that by blast
  moreover have "segs_run (s', ts')" using segs_run_step [OF IH(6)] step(2) c by simp
  ultimately show ?case using same IH(1-4) E(2) by simp
qed

section \<open>Properties\<close>

text \<open>The sequential array, one \<^verbatim>\<open>set\<close> after the other.\<close>

primrec set_all :: "'a segvec \<Rightarrow> (nat \<times> 'a) list \<Rightarrow> 'a segvec option" where
  "set_all v [] = Some v"
| "set_all v (job # jobs) = (case sv_set v (fst job) (snd job) of Some v' \<Rightarrow> set_all v' jobs | None \<Rightarrow> None)"

lemma set_all_spec:
  "\<forall>i \<in> fst ` set jobs. i < sv_capacity \<Longrightarrow> distinct (map fst jobs) \<Longrightarrow>
     \<exists>v'. set_all v jobs = Some v' \<and> len_within (sv_len v) (fst ` set jobs) (sv_len v') \<and>
       (\<forall>i \<in> fst ` set jobs. i < sv_len v') \<and>
       (\<forall>i x. (i, x) \<in> set jobs \<longrightarrow> sv_get_unchecked v' i = Some x) \<and>
       (\<forall>i. i \<notin> fst ` set jobs \<longrightarrow> sv_get_unchecked v' i = sv_get_unchecked v i)"
proof (induction jobs arbitrary: v)
  case Nil
  then show ?case by (simp add: len_within_def)
next
  case (Cons job jobs)
  obtain i x where job: "job = (i, x)" by fastforce
  obtain v1 where v1: "sv_set v i x = Some v1" using sv_set_ok [of i v x] Cons.prems(1) job by auto
  have "\<forall>i \<in> fst ` set jobs. i < sv_capacity" "distinct (map fst jobs)" using Cons.prems by simp_all
  from Cons.IH [OF this, of v1] obtain v' where v': "set_all v1 jobs = Some v'"
    "len_within (sv_len v1) (fst ` set jobs) (sv_len v')" "\<forall>i \<in> fst ` set jobs. i < sv_len v'"
    "\<forall>i x. (i, x) \<in> set jobs \<longrightarrow> sv_get_unchecked v' i = Some x"
    "\<forall>i. i \<notin> fst ` set jobs \<longrightarrow> sv_get_unchecked v' i = sv_get_unchecked v1 i" by blast
  have i: "i \<notin> fst ` set jobs" using Cons.prems(2) job by simp
  have "len_within (sv_len v) (fst ` set (job # jobs)) (sv_len v') \<and> i < sv_len v'"
    using v'(2) sv_len_set [OF v1] job by (auto simp: len_within_def max_def split: if_splits)
  moreover have "sv_get_unchecked v' i = Some x" using v'(5) i sv_get_set [OF v1] by simp
  moreover have "sv_get_unchecked v' j = sv_get_unchecked v j" if "j \<notin> fst ` set (job # jobs)" for j
    using that v'(5) sv_get_set [OF v1] job by auto
  ultimately show ?case using v' v1 job by (intro exI [of _ v']) auto
qed

text \<open>A state at rest that holds the array: the lock is free, and every block is in the table.\<close>

definition holds_array :: "'a shared_segs \<Rightarrow> 'a segvec \<Rightarrow> bool" where
  "holds_array s v \<longleftrightarrow>
     segs_ok s \<and> \<not> sg_locked s \<and> (\<forall>p < length (sg_blocks s). \<exists>seg. load_segment s seg = Some (Some p)) \<and>
     sv_len v = sg_len s \<and> (\<forall>i. sv_get_unchecked v i = slot_of s i)"

lemma holds_new: "holds_array shared_new sv_new"
  by (auto simp: holds_array_def shared_new_def segs_ok_def load_segment_def slot_of_def)

lemma new_apart:
  "seg_apart (setter_new job) (setter_new job') \<longleftrightarrow> fst job \<noteq> fst job'"
  "seg_apart (setter_new job) (getter_new i) \<longleftrightarrow> fst job \<noteq> i"
  "seg_apart (getter_new i) (setter_new job) \<longleftrightarrow> fst job \<noteq> i"
  "seg_apart (getter_new i) (getter_new j)"
  by (auto simp: seg_apart_def setter_new_def getter_new_def)

lemma run_starts:
  assumes "holds_array s v" and "distinct (map fst jobs)" and "\<forall>i \<in> fst ` set jobs. i < sv_capacity"
    and "\<forall>i \<in> set reads. sv_get_unchecked v i \<noteq> None \<and> i \<notin> fst ` set jobs"
  shows "segs_run (s, map setter_new jobs @ map getter_new reads)"
proof -
  let ?ts = "map setter_new jobs @ map getter_new reads"
  have own: "\<forall>t \<in> set ?ts. own_seg s t" using assms(1,3,4) by (auto simp: setter_new_def getter_new_def holds_array_def)
  have ap: "seg_apart (?ts ! a) (?ts ! b)" if "a < length ?ts" "b < length ?ts" "a \<noteq> b" for a b
  proof -
    have read: "fst (jobs ! c) \<noteq> reads ! d" if "c < length jobs" "d < length reads" for c d
      using assms(4) nth_mem [OF that(1)] nth_mem [OF that(2)] by (metis imageI)
    have "fst (jobs ! a) \<noteq> fst (jobs ! b)" if "a < length jobs" "b < length jobs"
      using assms(2) that \<open>a \<noteq> b\<close> by (simp add: distinct_conv_nth)
    then show ?thesis using that read [of a "b - length jobs"] read [of b "a - length jobs"]
      by (cases "a < length jobs"; cases "b < length jobs") (simp_all add: nth_append new_apart)
  qed
  show ?thesis using assms(1) own ap by (auto simp: segs_run_def system_ok_def holds_array_def)
qed

lemma len_one_past:
  "len_within n (fst ` set jobs) m \<longleftrightarrow> n \<le> m \<and> (m = n \<or> (\<exists>job \<in> set jobs. m = Suc (fst job)))"
  by (auto simp: len_within_def)

lemma jobs_of_new: "jobs_of (map setter_new jobs @ map getter_new reads) = fst ` set jobs"
  by (force simp: jobs_of_def setter_new_def getter_new_def)

lemma run_ends_in_array:
  assumes start: "holds_array s v" and run: "(interleave seg_step)\<^sup>*\<^sup>* (s, map setter_new jobs @ map getter_new reads) (s', ts)"
    and inv: "segs_run (s, map setter_new jobs @ map getter_new reads)"
    and fin: "list_all seg_ended ts" and v': "set_all v jobs = Some v'"
    and jobs: "distinct (map fst jobs)" "\<forall>i \<in> fst ` set jobs. i < sv_capacity"
  shows "holds_array s' v'"
proof -
  note E = segs_run_effect [OF run inv, unfolded jobs_of_new]
  obtain V: "len_within (sv_len v) (fst ` set jobs) (sv_len v')" "\<forall>i \<in> fst ` set jobs. i < sv_len v'"
      "\<And>i x. (i, x) \<in> set jobs \<Longrightarrow> sv_get_unchecked v' i = Some x"
      "\<And>i. i \<notin> fst ` set jobs \<Longrightarrow> sv_get_unchecked v' i = sv_get_unchecked v i"
    using set_all_spec [OF jobs(2,1), of v] v' by auto
  have ok: "segs_ok s'" "\<And>t. t \<in> set ts \<Longrightarrow> own_seg s' t" "sg_locked s' \<Longrightarrow> \<exists>t \<in> set ts. guards t"
    "\<And>p. p < length (sg_blocks s') \<Longrightarrow>
       (\<exists>seg. load_segment s' seg = Some (Some p)) \<or> (\<exists>i x. Setter i x (Store_Pointer p) \<in> set ts)"
    using E by (auto simp: segs_run_def system_ok_def)
  have ended: "seg_ended t" if "t \<in> set ts" for t using fin that by (simp add: list_all_iff)
  have quiet: "\<not> guards t" if "seg_ended t" for t :: "'a seg_thread" using that by (cases t) simp_all
  have written: "slot_of s' i = Some x \<and> i < sg_len s'" if "(i, x) \<in> set jobs" for i x
  proof -
    have "Some (i, x) \<in> set (map job_of ts)" using E that by (force simp: setter_new_def)
    then obtain t where t: "t \<in> set ts" "job_of t = Some (i, x)" by auto
    have "t = Setter i x Set_Done" using t(2) ended [OF t(1)] by (cases t) simp_all
    then show ?thesis using ok(2) [OF t(1)] by (simp add: Let_def)
  qed
  have "sv_get_unchecked v' i = slot_of s' i" for i
  proof (cases "i \<in> fst ` set jobs")
    case True
    then obtain x where "(i, x) \<in> set jobs" by force
    then show ?thesis using V(3) written by simp
  next
    case False
    then show ?thesis using V(4) E start by (simp add: holds_array_def)
  qed
  moreover have "sv_len v' = sg_len s'"
    using len_within_unique [OF V(1), of "sg_len s'"] E V(2) written start by (fastforce simp: holds_array_def)
  moreover have "\<not> sg_locked s'" using ok(3) quiet ended by blast
  moreover have "\<exists>seg. load_segment s' seg = Some (Some p)" if "p < length (sg_blocks s')" for p
    using ok(4) [OF that] ended by fastforce
  ultimately show ?thesis using ok(1) by (simp add: holds_array_def)
qed

lemma run_reads:
  assumes start: "holds_array s v" and run: "(interleave seg_step)\<^sup>*\<^sup>* (s, map setter_new jobs @ map getter_new reads) (s', ts)"
    and inv: "segs_run (s, map setter_new jobs @ map getter_new reads)"
    and reads: "\<forall>i \<in> set reads. i \<notin> fst ` set jobs" and t: "Getter i (Got x) \<in> set ts"
  shows "sv_get_unchecked v i = Some x"
proof -
  let ?ts = "map setter_new jobs @ map getter_new reads"
  note E = segs_run_effect [OF run inv, unfolded jobs_of_new]
  have "own_seg s' (Getter i (Got x))" using E t by (auto simp: segs_run_def system_ok_def)
  then have at: "slot_of s' i = Some x" by simp
  obtain a where a: "a < length ts" "ts ! a = Getter i (Got x)" using t by (auto simp: in_set_conv_nth)
  have same: "map job_of ts = map job_of ?ts" "map needs ts = map needs ?ts" using E by blast+
  have len: "length ts = length ?ts" using arg_cong [OF same(1), of length] by simp
  have "job_of (?ts ! a) = None" "needs (?ts ! a) = i"
    using arg_cong [OF same(1), of "\<lambda>l. l ! a"] arg_cong [OF same(2), of "\<lambda>l. l ! a"] a len by (simp_all del: map_append)
  then have "i \<in> set reads" using a(1) len
    by (cases "a < length jobs") (simp_all add: nth_append setter_new_def getter_new_def, auto)
  then have "slot_of s' i = slot_of s i" using E reads by blast
  then show ?thesis using at start by (simp add: holds_array_def)
qed

text \<open>
  C19: threads that set distinct slots of one array, some of them growing it, act as the sequential
  \<^verbatim>\<open>set\<close>s.  No schedule runs for ever or gets stuck; when all have returned the array is the one the
  sequential calls give, every block allocated is the one segment's it was allocated for, and no segment
  has moved.  Threads that meanwhile read slots written before get what was there.
\<close>

theorem concurrent_sets_are_sequential:
  assumes "holds_array s v" and "distinct (map fst jobs)" and "\<forall>i \<in> fst ` set jobs. i < sv_capacity"
    and "\<forall>i \<in> set reads. sv_get_unchecked v i \<noteq> None \<and> i \<notin> fst ` set jobs"
  shows "let c = (s, map setter_new jobs @ map getter_new reads); run = (interleave seg_step)\<^sup>*\<^sup>* c in
     (\<exists>s' ts. run (s', ts) \<and> list_all seg_ended ts) \<and>
     \<not> (\<exists>sched. sched 0 = c \<and> (\<forall>n. interleave seg_step (sched n) (sched (Suc n)))) \<and>
     (\<forall>s' ts. run (s', ts) \<and> \<not> list_all seg_ended ts \<longrightarrow> (\<exists>c'. interleave seg_step (s', ts) c')) \<and>
     (\<forall>s' ts. run (s', ts) \<longrightarrow>
        (\<forall>seg p. load_segment s seg = Some (Some p) \<longrightarrow> load_segment s' seg = Some (Some p)) \<and>
        (\<forall>i x. Getter i (Got x) \<in> set ts \<longrightarrow> sv_get_unchecked v i = Some x) \<and>
        (list_all seg_ended ts \<longrightarrow> (\<exists>v'. set_all v jobs = Some v' \<and> holds_array s' v')))"
proof -
  let ?ts = "map setter_new jobs @ map getter_new reads"
  have inv: "segs_run (s, ?ts)" by (rule run_starts [OF assms])
  show ?thesis
    unfolding Let_def
  proof (intro conjI allI impI)
    show "\<exists>s' ts. (interleave seg_step)\<^sup>*\<^sup>* (s, ?ts) (s', ts) \<and> list_all seg_ended ts"
      using setters.runs_to_end [OF inv] by (auto simp: list_all_iff)
    show "\<not> (\<exists>sched. sched 0 = (s, ?ts) \<and> (\<forall>n. interleave seg_step (sched n) (sched (Suc n))))"
      using setters.no_infinite_run inv by metis
    fix s' ts
    show "\<exists>c'. interleave seg_step (s', ts) c'" if r: "(interleave seg_step)\<^sup>*\<^sup>* (s, ?ts) (s', ts) \<and> \<not> list_all seg_ended ts"
    proof -
      obtain t where "t \<in> set ts" "\<not> seg_ended t" using r by (auto simp: list_all_iff)
      then show ?thesis using segs_run_moves setters.run_inv [OF _ inv] r by blast
    qed
    assume run: "(interleave seg_step)\<^sup>*\<^sup>* (s, ?ts) (s', ts)"
    show "load_segment s' seg = Some (Some p)" if "load_segment s seg = Some (Some p)" for seg p
      using segs_run_effect [OF run inv] that by blast
    show "sv_get_unchecked v i = Some x" if "Getter i (Got x) \<in> set ts" for i x
      using run_reads [OF assms(1) run inv _ that] assms(4) by blast
    show "\<exists>v'. set_all v jobs = Some v' \<and> holds_array s' v'" if "list_all seg_ended ts"
      using set_all_spec [OF assms(3,2), of v] run_ends_in_array [OF assms(1) run inv that _ assms(2,3)] by blast
  qed
qed

theorem concurrent_sets_are_sequential_witness:
  "\<exists>s' ts v'. (interleave seg_step)\<^sup>*\<^sup>* (shared_new, map setter_new [(0, True), (5000, False)] @ map getter_new []) (s', ts) \<and>
     holds_array s' v' \<and> set_all sv_new [(0, True), (5000, False)] = Some v'"
proof -
  have jobs: "distinct (map fst [(0 :: nat, True), (5000, False)])" by simp
  have cap: "\<forall>i \<in> fst ` set [(0 :: nat, True), (5000, False)]. i < sv_capacity"
    by (simp add: sv_capacity_def seg_first_def sv_base_def sv_max_segments_def)
  have reads: "\<forall>i \<in> set []. sv_get_unchecked (sv_new :: bool segvec) i \<noteq> None \<and> i \<notin> fst ` set [(0 :: nat, True), (5000, False)]"
    by simp
  show ?thesis using concurrent_sets_are_sequential [OF holds_new jobs cap reads] unfolding Let_def by blast
qed

text \<open>
  The field that the code describes as the number of contiguously initialized slots counts past a slot
  no thread has written, when the writer of a later index returns first.
\<close>

lemma len_past_unwritten:
  "\<exists>s' ts. (interleave seg_step)\<^sup>*\<^sup>* (shared_new, [setter_new (0, True), setter_new (1, True)]) (s', ts) \<and>
     sg_len s' = 2 \<and> slot_of s' 0 = None"
proof -
  let ?run = "run_schedule seg_step (replicate 8 (Suc 0)) (shared_new :: bool shared_segs, [setter_new (0, True), setter_new (1, True)])"
  have "sv_locate 0 = (0, 0)" "sv_locate (Suc 0) = (0, 1)"
    by (simp_all add: sv_locate_def sv_base_def Let_def ilog2.simps)
  then have "\<exists>c. ?run = Some c \<and> sg_len (fst c) = 2 \<and> slot_of (fst c) 0 = None"
    by (simp add: eval_nat_numeral shared_new_def setter_new_def set_step_def load_segment_def slot_of_def
        sv_max_segments_def sv_seg_len_def sv_base_def)
  then show ?thesis using run_schedule_interleave by fastforce
qed

end
