(* ===== verification/Store_Conc.thy ===== *)
theory Store_Conc
  imports Store Interleaving "HOL-Library.Sublist"
begin

text \<open>
  \<^verbatim>\<open>storage/store.rs\<close> shared by threads: appends serialised by the appender's lock, and reads that take
  none.  A row is copied word by word and the count published after it; a reader loads the count once
  and then reads its row word by word, at any time, as the slice it was given lets it.  Segments are
  mapped under the lock and no reader looks at one the count does not reach, so mapping is one step.
  \<^verbatim>\<open>rollback_last\<close> and \<^verbatim>\<open>flush\<close> are not among the threads: the database calls them under locks of its own.
\<close>

section \<open>Words of a row\<close>

definition word_at :: "vstore \<Rightarrow> nat \<Rightarrow> nat \<Rightarrow> f32" where
  "word_at s i k = f32_of_bytes (vf_read (vs_file s) (row_addr s i + 4 * k) 4)"

definition put_word :: "vstore \<Rightarrow> nat \<Rightarrow> nat \<Rightarrow> f32 \<Rightarrow> vstore" where
  "put_word s i k x = s\<lparr>vs_file := vf_write (vs_file s) (row_addr s i + 4 * k) (f32_bytes x)\<rparr>"

lemma vf_read_append: "vf_read f off (m + n) = vf_read f off m @ vf_read f (off + m) n"
  using upt_add_eq_append [of off "off + m" n] by (simp add: vf_read_def add.assoc)

lemma bytes_f32s_words: "bytes_f32s (vf_read f off (4 * n)) = map (\<lambda>k. f32_of_bytes (vf_read f (off + 4 * k) 4)) [0..<n]"
proof (induction n arbitrary: off)
  case 0
  then show ?case by (simp add: vf_read_def)
next
  case (Suc n)
  have "vf_read f off (4 * Suc n) = vf_read f off 4 @ vf_read f (off + 4) (4 * n)"
    using vf_read_append [of f off 4 "4 * n"] by simp
  then have "bytes_f32s (vf_read f off (4 * Suc n)) =
      f32_of_bytes (vf_read f off 4) # map (\<lambda>k. f32_of_bytes (vf_read f (off + 4 + 4 * k) 4)) [0..<n]"
    by (simp add: bytes_f32s_Cons Suc.IH)
  also have "\<dots> = map (\<lambda>k. f32_of_bytes (vf_read f (off + 4 * k) 4)) [0..<Suc n]"
    by (simp add: upt_conv_Cons map_Suc_upt [symmetric] add.assoc del: upt_Suc)
  finally show ?case .
qed

lemma get_words: "vs_get_unchecked s i = map (word_at s i) [0..<vs_dim s]"
  by (simp add: vs_get_unchecked_def bytes_f32s_words word_at_def)

lemma row_is_words: "length v = vs_dim s \<Longrightarrow> vs_get_unchecked s i = v \<longleftrightarrow> (\<forall>k < vs_dim s. word_at s i k = v ! k)"
  by (auto simp: get_words list_eq_iff_nth_eq)

lemma put_word_simps [simp]:
  "vs_mapped (put_word s i k x) = vs_mapped s" "vs_dim (put_word s i k x) = vs_dim s"
  "vs_stride (put_word s i k x) = vs_stride s" "vs_count (put_word s i k x) = vs_count s"
  "row_addr (put_word s i k x) = row_addr s"
  by (simp_all add: put_word_def row_addr_eq fun_eq_iff)

lemma word_at_put:
  assumes "geometry_ok s" "k < vs_dim s" "l < vs_dim s"
  shows "word_at (put_word s i k x) j l = (if j = i \<and> l = k then x else word_at s j l)"
proof (cases "j = i \<and> l = k")
  case True
  then show ?thesis by (simp add: word_at_def) (simp add: put_word_def)
next
  case False
  have d: "4 * vs_dim s \<le> vs_stride s" using assms(1) by (simp add: geometry_ok_def)
  have "row_addr s j + 4 * l + 4 \<le> row_addr s i + 4 * k \<or> row_addr s i + 4 * k + 4 \<le> row_addr s j + 4 * l"
  proof (cases "j = i")
    case True
    then show ?thesis using False by auto
  next
    case False
    then have "row_addr s j + vs_stride s \<le> row_addr s i \<or> row_addr s i + vs_stride s \<le> row_addr s j"
      using rows_disjoint by (meson nat_neq_iff)
    then show ?thesis using assms(2,3) d by auto
  qed
  then have "vf_read (vs_file (put_word s i k x)) (row_addr s j + 4 * l) 4 = vf_read (vs_file s) (row_addr s j + 4 * l) 4"
    unfolding put_word_def by (simp add: vf_read_write_other)
  then show ?thesis using False by (auto simp: word_at_def)
qed

lemma put_word_inv: "vs_inv s \<Longrightarrow> vs_inv (put_word s i k x)"
  using row_write_header [of "vs_file s" "vs_dim s" "vs_stride s" "row_addr s i + 4 * k" "f32_bytes x"]
  by (simp add: vs_inv_def geometry_ok_def) (simp add: put_word_def row_addr_eq)

section \<open>Threads\<close>

record shared_store =
  ss_store :: vstore
  ss_locked :: bool

datatype append_pc =
    Check_Length
  | Take_Appender
  | Load_Count
  | Map_Row nat
  | Copy_Row nat nat
  | Drop_Appender "nat result"
  | Appended "nat result"

datatype read_pc = Check_Count | Read_Words "f32 list" | Was_Read "f32 list result"

datatype store_thread = Appender "f32 list" append_pc | Reader nat read_pc

definition append_step :: "shared_store \<Rightarrow> f32 list \<Rightarrow> append_pc \<Rightarrow> (shared_store \<times> append_pc) option" where
  "append_step c v pc =
     (let s = ss_store c
      in case pc of
        Check_Length \<Rightarrow>
          Some (c, if length v \<noteq> vs_dim s then Appended (Inl (DimensionMismatch (vs_dim s) (length v))) else Take_Appender)
      | Take_Appender \<Rightarrow> (if ss_locked c then None else Some (c\<lparr>ss_locked := True\<rparr>, Load_Count))
      | Load_Count \<Rightarrow> Some (c, Map_Row (vs_count s))
      | Map_Row i \<Rightarrow>
          (case ensure_mapped_locked s (fst (store_locate i) + 1) True of
             (s', Inl e) \<Rightarrow> Some (c\<lparr>ss_store := s'\<rparr>, Drop_Appender (Inl e))
           | (s', Inr _) \<Rightarrow> Some (c\<lparr>ss_store := s'\<rparr>, Copy_Row i 0))
      | Copy_Row i k \<Rightarrow>
          (if k < length v then Some (c\<lparr>ss_store := put_word s i k (v ! k)\<rparr>, Copy_Row i (k + 1))
           else Some (c\<lparr>ss_store := s\<lparr>vs_count := i + 1\<rparr>\<rparr>, Drop_Appender (Inr i)))
      | Drop_Appender r \<Rightarrow> Some (c\<lparr>ss_locked := False\<rparr>, Appended r)
      | Appended r \<Rightarrow> None)"

definition read_step :: "shared_store \<Rightarrow> nat \<Rightarrow> read_pc \<Rightarrow> read_pc option" where
  "read_step c i pc =
     (let s = ss_store c
      in case pc of
        Check_Count \<Rightarrow> Some (if vs_count s \<le> i then Was_Read (Inl (IdOutOfRange i)) else Read_Words [])
      | Read_Words xs \<Rightarrow>
          Some (if length xs < vs_dim s then Read_Words (xs @ [word_at s i (length xs)]) else Was_Read (Inr xs))
      | Was_Read r \<Rightarrow> None)"

fun store_step :: "shared_store \<Rightarrow> store_thread \<Rightarrow> (shared_store \<times> store_thread) option" where
  "store_step c (Appender v pc) =
     (case append_step c v pc of Some (c', pc') \<Rightarrow> Some (c', Appender v pc') | None \<Rightarrow> None)"
| "store_step c (Reader i pc) =
     (case read_step c i pc of Some pc' \<Rightarrow> Some (c, Reader i pc') | None \<Rightarrow> None)"

fun store_ended :: "store_thread \<Rightarrow> bool" where
  "store_ended (Appender v pc) \<longleftrightarrow> (\<exists>r. pc = Appended r)"
| "store_ended (Reader i pc) \<longleftrightarrow> (\<exists>r. pc = Was_Read r)"

definition appender_new :: "f32 list \<Rightarrow> store_thread" where
  "appender_new v = Appender v Check_Length"

definition reader_new :: "nat \<Rightarrow> store_thread" where
  "reader_new i = Reader i Check_Count"

section \<open>One append, alone\<close>

lemma write_words:
  "k \<le> length v \<Longrightarrow>
     alone store_step (c, Appender v (Copy_Row i k))
       (c\<lparr>ss_store := (ss_store c)\<lparr>vs_file := vf_write (vs_file (ss_store c)) (row_addr (ss_store c) i + 4 * k) (f32s_bytes (drop k v))\<rparr>\<rparr>,
        Appender v (Copy_Row i (length v)))"
proof (induction "length v - k" arbitrary: k c)
  case 0
  then have "vf_write f off (f32s_bytes (drop k v)) = f" for f off
    by (simp add: vf_write_def not_less [symmetric] cong: if_cong)
  then show ?case using 0 by (simp add: alone.Stay)
next
  case (Suc n)
  let ?s = "ss_store c"
  let ?c = "c\<lparr>ss_store := put_word ?s i k (v ! k)\<rparr>"
  have k: "k < length v" using Suc(2) by simp
  then have st: "store_step c (Appender v (Copy_Row i k)) = Some (?c, Appender v (Copy_Row i (k + 1)))"
    by (simp add: append_step_def Let_def)
  have split: "vf_write (vf_write f off bs) (off + length bs) bs' = vf_write f off (bs @ bs')" for f off bs bs'
    by (rule vfile.equality) (auto simp: vf_write_def fun_eq_iff nth_append)
  have "vf_write (vf_write f off (f32_bytes (v ! k))) (off + 4) (f32s_bytes (drop (k + 1) v)) = vf_write f off (f32s_bytes (drop k v))" for f off
    using split [of f off "f32_bytes (v ! k)"] Cons_nth_drop_Suc [OF k] by (metis Suc_eq_plus1 f32s_bytes_simps(2) length_f32_bytes)
  note w = this [of "vs_file ?s" "row_addr ?s i + 4 * k"]
  have "alone store_step (?c, Appender v (Copy_Row i (k + 1)))
      (?c\<lparr>ss_store := (ss_store ?c)\<lparr>vs_file := vf_write (vs_file (ss_store ?c)) (row_addr (ss_store ?c) i + 4 * (k + 1)) (f32s_bytes (drop (k + 1) v))\<rparr>\<rparr>,
       Appender v (Copy_Row i (length v)))" using Suc k by (intro Suc(1)) simp_all
  moreover have "row_addr (ss_store ?c) i + 4 * (k + 1) = row_addr ?s i + 4 * k + 4" by simp
  ultimately show ?case using alone.Move [where step = store_step, OF st] w by (simp add: put_word_def ac_simps)
qed

lemma append_alone:
  assumes "\<not> ss_locked c"
  shows "alone store_step (c, appender_new v)
     (c\<lparr>ss_store := fst (vs_append (ss_store c) v)\<rparr>, Appender v (Appended (snd (vs_append (ss_store c) v))))"
proof (cases "length v = vs_dim (ss_store c)")
  case False
  then show ?thesis
    by (intro alone_one) (simp add: appender_new_def append_step_def vs_append_def Let_def)
next
  case True
  let ?s = "ss_store c" and ?i = "vs_count (ss_store c)" and ?lk = "c\<lparr>ss_locked := True\<rparr>"
  obtain t r where m: "ensure_mapped_locked ?s (fst (store_locate ?i) + 1) True = (t, r)" by fastforce
  have "alone store_step (?lk, Appender v Load_Count) (?lk, Appender v (Map_Row ?i))"
    by (intro alone_one) (simp add: append_step_def)
  then have "alone store_step (c, appender_new v) (?lk, Appender v (Map_Row ?i))"
    using assms True by (intro alone.Move [where step = store_step, of c "appender_new v" "(c, Appender v Take_Appender)"]
        alone.Move [where step = store_step, of c "Appender v Take_Appender" "(?lk, Appender v Load_Count)"])
      (simp_all add: appender_new_def append_step_def Let_def)
  note start = alone_trans [OF this]
  have release: "alone store_step (?lk\<lparr>ss_store := s'\<rparr>, Appender v (Drop_Appender q)) (c\<lparr>ss_store := s'\<rparr>, Appender v (Appended q))" for s' q
    using assms by (intro alone_one) (simp add: append_step_def)
  show ?thesis
  proof (cases r)
    case (Inl e)
    then have "alone store_step (?lk, Appender v (Map_Row ?i)) (?lk\<lparr>ss_store := t\<rparr>, Appender v (Drop_Appender (Inl e)))"
      using m by (intro alone_one) (simp add: append_step_def Let_def)
    from start [OF alone_trans [OF this release]] show ?thesis using m Inl True by (simp add: vs_append_def Let_def)
  next
    case (Inr u)
    let ?f = "vf_write (vs_file t) (row_addr t ?i) (f32s_bytes v)"
    have "alone store_step (?lk, Appender v (Map_Row ?i)) (?lk\<lparr>ss_store := t\<rparr>, Appender v (Copy_Row ?i 0))"
      using m Inr by (intro alone_one) (simp add: append_step_def Let_def)
    moreover have "alone store_step (?lk\<lparr>ss_store := t\<rparr>, Appender v (Copy_Row ?i 0)) (?lk\<lparr>ss_store := t\<lparr>vs_file := ?f\<rparr>\<rparr>, Appender v (Copy_Row ?i (length v)))"
      using write_words [of 0 v "?lk\<lparr>ss_store := t\<rparr>" ?i] by simp
    moreover have "alone store_step (?lk\<lparr>ss_store := t\<lparr>vs_file := ?f\<rparr>\<rparr>, Appender v (Copy_Row ?i (length v)))
        (?lk\<lparr>ss_store := t\<lparr>vs_file := ?f, vs_count := ?i + 1\<rparr>\<rparr>, Appender v (Drop_Appender (Inr ?i)))"
      by (intro alone_one) (simp add: append_step_def)
    ultimately have "alone store_step (?lk, Appender v (Map_Row ?i)) (?lk\<lparr>ss_store := t\<lparr>vs_file := ?f, vs_count := ?i + 1\<rparr>\<rparr>, Appender v (Drop_Appender (Inr ?i)))"
      using alone_trans by blast
    from start [OF alone_trans [OF this release]] show ?thesis using m Inr True by (simp add: vs_append_def Let_def)
  qed
qed

section \<open>What holds at every moment\<close>

text \<open>What a step does to the rows below the count: nothing.\<close>

definition keeps_rows :: "vstore \<Rightarrow> vstore \<Rightarrow> bool" where
  "keeps_rows s s' \<longleftrightarrow>
     vs_dim s' = vs_dim s \<and> vs_count s \<le> vs_count s' \<and> (\<forall>i < vs_count s. vs_get_unchecked s' i = vs_get_unchecked s i)"

lemma keeps_rows_refl [simp]: "keeps_rows s s"
  by (simp add: keeps_rows_def)

lemma keeps_rows_trans: "keeps_rows s t \<Longrightarrow> keeps_rows t u \<Longrightarrow> keeps_rows s u"
  by (simp add: keeps_rows_def)

lemma keeps_rows_prefix: "keeps_rows s s' \<Longrightarrow> prefix (vs_vectors s) (vs_vectors s')"
proof -
  assume k: "keeps_rows s s'"
  then have "vs_count s' = vs_count s + (vs_count s' - vs_count s)" by (simp add: keeps_rows_def)
  then have "vs_vectors s' = map (vs_get_unchecked s') [0..<vs_count s] @ map (vs_get_unchecked s') [vs_count s..<vs_count s']"
    using upt_add_eq_append [of 0 "vs_count s" "vs_count s' - vs_count s"] by (simp add: vs_vectors_def)
  moreover have "map (vs_get_unchecked s') [0..<vs_count s] = vs_vectors s" using k by (simp add: keeps_rows_def vs_vectors_def)
  ultimately show ?thesis by (simp add: prefix_def)
qed

fun holds :: "store_thread \<Rightarrow> bool" where
  "holds (Appender v pc) \<longleftrightarrow> (case pc of Check_Length \<Rightarrow> False | Take_Appender \<Rightarrow> False | Appended r \<Rightarrow> False | _ \<Rightarrow> True)"
| "holds (Reader i pc) \<longleftrightarrow> False"

text \<open>The id an append has published.\<close>

fun published :: "store_thread \<Rightarrow> nat option" where
  "published (Appender v pc) = (case pc of Drop_Appender (Inr i) \<Rightarrow> Some i | Appended (Inr i) \<Rightarrow> Some i | _ \<Rightarrow> None)"
| "published (Reader i pc) = None"

fun own_row :: "shared_store \<Rightarrow> store_thread \<Rightarrow> bool" where
  "own_row c (Appender v pc) \<longleftrightarrow> (holds (Appender v pc) \<longrightarrow> ss_locked c) \<and>
     (pc \<noteq> Check_Length \<and> (\<forall>e. pc \<noteq> Appended (Inl e)) \<longrightarrow> length v = vs_dim (ss_store c)) \<and>
     (case pc of
        Map_Row i \<Rightarrow> i = vs_count (ss_store c)
      | Copy_Row i k \<Rightarrow> i = vs_count (ss_store c) \<and> i < seg_first base_rows (vs_mapped (ss_store c)) \<and>
          k \<le> length v \<and> (\<forall>l < k. word_at (ss_store c) i l = v ! l)
      | Drop_Appender (Inr i) \<Rightarrow> i < vs_count (ss_store c) \<and> vs_get_unchecked (ss_store c) i = v
      | Appended (Inr i) \<Rightarrow> i < vs_count (ss_store c) \<and> vs_get_unchecked (ss_store c) i = v
      | _ \<Rightarrow> True)"
| "own_row c (Reader i pc) \<longleftrightarrow>
     (case pc of
        Check_Count \<Rightarrow> True
      | Read_Words xs \<Rightarrow> i < vs_count (ss_store c) \<and> length xs \<le> vs_dim (ss_store c) \<and>
          xs = take (length xs) (vs_get_unchecked (ss_store c) i)
      | Was_Read (Inr xs) \<Rightarrow> i < vs_count (ss_store c) \<and> xs = vs_get_unchecked (ss_store c) i
      | Was_Read (Inl e) \<Rightarrow> e = IdOutOfRange i)"

definition rows_apart :: "store_thread \<Rightarrow> store_thread \<Rightarrow> bool" where
  "rows_apart t u \<longleftrightarrow> \<not> (holds t \<and> holds u) \<and> (published t = None \<or> published t \<noteq> published u)"

section \<open>Steps keep it\<close>

lemma count_words [simp]: "vs_get_unchecked (s\<lparr>vs_count := n\<rparr>) = vs_get_unchecked s" "word_at (s\<lparr>vs_count := n\<rparr>) = word_at s"
  by (simp_all add: word_at_def vs_get_unchecked_def row_addr_eq fun_eq_iff)

lemma put_word_row:
  assumes "geometry_ok s" "k < vs_dim s" "j \<noteq> i"
  shows "vs_get_unchecked (put_word s i k x) j = vs_get_unchecked s j"
  unfolding get_words put_word_simps using word_at_put [OF assms(1,2)] assms(3) by (intro map_cong refl) simp

text \<open>What an append under the lock does to the store.\<close>

lemma map_row_spec:
  assumes inv: "vs_inv s" and m: "ensure_mapped_locked s (fst (store_locate (vs_count s)) + 1) True = (t, r)"
  shows "vs_inv t \<and> keeps_rows s t \<and> vs_count t = vs_count s \<and> (r = Inr () \<longrightarrow> vs_count s < seg_first base_rows (vs_mapped t))"
proof -
  have g: "geometry_ok s" "vs_count s \<le> seg_first base_rows (vs_mapped s)"
    "header_count (vs_file s) \<le> seg_first base_rows (vs_mapped s)" "1 \<le> vs_mapped s" using inv by (simp_all add: vs_inv_def)
  have T: "geometry_ok t" "vf_extends (vs_file s) (vs_file t)" "vs_dim t = vs_dim s" "vs_stride t = vs_stride s"
    "vs_count t = vs_count s" "vs_mapped s \<le> vs_mapped t" "r = Inr () \<longrightarrow> fst (store_locate (vs_count s)) + 1 \<le> vs_mapped t"
    using ensure_mapped_spec [OF g(1) m] by simp_all
  have "header_count (vs_file t) = header_count (vs_file s)"
    using g(1) by (intro header_count_extends [OF T(2)]) (simp add: geometry_ok_def header_ok_def)
  then have "vs_inv t" using T g(2-4) seg_first_mono [OF T(6), of base_rows] by (simp add: vs_inv_def)
  moreover have "keeps_rows s t"
    using T(3,5) g(2) vs_inv_row_read [OF g(1) _ T(2-4)] by (simp add: keeps_rows_def)
  ultimately show ?thesis using T(5,7) store_locate_cover by blast
qed

lemma append_step_spec:
  assumes inv: "vs_inv (ss_store c)" and own: "own_row c (Appender v pc)" and st: "append_step c v pc = Some (c', pc')"
  shows "vs_inv (ss_store c') \<and> keeps_rows (ss_store c) (ss_store c') \<and> own_row c' (Appender v pc')"
proof (cases pc)
  case (Map_Row i)
  then have i: "i = vs_count (ss_store c)" "ss_locked c" "length v = vs_dim (ss_store c)" using own by simp_all
  obtain t r where m: "ensure_mapped_locked (ss_store c) (fst (store_locate i) + 1) True = (t, r)" by fastforce
  note M = map_row_spec [OF inv m [unfolded i(1)]]
  show ?thesis using st Map_Row m M i by (cases r) (auto simp: append_step_def Let_def keeps_rows_def)
next
  case (Copy_Row i k)
  let ?s = "ss_store c"
  have own: "ss_locked c" "i = vs_count ?s" "i < seg_first base_rows (vs_mapped ?s)" "k \<le> length v" "length v = vs_dim ?s"
    "\<forall>l < k. word_at ?s i l = v ! l" using own unfolding Copy_Row by (simp_all, blast)
  have g: "geometry_ok ?s" using inv by (simp add: vs_inv_def)
  show ?thesis
  proof (cases "k < length v")
    case True
    then have "\<forall>l < Suc k. word_at (put_word ?s i k (v ! k)) i l = v ! l"
      using word_at_put [OF g] own(5,6) by (auto simp: less_Suc_eq)
    moreover have "keeps_rows ?s (put_word ?s i k (v ! k))"
      using put_word_row [OF g] True own(2,5) by (simp add: keeps_rows_def)
    ultimately show ?thesis using st Copy_Row True own put_word_inv [OF inv] by (auto simp: append_step_def Let_def)
  next
    case False
    then have "vs_get_unchecked ?s i = v" using own(4-6) by (simp add: row_is_words)
    moreover have "vs_inv (?s\<lparr>vs_count := Suc i\<rparr>)" using inv own(2,3) by (simp add: vs_inv_def geometry_ok_def)
    ultimately show ?thesis using st Copy_Row False own by (auto simp: append_step_def Let_def keeps_rows_def)
  qed
qed (use inv own st in \<open>auto simp: append_step_def Let_def split: if_splits sum.splits\<close>)

lemma append_step_outside:
  "append_step c v pc = Some (c', pc') \<Longrightarrow> \<not> holds (Appender v pc) \<Longrightarrow>
     ss_store c' = ss_store c \<and> (ss_locked c \<longrightarrow> ss_locked c') \<and> published (Appender v pc') = published (Appender v pc)"
  by (cases pc) (auto simp: append_step_def Let_def split: if_splits)

lemma append_step_holds:
  "append_step c v pc = Some (c', pc') \<Longrightarrow> holds (Appender v pc') \<Longrightarrow> holds (Appender v pc) \<or> \<not> ss_locked c"
  by (cases pc) (auto simp: append_step_def Let_def split: if_splits)

lemma append_step_published:
  "append_step c v pc = Some (c', pc') \<Longrightarrow> published (Appender v pc) = Some i \<Longrightarrow> published (Appender v pc') = Some i"
  by (cases pc) (auto simp: append_step_def Let_def split: if_splits sum.splits)

text \<open>The count moves exactly when an id is published.\<close>

lemma append_step_count:
  assumes "vs_inv (ss_store c)" "own_row c (Appender v pc)" "append_step c v pc = Some (c', pc')"
  shows "published (Appender v pc') = published (Appender v pc) \<and> vs_count (ss_store c') = vs_count (ss_store c) \<or>
     published (Appender v pc') = Some (vs_count (ss_store c)) \<and> vs_count (ss_store c') = Suc (vs_count (ss_store c))"
proof (cases pc)
  case (Map_Row i)
  obtain t r where m: "ensure_mapped_locked (ss_store c) (fst (store_locate i) + 1) True = (t, r)" by fastforce
  have "i = vs_count (ss_store c)" using assms(2) Map_Row by simp
  from map_row_spec [OF assms(1) m [unfolded this]] show ?thesis
    using assms(3) Map_Row m by (cases r) (auto simp: append_step_def Let_def)
qed (use assms in \<open>auto simp: append_step_def Let_def split: if_splits sum.splits\<close>)

lemma read_step_spec:
  assumes "own_row c (Reader i pc)" "read_step c i pc = Some pc'"
  shows "own_row c (Reader i pc')"
proof (cases pc)
  case (Read_Words xs)
  let ?row = "vs_get_unchecked (ss_store c) i"
  have l: "length ?row = vs_dim (ss_store c)" by (simp add: get_words)
  have own: "i < vs_count (ss_store c)" "length xs \<le> vs_dim (ss_store c)" "xs = take (length xs) ?row"
    using assms(1) Read_Words by simp_all
  show ?thesis
  proof (cases "length xs < vs_dim (ss_store c)")
    case True
    then have "xs @ [word_at (ss_store c) i (length xs)] = take (Suc (length xs)) ?row"
      using own(3) l by (simp add: take_Suc_conv_app_nth) (simp add: get_words)
    then show ?thesis using assms(2) Read_Words True own(1) l by (auto simp: read_step_def Let_def min_def)
  next
    case False
    then have "xs = ?row" using own l by simp
    then show ?thesis using assms(2) Read_Words False own(1) by (auto simp: read_step_def Let_def)
  qed
qed (use assms in \<open>auto simp: read_step_def Let_def split: if_splits\<close>)

text \<open>Nobody's knowledge is lost when another thread's step keeps the rows.\<close>

lemma own_row_kept:
  assumes "own_row c u" "keeps_rows (ss_store c) (ss_store c')"
    and "holds u \<Longrightarrow> ss_store c' = ss_store c \<and> ss_locked c'"
  shows "own_row c' u"
proof (cases u)
  case (Appender v pc)
  show ?thesis
  proof (cases "holds u")
    case True
    then show ?thesis using assms Appender by (cases pc) (auto split: sum.splits)
  next
    case False
    then show ?thesis using assms(1,2) Appender by (cases pc) (auto simp: keeps_rows_def split: sum.splits)
  qed
next
  case (Reader i pc)
  then show ?thesis using assms(1,2) by (cases pc) (auto simp: keeps_rows_def split: sum.splits)
qed

lemma store_step_cases:
  assumes "store_step c t = Some (c', t')"
  obtains v pc pc' where "t = Appender v pc" "t' = Appender v pc'" "append_step c v pc = Some (c', pc')"
  | i pc pc' where "t = Reader i pc" "t' = Reader i pc'" "c' = c" "read_step c i pc = Some pc'"
  using assms by (cases t) (auto split: option.splits)

lemma store_step_keeps:
  assumes "vs_inv (ss_store c)" "own_row c t" "store_step c t = Some (c', t')"
  shows "vs_inv (ss_store c') \<and> keeps_rows (ss_store c) (ss_store c') \<and> own_row c' t'"
    "\<not> holds t \<Longrightarrow> ss_store c' = ss_store c \<and> (ss_locked c \<longrightarrow> ss_locked c')"
    "holds t' \<Longrightarrow> holds t \<or> \<not> ss_locked c"
    "published t' = published t \<and> vs_count (ss_store c') = vs_count (ss_store c) \<or>
     published t' = Some (vs_count (ss_store c)) \<and> vs_count (ss_store c') = Suc (vs_count (ss_store c))"
    "published t = Some i \<Longrightarrow> published t' = Some i"
proof -
  have "(vs_inv (ss_store c') \<and> keeps_rows (ss_store c) (ss_store c') \<and> own_row c' t') \<and>
      (\<not> holds t \<longrightarrow> ss_store c' = ss_store c \<and> (ss_locked c \<longrightarrow> ss_locked c')) \<and>
      (holds t' \<longrightarrow> holds t \<or> \<not> ss_locked c) \<and>
      (published t' = published t \<and> vs_count (ss_store c') = vs_count (ss_store c) \<or>
       published t' = Some (vs_count (ss_store c)) \<and> vs_count (ss_store c') = Suc (vs_count (ss_store c))) \<and>
      (published t = Some i \<longrightarrow> published t' = Some i)"
    using assms(3)
  proof (cases rule: store_step_cases)
    case (1 v pc pc')
    have own: "own_row c (Appender v pc)" using assms(2) 1(1) by simp
    show ?thesis
      unfolding 1(1,2)
      using append_step_spec [OF assms(1) own 1(3)] append_step_outside [OF 1(3)] append_step_holds [OF 1(3)]
        append_step_count [OF assms(1) own 1(3)] append_step_published [OF 1(3), of i] by blast
  next
    case (2 i pc pc')
    have own: "own_row c (Reader i pc)" using assms(2) 2(1) by simp
    show ?thesis unfolding 2(1-3) using read_step_spec [OF own 2(4)] assms(1) by simp
  qed
  then show "vs_inv (ss_store c') \<and> keeps_rows (ss_store c) (ss_store c') \<and> own_row c' t'"
    "\<not> holds t \<Longrightarrow> ss_store c' = ss_store c \<and> (ss_locked c \<longrightarrow> ss_locked c')"
    "holds t' \<Longrightarrow> holds t \<or> \<not> ss_locked c"
    "published t' = published t \<and> vs_count (ss_store c') = vs_count (ss_store c) \<or>
     published t' = Some (vs_count (ss_store c)) \<and> vs_count (ss_store c') = Suc (vs_count (ss_store c))"
    "published t = Some i \<Longrightarrow> published t' = Some i"
    by blast+
qed

lemma holds_locked: "own_row c t \<Longrightarrow> holds t \<Longrightarrow> ss_locked c"
  by (cases t) simp_all

lemma published_below: "own_row c t \<Longrightarrow> published t = Some i \<Longrightarrow> i < vs_count (ss_store c)"
  by (cases t) (auto split: append_pc.splits sum.splits)

interpretation store: thread_system store_step store_ended "\<lambda>c. vs_inv (ss_store c)" own_row rows_apart
proof (unfold_locales, goal_cases)
  case (1 c t c' t')
  then show ?case using store_step_keeps(1) by blast
next
  case (2 c t u c' t')
  note K = store_step_keeps [OF 2(1,2,5)]
  have "ss_store c' = ss_store c \<and> ss_locked c'" if "holds u"
  proof -
    have "\<not> holds t" using 2(4) that by (simp add: rows_apart_def)
    then show ?thesis using K(2) holds_locked [OF 2(3) that] by simp
  qed
  then show ?case using own_row_kept [OF 2(3)] K(1) by blast
next
  case (3 c t u c' t')
  note K = store_step_keeps [OF 3(1,2,4)]
  have "\<not> (holds t' \<and> holds u)" using K(3) holds_locked [OF 3(3)] 3(5) by (auto simp: rows_apart_def)
  moreover have "published t' = None \<or> published t' \<noteq> published u"
  proof -
    have "published u \<noteq> Some (vs_count (ss_store c))" using published_below [OF 3(3)] by blast
    then show ?thesis using K(4) 3(5) by (auto simp: rows_apart_def)
  qed
  ultimately show ?case by (simp add: rows_apart_def)
next
  case (4 t u)
  then show ?case by (auto simp: rows_apart_def)
qed

section \<open>Every schedule comes to its end\<close>

text \<open>The ids from the \<open>n\<close>-th on are those the threads have published; the lock is held by a thread.\<close>

definition store_run :: "nat \<Rightarrow> nat \<Rightarrow> shared_store \<times> store_thread list \<Rightarrow> bool" where
  "store_run d n x \<longleftrightarrow>
     system_ok (\<lambda>c. vs_inv (ss_store c)) own_row rows_apart x \<and> vs_dim (ss_store (fst x)) = d \<and>
     (ss_locked (fst x) \<longrightarrow> (\<exists>t \<in> set (snd x). holds t)) \<and>
     n \<le> vs_count (ss_store (fst x)) \<and>
     (\<forall>i. (\<exists>t \<in> set (snd x). published t = Some i) \<longleftrightarrow> n \<le> i \<and> i < vs_count (ss_store (fst x)))"

fun store_rank :: "nat \<Rightarrow> store_thread \<Rightarrow> nat" where
  "store_rank d (Appender v pc) =
     (case pc of
        Check_Length \<Rightarrow> length v + 6
      | Take_Appender \<Rightarrow> length v + 5
      | Load_Count \<Rightarrow> length v + 4
      | Map_Row i \<Rightarrow> length v + 3
      | Copy_Row i k \<Rightarrow> length v - k + 2
      | Drop_Appender r \<Rightarrow> 1
      | Appended r \<Rightarrow> 0)"
| "store_rank d (Reader i pc) =
     (case pc of Check_Count \<Rightarrow> d + 2 | Read_Words xs \<Rightarrow> d - length xs + 1 | Was_Read r \<Rightarrow> 0)"

lemma store_rank_step:
  assumes "store_step c t = Some (c', t')" "vs_dim (ss_store c) = d"
  shows "store_rank d t' < store_rank d t"
  using assms(1)
proof (cases rule: store_step_cases)
  case (1 v pc pc')
  then show ?thesis by (cases pc) (auto simp: append_step_def Let_def split: if_splits prod.splits sum.splits)
next
  case (2 i pc pc')
  then show ?thesis using assms(2) by (cases pc) (auto simp: read_step_def Let_def split: if_splits)
qed

lemma appender_moves:
  "\<not> store_ended (Appender v pc) \<Longrightarrow> pc = Take_Appender \<Longrightarrow> \<not> ss_locked c \<Longrightarrow> \<exists>x. store_step c (Appender v pc) = Some x"
  "\<not> store_ended (Appender v pc) \<Longrightarrow> pc \<noteq> Take_Appender \<Longrightarrow> \<exists>x. store_step c (Appender v pc) = Some x"
  by (cases pc; auto simp: append_step_def Let_def split: option.splits prod.splits sum.splits)+

lemma reader_moves: "\<not> store_ended (Reader i pc) \<Longrightarrow> \<exists>x. store_step c (Reader i pc) = Some x"
  by (cases pc) (auto simp: read_step_def Let_def)

lemma store_run_moves:
  assumes c: "store_run d n (c, ts)" and t: "t \<in> set ts" "\<not> store_ended t"
  shows "\<exists>x. interleave store_step (c, ts) x"
proof -
  have go: "\<exists>x. interleave store_step (c, ts) x" if u: "u \<in> set ts" "store_step c u = Some c1" for u c1
  proof -
    obtain i where "i < length ts" "ts ! i = u" using u(1) by (auto simp: in_set_conv_nth)
    then show ?thesis using u(2) by (cases c1) (blast intro: interleave.Step)
  qed
  show ?thesis
  proof (cases "\<exists>u \<in> set ts. holds u")
    case True
    then obtain u where u: "u \<in> set ts" "holds u" by blast
    obtain v pc where a: "u = Appender v pc" "pc \<noteq> Take_Appender" "\<not> store_ended (Appender v pc)"
      using u(2) by (cases u) (auto split: append_pc.split_asm)
    then show ?thesis using appender_moves(2) go u(1) by blast
  next
    case False
    then have free: "\<not> ss_locked c" using c by (auto simp: store_run_def)
    then show ?thesis
      using go [OF t(1)] appender_moves reader_moves t(2) by (cases t) blast+
  qed
qed

lemma store_run_step:
  assumes "store_run d n x" "interleave store_step x y"
  shows "store_run d n y"
  using assms(2,1)
proof cases
  case (Step a ts c c' t')
  have ok: "system_ok (\<lambda>c. vs_inv (ss_store c)) own_row rows_apart x" "vs_dim (ss_store c) = d"
    "ss_locked c \<Longrightarrow> \<exists>t \<in> set ts. holds t"
    "n \<le> vs_count (ss_store c)"
    "\<And>i. (\<exists>t \<in> set ts. published t = Some i) \<longleftrightarrow> n \<le> i \<and> i < vs_count (ss_store c)"
    using assms(1) Step(1) by (auto simp: store_run_def)
  have inv: "vs_inv (ss_store c)" "own_row c (ts ! a)" using ok(1) Step(1,3) by (auto simp: system_ok_def)
  note K = store_step_keeps [OF inv Step(4)]
  have at: "t' \<in> set (ts[a := t'])" using Step(3) by (simp add: set_update_memI)
  have stay: "u \<in> set (ts[a := t'])" if "u \<in> set ts" "u \<noteq> ts ! a" for u
    using that Step(3) by (metis in_set_conv_nth length_list_update nth_list_update_neq)
  have "\<exists>t \<in> set (ts[a := t']). holds t" if l: "ss_locked c'"
  proof (cases "holds t' \<or> holds (ts ! a)")
    case True
    have "holds t'" if h: "holds (ts ! a)"
    proof -
      obtain v pc where t: "ts ! a = Appender v pc" using h by (cases "ts ! a") simp_all
      show ?thesis using h l Step(4) t
        by (cases pc) (auto simp: append_step_def Let_def split: if_splits prod.splits sum.splits)
    qed
    then show ?thesis using at True by blast
  next
    case False
    then have "ss_locked c"
    proof -
      show "ss_locked c"
        using Step(4)
      proof (cases rule: store_step_cases)
        case (1 v pc pc')
        then show ?thesis using False l by (cases pc) (auto simp: append_step_def Let_def split: if_splits)
      qed (use l in simp)
    qed
    then show ?thesis using ok(3) stay False by blast
  qed
  moreover have "\<exists>t \<in> set (ts[a := t']). published t = Some i" if i: "n \<le> i" "i < vs_count (ss_store c')" for i
  proof (cases "published t' = Some i")
    case False
    then have "i < vs_count (ss_store c)" using K(4) i(2) by auto
    then obtain u where u: "u \<in> set ts" "published u = Some i" using ok(5) [of i] i(1) by blast
    then show ?thesis using stay [OF u(1)] K(5) [of i] at by blast
  qed (use at in blast)
  moreover have "n \<le> i \<and> i < vs_count (ss_store c')" if p: "u \<in> set (ts[a := t'])" "published u = Some i" for u i
  proof (cases "\<exists>w \<in> set ts. published w = Some i")
    case True
    then show ?thesis using ok(5) [of i] K(4) by auto
  next
    case False
    have "ts ! a \<in> set ts" using Step(3) by simp
    moreover have "u = t' \<or> u \<in> set ts" using p(1) set_update_subset_insert [of ts a t'] by blast
    ultimately have "published (ts ! a) \<noteq> Some i" "published t' = Some i" using False p(2) by blast+
    then show ?thesis using K(4) ok(4) by auto
  qed
  moreover have "n \<le> vs_count (ss_store c')" using K(4) ok(4) by auto
  moreover have "system_ok (\<lambda>c. vs_inv (ss_store c)) own_row rows_apart y" by (rule store.step_ok [OF ok(1) assms(2)])
  moreover have "vs_dim (ss_store c') = d" using K(1) ok(2) by (simp add: keeps_rows_def)
  ultimately show ?thesis unfolding Step(2) store_run_def fst_conv snd_conv by blast
qed

interpretation appends: lively_system store_step store_ended "store_run d n" "store_rank d" less_than
  for d n :: nat
proof (unfold_locales, goal_cases)
  case (1 c c')
  then show ?case by (rule store_run_step)
next
  case (2 c t)
  then show ?case using store_run_moves by (cases c) simp
next
  case (3 s ts t s' t')
  then show ?case using store_rank_step by (simp add: store_run_def)
qed simp

section \<open>Properties\<close>

definition at_rest :: "vstore \<Rightarrow> shared_store" where
  "at_rest s = \<lparr>ss_store = s, ss_locked = False\<rparr>"

lemma store_run_starts:
  assumes "vs_inv s"
  shows "store_run (vs_dim s) (vs_count s) (at_rest s, map appender_new vs @ map reader_new ids)"
proof -
  let ?ts = "map appender_new vs @ map reader_new ids"
  have new: "own_row (at_rest s) t \<and> \<not> holds t \<and> published t = None" if "t \<in> set ?ts" for t
    using that by (auto simp: appender_new_def reader_new_def)
  then have "rows_apart (?ts ! a) (?ts ! b)" if "a < length ?ts" for a b
    using that nth_mem [of a ?ts] by (simp add: rows_apart_def)
  then show ?thesis using new assms by (fastforce simp: store_run_def system_ok_def at_rest_def)
qed

lemma store_run_keeps:
  assumes "(interleave store_step)\<^sup>*\<^sup>* (c, ts) (c', ts')" "store_run d n (c, ts)"
  shows "store_run d n (c', ts') \<and> keeps_rows (ss_store c) (ss_store c')"
  using assms
proof (induction "(c', ts')" arbitrary: c' ts' rule: rtranclp_induct)
  case base
  then show ?case by simp
next
  case (step x)
  obtain c1 ts1 where x: "x = (c1, ts1)" by fastforce
  have IH: "store_run d n (c1, ts1)" "keeps_rows (ss_store c) (ss_store c1)" using step(3) [OF x step(4)] by blast+
  obtain a t' where a: "a < length ts1" "store_step c1 (ts1 ! a) = Some (c', t')" "ts' = ts1[a := t']"
    using step(2) x by (auto elim: interleaveE)
  have "vs_inv (ss_store c1)" "own_row c1 (ts1 ! a)" using IH(1) a(1) by (auto simp: store_run_def system_ok_def)
  from store_step_keeps(1) [OF this a(2)] have "keeps_rows (ss_store c1) (ss_store c')" by simp
  then show ?case using keeps_rows_trans IH(2) store_run_step [OF IH(1)] step(2) x by blast
qed

text \<open>
  C18: the store's concurrency contract.  However appends and reads interleave, word by word, none
  blocks another for good; a row once visible never changes; a read returns a whole row that an append
  had finished, never a torn one, or the error that its id was past the count; appends return distinct
  ids under which exactly their vectors are found; and when all have returned, the new ids are those
  returned and no other.
\<close>

theorem concurrent_appends_sound:
  assumes "vs_inv s"
  shows "let start = (at_rest s, map appender_new vs @ map reader_new ids); run = (interleave store_step)\<^sup>*\<^sup>* start in
     (\<exists>c ts. run (c, ts) \<and> list_all store_ended ts) \<and>
     \<not> (\<exists>sched. sched 0 = start \<and> (\<forall>n. interleave store_step (sched n) (sched (Suc n)))) \<and>
     (\<forall>c ts. run (c, ts) \<longrightarrow>
        vs_inv (ss_store c) \<and> prefix (vs_vectors s) (vs_vectors (ss_store c)) \<and>
        (\<forall>i xs. Reader i (Was_Read (Inr xs)) \<in> set ts \<longrightarrow> i < length (vs_vectors (ss_store c)) \<and> xs = vs_vectors (ss_store c) ! i) \<and>
        (\<forall>v i. Appender v (Appended (Inr i)) \<in> set ts \<longrightarrow> i < length (vs_vectors (ss_store c)) \<and> v = vs_vectors (ss_store c) ! i) \<and>
        (\<forall>a b i. a < length ts \<and> b < length ts \<and> a \<noteq> b \<and> published (ts ! a) = Some i \<longrightarrow> published (ts ! b) \<noteq> Some i) \<and>
        (list_all store_ended ts \<longrightarrow>
           {i. \<exists>v. Appender v (Appended (Inr i)) \<in> set ts} = {length (vs_vectors s)..<length (vs_vectors (ss_store c))}))"
proof -
  let ?ts = "map appender_new vs @ map reader_new ids"
  have inv: "store_run (vs_dim s) (vs_count s) (at_rest s, ?ts)" by (rule store_run_starts [OF assms])
  show ?thesis
    unfolding Let_def
  proof (intro conjI allI impI)
    show "\<exists>c ts. (interleave store_step)\<^sup>*\<^sup>* (at_rest s, ?ts) (c, ts) \<and> list_all store_ended ts"
      using appends.runs_to_end [OF inv] by (auto simp: list_all_iff)
    show "\<not> (\<exists>sched. sched 0 = (at_rest s, ?ts) \<and> (\<forall>n. interleave store_step (sched n) (sched (Suc n))))"
      using appends.no_infinite_run inv by metis
    fix c ts
    assume run: "(interleave store_step)\<^sup>*\<^sup>* (at_rest s, ?ts) (c, ts)"
    note K = store_run_keeps [OF run inv]
    then have own: "own_row c t" if "t \<in> set ts" for t using that by (auto simp: store_run_def system_ok_def)
    show "vs_inv (ss_store c)" using K by (simp add: store_run_def system_ok_def)
    show "prefix (vs_vectors s) (vs_vectors (ss_store c))" using K keeps_rows_prefix by (simp add: at_rest_def)
    show "i < length (vs_vectors (ss_store c))" "xs = vs_vectors (ss_store c) ! i"
      if "Reader i (Was_Read (Inr xs)) \<in> set ts" for i xs using own [OF that] by simp_all
    show "i < length (vs_vectors (ss_store c))" "v = vs_vectors (ss_store c) ! i"
      if "Appender v (Appended (Inr i)) \<in> set ts" for v i using own [OF that] by simp_all
    show "published (ts ! b) \<noteq> Some i"
      if "a < length ts \<and> b < length ts \<and> a \<noteq> b \<and> published (ts ! a) = Some i" for a b i
    proof -
      have "rows_apart (ts ! a) (ts ! b)" using K that by (simp add: store_run_def system_ok_def)
      then show ?thesis using that by (auto simp: rows_apart_def)
    qed
    assume fin: "list_all store_ended ts"
    have "(\<exists>v. Appender v (Appended (Inr i)) \<in> set ts) \<longleftrightarrow> (\<exists>t \<in> set ts. published t = Some i)" for i
    proof
      assume "\<exists>t \<in> set ts. published t = Some i"
      then obtain t where t: "t \<in> set ts" "published t = Some i" by blast
      then have "store_ended t" using fin by (simp add: list_all_iff)
      then have "\<exists>v. t = Appender v (Appended (Inr i))" using t(2) by (cases t) (auto split: sum.splits)
      then show "\<exists>v. Appender v (Appended (Inr i)) \<in> set ts" using t(1) by blast
    qed force
    then show "{i. \<exists>v. Appender v (Appended (Inr i)) \<in> set ts} = {length (vs_vectors s)..<length (vs_vectors (ss_store c))}"
      using K by (auto simp: store_run_def)
  qed
qed

theorem concurrent_appends_sound_witness:
  "\<exists>c ts. (interleave store_step)\<^sup>*\<^sup>* (at_rest example_store, map appender_new [[f32_one, f32_one], [f32_one]] @ map reader_new [0, 1]) (c, ts) \<and>
     list_all store_ended ts \<and> prefix [[f32_one, f32_zero]] (vs_vectors (ss_store c))"
proof -
  have inv: "vs_inv example_store" "vs_vectors example_store = [[f32_one, f32_zero]]" using example_store_inv by blast+
  note T = concurrent_appends_sound [OF inv(1), of "[[f32_one, f32_one], [f32_one]]" "[0, 1]", unfolded Let_def inv(2)]
  from conjunct1 [OF T] obtain c ts where
    c: "(interleave store_step)\<^sup>*\<^sup>* (at_rest example_store, map appender_new [[f32_one, f32_one], [f32_one]] @ map reader_new [0, 1]) (c, ts)"
      "list_all store_ended ts" by (elim exE conjE) rule
  from conjunct2 [OF conjunct2 [OF T], rule_format, OF c(1)] have "prefix [[f32_one, f32_zero]] (vs_vectors (ss_store c))"
    by (elim conjE)
  with c show ?thesis by (intro exI conjI)
qed

end
