(* ===== verification/Spec2Isabelle.thy ===== *)
theory Spec2Isabelle
  imports Exact Db_Unlogged Sweep Python Db_Sessions Db_Race Db_Batch Db_Create Hnsw_Level SegVec_Conc Store_Conc
begin

text \<open>
  A verification of vektordb, an embedded vector database written in Rust.

  The program.  A directory holds four files: \<^verbatim>\<open>vectors.store\<close>, rows of \<^verbatim>\<open>f32\<close> in a memory-mapped
  file that grows by doubling segments; \<^verbatim>\<open>index.snap\<close>, a snapshot of an HNSW graph; \<^verbatim>\<open>pq.codebook\<close>,
  a product quantizer; and \<^verbatim>\<open>wal\<close>, the log of the inserts since the last checkpoint.  An insert
  appends the row, logs it, links it into the graph and encodes it.  Opening loads the snapshot and
  replays the log on top of what the store had flushed.

  The theories, in the order of the code.
  \<^item> \<open>Prelude\<close>: errors and results (\<^verbatim>\<open>error.rs\<close>), checked arithmetic, little-endian bytes, decimal
    printing.  \<open>Codec\<close>: byte encodings that decode to what was encoded.
  \<^item> \<open>Float32\<close>: IEEE 754 numbers of any format, executable, with rounding to nearest even; the
    single format is the type \<open>f32\<close>.  It has no counterpart under \<^verbatim>\<open>src/\<close>: it is the language's.
  \<^item> \<open>Distance\<close> (\<^verbatim>\<open>distance/\<close>): scalar and AVX2 kernels, lane by lane, and the dispatch.
  \<^item> \<open>Neighbors\<close>, \<open>Exact\<close> (\<^verbatim>\<open>storage/exact.rs\<close>): the order of candidates, the bounded heap, the
    chunked scan under any schedule of the thread pool.
  \<^item> \<open>Segments\<close>: the arithmetic of doubling segments, as a locale interpreted by the store and by the
    segmented array.  \<open>Store\<close> (\<^verbatim>\<open>storage/store.rs\<close>): the mapped file, its geometry and operations.
    \<open>Store_Conc\<close>: appends and reads as threads, a row copied and read word by word.
  \<^item> \<open>Wal\<close> (\<^verbatim>\<open>wal/mod.rs\<close>): frames, append, reset, and the recovery scan.
  \<^item> \<open>SegVec\<close>, \<open>Visited\<close> (\<^verbatim>\<open>hnsw/segvec.rs\<close>, \<^verbatim>\<open>hnsw/scratch.rs\<close>): the node array and the visited set.
    \<open>SegVec_Conc\<close>: the array shared by threads, with its double-checked allocation of segments.
  \<^item> \<open>Hnsw\<close> (\<^verbatim>\<open>hnsw/mod.rs\<close>): the graph's operations; \<open>Hnsw_Search\<close> what searches return,
    \<open>Hnsw_Insert\<close> what inserts preserve.  \<open>Persist\<close> (\<^verbatim>\<open>hnsw/persist.rs\<close>): snapshots.
    \<open>Hnsw_Level\<close>: how a level is computed from a draw, and why it fits.
  \<^item> \<open>Interleaving\<close>: threads over a shared state, and three locales for systems of them: \<open>thread_system\<close>
    (an invariant every step keeps), \<open>lively_system\<close> (steps that lead to an end) and \<open>ending_system\<close>
    (both, without waiting).  They are interpreted by the store, the array, the index and the callers
    of a database.
  \<^item> \<open>Hnsw_Conc\<close>: inserts and searches of \<^verbatim>\<open>hnsw/mod.rs\<close> cut at their accesses to shared memory;
    \<open>Hnsw_Conc_Inv\<close> what every interleaving keeps; \<open>Hnsw_Alone\<close>: a thread alone is the operation;
    \<open>Hnsw_Threads\<close>: every schedule ends, with a closed graph; \<open>Hnsw_Race\<close>: how four inserts overfill a
    list.
  \<^item> \<open>Pq\<close> (\<^verbatim>\<open>pq/mod.rs\<close> and the codebook file of \<^verbatim>\<open>db.rs\<close>): the quantizer.  \<open>Float64\<close>: doubles,
    conversions, and how large single-precision results get.  \<open>Pq_Train\<close>: k-means training;
    \<open>Pq_Train_Spec\<close>: when it returns, and when it panics.
  \<^item> \<open>Db\<close> (\<^verbatim>\<open>db.rs\<close>): the database's operations over all of these.  \<open>Db_Inv\<close>: the invariant they
    keep, and what inserts and searches return.  \<open>Db_Train\<close>: \<^verbatim>\<open>train_pq\<close>, and when inserts succeed.
    \<open>Db_Recovery\<close>: what the files a kill leaves determine, through every operation and reopening.
    \<open>Db_Run\<close>: whole sessions.  \<open>Db_Unlogged\<close>: sessions without a log, and vectors with a NaN.
    \<open>Db_Room\<close>: what must be granted for inserts not to fail.  \<open>Db_Create\<close>: what an interrupted
    creation leaves.
  \<^item> \<open>Db_Conc\<close>: callers of one database, with the maintenance lock; \<open>Db_Conc_Inv\<close> what they keep;
    \<open>Db_Alone\<close>: a caller alone is the operation of \<open>Db\<close>; \<open>Db_Live\<close>: progress and durability;
    \<open>Db_Sessions\<close>: the properties of whole sessions of callers; \<open>Db_Batch\<close>: the rows of a batch linked
    by the thread pool; \<open>Db_Race\<close>: what the lock does not cover.
  \<^item> \<open>Cli\<close> (\<^verbatim>\<open>vektordb-cli/src/main.rs\<close>): the command line, ingest and verify.  \<open>Python\<close>
    (\<^verbatim>\<open>vektordb-py/src/lib.rs\<close>): the class Python sees.  \<open>Sweep\<close> (\<^verbatim>\<open>examples/import_sweep.rs\<close>): the
    import sweep, from its flags to its exit code.

  What is shown.  Each component keeps its invariant and refines an abstract one: the store a list of
  vectors, the log a list of records, the node array an array, the visited set a set.  Kernels have the
  properties a distance needs as far as IEEE arithmetic gives them; searches return what a traversal of
  the layer can reach, scored exactly; inserts keep degrees, layers and the entry point.  Over these the
  database: \<open>db_inv\<close> ties the store, the graph, the codes, the log, the snapshot and the codebook to the
  one list of vectors that an opening would bring back, every operation keeps it however its device
  calls end, and an opening restores it.  So no acknowledged insert is lost, nothing appears that was
  not inserted, what the ingest command acknowledged the verify command finds, and the import sweep
  finds every record at every batch size.

  Shared, the same components are threads.  Reads of the store see whole rows that never change, and
  appends act in some order; the node array ends as the sequential writes leave it; the graph stays
  closed and every schedule of inserts and searches comes to its end; callers of the database never
  block each other for good, inserts act as appends in some order, the codes cover the store whenever no
  insert is under way, and a kill at any moment loses nothing that had returned.  A thread that runs
  alone computes the sequential operation.  Where the code promises more than it keeps, a theorem shows
  the run: an overfilled list and the snapshot that cannot be loaded again, \<^verbatim>\<open>search_pq\<close> beside an insert,
  a torn checkpoint without a log, a creation cut short.

  Conventions.  A panic, or a read that \<^verbatim>\<open>unsafe\<close> code may not make, is \<open>None\<close>; an error value is
  \<open>Inl\<close>.  Counters of 64 bits are \<open>nat\<close> with the checks the code makes written out; packed words,
  stamps and bytes keep their width.  What is not this code is a parameter: the checksum, the level
  drawn for a node, CPU detection, the sizes the file system grants, and how each write, sync and
  rename ends.

  Loops end by proof: the search loop by the number of unvisited link targets, the greedy descent by
  the strictly falling distance, the recovery scan by the bytes left, the mapping loop by the
  segments left.  Threads have a rank that every step lowers.  No definition carries fuel.

  Not modelled.  Memory orders: threads interleave, so a load sees the last store; the acquire and
  release annotations are taken to give that, and epoch reclamation, which decides when a replaced
  list may be freed, has no counterpart.  Of the database's calls, inserts, trainings and searches run
  interleaved; a checkpoint and the first phase of a batch hold the maintenance lock and the log, and
  are steps; \<^verbatim>\<open>search_pq\<close> is one step beside a thread.  The block under the log's lock is one step too, so
  a row that goes in and is taken back when its record fails is not seen in between.  Power loss: a
  kill keeps what was written to files and mappings; the order in which a power cut drops dirty pages
  is not a state here.  Memory: allocation succeeds.  The sequence of random levels and draws, the
  checksum's strength, the text of error displays, the sweep's times and its readings of \<^verbatim>\<open>/proc\<close>, numpy
  and the interpreter are outside.  The crash harness, the unit tests and the benches exercise or
  measure the code and are not part of it.
\<close>

end
